(* ===== verification/Lu_Prelude.thy ===== *)
theory Lu_Prelude
  imports Main "HOL-Library.Word" "HOL-Library.Monad_Syntax"
begin

text \<open>
  What every component shares: the machine types, memory as byte lists with checked
  access, the network byte order, the 32-bit arithmetic of \<open>unsigned int\<close>, and substring
  search as \<open>std::string_view::find\<close> does it.

  Undefined behaviour is a value: an access outside its object makes the operation
  return \<open>None\<close>, so that memory safety of a piece of code is a theorem that it returns
  \<open>Some\<close>.
\<close>

unbundle bit_operations_syntax

type_synonym byte = "8 word"
type_synonym u32 = "32 word"

named_theorems mem_simps \<open>checked reads and writes that are in range\<close>
named_theorems u32_simps \<open>32-bit arithmetic that does not wrap\<close>

section \<open>Memory\<close>

definition slice_of :: "nat \<Rightarrow> nat \<Rightarrow> 'a list \<Rightarrow> 'a list" where
  "slice_of off n xs = take n (drop off xs)"

definition mem_read :: "'a list \<Rightarrow> nat \<Rightarrow> nat \<Rightarrow> 'a list option" where
  "mem_read xs off n = (if off + n \<le> length xs then Some (slice_of off n xs) else None)"

definition overwrite :: "'a list \<Rightarrow> nat \<Rightarrow> 'a list \<Rightarrow> 'a list" where
  "overwrite xs off ys = take off xs @ ys @ drop (off + length ys) xs"

definition mem_write :: "'a list \<Rightarrow> nat \<Rightarrow> 'a list \<Rightarrow> 'a list option" where
  "mem_write xs off ys =
     (if off + length ys \<le> length xs then Some (overwrite xs off ys) else None)"

lemma length_slice_of [simp]: "length (slice_of off n xs) = min n (length xs - off)"
  by (simp add: slice_of_def min.commute)

lemma slice_of_0 [simp]: "slice_of off 0 xs = []"
  by (simp add: slice_of_def)

lemma slice_of_append_mid: "length p = off \<Longrightarrow> length m = n \<Longrightarrow> slice_of off n (p @ m @ q) = m"
  by (simp add: slice_of_def)

lemma slice_of_append_left:
  "off + n \<le> length xs \<Longrightarrow> slice_of off n (xs @ ys) = slice_of off n xs"
  by (simp add: slice_of_def)

lemma slice_of_drop: "slice_of off n (drop k xs) = slice_of (k + off) n xs"
  by (simp add: slice_of_def add.commute)

lemma length_overwrite [simp]:
  "off + length ys \<le> length xs \<Longrightarrow> length (overwrite xs off ys) = length xs"
  by (simp add: overwrite_def)

lemma drop_overwrite:
  "off + length ys \<le> k \<Longrightarrow> k \<le> length xs \<Longrightarrow> drop k (overwrite xs off ys) = drop k xs"
  by (simp add: overwrite_def)

lemma slice_of_overwrite:
  "off + length ys \<le> length xs \<Longrightarrow> slice_of off (length ys) (overwrite xs off ys) = ys"
  by (simp add: overwrite_def slice_of_def)

lemma take_overwrite:
  "off \<le> length xs \<Longrightarrow> take off (overwrite xs off ys) = take off xs"
  by (simp add: overwrite_def)

lemma overwrite_append_left:
  "off + length ys \<le> length xs \<Longrightarrow> overwrite (xs @ zs) off ys = overwrite xs off ys @ zs"
  by (simp add: overwrite_def)

lemma overwrite_drop:
  "k \<le> off \<Longrightarrow> off \<le> length xs \<Longrightarrow> overwrite (drop k xs) (off - k) ys = drop k (overwrite xs off ys)"
  by (simp add: overwrite_def drop_take min_absorb1)

lemma mem_write_Some_iff [mem_simps]:
  "mem_write xs off ys = Some zs \<longleftrightarrow> off + length ys \<le> length xs \<and> zs = overwrite xs off ys"
  by (auto simp: mem_write_def)

lemma mem_read_Some_iff [mem_simps]:
  "mem_read xs off n = Some zs \<longleftrightarrow> off + n \<le> length xs \<and> zs = slice_of off n xs"
  by (auto simp: mem_read_def)

lemma mem_write_None_iff [mem_simps]: "mem_write xs off ys = None \<longleftrightarrow> length xs < off + length ys"
  by (auto simp: mem_write_def)

lemma mem_read_None_iff [mem_simps]: "mem_read xs off n = None \<longleftrightarrow> length xs < off + n"
  by (auto simp: mem_read_def)

section \<open>Network byte order\<close>

text \<open>
  \<open>ntohs\<close>, \<open>ntohl\<close> and \<open>ntohll\<close> applied to bytes copied from the wire read them with the
  most significant byte first, whatever the host's order.
\<close>

definition be_nat :: "byte list \<Rightarrow> nat" where
  "be_nat bs = foldl (\<lambda>a b. a * 256 + unat b) 0 bs"

primrec be_bytes :: "nat \<Rightarrow> nat \<Rightarrow> byte list" where
  "be_bytes 0 v = []"
| "be_bytes (Suc n) v = be_bytes n (v div 256) @ [word_of_nat v]"

lemma length_be_bytes [simp]: "length (be_bytes n v) = n"
  by (induction n arbitrary: v) auto

lemma unat_byte_of_nat: "unat (word_of_nat v :: byte) = v mod 256"
  by (simp add: unsigned_of_nat take_bit_eq_mod)

lemma be_nat_be_bytes: "be_nat (be_bytes n v) = v mod 256 ^ n"
proof (induction n arbitrary: v)
  case 0
  then show ?case by (simp add: be_nat_def)
next
  case (Suc n)
  have "be_nat (be_bytes (Suc n) v) = be_nat (be_bytes n (v div 256)) * 256 + v mod 256"
    by (simp add: be_nat_def unat_byte_of_nat)
  also have "\<dots> = v mod (256 * 256 ^ n)"
    by (simp add: Suc.IH mod_mult2_eq)
  finally show ?case by simp
qed

lemma be_nat_snoc: "be_nat (bs @ [b]) = be_nat bs * 256 + unat b"
  by (simp add: be_nat_def)

lemma be_nat_bound: "be_nat bs < 256 ^ length bs"
proof (induction bs rule: rev_induct)
  case Nil
  then show ?case by (simp add: be_nat_def)
next
  case (snoc b bs)
  have "unat b < 256" using unsigned_less [of b] by simp
  with snoc show ?case by (simp add: be_nat_snoc)
qed

text \<open>Structures copied to and from memory have the host's order, least significant byte first.\<close>

definition le_nat :: "byte list \<Rightarrow> nat" where
  "le_nat bs = be_nat (rev bs)"

definition le_bytes :: "nat \<Rightarrow> nat \<Rightarrow> byte list" where
  "le_bytes n v = rev (be_bytes n v)"

lemma length_le_bytes [simp]: "length (le_bytes n v) = n"
  by (simp add: le_bytes_def)

lemma le_nat_le_bytes: "le_nat (le_bytes n v) = v mod 256 ^ n"
  by (simp add: le_nat_def le_bytes_def be_nat_be_bytes)

lemma le_nat_bound: "le_nat bs < 256 ^ length bs"
  using be_nat_bound [of "rev bs"] by (simp add: le_nat_def)

section \<open>Arithmetic of unsigned int\<close>

definition u32_add :: "nat \<Rightarrow> nat \<Rightarrow> nat" where
  "u32_add a b = (a + b) mod 2 ^ 32"

definition u32_sub :: "nat \<Rightarrow> nat \<Rightarrow> nat" where
  "u32_sub a b = (a + 2 ^ 32 - b) mod 2 ^ 32"

lemma u32_add_small [u32_simps]: "a + b < 2 ^ 32 \<Longrightarrow> u32_add a b = a + b"
  by (simp add: u32_add_def)

lemma u32_sub_small [u32_simps]: "b \<le> a \<Longrightarrow> a < 2 ^ 32 \<Longrightarrow> u32_sub a b = a - b"
proof -
  assume "b \<le> a" "a < 2 ^ 32"
  moreover from this have "a + 2 ^ 32 - b = (a - b) + 2 ^ 32" by simp
  ultimately show ?thesis unfolding u32_sub_def by (simp only: mod_add_self2) simp
qed

lemma u32_sub_bound: "u32_sub a b < 2 ^ 32"
  by (simp add: u32_sub_def)

section \<open>Decimal numbers\<close>

text \<open>\<open>std::to_string\<close> of an unsigned integer.\<close>

fun to_string :: "nat \<Rightarrow> string" where
  "to_string n = (if n < 10 then [char_of (48 + n)] else to_string (n div 10) @ [char_of (48 + n mod 10)])"

declare to_string.simps [simp del]

section \<open>Substring search\<close>

text \<open>
  \<open>find_sub pat s pos\<close> is \<open>s.find(pat, pos)\<close>: the least index at or after \<open>pos\<close> where
  \<open>pat\<close> occurs, \<open>None\<close> for \<open>npos\<close>. As in the standard, an empty pattern is found at
  \<open>pos\<close> when \<open>pos\<close> is at most the length, and \<open>pos\<close> beyond the length finds nothing.
\<close>

fun is_prefix_of :: "'a list \<Rightarrow> 'a list \<Rightarrow> bool" where
  "is_prefix_of [] ys = True"
| "is_prefix_of (x # xs) [] = False"
| "is_prefix_of (x # xs) (y # ys) = (x = y \<and> is_prefix_of xs ys)"

fun find_from :: "'a list \<Rightarrow> 'a list \<Rightarrow> nat \<Rightarrow> nat option" where
  "find_from pat [] i = (if pat = [] then Some i else None)"
| "find_from pat (y # ys) i =
     (if is_prefix_of pat (y # ys) then Some i else find_from pat ys (Suc i))"

definition find_sub :: "'a list \<Rightarrow> 'a list \<Rightarrow> nat \<Rightarrow> nat option" where
  "find_sub pat s pos = (if pos > length s then None else find_from pat (drop pos s) pos)"

lemma is_prefix_of_iff: "is_prefix_of xs ys \<longleftrightarrow> (\<exists>zs. ys = xs @ zs)"
  by (induction xs ys rule: is_prefix_of.induct) auto

lemma is_prefix_of_length: "is_prefix_of xs ys \<Longrightarrow> length xs \<le> length ys"
  by (auto simp: is_prefix_of_iff)

lemma find_from_prefix: "is_prefix_of pat s \<Longrightarrow> find_from pat s i = Some i"
  by (cases s; cases pat) auto

lemma find_from_Some:
  "find_from pat s i = Some j \<Longrightarrow>
     i \<le> j \<and> j + length pat \<le> i + length s \<and> is_prefix_of pat (drop (j - i) s)"
proof (induction pat s i rule: find_from.induct)
  case (1 pat i)
  then show ?case by (auto split: if_splits)
next
  case (2 pat y ys i)
  show ?case
  proof (cases "is_prefix_of pat (y # ys)")
    case True
    with 2 is_prefix_of_length [OF True] show ?thesis by auto
  next
    case False
    with 2 have "Suc i \<le> j \<and> j + length pat \<le> Suc i + length ys \<and> is_prefix_of pat (drop (j - Suc i) ys)"
      by simp
    moreover from this have "j - i = Suc (j - Suc i)" by linarith
    ultimately show ?thesis by simp
  qed
qed

lemma find_sub_Some:
  "find_sub pat s pos = Some j \<Longrightarrow> pos \<le> j \<and> j + length pat \<le> length s"
  by (auto simp: find_sub_def split: if_splits dest!: find_from_Some)

lemma find_from_None:
  "find_from pat s i = None \<Longrightarrow> k \<le> length s \<Longrightarrow> \<not> is_prefix_of pat (drop k s)"
proof (induction pat s i arbitrary: k rule: find_from.induct)
  case (1 pat i)
  then show ?case by (cases pat) (auto split: if_splits)
next
  case (2 pat y ys i)
  then show ?case by (cases k) (auto split: if_splits)
qed

lemma find_from_skip:
  "(\<And>k. k < length p \<Longrightarrow> \<not> is_prefix_of pat (drop k (p @ pat @ q))) \<Longrightarrow>
     find_from pat (p @ pat @ q) i = Some (i + length p)"
proof (induction p arbitrary: i)
  case Nil
  show ?case by (simp add: find_from_prefix is_prefix_of_iff)
next
  case (Cons a p)
  have "\<not> is_prefix_of pat ((a # p) @ pat @ q)"
    using Cons.prems [of 0] by simp
  moreover have "find_from pat (p @ pat @ q) (Suc i) = Some (Suc i + length p)"
  proof (rule Cons.IH)
    fix k assume "k < length p"
    then show "\<not> is_prefix_of pat (drop k (p @ pat @ q))"
      using Cons.prems [of "Suc k"] by simp
  qed
  ultimately show ?case by simp
qed

end
