(* ===== verification/Lu_Data_Wrap.thy ===== *)
theory Lu_Data_Wrap
  imports Lu_Prelude
begin

text \<open>
  \<open>lu::crypto::DataWrap\<close> (\<open>src/crypto/DataWrap.cpp\<close>): a heap buffer of fixed capacity
  with an append cursor. \<open>size_t\<close> is 64 bits wide, and the capacity test of \<open>append\<close> adds
  in that width.
\<close>

record data_wrap =
  dw_data :: "byte list"
  dw_length :: nat
  dw_offset :: nat

definition DataWrap :: "nat \<Rightarrow> data_wrap" where
  "DataWrap n = \<lparr>dw_data = replicate n 0, dw_length = n, dw_offset = 0\<rparr>"

text \<open>
  The outer \<open>None\<close> is an out-of-bounds \<open>memcpy\<close>; the boolean is what the code returns.
\<close>

definition dw_append :: "data_wrap \<Rightarrow> byte list \<Rightarrow> (bool \<times> data_wrap) option" where
  "dw_append d bs =
     (if (dw_offset d + length bs) mod 2 ^ 64 > dw_length d then Some (False, d)
      else (case mem_write (dw_data d) (dw_offset d) bs of
              None \<Rightarrow> None
            | Some m \<Rightarrow> Some (True, d\<lparr>dw_data := m, dw_offset := (dw_offset d + length bs) mod 2 ^ 64\<rparr>)))"

definition dw_clear :: "data_wrap \<Rightarrow> data_wrap" where
  "dw_clear d = d\<lparr>dw_offset := 0\<rparr>"

text \<open>What has been appended so far: \<open>getDataLength()\<close> bytes of \<open>getData()\<close>.\<close>

definition dw_contents :: "data_wrap \<Rightarrow> byte list" where
  "dw_contents d = take (dw_offset d) (dw_data d)"

text \<open>
  The move constructor takes the buffer and the capacity; the cursor of the new object
  keeps its default initialiser 0. Move assignment swaps buffer and capacity and leaves
  both cursors where they were. The pair is (new or assigned object, source object).
\<close>

definition dw_move :: "data_wrap \<Rightarrow> data_wrap" where
  "dw_move other = \<lparr>dw_data = dw_data other, dw_length = dw_length other, dw_offset = 0\<rparr>"

definition dw_move_assign :: "data_wrap \<Rightarrow> data_wrap \<Rightarrow> data_wrap \<times> data_wrap" where
  "dw_move_assign this other =
     (this\<lparr>dw_data := dw_data other, dw_length := dw_length other\<rparr>,
      other\<lparr>dw_data := dw_data this, dw_length := dw_length this\<rparr>)"

definition dw_wf :: "data_wrap \<Rightarrow> bool" where
  "dw_wf d \<longleftrightarrow> length (dw_data d) = dw_length d \<and> dw_offset d \<le> dw_length d \<and> dw_length d < 2 ^ 63"

lemma DataWrap_wf: "n < 2 ^ 63 \<Longrightarrow> dw_wf (DataWrap n)"
  by (simp add: dw_wf_def DataWrap_def)

lemma DataWrap_contents [simp]: "dw_contents (DataWrap n) = []"
  by (simp add: dw_contents_def DataWrap_def)

lemma dw_clear_wf: "dw_wf d \<Longrightarrow> dw_wf (dw_clear d)"
  by (simp add: dw_wf_def dw_clear_def)

lemma dw_clear_contents [simp]: "dw_contents (dw_clear d) = []"
  by (simp add: dw_contents_def dw_clear_def)

text \<open>An append of any object that fits the address space is in bounds, and appends or refuses.\<close>

lemma dw_append_fits:
  assumes "dw_wf d" "dw_offset d + length bs \<le> dw_length d"
  shows "\<exists>d'. dw_append d bs = Some (True, d') \<and> dw_wf d' \<and>
           dw_contents d' = dw_contents d @ bs \<and> dw_length d' = dw_length d"
proof -
  have "dw_offset d + length bs < 2 ^ 64" using assms by (simp add: dw_wf_def)
  with assms show ?thesis
    by (simp add: dw_append_def dw_wf_def mem_write_def dw_contents_def overwrite_def)
qed

lemma dw_append_full:
  assumes "dw_wf d" "dw_length d < dw_offset d + length bs" "length bs < 2 ^ 63"
  shows "dw_append d bs = Some (False, d)"
proof -
  have "dw_offset d + length bs < 2 ^ 64" using assms by (simp add: dw_wf_def)
  with assms show ?thesis by (simp add: dw_append_def)
qed

text \<open>A buffer of capacity \<open>n\<close> that holds the bytes \<open>c\<close>.\<close>

definition dw_holds :: "nat \<Rightarrow> byte list \<Rightarrow> data_wrap \<Rightarrow> bool" where
  "dw_holds n c d \<longleftrightarrow> dw_wf d \<and> dw_length d = n \<and> dw_contents d = c"

lemma dw_holds_new: "n < 2 ^ 63 \<Longrightarrow> dw_holds n [] (DataWrap n)"
  by (simp add: dw_holds_def DataWrap_wf) (simp add: DataWrap_def)

lemma dw_holds_append:
  assumes "dw_holds n c d" "length c + length bs \<le> n"
  shows "\<exists>d'. dw_append d bs = Some (True, d') \<and> dw_holds n (c @ bs) d'"
proof -
  from assms(1) have "length c = dw_offset d"
    by (auto simp: dw_holds_def dw_wf_def dw_contents_def)
  with assms dw_append_fits [of d bs] show ?thesis by (auto simp: dw_holds_def)
qed

text \<open>
  Appending to a \<open>DataWrap\<close> never leaves its buffer: an append that fits extends the
  contents by exactly the appended bytes, and one that does not is refused and changes
  nothing.
\<close>

theorem data_wrap_append:
  assumes "dw_wf d" and "length bs < 2 ^ 63"
  shows "\<exists>ok d'. dw_append d bs = Some (ok, d') \<and> dw_wf d' \<and>
           (ok \<longleftrightarrow> dw_offset d + length bs \<le> dw_length d) \<and>
           dw_contents d' = (if ok then dw_contents d @ bs else dw_contents d)"
proof (cases "dw_offset d + length bs \<le> dw_length d")
  case True
  from dw_append_fits [OF assms(1) True] True show ?thesis by auto
next
  case False
  then have "dw_append d bs = Some (False, d)"
    using dw_append_full assms by simp
  with False assms(1) have "dw_append d bs = Some (False, d) \<and> dw_wf d \<and>
      (False \<longleftrightarrow> dw_offset d + length bs \<le> dw_length d) \<and>
      dw_contents d = (if False then dw_contents d @ bs else dw_contents d)"
    by simp
  then show ?thesis by blast
qed

lemma data_wrap_append_witness:
  "\<exists>ok d'. dw_append (DataWrap 4) [1, 2] = Some (ok, d') \<and> ok \<and> dw_contents d' = [1, 2]"
  using data_wrap_append [of "DataWrap 4" "[1, 2]"] DataWrap_wf [of 4] by (auto simp: DataWrap_def dw_contents_def)

end
