(* ===== verification/Lu_Frame.thy ===== *)
theory Lu_Frame
  imports Lu_Data_Wrap
begin

text \<open>
  The WebSocket frame codec: \<open>Frame\<close> of \<open>include/platform/socket/websocket/Frame.h\<close> and
  \<open>src/platform/socket/websocket/Frame.cpp\<close>. This theory holds the frame's state, the
  four reading stages, the loop \<open>readFrame\<close> over them, the masking and the header that
  the sender writes, with the facts about each; \<open>Lu_Frame_Stream\<close> holds the message loop.
\<close>

section \<open>Data\<close>

datatype processing_state =
  ReadHeader | ReadPayloadLength | ReadMask | ReadPayload | WaitForData | Done | Error

datatype opcode =
  Continue | Text | Binary | Reserved3 | Reserved4 | Reserved5 | Reserved6 | Reserved7
| Close | Ping | Pong | ReservedB | ReservedC | ReservedD | ReservedE | ReservedF

definition opcode_list :: "opcode list" where
  "opcode_list =
     [Continue, Text, Binary, Reserved3, Reserved4, Reserved5, Reserved6, Reserved7,
      Close, Ping, Pong, ReservedB, ReservedC, ReservedD, ReservedE, ReservedF]"

fun opcode_val :: "opcode \<Rightarrow> nat" where
  "opcode_val Continue = 0" | "opcode_val Text = 1" | "opcode_val Binary = 2"
| "opcode_val Reserved3 = 3" | "opcode_val Reserved4 = 4" | "opcode_val Reserved5 = 5"
| "opcode_val Reserved6 = 6" | "opcode_val Reserved7 = 7" | "opcode_val Close = 8"
| "opcode_val Ping = 9" | "opcode_val Pong = 10" | "opcode_val ReservedB = 11"
| "opcode_val ReservedC = 12" | "opcode_val ReservedD = 13" | "opcode_val ReservedE = 14"
| "opcode_val ReservedF = 15"

text \<open>The cast \<open>static_cast<OpCode>(b & 0x0F)\<close>.\<close>

definition opcode_of :: "byte \<Rightarrow> opcode" where
  "opcode_of b = opcode_list ! unat (b AND 0x0F)"

abbreviation "CloseCodeNormal \<equiv> (1000::nat)"
abbreviation "CloseCodeProtocolError \<equiv> (1002::nat)"
abbreviation "CloseCodeReserved1004 \<equiv> (1004::nat)"
abbreviation "CloseCodeMissingStatusCode \<equiv> (1005::nat)"
abbreviation "CloseCodeAbnormalDisconnection \<equiv> (1006::nat)"
abbreviation "CloseCodeTooMuchData \<equiv> (1009::nat)"

text \<open>
  \<open>SocketData\<close>: \<open>sd_data\<close> is the memory from the pointer \<open>data\<close> to the end of the socket's
  buffer, \<open>sd_length\<close> how much of it holds received bytes.
\<close>

record socket_data =
  sd_data :: "byte list"
  sd_length :: nat
  sd_readOffset :: nat

definition getDataLeftToRead :: "socket_data \<Rightarrow> nat" where
  "getDataLeftToRead sd = u32_sub (sd_length sd) (sd_readOffset sd)"

record frame =
  m_maxAllowedMessageSize :: nat
  m_processingState :: processing_state
  m_isFinalFrame :: bool
  m_rsv1 :: bool
  m_rsv2 :: bool
  m_rsv3 :: bool
  m_isValid :: bool
  m_mask :: u32
  m_length :: nat
  m_opCode :: opcode
  m_closeCode :: nat
  m_closeReason :: string
  m_isFragmented :: bool
  m_message :: data_wrap

definition Frame :: "nat \<Rightarrow> frame" where
  "Frame maxAllowed = \<lparr>
     m_maxAllowedMessageSize = maxAllowed, m_processingState = ReadHeader,
     m_isFinalFrame = True, m_rsv1 = False, m_rsv2 = False, m_rsv3 = False,
     m_isValid = False, m_mask = 0, m_length = 0, m_opCode = ReservedC,
     m_closeCode = CloseCodeNormal, m_closeReason = [], m_isFragmented = False,
     m_message = DataWrap maxAllowed\<rparr>"

section \<open>Predicates and reset\<close>

definition isOpCodeReserved :: "opcode \<Rightarrow> bool" where
  "isOpCodeReserved code \<longleftrightarrow>
     (opcode_val code > opcode_val Binary \<and> opcode_val code < opcode_val Close) \<or>
     opcode_val code > opcode_val Pong"

definition isControlFrame :: "frame \<Rightarrow> bool" where
  "isControlFrame fr \<longleftrightarrow> (opcode_val (m_opCode fr) AND 0x08) = 0x08"

definition isDataFrame :: "frame \<Rightarrow> bool" where
  "isDataFrame fr \<longleftrightarrow> \<not> isControlFrame fr"

definition isContinuationFrame :: "frame \<Rightarrow> bool" where
  "isContinuationFrame fr \<longleftrightarrow> isDataFrame fr \<and> m_opCode fr = Continue"

definition hasMask :: "frame \<Rightarrow> bool" where
  "hasMask fr \<longleftrightarrow> m_mask fr \<noteq> 0"

definition isCloseCodeValid :: "int \<Rightarrow> bool" where
  "isCloseCodeValid closeCode \<longleftrightarrow>
     closeCode > 999 \<and> closeCode < 5000 \<and>
     closeCode \<noteq> int CloseCodeReserved1004 \<and>
     closeCode \<noteq> int CloseCodeMissingStatusCode \<and>
     closeCode \<noteq> int CloseCodeAbnormalDisconnection \<and>
     (closeCode \<ge> 3000 \<or> closeCode < 1012)"

definition frame_reset :: "frame \<Rightarrow> frame" where
  "frame_reset fr = fr\<lparr>
     m_closeCode := CloseCodeNormal, m_closeReason := [], m_isFinalFrame := True,
     m_mask := 0, m_rsv1 := False, m_rsv2 := False, m_rsv3 := False,
     m_opCode := ReservedC, m_isFragmented := False, m_length := 0,
     m_isValid := False, m_processingState := ReadHeader\<rparr>"

definition setError :: "nat \<Rightarrow> string \<Rightarrow> frame \<Rightarrow> frame" where
  "setError code closeReason fr =
     (frame_reset fr)\<lparr>m_closeCode := code, m_closeReason := closeReason, m_isValid := False\<rparr>"

definition checkValidity :: "frame \<Rightarrow> bool \<times> frame" where
  "checkValidity fr =
     (let fr' =
        (if m_rsv1 fr \<or> m_rsv2 fr \<or> m_rsv3 fr
         then setError CloseCodeProtocolError ''Rsv field is non-zero'' fr
         else if isOpCodeReserved (m_opCode fr)
         then setError CloseCodeProtocolError ''Used reserved opcode'' fr
         else if isControlFrame fr then
           (if m_length fr > 125
            then setError CloseCodeProtocolError ''Control frame is larger than 125 bytes'' fr
            else if \<not> m_isFinalFrame fr
            then setError CloseCodeProtocolError ''Control frames cannot be fragmented'' fr
            else fr\<lparr>m_isValid := True\<rparr>)
         else fr\<lparr>m_isValid := True\<rparr>)
      in (m_isValid fr', fr'))"

section \<open>The reading stages\<close>

text \<open>
  Each stage returns the next processing state with the new socket data and frame;
  the outer \<open>None\<close> is a read or write outside the socket's buffer.
\<close>

type_synonym stage_result = "(processing_state \<times> socket_data \<times> frame) option"

definition advance :: "nat \<Rightarrow> socket_data \<Rightarrow> socket_data" where
  "advance n sd = sd\<lparr>sd_readOffset := u32_add (sd_readOffset sd) n\<rparr>"

definition maskOrPayload :: "frame \<Rightarrow> processing_state" where
  "maskOrPayload fr = (if hasMask fr then ReadMask else ReadPayload)"

text \<open>What a stage does with the bytes it has copied, once enough of them have arrived.\<close>

definition decodeHeader :: "byte list \<Rightarrow> frame \<Rightarrow> processing_state \<times> frame" where
  "decodeHeader bs fr =
     (let b0 = bs ! 0; b1 = bs ! 1;
          fr1 = fr\<lparr>
            m_isFinalFrame := (b0 AND 0x80) \<noteq> 0,
            m_rsv1 := (b0 AND 0x40) \<noteq> 0,
            m_rsv2 := (b0 AND 0x20) \<noteq> 0,
            m_rsv3 := (b0 AND 0x10) \<noteq> 0,
            m_opCode := opcode_of b0,
            m_mask := ucast (b1 AND 0x80),
            m_length := unat (b1 AND 0x7F)\<rparr>;
          (valid, fr2) = checkValidity fr1
      in (if \<not> valid then Done
          else if m_length fr2 = 126 \<or> m_length fr2 = 127 then ReadPayloadLength
          else maskOrPayload fr2, fr2))"

definition decodeLength16 :: "byte list \<Rightarrow> frame \<Rightarrow> processing_state \<times> frame" where
  "decodeLength16 bs fr =
     (let fr1 = fr\<lparr>m_length := be_nat bs\<rparr>
      in if m_length fr1 < 126
         then (Done, setError CloseCodeProtocolError
                 ''Lengths smaller than 126 must be expressed as one byte.'' fr1)
         else (maskOrPayload fr1, fr1))"

definition decodeLength64 :: "byte list \<Rightarrow> frame \<Rightarrow> processing_state \<times> frame" where
  "decodeLength64 bs fr =
     (let len = be_nat bs; fr1 = fr\<lparr>m_length := len mod 2 ^ 32\<rparr>
      in if len > 2 ^ 32 - 1 \<or> (m_length fr1 AND 0x8000) \<noteq> 0
         then (Done, setError CloseCodeProtocolError
                 ''Highest bit of payload length is not 0.'' fr1)
         else if m_length fr1 \<le> 0xFFFF
         then (Done, setError CloseCodeProtocolError
                 ''Lengths smaller than 65536 (2^16) must be expressed as 2 bytes.'' fr1)
         else (maskOrPayload fr1, fr1))"

definition decodeMask :: "byte list \<Rightarrow> frame \<Rightarrow> processing_state \<times> frame" where
  "decodeMask bs fr = (ReadPayload, fr\<lparr>m_mask := word_of_nat (be_nat bs)\<rparr>)"

text \<open>Copy \<open>n\<close> bytes, advance the read offset past them, decode; or wait for them.\<close>

definition read_stage ::
  "nat \<Rightarrow> (byte list \<Rightarrow> frame \<Rightarrow> processing_state \<times> frame) \<Rightarrow> socket_data \<Rightarrow> frame \<Rightarrow> stage_result" where
  "read_stage n decode sd fr =
     (if getDataLeftToRead sd \<ge> n then do {
        bs \<leftarrow> mem_read (sd_data sd) (sd_readOffset sd) n;
        Some (fst (decode bs fr), advance n sd, snd (decode bs fr))
      }
      else Some (WaitForData, sd, fr))"

definition readFrameHeader :: "socket_data \<Rightarrow> frame \<Rightarrow> stage_result" where
  "readFrameHeader = read_stage 2 decodeHeader"

definition readFramePayloadLength :: "socket_data \<Rightarrow> frame \<Rightarrow> stage_result" where
  "readFramePayloadLength sd fr =
     (if m_length fr = 126 then read_stage 2 decodeLength16 sd fr
      else if m_length fr = 127 then read_stage 8 decodeLength64 sd fr
      else Some (WaitForData, sd, fr))"

definition readFrameMask :: "socket_data \<Rightarrow> frame \<Rightarrow> stage_result" where
  "readFrameMask = read_stage 4 decodeMask"

definition mask_key_bytes :: "u32 \<Rightarrow> byte list" where
  "mask_key_bytes maskingKey =
     [ucast (drop_bit 24 (maskingKey AND 0xFF000000)), ucast (drop_bit 16 (maskingKey AND 0x00FF0000)),
      ucast (drop_bit 8 (maskingKey AND 0x0000FF00)), ucast (maskingKey AND 0x000000FF)]"

text \<open>\<open>mask(payload, size, key)\<close>: the loop counter \<open>i\<close> is the first argument.\<close>

fun mask_from :: "nat \<Rightarrow> u32 \<Rightarrow> byte list \<Rightarrow> byte list" where
  "mask_from i key [] = []"
| "mask_from i key (b # bs) = (b XOR mask_key_bytes key ! (i mod 4)) # mask_from (Suc i) key bs"

abbreviation mask_payload :: "u32 \<Rightarrow> byte list \<Rightarrow> byte list" where
  "mask_payload \<equiv> mask_from 0"

definition readFramePayload :: "socket_data \<Rightarrow> frame \<Rightarrow> stage_result" where
  "readFramePayload sd fr =
     (if m_length fr = 0 then Some (Done, sd, fr)
      else if m_length fr > m_maxAllowedMessageSize fr
      then Some (Done, sd, setError CloseCodeTooMuchData ''Maximum framesize exceeded.'' fr)
      else if getDataLeftToRead sd \<ge> m_length fr then
        (if hasMask fr then do {
           payload \<leftarrow> mem_read (sd_data sd) (sd_readOffset sd) (m_length fr);
           d \<leftarrow> mem_write (sd_data sd) (sd_readOffset sd) (mask_payload (m_mask fr) payload);
           Some (Done, sd\<lparr>sd_data := d\<rparr>, fr)
         }
         else Some (Done, sd, fr))
      else Some (WaitForData, sd, fr))"

section \<open>The loop\<close>

definition readFrame_stage :: "processing_state \<Rightarrow> socket_data \<Rightarrow> frame \<Rightarrow> stage_result" where
  "readFrame_stage st =
     (case st of ReadHeader \<Rightarrow> readFrameHeader
      | ReadPayloadLength \<Rightarrow> readFramePayloadLength
      | ReadMask \<Rightarrow> readFrameMask
      | _ \<Rightarrow> readFramePayload)"

text \<open>
  The \<open>while (true) switch\<close>: the two states the switch does not name fall to
  \<open>default: break\<close> and spin. Not returning is \<open>None\<close>.
\<close>

partial_function (option) readFrame :: "socket_data \<Rightarrow> frame \<Rightarrow> (socket_data \<times> frame) option" where
  "readFrame sd fr =
     (if m_processingState fr = Done then Some (sd, fr)
      else if m_processingState fr = WaitForData \<or> m_processingState fr = Error
      then readFrame sd fr
      else Option.bind (readFrame_stage (m_processingState fr) sd fr) (\<lambda>r.
        if fst r = WaitForData
        then Some (fst (snd r), (snd (snd r))\<lparr>m_processingState := m_processingState fr\<rparr>)
        else readFrame (fst (snd r)) ((snd (snd r))\<lparr>m_processingState := fst r\<rparr>)))"

section \<open>The sender's header\<close>

definition first_byte :: "opcode \<Rightarrow> bool \<Rightarrow> byte" where
  "first_byte opCode lastFrame =
     (word_of_nat (opcode_val opCode) AND 0x0F) OR (if lastFrame then 0x80 else 0)"

definition second_byte :: "u32 \<Rightarrow> nat \<Rightarrow> byte" where
  "second_byte maskingKey n = (if maskingKey \<noteq> 0 then 0x80 else 0) OR word_of_nat n"

definition getFrameHeader :: "opcode \<Rightarrow> nat \<Rightarrow> u32 \<Rightarrow> bool \<Rightarrow> data_wrap option" where
  "getFrameHeader opCode payloadLength maskingKey lastFrame =
     (let header = DataWrap 14 in
      if \<not> payloadLength \<le> 0x7FFFFFFFFFFFFFFF then Some header
      else do {
        (_, header) \<leftarrow> dw_append header [first_byte opCode lastFrame];
        (_, header) \<leftarrow>
          (if payloadLength \<le> 125 then
             dw_append header [second_byte maskingKey payloadLength]
           else if payloadLength \<le> 0xFFFF then do {
             (_, header) \<leftarrow> dw_append header [second_byte maskingKey 126];
             dw_append header (be_bytes 2 payloadLength)
           }
           else do {
             (_, header) \<leftarrow> dw_append header [second_byte maskingKey 127];
             dw_append header (be_bytes 8 payloadLength)
           });
        (if maskingKey \<noteq> 0 then do {
           (_, header) \<leftarrow> dw_append header (be_bytes 4 (unat maskingKey));
           Some header
         }
         else Some header)
      })"

section \<open>The unread bytes\<close>

text \<open>
  The codec only looks at the bytes between the read offset and the received length.
  \<open>unread\<close> is the abstraction to them; on it the stages are functions of a byte list
  (\<open>stage_spec\<close>) and \<open>readFrame\<close> is at most five of them in a row (\<open>run_spec\<close>).
\<close>

definition unread :: "socket_data \<Rightarrow> byte list" where
  "unread sd = slice_of (sd_readOffset sd) (sd_length sd - sd_readOffset sd) (sd_data sd)"

definition sd_wf :: "socket_data \<Rightarrow> bool" where
  "sd_wf sd \<longleftrightarrow>
     sd_readOffset sd \<le> sd_length sd \<and> sd_length sd \<le> length (sd_data sd) \<and> sd_length sd < 2 ^ 32"

lemma length_unread: "sd_wf sd \<Longrightarrow> length (unread sd) = sd_length sd - sd_readOffset sd"
  by (auto simp: sd_wf_def unread_def)

lemma left_unread: "sd_wf sd \<Longrightarrow> getDataLeftToRead sd = length (unread sd)"
  by (auto simp: length_unread) (simp add: sd_wf_def getDataLeftToRead_def u32_simps)

lemma unread_fits:
  "sd_wf sd \<Longrightarrow> n \<le> length (unread sd) \<Longrightarrow>
     sd_readOffset sd + n \<le> length (sd_data sd) \<and> sd_readOffset sd + n \<le> sd_length sd"
  by (auto simp: length_unread) (auto simp: sd_wf_def)

lemma read_unread:
  assumes "sd_wf sd" "n \<le> length (unread sd)"
  shows "mem_read (sd_data sd) (sd_readOffset sd) n = Some (take n (unread sd))"
proof -
  note fits = unread_fits [OF assms]
  then have "n \<le> sd_length sd - sd_readOffset sd" by linarith
  then have "min n (sd_length sd - sd_readOffset sd) = n" by (rule min_absorb1)
  with fits show ?thesis by (simp add: mem_read_def unread_def slice_of_def)
qed

lemma advance_unread:
  "sd_wf sd \<Longrightarrow> n \<le> length (unread sd) \<Longrightarrow>
     sd_wf (advance n sd) \<and> unread (advance n sd) = drop n (unread sd) \<and>
     sd_readOffset (advance n sd) = sd_readOffset sd + n"
  using unread_fits [of sd n]
  by (auto simp: sd_wf_def unread_def advance_def u32_simps slice_of_def drop_take add.commute)

lemma advance_frame [simp]:
  "sd_data (advance n sd) = sd_data sd" "sd_length (advance n sd) = sd_length sd"
  by (simp_all add: advance_def)

lemma write_unread:
  assumes "sd_wf sd" "length bs = n" "n \<le> length (unread sd)"
  shows "\<exists>d. mem_write (sd_data sd) (sd_readOffset sd) bs = Some d \<and> length d = length (sd_data sd) \<and>
           sd_wf (sd\<lparr>sd_data := d\<rparr>) \<and> unread (sd\<lparr>sd_data := d\<rparr>) = bs @ drop n (unread sd)"
proof -
  let ?d = "overwrite (sd_data sd) (sd_readOffset sd) bs"
  have fit: "sd_readOffset sd + length bs \<le> length (sd_data sd)"
    using unread_fits [OF assms(1,3)] assms(2) by simp
  have "take (sd_length sd - sd_readOffset sd) (bs @ drop (sd_readOffset sd + n) (sd_data sd)) =
        bs @ drop n (take (sd_length sd - sd_readOffset sd) (drop (sd_readOffset sd) (sd_data sd)))"
    using assms by (simp add: length_unread drop_take add.commute)
  then have "unread (sd\<lparr>sd_data := ?d\<rparr>) = bs @ drop n (unread sd)"
    using assms fit by (simp add: unread_def overwrite_def slice_of_def)
  then show ?thesis using assms fit by (simp add: mem_write_def sd_wf_def)
qed

definition read_spec ::
  "nat \<Rightarrow> (byte list \<Rightarrow> frame \<Rightarrow> processing_state \<times> frame) \<Rightarrow> byte list \<Rightarrow> frame \<Rightarrow>
     processing_state \<times> byte list \<times> frame" where
  "read_spec n decode r fr =
     (if length r \<ge> n then (fst (decode (take n r) fr), drop n r, snd (decode (take n r) fr))
      else (WaitForData, r, fr))"

definition payload_spec :: "byte list \<Rightarrow> frame \<Rightarrow> processing_state \<times> byte list \<times> frame" where
  "payload_spec r fr =
     (if m_length fr = 0 then (Done, r, fr)
      else if m_length fr > m_maxAllowedMessageSize fr
      then (Done, r, setError CloseCodeTooMuchData ''Maximum framesize exceeded.'' fr)
      else if length r \<ge> m_length fr then
        (Done, (if hasMask fr then mask_payload (m_mask fr) (take (m_length fr) r) @ drop (m_length fr) r
                else r), fr)
      else (WaitForData, r, fr))"

definition stage_spec ::
  "processing_state \<Rightarrow> byte list \<Rightarrow> frame \<Rightarrow> processing_state \<times> byte list \<times> frame" where
  "stage_spec st r fr =
     (case st of
        ReadHeader \<Rightarrow> read_spec 2 decodeHeader r fr
      | ReadPayloadLength \<Rightarrow>
          (if m_length fr = 126 then read_spec 2 decodeLength16 r fr
           else if m_length fr = 127 then read_spec 8 decodeLength64 r fr
           else (WaitForData, r, fr))
      | ReadMask \<Rightarrow> read_spec 4 decodeMask r fr
      | _ \<Rightarrow> payload_spec r fr)"

text \<open>A new socket data that only reads on, or unmasks in place, from the old one.\<close>

definition sd_follows :: "socket_data \<Rightarrow> socket_data \<Rightarrow> bool" where
  "sd_follows sd sd' \<longleftrightarrow>
     sd_length sd' = sd_length sd \<and> length (sd_data sd') = length (sd_data sd) \<and>
     sd_readOffset sd \<le> sd_readOffset sd'"

lemma sd_follows_refl [simp]: "sd_follows sd sd"
  by (simp add: sd_follows_def)

lemma sd_follows_trans: "sd_follows a b \<Longrightarrow> sd_follows b c \<Longrightarrow> sd_follows a c"
  by (simp add: sd_follows_def)

lemma length_mask_from [simp]: "length (mask_from i key bs) = length bs"
  by (induction bs arbitrary: i) auto

lemma read_stage_refines:
  assumes "sd_wf sd"
  shows "\<exists>sd'. read_stage n decode sd fr =
             Some (fst (read_spec n decode (unread sd) fr), sd', snd (snd (read_spec n decode (unread sd) fr))) \<and>
           unread sd' = fst (snd (read_spec n decode (unread sd) fr)) \<and> sd_wf sd' \<and> sd_follows sd sd'"
proof (cases "n \<le> length (unread sd)")
  case True
  with assms show ?thesis
    using advance_unread [OF assms True]
    by (simp add: read_stage_def read_spec_def left_unread read_unread sd_follows_def)
next
  case False
  with assms show ?thesis
    by (simp add: read_stage_def read_spec_def left_unread)
qed

lemma payload_refines:
  assumes "sd_wf sd"
  shows "\<exists>sd'. readFramePayload sd fr =
             Some (fst (payload_spec (unread sd) fr), sd', snd (snd (payload_spec (unread sd) fr))) \<and>
           unread sd' = fst (snd (payload_spec (unread sd) fr)) \<and> sd_wf sd' \<and> sd_follows sd sd'"
proof (cases "0 < m_length fr \<and> m_length fr \<le> m_maxAllowedMessageSize fr \<and>
              m_length fr \<le> length (unread sd) \<and> hasMask fr")
  case True
  then have n: "m_length fr \<le> length (unread sd)" by simp
  obtain d where d: "mem_write (sd_data sd) (sd_readOffset sd)
        (mask_payload (m_mask fr) (take (m_length fr) (unread sd))) = Some d"
      "length d = length (sd_data sd)" "sd_wf (sd\<lparr>sd_data := d\<rparr>)"
      "unread (sd\<lparr>sd_data := d\<rparr>) =
         mask_payload (m_mask fr) (take (m_length fr) (unread sd)) @ drop (m_length fr) (unread sd)"
    using write_unread [OF assms _ n, of "mask_payload (m_mask fr) (take (m_length fr) (unread sd))"] n
    by auto
  with True assms show ?thesis
    by (simp add: readFramePayload_def payload_spec_def left_unread read_unread sd_follows_def)
next
  case False
  with assms show ?thesis
    by (auto simp: readFramePayload_def payload_spec_def left_unread)
qed

lemma stage_refines:
  assumes "sd_wf sd"
  shows "\<exists>sd'. readFrame_stage st sd fr =
             Some (fst (stage_spec st (unread sd) fr), sd', snd (snd (stage_spec st (unread sd) fr))) \<and>
           unread sd' = fst (snd (stage_spec st (unread sd) fr)) \<and> sd_wf sd' \<and> sd_follows sd sd'"
  using read_stage_refines [OF assms, where fr = fr] payload_refines [OF assms, of fr] assms
  by (cases st) (simp_all add: readFrame_stage_def stage_spec_def readFrameHeader_def
      readFramePayloadLength_def readFrameMask_def)

section \<open>readFrame on the unread bytes\<close>

fun stage_rank :: "processing_state \<Rightarrow> nat" where
  "stage_rank ReadHeader = 4" | "stage_rank ReadPayloadLength = 3"
| "stage_rank ReadMask = 2" | "stage_rank ReadPayload = 1" | "stage_rank _ = 0"

definition live_state :: "processing_state \<Rightarrow> bool" where
  "live_state st \<longleftrightarrow> st \<noteq> WaitForData \<and> st \<noteq> Error"

primrec run_spec :: "nat \<Rightarrow> byte list \<Rightarrow> frame \<Rightarrow> byte list \<times> frame" where
  "run_spec 0 r fr = (r, fr)"
| "run_spec (Suc n) r fr =
     (if m_processingState fr = Done then (r, fr)
      else case stage_spec (m_processingState fr) r fr of (st, r', fr') \<Rightarrow>
        if st = WaitForData then (r', fr'\<lparr>m_processingState := m_processingState fr\<rparr>)
        else run_spec n r' (fr'\<lparr>m_processingState := st\<rparr>))"

definition readFrame_spec :: "byte list \<Rightarrow> frame \<Rightarrow> byte list \<times> frame" where
  "readFrame_spec r fr = run_spec 4 r fr"

lemmas decode_defs =
  decodeHeader_def decodeLength16_def decodeLength64_def decodeMask_def maskOrPayload_def

lemmas stage_spec_defs = stage_spec_def read_spec_def payload_spec_def

lemma stage_spec_rank:
  assumes "live_state st" "st \<noteq> Done" "stage_spec st r fr = (st', r', fr')" "st' \<noteq> WaitForData"
  shows "st' \<noteq> Error \<and> stage_rank st' < stage_rank st"
  using assms
  by (cases st)
     (auto simp: live_state_def stage_spec_defs decode_defs Let_def split: if_splits prod.splits)

lemma stage_spec_wait:
  assumes "live_state st" "st \<noteq> Done" "stage_spec st r fr = (WaitForData, r', fr')"
  shows "r' = r \<and> fr' = fr"
  using assms
  by (cases st)
     (auto simp: live_state_def stage_spec_defs decode_defs Let_def split: if_splits prod.splits)

lemma stage_spec_extend:
  assumes "live_state st" "st \<noteq> Done" "stage_spec st r fr = (st', r', fr')" "st' \<noteq> WaitForData"
  shows "stage_spec st (r @ q) fr = (st', r' @ q, fr')"
  using assms
  by (cases st) (auto simp: live_state_def stage_spec_defs split: if_splits)

lemma readFrame_refines_run:
  assumes "sd_wf sd" "live_state (m_processingState fr)" "stage_rank (m_processingState fr) \<le> n"
  shows "\<exists>sd'. readFrame sd fr = Some (sd', snd (run_spec n (unread sd) fr)) \<and>
           unread sd' = fst (run_spec n (unread sd) fr) \<and> sd_wf sd' \<and> sd_follows sd sd'"
  using assms
proof (induction n arbitrary: sd fr)
  case 0
  then have "m_processingState fr = Done"
    by (cases "m_processingState fr") (auto simp: live_state_def)
  with 0 show ?case by (simp add: readFrame.simps)
next
  case (Suc n)
  let ?st = "m_processingState fr"
  show ?case
  proof (cases "?st = Done")
    case True
    with Suc.prems show ?thesis by (simp add: readFrame.simps)
  next
    case False
    obtain st' r' fr' where spec: "stage_spec ?st (unread sd) fr = (st', r', fr')"
      by (cases "stage_spec ?st (unread sd) fr")
    with stage_refines [OF Suc.prems(1), of ?st fr] obtain sd1 where
      sd1: "readFrame_stage ?st sd fr = Some (st', sd1, fr')" "unread sd1 = r'" "sd_wf sd1"
           "sd_follows sd sd1"
      by auto
    show ?thesis
    proof (cases "st' = WaitForData")
      case True
      with False Suc.prems(2) spec sd1 show ?thesis
        by (simp add: readFrame.simps [of sd fr] live_state_def)
    next
      case cont: False
      let ?fr1 = "fr'\<lparr>m_processingState := st'\<rparr>"
      from stage_spec_rank [OF Suc.prems(2) False spec cont] Suc.prems(3) cont
      have "live_state (m_processingState ?fr1)" "stage_rank (m_processingState ?fr1) \<le> n"
        by (auto simp: live_state_def)
      from Suc.IH [OF sd1(3) this] obtain sd2 where
        "readFrame sd1 ?fr1 = Some (sd2, snd (run_spec n (unread sd1) ?fr1))"
        "unread sd2 = fst (run_spec n (unread sd1) ?fr1)" "sd_wf sd2" "sd_follows sd1 sd2"
        by blast
      with False cont Suc.prems(2) spec sd1 show ?thesis
        by (auto simp: readFrame.simps [of sd fr] live_state_def intro: sd_follows_trans)
    qed
  qed
qed

lemma stage_rank_le_4: "stage_rank st \<le> 4"
  by (cases st) auto

lemma readFrame_refines:
  assumes "sd_wf sd" "live_state (m_processingState fr)"
  shows "\<exists>sd'. readFrame sd fr = Some (sd', snd (readFrame_spec (unread sd) fr)) \<and>
           unread sd' = fst (readFrame_spec (unread sd) fr) \<and> sd_wf sd' \<and> sd_follows sd sd'"
  using readFrame_refines_run [OF assms stage_rank_le_4] by (simp add: readFrame_spec_def)

text \<open>The number of rounds does not matter once it covers the stages left.\<close>

lemma run_spec_fuel:
  "live_state (m_processingState fr) \<Longrightarrow> stage_rank (m_processingState fr) \<le> n \<Longrightarrow> n \<le> m \<Longrightarrow>
     run_spec m r fr = run_spec n r fr"
proof (induction n arbitrary: m r fr)
  case 0
  then have "m_processingState fr = Done"
    by (cases "m_processingState fr") (auto simp: live_state_def)
  then show ?case by (cases m) auto
next
  case (Suc n)
  then obtain k where m: "m = Suc k" "n \<le> k" by (cases m) auto
  obtain st' r' fr' where spec: "stage_spec (m_processingState fr) r fr = (st', r', fr')"
    by (cases "stage_spec (m_processingState fr) r fr")
  show ?case
  proof (cases "m_processingState fr = Done \<or> st' = WaitForData")
    case True
    with spec m show ?thesis by auto
  next
    case False
    with stage_spec_rank [OF Suc.prems(1) _ spec] Suc.prems m
    have "run_spec k r' (fr'\<lparr>m_processingState := st'\<rparr>) = run_spec n r' (fr'\<lparr>m_processingState := st'\<rparr>)"
      by (intro Suc.IH) (auto simp: live_state_def)
    with False spec m show ?thesis by simp
  qed
qed

text \<open>
  Segmentation of one frame: reading what has arrived and resuming with more is reading
  it all at once.
\<close>

lemma run_spec_resume:
  assumes "live_state (m_processingState fr)" "stage_rank (m_processingState fr) \<le> n"
    "run_spec n r fr = (r', fr')"
  shows "live_state (m_processingState fr') \<and>
         stage_rank (m_processingState fr') \<le> stage_rank (m_processingState fr) \<and>
         run_spec n (r @ q) fr = run_spec n (r' @ q) fr'"
  using assms
proof (induction n arbitrary: r fr)
  case 0
  then show ?case by simp
next
  case (Suc n)
  obtain st1 r1 fr1 where spec: "stage_spec (m_processingState fr) r fr = (st1, r1, fr1)"
    by (cases "stage_spec (m_processingState fr) r fr")
  let ?fr1 = "fr1\<lparr>m_processingState := st1\<rparr>"
  consider "m_processingState fr = Done" | "m_processingState fr \<noteq> Done" "st1 = WaitForData"
    | "m_processingState fr \<noteq> Done" "st1 \<noteq> WaitForData" by blast
  then show ?case
  proof cases
    case 1
    with Suc.prems show ?thesis by auto
  next
    case 2
    with spec have "stage_spec (m_processingState fr) r fr = (WaitForData, r1, fr1)" by simp
    from stage_spec_wait [OF Suc.prems(1) 2(1) this] have same: "r1 = r" "fr1 = fr" by auto
    with 2 spec Suc.prems(3) have "r' = r" "fr' = fr" by auto
    with Suc.prems(1) show ?thesis by simp
  next
    case 3
    with stage_spec_rank [OF Suc.prems(1) _ spec] Suc.prems(2)
    have ok: "live_state (m_processingState ?fr1)" "stage_rank (m_processingState ?fr1) \<le> n"
      and less: "stage_rank st1 < stage_rank (m_processingState fr)"
      by (auto simp: live_state_def)
    from 3 spec Suc.prems(3) have run: "run_spec n r1 ?fr1 = (r', fr')" by simp
    have here: "run_spec (Suc n) (r @ q) fr = run_spec n (r1 @ q) ?fr1"
      using 3 stage_spec_extend [OF Suc.prems(1) _ spec] by simp
    from Suc.IH [OF ok run] less here
      run_spec_fuel [of fr' n "Suc n" "r' @ q"] ok
    show ?thesis by fastforce
  qed
qed

lemma readFrame_spec_resume:
  assumes "live_state (m_processingState fr)" "readFrame_spec r fr = (r', fr')"
  shows "live_state (m_processingState fr')"
    and "readFrame_spec (r @ q) fr = readFrame_spec (r' @ q) fr'"
  using run_spec_resume [OF assms(1) stage_rank_le_4] assms(2) by (auto simp: readFrame_spec_def)

lemma readFrame_spec_done [simp]:
  "m_processingState fr = Done \<Longrightarrow> readFrame_spec r fr = (r, fr)"
  by (simp add: readFrame_spec_def eval_nat_numeral)

section \<open>What the header holds\<close>

lemma length_byte_bits:
  assumes "n < 128"
  shows "unat ((0x80 OR word_of_nat n :: byte) AND 0x7F) = n"
    "(0x80 OR word_of_nat n :: byte) AND 0x80 = 0x80"
    "unat ((word_of_nat n :: byte) AND 0x7F) = n"
    "(word_of_nat n :: byte) AND 0x80 = 0"
proof -
  have "list_all (\<lambda>n. unat ((0x80 OR word_of_nat n :: byte) AND 0x7F) = n \<and>
      (0x80 OR word_of_nat n :: byte) AND 0x80 = 0x80 \<and>
      unat ((word_of_nat n :: byte) AND 0x7F) = n \<and> (word_of_nat n :: byte) AND 0x80 = 0) [0..<128]"
    by code_simp
  with assms show "unat ((0x80 OR word_of_nat n :: byte) AND 0x7F) = n"
    "(0x80 OR word_of_nat n :: byte) AND 0x80 = 0x80"
    "unat ((word_of_nat n :: byte) AND 0x7F) = n"
    "(word_of_nat n :: byte) AND 0x80 = 0" 
    by (auto simp: list_all_iff)
qed

lemma first_byte_bits:
  "(first_byte op lst AND 0x80 \<noteq> 0) = lst" "first_byte op lst AND 0x40 = 0"
  "first_byte op lst AND 0x20 = 0" "first_byte op lst AND 0x10 = 0"
  "opcode_of (first_byte op lst) = op"
  by (cases op; simp add: first_byte_def opcode_of_def opcode_list_def)+

lemma second_byte_bits:
  assumes "n < 128"
  shows "unat (second_byte key n AND 0x7F) = n"
    "second_byte key n AND 0x80 = (if key \<noteq> 0 then 0x80 else 0)"
  using length_byte_bits [OF assms] by (auto simp: second_byte_def)

definition header_bytes :: "opcode \<Rightarrow> nat \<Rightarrow> u32 \<Rightarrow> bool \<Rightarrow> byte list" where
  "header_bytes opCode len key lst =
     [first_byte opCode lst,
      second_byte key (if len \<le> 125 then len else if len \<le> 0xFFFF then 126 else 127)] @
     (if len \<le> 125 then [] else if len \<le> 0xFFFF then be_bytes 2 len else be_bytes 8 len) @
     (if key \<noteq> 0 then be_bytes 4 (unat key) else [])"


lemma getFrameHeader_contents:
  assumes "len \<le> 0x7FFFFFFFFFFFFFFF"
  shows "\<exists>h. getFrameHeader opCode len key lst = Some h \<and>
           dw_holds 14 (header_bytes opCode len key lst) h"
proof -
  let ?b0 = "first_byte opCode lst"
  let ?n = "if len \<le> 125 then len else if len \<le> 0xFFFF then 126 else 127"
  let ?ext = "if len \<le> 125 then [] else if len \<le> 0xFFFF then be_bytes 2 len else be_bytes 8 len"
  obtain h1 where h1: "dw_append (DataWrap 14) [?b0] = Some (True, h1)" "dw_holds 14 [?b0] h1"
    using dw_holds_append [OF dw_holds_new [of 14], of "[?b0]"] by auto
  obtain h2 where h2: "dw_append h1 [second_byte key ?n] = Some (True, h2)"
      "dw_holds 14 [?b0, second_byte key ?n] h2"
    using dw_holds_append [OF h1(2), of "[second_byte key ?n]"] by auto
  obtain h3 where h3: "dw_append h2 ?ext = Some (True, h3)"
      "dw_holds 14 ([?b0, second_byte key ?n] @ ?ext) h3"
  proof -
    have "length [?b0, second_byte key ?n] + length ?ext \<le> 14" by simp
    from dw_holds_append [OF h2(2) this] show ?thesis using that by blast
  qed
  obtain h4 where h4: "dw_append h3 (be_bytes 4 (unat key)) = Some (True, h4)"
      "dw_holds 14 (([?b0, second_byte key ?n] @ ?ext) @ be_bytes 4 (unat key)) h4"
  proof -
    have "length ([?b0, second_byte key ?n] @ ?ext) + length (be_bytes 4 (unat key)) \<le> 14" by simp
    from dw_holds_append [OF h3(2) this] show ?thesis using that by blast
  qed
  have h3': "len \<le> 125 \<Longrightarrow> dw_holds 14 [?b0, second_byte key len] h2"
    using h2(2) by simp
  consider "len \<le> 125" | "125 < len" "len \<le> 0xFFFF" | "0xFFFF < len" by linarith
  then show ?thesis
  proof cases
    case 1
    obtain h5 where "dw_append h2 (be_bytes 4 (unat key)) = Some (True, h5)"
      "dw_holds 14 ([?b0, second_byte key len] @ be_bytes 4 (unat key)) h5"
      using dw_holds_append [OF h3' [OF 1], of "be_bytes 4 (unat key)"] by auto
    with 1 assms h1 h2 show ?thesis
      by (cases "key = 0") (simp_all add: getFrameHeader_def header_bytes_def Let_def)
  next
    case 2
    with assms h1 h2 h3 h4 show ?thesis
      by (cases "key = 0") (simp_all add: getFrameHeader_def header_bytes_def Let_def)
  next
    case 3
    with assms h1 h2 h3 h4 show ?thesis
      by (cases "key = 0") (simp_all add: getFrameHeader_def header_bytes_def Let_def)
  qed
qed

section \<open>Masking\<close>

lemma mask_from_involution: "mask_from i key (mask_from i key bs) = bs"
  by (induction bs arbitrary: i) (auto simp: xor.assoc)

lemma mask_key_bytes_0: "mask_key_bytes 0 = [0, 0, 0, 0]"
  by (simp add: mask_key_bytes_def)

lemma mask_from_0: "mask_from i 0 bs = bs"
proof (induction bs arbitrary: i)
  case Nil
  then show ?case by simp
next
  case (Cons b bs)
  have "i mod 4 < 4" by simp
  then have "i mod 4 \<in> {0, 1, 2, 3}" by auto
  with Cons show ?case by (auto simp: mask_key_bytes_0)
qed

lemma mask_from_append:
  "mask_from i key (xs @ ys) = mask_from i key xs @ mask_from (i + length xs) key ys"
  by (induction xs arbitrary: i) auto

section \<open>Decoding what the sender wrote\<close>

definition sendable :: "opcode \<Rightarrow> nat \<Rightarrow> bool \<Rightarrow> bool" where
  "sendable opCode len lst \<longleftrightarrow>
     \<not> isOpCodeReserved opCode \<and>
     (opcode_val opCode \<ge> 8 \<longrightarrow> len \<le> 125 \<and> lst) \<and>
     len < 2 ^ 32 \<and> (len > 0xFFFF \<longrightarrow> len AND 0x8000 = 0)"

definition header_frame :: "opcode \<Rightarrow> nat \<Rightarrow> u32 \<Rightarrow> bool \<Rightarrow> frame \<Rightarrow> frame" where
  "header_frame opCode len key lst fr =
     fr\<lparr>m_isFinalFrame := lst, m_rsv1 := False, m_rsv2 := False, m_rsv3 := False,
        m_isValid := True, m_opCode := opCode, m_mask := key, m_length := len\<rparr>"

lemma control_opcode: "(opcode_val op AND 8 = 8) = (opcode_val op \<ge> 8)"
  by (cases op) simp_all

lemma run_spec_step:
  "m_processingState fr \<noteq> Done \<Longrightarrow> stage_spec (m_processingState fr) r fr = (st, r', fr') \<Longrightarrow>
     st \<noteq> WaitForData \<Longrightarrow> run_spec (Suc n) r fr = run_spec n r' (fr'\<lparr>m_processingState := st\<rparr>)"
  by simp

lemma checkValidity_sent:
  assumes "\<not> isOpCodeReserved (m_opCode fr)" "opcode_val (m_opCode fr) \<ge> 8 \<Longrightarrow> m_length fr \<le> 125 \<and> m_isFinalFrame fr"
    "\<not> m_rsv1 fr" "\<not> m_rsv2 fr" "\<not> m_rsv3 fr"
  shows "checkValidity fr = (True, fr\<lparr>m_isValid := True\<rparr>)"
  using assms
  by (cases "opcode_val (m_opCode fr) \<ge> 8")
     (simp_all add: checkValidity_def isControlFrame_def control_opcode)

definition wire_length :: "nat \<Rightarrow> nat" where
  "wire_length len = (if len \<le> 125 then len else if len \<le> 0xFFFF then 126 else 127)"

lemma decodeHeader_sent:
  assumes "sendable opCode len lst" 
  shows "decodeHeader [first_byte opCode lst, second_byte key (wire_length len)] fr =
    (if len > 125 then ReadPayloadLength else if key \<noteq> 0 then ReadMask else ReadPayload,
     header_frame opCode (wire_length len) (if key \<noteq> 0 then 0x80 else 0) lst fr)"
proof -
  let ?n = "wire_length len"
  have n: "?n < 128" by (simp add: wire_length_def)
  let ?fr = "fr\<lparr>m_isFinalFrame := lst, m_rsv1 := False, m_rsv2 := False, m_rsv3 := False,
      m_opCode := opCode, m_mask := if key \<noteq> 0 then 0x80 else 0, m_length := ?n\<rparr>"
  have "checkValidity ?fr = (True, ?fr\<lparr>m_isValid := True\<rparr>)"
    by (rule checkValidity_sent) (use assms in \<open>auto simp: sendable_def wire_length_def\<close>)
  moreover have "?n = 126 \<or> ?n = 127 \<longleftrightarrow> len > 125" by (auto simp: wire_length_def)
  moreover have "ucast (second_byte key ?n AND 0x80) = (if key \<noteq> 0 then 0x80 else 0 :: u32)"
    by (simp add: second_byte_bits [OF n])
  ultimately show ?thesis 
    by (simp add: decodeHeader_def Let_def first_byte_bits second_byte_bits [OF n] header_frame_def 
        maskOrPayload_def hasMask_def)
qed


lemma be_nat_wire16: "len \<le> 0xFFFF \<Longrightarrow> be_nat (be_bytes 2 len) = len"
  by (simp add: be_nat_be_bytes)

lemma be_nat_wire64: "len < 2 ^ 32 \<Longrightarrow> be_nat (be_bytes 8 len) = len"
  by (simp add: be_nat_be_bytes)

lemma be_nat_key: "word_of_nat (be_nat (be_bytes 4 (unat key))) = (key :: u32)"
proof -
  have "unat key < 2 ^ 32" using unsigned_less [of key] by simp
  then show ?thesis by (simp add: be_nat_be_bytes)
qed

lemma decodeLength_sent:
  assumes "sendable opCode len lst" "len > 125"
  shows "len \<le> 0xFFFF \<Longrightarrow> decodeLength16 (be_bytes 2 len) fr = (maskOrPayload fr, fr\<lparr>m_length := len\<rparr>)"
    and "len > 0xFFFF \<Longrightarrow> decodeLength64 (be_bytes 8 len) fr = (maskOrPayload fr, fr\<lparr>m_length := len\<rparr>)"
proof -
  have len: "len < 2 ^ 32" using assms(1) by (simp add: sendable_def)
  show "len \<le> 0xFFFF \<Longrightarrow> decodeLength16 (be_bytes 2 len) fr = (maskOrPayload fr, fr\<lparr>m_length := len\<rparr>)"
    using assms(2) by (simp add: decodeLength16_def be_nat_wire16 maskOrPayload_def hasMask_def)
  show "len > 0xFFFF \<Longrightarrow> decodeLength64 (be_bytes 8 len) fr = (maskOrPayload fr, fr\<lparr>m_length := len\<rparr>)"
    using assms len by (simp add: decodeLength64_def be_nat_wire64 maskOrPayload_def hasMask_def sendable_def)
qed

text \<open>The stages over the bytes of a sent header, one lemma for each prefix still unread.\<close>

lemma read_spec_sent:
  "length bs = n \<Longrightarrow> read_spec n decode (bs @ r) fr = (fst (decode bs fr), r, snd (decode bs fr))"
  by (simp add: read_spec_def)

definition payload_run :: "byte list \<Rightarrow> frame \<Rightarrow> byte list \<times> frame" where
  "payload_run r fr = run_spec 1 r (fr\<lparr>m_processingState := ReadPayload\<rparr>)"

lemma run_payload:
  "n \<ge> 1 \<Longrightarrow> run_spec n r (fr\<lparr>m_processingState := ReadPayload\<rparr>) = payload_run r fr"
  unfolding payload_run_def by (rule run_spec_fuel) (auto simp: live_state_def)

lemma run_mask_sent:
  assumes "n \<ge> 2"
  shows "run_spec n (be_bytes 4 (unat key) @ r) (fr\<lparr>m_processingState := ReadMask\<rparr>) =
         payload_run r (fr\<lparr>m_mask := key\<rparr>)"
proof -
  obtain k where n: "n = Suc k" "k \<ge> 1" using assms by (cases n) auto
  then show ?thesis
    by (simp add: stage_spec_def read_spec_sent decodeMask_def be_nat_key run_payload)
       (simp add: payload_run_def)
qed

lemma frame_same_mask: "m_mask g = k \<Longrightarrow> g\<lparr>m_mask := k\<rparr> = g"
  by (cases g) simp

lemma run_header_sent:
  assumes "sendable opCode len lst" "m_processingState fr = ReadHeader"
  shows "readFrame_spec (header_bytes opCode len key lst @ r) fr =
         payload_run r (header_frame opCode len key lst fr)"
proof -
  let ?b = "[first_byte opCode lst, second_byte key (wire_length len)]"
  let ?tail = "(if key \<noteq> 0 then be_bytes 4 (unat key) else []) @ r"
  let ?m = "if key \<noteq> 0 then 0x80 else 0 :: u32"
  let ?next = "if key \<noteq> 0 then ReadMask else ReadPayload"
  let ?ext = "if len \<le> 0xFFFF then be_bytes 2 len else be_bytes 8 len"
  let ?fr1 = "header_frame opCode (wire_length len) ?m lst fr"
  have after: "run_spec n ?tail (g\<lparr>m_processingState := ?next\<rparr>) = payload_run r (g\<lparr>m_mask := key\<rparr>)"
    if "n \<ge> 2" "m_mask g = ?m" for n g
    using that run_mask_sent [OF that(1)] run_payload [of n] by (cases "key = 0") (auto simp: frame_same_mask)
  have head: "stage_spec ReadHeader (?b @ s) fr =
      (if len > 125 then ReadPayloadLength else ?next, s, ?fr1)" for s
    by (simp only: stage_spec_def processing_state.case)
       (subst read_spec_sent, simp, simp add: decodeHeader_sent [OF assms(1)])
  show ?thesis
  proof (cases "len \<le> 125")
    case True
    then have bytes: "header_bytes opCode len key lst @ r = ?b @ ?tail"
      by (simp add: header_bytes_def wire_length_def)
    have "readFrame_spec (?b @ ?tail) fr = run_spec 3 ?tail (?fr1\<lparr>m_processingState := ?next\<rparr>)"
      using run_spec_step [of fr "?b @ ?tail" _ _ _ 3] head [of ?tail] assms(2) True
      by (simp add: readFrame_spec_def)
    also have "\<dots> = payload_run r (?fr1\<lparr>m_mask := key\<rparr>)"
      by (rule after) (simp_all add: header_frame_def)
    also have "?fr1\<lparr>m_mask := key\<rparr> = header_frame opCode len key lst fr"
      using True by (simp add: header_frame_def wire_length_def)
    finally show ?thesis by (simp only: bytes)
  next
    case False
    then have bytes: "header_bytes opCode len key lst @ r = ?b @ ?ext @ ?tail"
      by (simp add: header_bytes_def wire_length_def)
    let ?fr2 = "?fr1\<lparr>m_processingState := ReadPayloadLength\<rparr>"
    let ?fr3 = "?fr2\<lparr>m_length := len\<rparr>"
    have mp: "maskOrPayload ?fr2 = ?next"
      by (simp add: maskOrPayload_def hasMask_def header_frame_def)
    have "readFrame_spec (?b @ ?ext @ ?tail) fr = run_spec 3 (?ext @ ?tail) ?fr2"
      using run_spec_step [of fr "?b @ ?ext @ ?tail" _ _ _ 3] head [of "?ext @ ?tail"] assms(2) False
      by (simp add: readFrame_spec_def)
    also have "\<dots> = run_spec 2 ?tail (?fr3\<lparr>m_processingState := ?next\<rparr>)"
    proof -
      have "stage_spec ReadPayloadLength (?ext @ ?tail) ?fr2 = (?next, ?tail, ?fr3)"
        using False decodeLength_sent [OF assms(1), of ?fr2] mp
        by (auto simp: stage_spec_def read_spec_sent header_frame_def wire_length_def)
      then show ?thesis
        using run_spec_step [of ?fr2 "?ext @ ?tail" _ _ _ 2] by simp
    qed
    also have "\<dots> = payload_run r (?fr3\<lparr>m_mask := key\<rparr>)"
      by (rule after) (simp_all add: header_frame_def)
    also have "\<dots> = payload_run r (header_frame opCode len key lst fr)"
    proof -
      have "?fr3\<lparr>m_mask := key, m_processingState := ReadPayload\<rparr> =
          (header_frame opCode len key lst fr)\<lparr>m_processingState := ReadPayload\<rparr>"
        by (simp add: header_frame_def)
      then show ?thesis by (simp only: payload_run_def)
    qed
    finally show ?thesis by (simp only: bytes)
  qed
qed

lemma readFrame_spec_sent:
  assumes "sendable opCode (length payload) lst" "m_processingState fr = ReadHeader"
    "length payload \<le> m_maxAllowedMessageSize fr"
  shows "readFrame_spec (header_bytes opCode (length payload) key lst @ mask_payload key payload @ r) fr =
         (payload @ r, (header_frame opCode (length payload) key lst fr)\<lparr>m_processingState := Done\<rparr>)"
proof -
  let ?h = "header_frame opCode (length payload) key lst fr"
  have "stage_spec ReadPayload (mask_payload key payload @ r) (?h\<lparr>m_processingState := ReadPayload\<rparr>) =
      (Done, payload @ r, ?h\<lparr>m_processingState := ReadPayload\<rparr>)"
    using assms(3) by (auto simp: stage_spec_def payload_spec_def header_frame_def hasMask_def
        mask_from_involution mask_from_0)
  then show ?thesis
    using run_header_sent [OF assms(1,2)] by (simp add: payload_run_def)
qed

end
