(* ===== verification/Lu_Frame_Stream.thy ===== *)
theory Lu_Frame_Stream
  imports Lu_Frame
begin

text \<open>
  The message loop over frames: \<open>Frame::processMessage\<close>, \<open>processControlFrame\<close>, \<open>append\<close>
  and \<open>sendMsg\<close> (\<open>Frame.h\<close> and \<open>Frame.cpp\<close>). The callbacks of the application are the
  events the loop emits, in order; they do not touch the frame or the socket data.
\<close>

datatype ws_event = OnData "byte list" | OnPing "byte list" | OnPong | OnClose nat

definition payload_span :: "socket_data \<Rightarrow> frame \<Rightarrow> byte list option" where
  "payload_span sd fr = mem_read (sd_data sd) (sd_readOffset sd) (m_length fr)"

text \<open>\<open>Frame::append\<close>; the boolean is its result, true when the payload was stored.\<close>

definition frame_append :: "socket_data \<Rightarrow> frame \<Rightarrow> (bool \<times> frame) option" where
  "frame_append sd fr =
     (if m_length fr + dw_offset (m_message fr) > dw_length (m_message fr) then Some (False, fr)
      else do {
        bs \<leftarrow> payload_span sd fr;
        (_, message) \<leftarrow> dw_append (m_message fr) bs;
        Some (True, fr\<lparr>m_message := message\<rparr>)
      })"

definition closeCodeOf :: "byte list \<Rightarrow> nat" where
  "closeCodeOf bs =
     (if isCloseCodeValid (int (be_nat bs)) then be_nat bs else CloseCodeProtocolError)"

definition processControlFrame :: "socket_data \<Rightarrow> frame \<Rightarrow> (bool \<times> ws_event list) option" where
  "processControlFrame sd fr =
     (let mustStopProcessing = True in
      case m_opCode fr of
        Ping \<Rightarrow> do { payload \<leftarrow> payload_span sd fr; Some (mustStopProcessing, [OnPing payload]) }
      | Pong \<Rightarrow> Some (mustStopProcessing, [OnPong])
      | Close \<Rightarrow>
          (if m_length fr = 1 then Some (mustStopProcessing, [OnClose CloseCodeProtocolError])
           else if m_length fr > 1 then do {
             bs \<leftarrow> mem_read (sd_data sd) (sd_readOffset sd) 2;
             Some (mustStopProcessing, [OnClose (closeCodeOf bs)])
           }
           else Some (mustStopProcessing, [OnClose CloseCodeNormal]))
      | _ \<Rightarrow> Some (mustStopProcessing, []))"

text \<open>
  The data branch. The first component says whether \<open>processMessage\<close> returns here; the
  error returns set the opcode to \<open>Close\<close>, which makes the socket shut the connection.
\<close>

definition processDataFrame ::
  "socket_data \<Rightarrow> frame \<Rightarrow> (bool \<times> socket_data \<times> frame \<times> ws_event list) option" where
  "processDataFrame sd fr =
     (if \<not> m_isFragmented fr \<and> isContinuationFrame fr
      then Some (True, sd, fr\<lparr>m_opCode := Close\<rparr>, [])
      else if m_isFragmented fr \<and> isDataFrame fr \<and> \<not> isContinuationFrame fr
      then Some (True, sd, fr\<lparr>m_opCode := Close\<rparr>, [])
      else do {
        let fr1 = (if \<not> isContinuationFrame fr
                   then fr\<lparr>m_isFragmented := \<not> m_isFinalFrame fr\<rparr> else fr);
        (appended, fr2) \<leftarrow> (if m_isFragmented fr1 then frame_append sd fr1 else Some (False, fr1));
        (if m_isFragmented fr1 \<and> appended
         then Some (True, sd, fr2\<lparr>m_opCode := Close\<rparr>, [])
         else do {
           (evs, fr3) \<leftarrow>
             (if m_isFinalFrame fr2 then
                (if m_isFragmented fr2 then do {
                   payload \<leftarrow> mem_read (dw_data (m_message fr2)) 0 (m_length fr2);
                   Some ([OnData payload], fr2\<lparr>m_message := dw_clear (m_message fr2)\<rparr>)
                 }
                 else do {
                   payload \<leftarrow> payload_span sd fr2;
                   Some ([OnData payload], fr2)
                 })
              else Some ([], fr2));
           Some (False, advance (m_length fr3) sd, frame_reset fr3, evs)
         })
      })"

text \<open>
  \<open>processMessage\<close>. Its two nested loops make one: \<open>isDone\<close> only leaves the inner loop,
  whose exit the outer \<open>for (;;)\<close> follows with a new round. The result is the socket data
  (the code returns its \<open>readOffset\<close>), the frame and the events.
\<close>

partial_function (option) processMessage ::
  "socket_data \<Rightarrow> frame \<Rightarrow> (socket_data \<times> frame \<times> ws_event list) option" where
  "processMessage sd fr =
     (if getDataLeftToRead sd = 0 then Some (sd, fr, [])
      else Option.bind (readFrame sd fr) (\<lambda>rf.
        let sd1 = fst rf; fr1 = snd rf in
        if m_processingState fr1 \<noteq> Done then Some (sd1, fr1, [])
        else if m_isValid fr1 then
          (if isControlFrame fr1 then
             Option.bind (processControlFrame sd1 fr1) (\<lambda>c.
             Option.bind (processMessage (advance (m_length fr1) sd1) (frame_reset fr1)) (\<lambda>r.
               Some (fst r, fst (snd r), snd c @ snd (snd r))))
           else
             Option.bind (processDataFrame sd1 fr1) (\<lambda>d.
               if fst d then Some (fst (snd d), fst (snd (snd d)), snd (snd (snd d)))
               else Option.bind (processMessage (fst (snd d)) (frame_reset (fst (snd (snd d))))) (\<lambda>r.
                 Some (fst r, fst (snd r), snd (snd (snd d)) @ snd (snd r)))))
        else Some (sd1, fr1\<lparr>m_opCode := Close\<rparr>, [])))"

section \<open>Sending a message\<close>

text \<open>
  \<open>sendMsg\<close>: the message in frames of at most \<open>MaxMessageSize\<close> bytes. \<open>rnd i\<close> is what
  \<open>generateRandomUint32\<close> returns for frame \<open>i\<close>. The result is the calls of
  \<open>dataSocket.send\<close> in order, the caller's buffer afterwards (masking is in place) and the
  returned count; \<open>None\<close> is the division by a zero \<open>MaxMessageSize\<close>.
\<close>

definition numFrames_of :: "nat \<Rightarrow> nat \<Rightarrow> nat" where
  "numFrames_of sz maxSize =
     (let n = sz div maxSize; n' = (if sz mod maxSize \<noteq> 0 then n + 1 else n)
      in if n' = 0 then 1 else n')"

fun sendFrames ::
  "(nat \<Rightarrow> u32) \<Rightarrow> bool \<Rightarrow> nat \<Rightarrow> opcode \<Rightarrow> nat \<Rightarrow> nat \<Rightarrow> nat \<Rightarrow> nat \<Rightarrow> byte list \<Rightarrow>
     (byte list list \<times> byte list \<times> nat) option" where
  "sendFrames rnd mustMask maxSize firstOpCode numFrames 0 currentPosition bytesLeft buffer =
     Some ([], buffer, currentPosition)"
| "sendFrames rnd mustMask maxSize firstOpCode numFrames (Suc todo) currentPosition bytesLeft buffer =
     (let i = numFrames - Suc todo;
          maskingKey = (if mustMask then rnd i else 0);
          isLastFrame = (i = numFrames - 1);
          isFirstFrame = (i = 0);
          sz = min bytesLeft maxSize;
          opcode = (if isFirstFrame then firstOpCode else Continue)
      in do {
        header \<leftarrow> getFrameHeader opcode sz maskingKey isLastFrame;
        payload \<leftarrow> mem_read buffer currentPosition sz;
        let masked = (if mustMask then mask_payload maskingKey payload else payload);
        buffer' \<leftarrow> mem_write buffer currentPosition masked;
        (sends, buffer'', n) \<leftarrow>
          sendFrames rnd mustMask maxSize firstOpCode numFrames todo
            (currentPosition + sz) (bytesLeft - sz) buffer';
        Some ([dw_contents header] @ (if sz > 0 then [masked] else []) @ sends, buffer'', n)
      })"

definition sendMsg ::
  "(nat \<Rightarrow> u32) \<Rightarrow> bool \<Rightarrow> nat \<Rightarrow> opcode \<Rightarrow> byte list \<Rightarrow> nat \<Rightarrow>
     (byte list list \<times> byte list \<times> nat) option" where
  "sendMsg rnd mustMask maxSize firstOpCode buffer sz =
     (if maxSize = 0 then None
      else let n = numFrames_of sz maxSize
           in sendFrames rnd mustMask maxSize firstOpCode n n 0 sz buffer)"

section \<open>The message loop on the unread bytes\<close>

text \<open>Facts of the codec that the loop relies on: sizes, progress, frame conditions.\<close>

definition frame_kept :: "frame \<Rightarrow> frame \<Rightarrow> bool" where
  "frame_kept fr fr' \<longleftrightarrow>
     m_message fr' = m_message fr \<and> m_maxAllowedMessageSize fr' = m_maxAllowedMessageSize fr \<and>
     (m_isFragmented fr' \<longrightarrow> m_isFragmented fr)"

lemma frame_kept_refl [simp]: "frame_kept fr fr"
  by (simp add: frame_kept_def)

lemma frame_kept_trans: "frame_kept a b \<Longrightarrow> frame_kept b c \<Longrightarrow> frame_kept a c"
  by (auto simp: frame_kept_def)

lemmas frame_reset_defs = frame_reset_def setError_def

lemma checkValidity_kept: "checkValidity fr = (v, fr') \<Longrightarrow> frame_kept fr fr' \<and> v = m_isValid fr'"
  by (auto simp: checkValidity_def Let_def frame_kept_def frame_reset_defs split: if_splits)

lemma decodeHeader_kept: "frame_kept fr (snd (decodeHeader bs fr))"
  by (auto simp: decodeHeader_def Let_def frame_kept_def split: prod.splits dest!: checkValidity_kept)

lemma decode_kept:
  "frame_kept fr (snd (decodeLength16 bs fr))" "frame_kept fr (snd (decodeLength64 bs fr))"
  "frame_kept fr (snd (decodeMask bs fr))"
  by (auto simp: decode_defs Let_def frame_kept_def frame_reset_defs)

lemma read_spec_kept:
  assumes "\<And>bs. frame_kept fr (snd (decode bs fr))" "read_spec n decode r fr = (st', r', fr')"
  shows "frame_kept fr fr' \<and> length r' \<le> length r \<and> (st' \<noteq> WaitForData \<longrightarrow> length r' + n \<le> length r)"
  using assms by (auto simp: read_spec_def split: if_splits)

lemma payload_spec_kept:
  "payload_spec r fr = (st', r', fr') \<Longrightarrow> frame_kept fr fr' \<and> length r' \<le> length r"
  by (auto simp: payload_spec_def frame_kept_def frame_reset_defs split: if_splits)

lemma stage_spec_kept:
  assumes "stage_spec st r fr = (st', r', fr')"
  shows "frame_kept fr fr' \<and> length r' \<le> length r \<and>
         (st = ReadHeader \<and> st' \<noteq> WaitForData \<longrightarrow> length r' + 2 \<le> length r)"
proof (cases st)
  case ReadHeader
  with assms read_spec_kept [where decode = decodeHeader, OF decodeHeader_kept] show ?thesis by (force simp: stage_spec_def)
next
  case ReadPayloadLength
  with assms read_spec_kept [where decode = decodeLength16, OF decode_kept(1)] read_spec_kept [where decode = decodeLength64, OF decode_kept(2)] show ?thesis
    by (fastforce simp: stage_spec_def split: if_splits)
next
  case ReadMask
  with assms read_spec_kept [where decode = decodeMask, OF decode_kept(3)] show ?thesis by (force simp: stage_spec_def)
qed (use assms payload_spec_kept in \<open>force simp: stage_spec_def\<close>)+

lemma decodeHeader_done: "decodeHeader bs fr = (Done, fr') \<Longrightarrow> \<not> m_isValid fr'"
  by (auto simp: decodeHeader_def Let_def maskOrPayload_def split: prod.splits if_splits dest!: checkValidity_kept)

lemma decode_done:
  "decodeLength16 bs fr = (Done, fr') \<Longrightarrow> \<not> m_isValid fr'"
  "decodeLength64 bs fr = (Done, fr') \<Longrightarrow> \<not> m_isValid fr'"
  "decodeMask bs fr = (Done, fr') \<Longrightarrow> \<not> m_isValid fr'"
  by (auto simp: decode_defs Let_def frame_reset_defs split: if_splits)

lemma read_spec_done:
  "read_spec n decode r fr = (Done, r', fr') \<Longrightarrow> decode (take n r) fr = (Done, fr')"
  by (auto simp: read_spec_def split: if_splits intro: prod_eqI)

lemma stage_spec_done:
  assumes "stage_spec st r fr = (Done, r', fr')" "m_isValid fr'"
  shows "m_length fr' \<le> length r'"
proof (cases st)
  case ReadHeader
  with assms show ?thesis by (auto simp: stage_spec_def dest!: read_spec_done decodeHeader_done)
next
  case ReadPayloadLength
  with assms show ?thesis
    by (auto simp: stage_spec_def split: if_splits dest!: read_spec_done decode_done)
next
  case ReadMask
  with assms show ?thesis by (auto simp: stage_spec_def decode_done dest!: read_spec_done)
qed (use assms in \<open>auto simp: stage_spec_def payload_spec_def frame_reset_defs split: if_splits\<close>)

lemma run_spec_kept:
  "run_spec n r fr = (r', fr') \<Longrightarrow>
     frame_kept fr fr' \<and> length r' \<le> length r \<and>
     (m_processingState fr = ReadHeader \<and> m_processingState fr' = Done \<longrightarrow> length r' + 2 \<le> length r)"
proof (induction n arbitrary: r fr)
  case 0
  then show ?case by auto
next
  case (Suc n)
  let ?st = "m_processingState fr"
  obtain st1 r1 fr1 where spec: "stage_spec ?st r fr = (st1, r1, fr1)"
    by (cases "stage_spec ?st r fr")
  note kept = stage_spec_kept [OF spec]
  consider "?st = Done" | "?st \<noteq> Done" "st1 = WaitForData" | "?st \<noteq> Done" "st1 \<noteq> WaitForData" by blast
  then show ?case
  proof cases
    case 3
    with Suc.prems spec have run: "run_spec n r1 (fr1\<lparr>m_processingState := st1\<rparr>) = (r', fr')" by simp
    have "frame_kept fr (fr1\<lparr>m_processingState := st1\<rparr>)" using kept by (simp add: frame_kept_def)
    with Suc.IH [OF run] kept 3 show ?thesis by (auto intro: frame_kept_trans)
  qed (use Suc.prems spec kept in \<open>auto simp: frame_kept_def\<close>)
qed

lemma run_spec_done:
  assumes "m_processingState fr \<noteq> Done" "run_spec n r fr = (r', fr')" "m_processingState fr' = Done" "m_isValid fr'"
  shows "m_length fr' \<le> length r'"
  using assms
proof (induction n arbitrary: r fr)
  case 0
  then show ?case by simp
next
  case (Suc n)
  let ?st = "m_processingState fr"
  obtain st1 r1 fr1 where spec: "stage_spec ?st r fr = (st1, r1, fr1)"
    by (cases "stage_spec ?st r fr")
  have wait: "st1 \<noteq> WaitForData" using spec Suc.prems by auto
  with Suc.prems spec have run: "run_spec n r1 (fr1\<lparr>m_processingState := st1\<rparr>) = (r', fr')" by simp
  show ?case
  proof (cases "st1 = Done")
    case True
    then have "run_spec n r1 (fr1\<lparr>m_processingState := st1\<rparr>) = (r1, fr1\<lparr>m_processingState := Done\<rparr>)"
      by (cases n) auto
    with run True spec stage_spec_done [of ?st r fr r1 fr1] Suc.prems(4) show ?thesis by auto
  next
    case False
    with run Suc.IH [OF _ run] Suc.prems show ?thesis by simp
  qed
qed

lemma readFrame_spec_kept:
  assumes "readFrame_spec r fr = (r', fr')"
  shows "frame_kept fr fr'" "length r' \<le> length r"
    "m_processingState fr = ReadHeader \<Longrightarrow> m_processingState fr' = Done \<Longrightarrow> length r' + 2 \<le> length r"
  using run_spec_kept assms by (auto simp: readFrame_spec_def)

lemma readFrame_spec_complete:
  assumes "m_processingState fr \<noteq> Done" "readFrame_spec r fr = (r', fr')"
    "m_processingState fr' = Done" "m_isValid fr'"
  shows "m_length fr' \<le> length r'"
  using run_spec_done assms by (simp add: readFrame_spec_def)

text \<open>
  The loop over the unread bytes. A frame that is not in the middle of a fragmented
  message (every frame between two rounds, since \<open>reset\<close> clears the mark) is all it needs.
\<close>

definition control_spec :: "byte list \<Rightarrow> frame \<Rightarrow> ws_event list" where
  "control_spec r fr =
     (case m_opCode fr of
        Ping \<Rightarrow> [OnPing (take (m_length fr) r)]
      | Pong \<Rightarrow> [OnPong]
      | Close \<Rightarrow>
          (if m_length fr = 1 then [OnClose CloseCodeProtocolError]
           else if m_length fr > 1 then [OnClose (closeCodeOf (take 2 r))]
           else [OnClose CloseCodeNormal])
      | _ \<Rightarrow> [])"

definition data_spec :: "byte list \<Rightarrow> frame \<Rightarrow> bool \<times> byte list \<times> frame \<times> ws_event list" where
  "data_spec r fr =
     (if isContinuationFrame fr then (True, r, fr\<lparr>m_opCode := Close\<rparr>, [])
      else if m_isFinalFrame fr
      then (False, drop (m_length fr) r, frame_reset fr, [OnData (take (m_length fr) r)])
      else if m_length fr + dw_offset (m_message fr) > dw_length (m_message fr)
      then (False, drop (m_length fr) r, frame_reset fr, [])
      else (True, r, fr\<lparr>m_isFragmented := True, m_message := snd (the (dw_append (m_message fr) (take (m_length fr) r))),
                      m_opCode := Close\<rparr>, []))"

definition frame_spec :: "byte list \<Rightarrow> frame \<Rightarrow> bool \<times> byte list \<times> frame \<times> ws_event list" where
  "frame_spec r fr =
     (if isControlFrame fr then (False, drop (m_length fr) r, frame_reset fr, control_spec r fr)
      else data_spec r fr)"

lemma frame_spec_continues:
  "frame_spec r fr = (False, r', fr', evs) \<Longrightarrow> r' = drop (m_length fr) r \<and> fr' = frame_reset fr"
  by (auto simp: frame_spec_def data_spec_def split: if_splits)

lemma frame_reset_state [simp]: "m_processingState (frame_reset fr) = ReadHeader"
  by (simp add: frame_reset_def)

lemma round_decreases:
  assumes "readFrame_spec r fr = (r1, fr1)" "m_processingState fr1 = Done"
    "frame_spec r1 fr1 = (False, r2, fr2, evs)"
  shows "2 * length r2 + (if m_processingState fr2 = ReadHeader then 0 else 1) <
         2 * length r + (if m_processingState fr = ReadHeader then 0 else 1)"
  using readFrame_spec_kept [OF assms(1)] frame_spec_continues [OF assms(3)] assms(2) by auto

function process_spec :: "byte list \<Rightarrow> frame \<Rightarrow> byte list \<times> frame \<times> ws_event list" where
  "process_spec r fr =
     (if r = [] then (r, fr, [])
      else case readFrame_spec r fr of (r1, fr1) \<Rightarrow>
        if m_processingState fr1 \<noteq> Done then (r1, fr1, [])
        else if \<not> m_isValid fr1 then (r1, fr1\<lparr>m_opCode := Close\<rparr>, [])
        else case frame_spec r1 fr1 of (ret, r2, fr2, evs) \<Rightarrow>
          if ret then (r2, fr2, evs)
          else case process_spec r2 fr2 of (r3, fr3, evs') \<Rightarrow> (r3, fr3, evs @ evs'))"
  by pat_completeness auto
termination
proof (relation "measure (\<lambda>(r, fr). 2 * length r + (if m_processingState fr = ReadHeader then 0 else 1))",
    goal_cases)
  case (2 r fr r1 fr1 ret ya r2 yb fr2 evs)
  then show ?case using round_decreases [of r fr r1 fr1 r2 fr2 evs] by auto
qed simp

declare process_spec.simps [simp del]

lemma process_spec_unfold:
  "r \<noteq> [] \<Longrightarrow> process_spec r fr =
     (case readFrame_spec r fr of (r1, fr1) \<Rightarrow>
        if m_processingState fr1 \<noteq> Done then (r1, fr1, [])
        else if \<not> m_isValid fr1 then (r1, fr1\<lparr>m_opCode := Close\<rparr>, [])
        else case frame_spec r1 fr1 of (ret, r2, fr2, evs) \<Rightarrow>
          if ret then (r2, fr2, evs)
          else case process_spec r2 fr2 of (r3, fr3, evs') \<Rightarrow> (r3, fr3, evs @ evs'))"
  by (simp add: process_spec.simps)

lemma control_refines:
  assumes "sd_wf sd" "m_length fr \<le> length (unread sd)"
  shows "processControlFrame sd fr = Some (True, control_spec (unread sd) fr)"
proof -
  have "m_length fr > 1 \<Longrightarrow> mem_read (sd_data sd) (sd_readOffset sd) 2 = Some (take 2 (unread sd))"
    using read_unread [OF assms(1), of 2] assms(2) by simp
  then show ?thesis
    using read_unread [OF assms]
    by (cases "m_opCode fr") (auto simp: processControlFrame_def control_spec_def payload_span_def)
qed

lemma frame_reset_absorb [simp]:
  "frame_reset (fr\<lparr>m_isFragmented := b\<rparr>) = frame_reset fr"
  "frame_reset (frame_reset fr) = frame_reset fr"
  by (simp_all add: frame_reset_def)

lemma isContinuation_fragmented [simp]:
  "isContinuationFrame (fr\<lparr>m_isFragmented := b\<rparr>) = isContinuationFrame fr"
  by (simp add: isContinuationFrame_def isDataFrame_def isControlFrame_def)

lemma append_refines:
  assumes "sd_wf sd" "m_length fr \<le> length (unread sd)" "dw_wf (m_message fr)"
  shows "frame_append sd fr =
     Some (if m_length fr + dw_offset (m_message fr) > dw_length (m_message fr) then (False, fr)
           else (True, fr\<lparr>m_message := snd (the (dw_append (m_message fr) (take (m_length fr) (unread sd))))\<rparr>))"
proof (cases "m_length fr + dw_offset (m_message fr) > dw_length (m_message fr)")
  case False
  moreover have "length (take (m_length fr) (unread sd)) = m_length fr" using assms(2) by simp
  ultimately obtain d where "dw_append (m_message fr) (take (m_length fr) (unread sd)) = Some (True, d)"
    using dw_append_fits [OF assms(3), of "take (m_length fr) (unread sd)"] by (metis add.commute not_le)
  with False read_unread [OF assms(1,2)] show ?thesis
    by (simp add: frame_append_def payload_span_def)
qed (simp add: frame_append_def)

lemma data_refines:
  assumes "sd_wf sd" "m_length fr \<le> length (unread sd)" "dw_wf (m_message fr)" "\<not> m_isFragmented fr"
    "\<not> isControlFrame fr" "data_spec (unread sd) fr = (ret, r2, fr2, evs)"
  shows "\<exists>sd2. processDataFrame sd fr = Some (ret, sd2, fr2, evs) \<and> unread sd2 = r2 \<and>
           sd_wf sd2 \<and> sd_follows sd sd2"
proof -
  let ?adv = "advance (m_length fr) sd"
  have adv: "sd_wf ?adv" "unread ?adv = drop (m_length fr) (unread sd)" "sd_follows sd ?adv"
    using advance_unread [OF assms(1,2)] by (auto simp: sd_follows_def)
  have app: "frame_append sd (fr\<lparr>m_isFragmented := True\<rparr>) =
     Some (if m_length fr + dw_offset (m_message fr) > dw_length (m_message fr)
           then (False, fr\<lparr>m_isFragmented := True\<rparr>)
           else (True, fr\<lparr>m_isFragmented := True,
                   m_message := snd (the (dw_append (m_message fr) (take (m_length fr) (unread sd))))\<rparr>))"
    using append_refines [of sd "fr\<lparr>m_isFragmented := True\<rparr>"] assms by simp
  have span: "payload_span sd (fr\<lparr>m_isFragmented := False\<rparr>) = Some (take (m_length fr) (unread sd))"
    using read_unread [OF assms(1,2)] by (simp add: payload_span_def)
  consider "isContinuationFrame fr" | "\<not> isContinuationFrame fr" "m_isFinalFrame fr"
    | "\<not> isContinuationFrame fr" "\<not> m_isFinalFrame fr" by blast
  then show ?thesis
  proof cases
    case 1
    with assms show ?thesis by (auto simp: processDataFrame_def data_spec_def)
  next
    case 2
    with assms adv span show ?thesis
      by (auto simp: processDataFrame_def data_spec_def Let_def)
  next
    case 3
    with assms adv app show ?thesis
      by (auto simp: processDataFrame_def data_spec_def Let_def split: if_splits)
  qed
qed

definition frame_entry :: "frame \<Rightarrow> bool" where
  "frame_entry fr \<longleftrightarrow>
     live_state (m_processingState fr) \<and> m_processingState fr \<noteq> Done \<and>
     \<not> m_isFragmented fr \<and> dw_wf (m_message fr)"

lemma frame_entry_reset: "dw_wf (m_message fr) \<Longrightarrow> frame_entry (frame_reset fr)"
  by (simp add: frame_entry_def frame_reset_def live_state_def)

lemma frame_entry_read:
  assumes "frame_entry fr" "readFrame_spec r fr = (r', fr')"
  shows "\<not> m_isFragmented fr'" "dw_wf (m_message fr')"
    "m_processingState fr' \<noteq> Done \<Longrightarrow> frame_entry fr'"
    "m_processingState fr' = Done \<Longrightarrow> m_isValid fr' \<Longrightarrow> m_length fr' \<le> length r'"
  using readFrame_spec_kept(1) [OF assms(2)] readFrame_spec_resume(1) [OF _ assms(2)]
    readFrame_spec_complete [OF _ assms(2)] assms(1)
  by (auto simp: frame_entry_def frame_kept_def)

lemma processMessage_refines:
  assumes "frame_entry fr" "sd_wf sd"
  shows "\<exists>sd'. processMessage sd fr = Some (sd', snd (process_spec (unread sd) fr)) \<and>
           unread sd' = fst (process_spec (unread sd) fr) \<and> sd_wf sd' \<and> sd_follows sd sd'"
  using assms
proof (induction "unread sd" fr arbitrary: sd rule: process_spec.induct)
  case (1 fr)
  show ?case
  proof (cases "unread sd = []")
    case True
    with 1(3) show ?thesis
      by (simp add: processMessage.simps process_spec.simps left_unread)
  next
    case nonempty: False
    then have left: "getDataLeftToRead sd \<noteq> 0" using 1(3) by (simp add: left_unread)
    obtain r1 fr1 where spec: "readFrame_spec (unread sd) fr = (r1, fr1)" by fastforce
    with readFrame_refines [OF 1(3), of fr] 1(2) obtain sd1 where
      sd1: "readFrame sd fr = Some (sd1, fr1)" "unread sd1 = r1" "sd_wf sd1" "sd_follows sd sd1"
      by (auto simp: frame_entry_def)
    note entry = frame_entry_read [OF 1(2) spec]
    show ?thesis
    proof (cases "m_processingState fr1 = Done \<and> m_isValid fr1")
      case False
      with nonempty left spec sd1 show ?thesis
        by (auto simp: processMessage.simps [of sd] process_spec.simps [of "unread sd"])
    next
      case fin: True
      then have fits: "m_length fr1 \<le> length (unread sd1)" using entry sd1 by simp
      obtain ret r2 fr2 evs where fs: "frame_spec r1 fr1 = (ret, r2, fr2, evs)"
        by (cases "frame_spec r1 fr1")
      have again: "\<exists>sd'. processMessage sd2 fr2 = Some (sd', snd (process_spec r2 fr2)) \<and>
           unread sd' = fst (process_spec r2 fr2) \<and> sd_wf sd' \<and> sd_follows sd2 sd'"
        if "\<not> ret" "unread sd2 = r2" "sd_wf sd2" for sd2
      proof -
        from fs that(1) have "frame_spec r1 fr1 = (False, r2, fr2, evs)" by simp
        from frame_spec_continues [OF this] frame_entry_reset [OF entry(2)] have "frame_entry fr2" by simp
        moreover have "(ret, r2, fr2, evs) = frame_spec r1 fr1"
          "(unread sd2, fr2, evs) = (r2, fr2, evs)" using fs that(2) by simp_all
        ultimately show ?thesis
          using 1(1) [OF nonempty spec [symmetric], of ret "(r2, fr2, evs)" sd2 "(fr2, evs)" fr2 evs]
            fin that by auto
      qed
      show ?thesis
      proof (cases "isControlFrame fr1")
        case True
        then have r2: "\<not> ret" "r2 = drop (m_length fr1) r1" "fr2 = frame_reset fr1"
          "evs = control_spec r1 fr1" using fs by (auto simp: frame_spec_def)
        have adv: "unread (advance (m_length fr1) sd1) = r2" "sd_wf (advance (m_length fr1) sd1)"
          "sd_follows sd1 (advance (m_length fr1) sd1)"
          using advance_unread [OF sd1(3) fits] sd1(2) r2 by (auto simp: sd_follows_def)
        from again [OF r2(1) adv(1,2)] obtain sd' where
          "processMessage (advance (m_length fr1) sd1) fr2 = Some (sd', snd (process_spec r2 fr2))"
          "unread sd' = fst (process_spec r2 fr2)" "sd_wf sd'" "sd_follows (advance (m_length fr1) sd1) sd'"
          by blast
        with True fin nonempty left spec sd1 fs r2 adv control_refines [OF sd1(3) fits] show ?thesis
          by (auto simp: processMessage.simps [of sd] process_spec.simps [of "unread sd"] split: prod.splits
              intro: sd_follows_trans)
      next
        case False
        then have "data_spec (unread sd1) fr1 = (ret, r2, fr2, evs)" using fs sd1(2) by (simp add: frame_spec_def)
        from data_refines [OF sd1(3) fits entry(2,1) False this] obtain sd2 where
          sd2: "processDataFrame sd1 fr1 = Some (ret, sd2, fr2, evs)" "unread sd2 = r2" "sd_wf sd2" "sd_follows sd1 sd2"
          by blast
        show ?thesis
        proof (cases ret)
          case True
          with False fin nonempty left spec sd1 fs sd2 show ?thesis
            by (auto simp: processMessage.simps [of sd] process_spec.simps [of "unread sd"] intro: sd_follows_trans)
        next
          case cont: False
          with fs have "frame_spec r1 fr1 = (False, r2, fr2, evs)" by simp
          from frame_spec_continues [OF this] have "frame_reset fr2 = fr2" by simp
          moreover have "sd_follows sd sd2" using sd1(4) sd2(4) by (rule sd_follows_trans)
          ultimately show ?thesis
            using again [OF cont sd2(2,3)] cont False fin nonempty left spec sd1 fs sd2
            by (auto simp: processMessage.simps [of sd] process_spec.simps [of "unread sd"] split: prod.splits
              intro: sd_follows_trans)
        qed
      qed
    qed
  qed
qed

section \<open>Segmentation\<close>

text \<open>A round's frame part looks no further than the payload.\<close>

lemma frame_spec_extend:
  assumes "frame_spec r fr = (ret, r', fr', evs)" "m_length fr \<le> length r"
  shows "frame_spec (r @ q) fr = (ret, r' @ q, fr', evs)"
proof -
  have "m_length fr > 1 \<Longrightarrow> take 2 (r @ q) = take 2 r" using assms(2) by simp
  then have "control_spec (r @ q) fr = control_spec r fr"
    using assms(2) by (cases "m_opCode fr") (auto simp: control_spec_def)
  with assms show ?thesis
    by (auto simp: frame_spec_def data_spec_def split: if_splits)
qed

lemma frame_spec_ret_close: "frame_spec r fr = (True, r', fr', evs) \<Longrightarrow> m_opCode fr' = Close"
  by (auto simp: frame_spec_def data_spec_def split: if_splits)

lemma process_spec_segment:
  assumes "frame_entry fr" "process_spec p fr = (r, fr', evs)" "m_opCode fr' \<noteq> Close"
  shows "frame_entry fr' \<and>
         process_spec (p @ q) fr = (case process_spec (r @ q) fr' of (r2, fr2, evs2) \<Rightarrow> (r2, fr2, evs @ evs2))"
  using assms
proof (induction p fr arbitrary: evs rule: process_spec.induct)
  case (1 p fr)
  show ?case
  proof (cases "p = []")
    case True
    with 1(2-) show ?thesis by (auto simp: process_spec.simps [of "[]"] split: prod.splits)
  next
    case nonempty: False
    obtain r1 fr1 where spec: "readFrame_spec p fr = (r1, fr1)" by fastforce
    note entry = frame_entry_read [OF 1(2) spec]
    have live: "live_state (m_processingState fr)" using 1(2) by (simp add: frame_entry_def)
    note resume = readFrame_spec_resume(2) [OF live spec]
    show ?thesis
    proof (cases "m_processingState fr1 = Done")
      case False
      with nonempty spec 1(3) have here: "r = r1" "fr' = fr1" "evs = []"
        by (auto simp: process_spec.simps [of p])
      have "process_spec (p @ q) fr = process_spec (r1 @ q) fr1"
      proof (cases "r1 @ q = []")
        case True
        with here 1(3) show ?thesis by (simp add: process_spec.simps [of "[]"])
      next
        case more: False
        with nonempty resume [of q] process_spec_unfold [of "p @ q" fr] process_spec_unfold [of "r1 @ q" fr1]
        show ?thesis by simp
      qed
      with here entry(3) [OF False] show ?thesis by (simp split: prod.splits)
    next
      case fin: True
      with nonempty spec 1(3,4) have valid: "m_isValid fr1"
        by (auto simp: process_spec.simps [of p] split: if_splits)
      have all: "readFrame_spec (p @ q) fr = (r1 @ q, fr1)" using resume [of q] fin by simp
      obtain ret r2 fr2 evs1 where fs: "frame_spec r1 fr1 = (ret, r2, fr2, evs1)"
        by (cases "frame_spec r1 fr1")
      note fs' = frame_spec_extend [OF fs entry(4) [OF fin valid], of q]
      have cont: "\<not> ret"
      proof
        assume ret
        with nonempty spec fin valid fs 1(3) have "fr' = fr2" by (simp add: process_spec.simps [of p])
        with frame_spec_ret_close fs \<open>ret\<close> 1(4) show False by simp
      qed
      with fs have "frame_spec r1 fr1 = (False, r2, fr2, evs1)" by simp
      from frame_spec_continues [OF this] frame_entry_reset [OF entry(2)] have entry2: "frame_entry fr2" by simp
      obtain evs2 where rest: "process_spec r2 fr2 = (r, fr', evs2)" "evs = evs1 @ evs2"
        using nonempty spec fin valid fs cont 1(3) by (auto simp: process_spec.simps [of p] split: prod.splits)
      have "frame_entry fr' \<and> process_spec (r2 @ q) fr2 =
          (case process_spec (r @ q) fr' of (r2, fr2, evs3) \<Rightarrow> (r2, fr2, evs2 @ evs3))"
        using 1(1) [OF nonempty spec [symmetric] _ _ fs [symmetric] refl refl cont entry2 rest(1) 1(4)] fin valid
        by simp
      with nonempty all fin valid fs' cont rest show ?thesis
        by (auto simp: process_spec.simps [of "p @ q"] split: prod.splits)
    qed
  qed
qed

section \<open>A stream of sent frames\<close>

record wire_frame =
  wf_opCode :: opcode
  wf_last :: bool
  wf_key :: u32
  wf_payload :: "byte list"

definition encode_frame :: "wire_frame \<Rightarrow> byte list" where
  "encode_frame w =
     header_bytes (wf_opCode w) (length (wf_payload w)) (wf_key w) (wf_last w) @
     mask_payload (wf_key w) (wf_payload w)"

text \<open>Frames a receiver with maximum \<open>m\<close> takes: complete data messages and control frames.\<close>

definition deliverable :: "nat \<Rightarrow> wire_frame \<Rightarrow> bool" where
  "deliverable m w \<longleftrightarrow>
     sendable (wf_opCode w) (length (wf_payload w)) (wf_last w) \<and> length (wf_payload w) \<le> m \<and>
     wf_opCode w \<noteq> Continue \<and> wf_last w"

definition frame_events :: "wire_frame \<Rightarrow> ws_event list" where
  "frame_events w =
     (case wf_opCode w of
        Ping \<Rightarrow> [OnPing (wf_payload w)]
      | Pong \<Rightarrow> [OnPong]
      | Close \<Rightarrow>
          (if length (wf_payload w) = 1 then [OnClose CloseCodeProtocolError]
           else if length (wf_payload w) > 1 then [OnClose (closeCodeOf (take 2 (wf_payload w)))]
           else [OnClose CloseCodeNormal])
      | _ \<Rightarrow> [OnData (wf_payload w)])"

lemma header_bytes_nonempty [simp]: "header_bytes op len key lst \<noteq> []"
  by (simp add: header_bytes_def)

lemma process_spec_frame:
  assumes "deliverable (m_maxAllowedMessageSize fr) w" "m_processingState fr = ReadHeader" "\<not> m_isFragmented fr"
  shows "process_spec (encode_frame w @ s) fr =
    (case process_spec s (frame_reset (header_frame (wf_opCode w) (length (wf_payload w)) (wf_key w) (wf_last w) fr))
     of (r, fr', evs) \<Rightarrow> (r, fr', frame_events w @ evs))"
proof -
  let ?h = "header_frame (wf_opCode w) (length (wf_payload w)) (wf_key w) (wf_last w) fr"
  let ?hd = "?h\<lparr>m_processingState := Done\<rparr>"
  have rd: "readFrame_spec (encode_frame w @ s) fr = (wf_payload w @ s, ?hd)"
    using readFrame_spec_sent [of "wf_opCode w" "wf_payload w" "wf_last w" fr "wf_key w" s] assms
    unfolding encode_frame_def deliverable_def by auto
  have "frame_spec (wf_payload w @ s) ?hd = (False, s, frame_reset ?h, frame_events w)"
    using assms
    by (cases "wf_opCode w")
       (auto simp: frame_spec_def isControlFrame_def header_frame_def control_spec_def frame_events_def
         data_spec_def isContinuationFrame_def deliverable_def sendable_def isOpCodeReserved_def frame_reset_def)
  moreover have "encode_frame w @ s \<noteq> []" by (simp add: encode_frame_def)
  moreover have "m_isValid ?hd" "m_processingState ?hd = Done" by (simp_all add: header_frame_def)
  ultimately show ?thesis
    using rd process_spec_unfold [of "encode_frame w @ s" fr] by simp
qed

lemma process_spec_stream:
  assumes "\<forall>w \<in> set ws. deliverable m w" "m_processingState fr = ReadHeader" "\<not> m_isFragmented fr"
    "m_maxAllowedMessageSize fr = m"
  shows "fst (process_spec (concat (map encode_frame ws)) fr) = [] \<and>
         snd (snd (process_spec (concat (map encode_frame ws)) fr)) = concat (map frame_events ws)"
  using assms
proof (induction ws arbitrary: fr)
  case Nil
  then show ?case by (simp add: process_spec.simps)
next
  case (Cons w ws)
  let ?g = "frame_reset (header_frame (wf_opCode w) (length (wf_payload w)) (wf_key w) (wf_last w) fr)"
  have "m_processingState ?g = ReadHeader" "\<not> m_isFragmented ?g" "m_maxAllowedMessageSize ?g = m"
    using Cons.prems by (simp_all add: frame_reset_def header_frame_def)
  with Cons.IH [of ?g] process_spec_frame [of fr w "concat (map encode_frame ws)"] Cons.prems
  show ?case by (auto split: prod.splits)
qed

lemma process_spec_stream_open:
  assumes "\<forall>w \<in> set ws. deliverable m w" "m_processingState fr = ReadHeader" "\<not> m_isFragmented fr"
    "m_maxAllowedMessageSize fr = m" "m_opCode fr \<noteq> Close"
  shows "m_opCode (fst (snd (process_spec (concat (map encode_frame ws)) fr))) \<noteq> Close"
  using assms
proof (induction ws arbitrary: fr)
  case Nil
  then show ?case by (simp add: process_spec.simps)
next
  case (Cons w ws)
  let ?g = "frame_reset (header_frame (wf_opCode w) (length (wf_payload w)) (wf_key w) (wf_last w) fr)"
  have "m_processingState ?g = ReadHeader" "\<not> m_isFragmented ?g" "m_maxAllowedMessageSize ?g = m" "m_opCode ?g \<noteq> Close"
    using Cons.prems by (simp_all add: frame_reset_def header_frame_def)
  with Cons.IH [of ?g] process_spec_frame [of fr w "concat (map encode_frame ws)"] Cons.prems
  show ?case by (auto split: prod.splits)
qed

end
