(* ===== verification/Lu_Frame_Correct.thy ===== *)
theory Lu_Frame_Correct
  imports Lu_Frame_Stream
begin

text \<open>
  What the frame codec and the message loop guarantee at the level of the code: on a
  \<open>SocketData\<close> over the socket's buffer, from the facts about the unread bytes that
  \<open>Lu_Frame\<close> and \<open>Lu_Frame_Stream\<close> prove.
\<close>

lemma Frame_entry: "n < 2 ^ 63 \<Longrightarrow> frame_entry (Frame n)"
  by (simp add: frame_entry_def Frame_def live_state_def DataWrap_wf)

lemma Frame_fields [simp]:
  "m_processingState (Frame n) = ReadHeader" "m_isFragmented (Frame n) = False"
  "m_maxAllowedMessageSize (Frame n) = n" "m_message (Frame n) = DataWrap n"
  by (simp_all add: Frame_def)

definition received :: "byte list \<Rightarrow> socket_data" where
  "received bs = \<lparr>sd_data = bs, sd_length = length bs, sd_readOffset = 0\<rparr>"

lemma received_wf: "length bs < 2 ^ 32 \<Longrightarrow> sd_wf (received bs) \<and> unread (received bs) = bs"
  by (simp add: received_def sd_wf_def unread_def slice_of_def)

lemma getFrameHeader_bytes:
  "getFrameHeader op len key lst = Some h \<Longrightarrow> len \<le> 0x7FFFFFFFFFFFFFFF \<Longrightarrow>
     dw_contents h = header_bytes op len key lst"
  using getFrameHeader_contents [of len op key lst] by (auto simp: dw_holds_def)

text \<open>
  C2. Encode and decode of a frame: for every legal opcode, every payload the receiver
  accepts and every masking key, reading the header that \<open>getFrameHeader\<close> wrote followed by
  the payload that \<open>mask\<close> masked ends in \<open>Done\<close> with the header's fields, the original
  payload unmasked in place at the read offset, and the bytes behind it untouched.
\<close>

theorem readFrame_sent_frame:
  assumes "sendable opCode (length payload) lst"
    and "length payload \<le> m_maxAllowedMessageSize fr" and "m_processingState fr = ReadHeader"
    and "getFrameHeader opCode (length payload) key lst = Some h"
    and "sd_wf sd" and "unread sd = dw_contents h @ mask_payload key payload @ rest"
  shows "\<exists>sd' fr'. readFrame sd fr = Some (sd', fr') \<and> m_processingState fr' = Done \<and> m_isValid fr' \<and>
           m_opCode fr' = opCode \<and> m_length fr' = length payload \<and> m_isFinalFrame fr' = lst \<and>
           unread sd' = payload @ rest \<and> sd_wf sd' \<and>
           sd_readOffset sd' = sd_readOffset sd + length (dw_contents h)"
proof -
  have "length payload \<le> 0x7FFFFFFFFFFFFFFF" using assms(1) by (simp add: sendable_def)
  with assms(4,6) have u: "unread sd = header_bytes opCode (length payload) key lst @ mask_payload key payload @ rest"
    and h: "dw_contents h = header_bytes opCode (length payload) key lst"
    using getFrameHeader_bytes by auto
  obtain sd' where r: "readFrame sd fr = Some (sd', snd (readFrame_spec (unread sd) fr))"
    "unread sd' = fst (readFrame_spec (unread sd) fr)" "sd_wf sd'" "sd_follows sd sd'"
    using readFrame_refines [OF assms(5), of fr] assms(3) by (auto simp: live_state_def)
  note spec = readFrame_spec_sent [OF assms(1,3,2), of key rest]
  have "length (unread sd') = sd_length sd' - sd_readOffset sd'"
    "length (unread sd) = sd_length sd - sd_readOffset sd"
    using length_unread r(3) assms(5) by auto
  with r spec u h assms(5) show ?thesis
    by (auto simp: header_frame_def sd_follows_def sd_wf_def)
qed

lemma readFrame_sent_frame_witness:
  "\<exists>h sd' fr'. getFrameHeader Text 2 7 True = Some h \<and>
     readFrame (received (dw_contents h @ mask_payload 7 [72, 105] @ [1])) (Frame 10) = Some (sd', fr') \<and>
     unread sd' = [72, 105, 1] \<and> m_processingState fr' = Done"
proof -
  obtain h where h: "getFrameHeader Text (length [72 :: byte, 105]) 7 True = Some h"
    "dw_contents h = header_bytes Text 2 7 True"
    using getFrameHeader_contents [of 2 Text 7 True] by (auto simp: dw_holds_def numeral_2_eq_2)
  let ?bs = "dw_contents h @ mask_payload 7 [72, 105] @ [1]"
  have "length ?bs < 2 ^ 32" by (simp add: h header_bytes_def)
  then have "sd_wf (received ?bs)" "unread (received ?bs) = ?bs" using received_wf by blast+
  moreover have "sendable Text (length [72 :: byte, 105]) True"
    by (simp add: sendable_def isOpCodeReserved_def)
  ultimately show ?thesis
    using readFrame_sent_frame [of Text "[72, 105]" True "Frame 10" 7 h "received ?bs" "[1]"] h
    by (auto simp: numeral_2_eq_2)
qed

text \<open>
  C1. Delivery of a stream: the encodings of any sequence of frames that the receiver takes,
  back to back in the buffer, are all consumed by one call of \<open>processMessage\<close>, and the
  application gets exactly their events, in order. The receiver takes (\<open>deliverable n\<close>) control
  frames of up to 125 bytes and unfragmented data messages of up to its maximum \<open>n\<close>, itself below
  \<open>2^63\<close>, and below \<open>2^32\<close> bytes; not those with more than \<open>0xFFFF\<close> bytes and bit 15 set in the length, which
  \<open>readFrame\<close> refuses whatever the maximum is (\<open>readFrame_refuses_bit15\<close>).
\<close>

theorem processMessage_delivers:
  assumes "\<forall>w \<in> set ws. deliverable n w" and "n < 2 ^ 63"
    and "sd_wf sd" and "unread sd = concat (map encode_frame ws)"
  shows "\<exists>sd' fr'. processMessage sd (Frame n) = Some (sd', fr', concat (map frame_events ws)) \<and>
           unread sd' = [] \<and> sd_readOffset sd' = sd_length sd"
proof -
  from processMessage_refines [OF Frame_entry [OF assms(2)] assms(3)] obtain sd' where
    p: "processMessage sd (Frame n) = Some (sd', snd (process_spec (unread sd) (Frame n)))"
    "unread sd' = fst (process_spec (unread sd) (Frame n))" "sd_wf sd'" "sd_follows sd sd'"
    by blast
  from process_spec_stream [OF assms(1), of "Frame n"] assms(4)
  have s: "fst (process_spec (unread sd) (Frame n)) = []"
    "snd (snd (process_spec (unread sd) (Frame n))) = concat (map frame_events ws)" by simp_all
  from p(2,3) s(1) have "sd_readOffset sd' = sd_length sd'"
    using length_unread [OF p(3)] by (simp add: sd_wf_def)
  with p s show ?thesis
    by (cases "process_spec (unread sd) (Frame n)") (auto simp: sd_follows_def)
qed

lemma processMessage_delivers_witness:
  "\<exists>sd' fr'. processMessage (received (concat (map encode_frame
        [\<lparr>wf_opCode = Text, wf_last = True, wf_key = 7, wf_payload = [72, 105]\<rparr>,
         \<lparr>wf_opCode = Ping, wf_last = True, wf_key = 9, wf_payload = [1]\<rparr>]))) (Frame 10) =
     Some (sd', fr', [OnData [72, 105], OnPing [1]])"
proof -
  let ?ws = "[\<lparr>wf_opCode = Text, wf_last = True, wf_key = 7, wf_payload = [72, 105]\<rparr>,
         \<lparr>wf_opCode = Ping, wf_last = True, wf_key = 9, wf_payload = [1]\<rparr>]"
  have "\<forall>w \<in> set ?ws. deliverable 10 w"
    by (simp add: deliverable_def sendable_def isOpCodeReserved_def)
  moreover have "length (concat (map encode_frame ?ws)) < 2 ^ 32"
    by (simp add: encode_frame_def header_bytes_def)
  moreover have "concat (map frame_events ?ws) = [OnData [72, 105], OnPing [1]]"
    by (simp add: frame_events_def)
  ultimately show ?thesis
    using processMessage_delivers [of ?ws 10 "received (concat (map encode_frame ?ws))"]
      received_wf [of "concat (map encode_frame ?ws)"] by force
qed

text \<open>
  C3. Segmentation: however the bytes of the connection are cut into two reads, the
  application gets the same events and the frame ends in the same state. The frame kept
  after the first read, with the unread remainder in front of the new bytes, resumes as if
  all the bytes had been there at once. (The first read must not have asked for a close:
  the socket stops then.)
\<close>

theorem processMessage_segmentation:
  assumes "n < 2 ^ 63"
    and "sd_wf sd" and "processMessage sd (Frame n) = Some (sd1, fr1, evs1)" and "m_opCode fr1 \<noteq> Close"
    and "sd_wf sd2" and "unread sd2 = unread sd1 @ q"
    and "sd_wf sd3" and "unread sd3 = unread sd @ q"
  shows "\<exists>sd2' sd3' fr' evs2.
           processMessage sd2 fr1 = Some (sd2', fr', evs2) \<and>
           processMessage sd3 (Frame n) = Some (sd3', fr', evs1 @ evs2) \<and>
           unread sd2' = unread sd3'"
proof -
  note entry = Frame_entry [OF assms(1)]
  from processMessage_refines [OF entry assms(2)] assms(3)
  have p1: "process_spec (unread sd) (Frame n) = (unread sd1, fr1, evs1)"
    by (cases "process_spec (unread sd) (Frame n)") auto
  from process_spec_segment [OF entry p1 assms(4), of q] have entry1: "frame_entry fr1"
    and whole: "process_spec (unread sd @ q) (Frame n) =
      (case process_spec (unread sd1 @ q) fr1 of (r2, fr2, evs2) \<Rightarrow> (r2, fr2, evs1 @ evs2))" by auto
  from processMessage_refines [OF entry1 assms(5)] processMessage_refines [OF entry assms(7)] whole assms(6,8)
  show ?thesis by (cases "process_spec (unread sd1 @ q) fr1") auto
qed

lemma processMessage_segmentation_witness:
  "\<exists>sd1 fr1 sd2' fr' sd3'.
     processMessage (received [0x81, 2, 72]) (Frame 10) = Some (sd1, fr1, []) \<and> unread sd1 = [72] \<and>
     processMessage (received [72, 105]) fr1 = Some (sd2', fr', [OnData [72, 105]]) \<and>
     processMessage (received [0x81, 2, 72, 105]) (Frame 10) = Some (sd3', fr', [OnData [72, 105]])"
proof -
  have wf: "sd_wf (received bs)" "unread (received bs) = bs" if "length bs < 10" for bs
    using that received_wf [of bs] by auto
  note entry = Frame_entry [of 10]
  have spec: "fst (process_spec [0x81, 2, 72] (Frame 10)) = [72]"
    "snd (snd (process_spec [0x81, 2, 72] (Frame 10))) = []"
    "m_opCode (fst (snd (process_spec [0x81, 2, 72] (Frame 10)))) = Text"
    "snd (snd (process_spec [0x81, 2, 72, 105] (Frame 10))) = [OnData [72, 105]]"
    by code_simp+
  obtain sd1 fr1 where one: "processMessage (received [0x81, 2, 72]) (Frame 10) = Some (sd1, fr1, [])"
    "unread sd1 = [72]" "m_opCode fr1 \<noteq> Close"
    using processMessage_refines [OF entry wf(1), of "[0x81, 2, 72]"] spec wf(2) [of "[0x81, 2, 72]"]
    by (cases "process_spec [0x81, 2, 72] (Frame 10)") auto
  obtain sd3' fr3 where three:
    "processMessage (received [0x81, 2, 72, 105]) (Frame 10) = Some (sd3', fr3, [OnData [72, 105]])"
    using processMessage_refines [OF entry wf(1), of "[0x81, 2, 72, 105]"] spec
      wf(2) [of "[0x81, 2, 72, 105]"]
    by (cases "process_spec [0x81, 2, 72, 105] (Frame 10)") auto
  from processMessage_segmentation [of 10 "received [0x81, 2, 72]" sd1 fr1 "[]" "received [72, 105]" "[105]"
      "received [0x81, 2, 72, 105]"] one three
  show ?thesis by (fastforce simp: wf)
qed

section \<open>What the loop refuses\<close>

lemma process_spec_fragment:
  assumes "sendable (wf_opCode w) (length (wf_payload w)) False" "wf_opCode w \<in> {Text, Binary}"
    and "length (wf_payload w) \<le> n" and "\<not> wf_last w"
  shows "snd (snd (process_spec (encode_frame w @ s) (Frame n))) = [] \<and>
         m_opCode (fst (snd (process_spec (encode_frame w @ s) (Frame n)))) = Close"
proof -
  let ?hd = "(header_frame (wf_opCode w) (length (wf_payload w)) (wf_key w) False (Frame n))\<lparr>m_processingState := Done\<rparr>"
  have rd: "readFrame_spec (encode_frame w @ s) (Frame n) = (wf_payload w @ s, ?hd)"
    using readFrame_spec_sent [of "wf_opCode w" "wf_payload w" False "Frame n" "wf_key w" s] assms
    by (simp add: encode_frame_def)
  moreover have "fst (frame_spec (wf_payload w @ s) ?hd) \<and> snd (snd (snd (frame_spec (wf_payload w @ s) ?hd))) = []
      \<and> m_opCode (fst (snd (snd (frame_spec (wf_payload w @ s) ?hd)))) = Close"
    using assms
    by (auto simp: frame_spec_def data_spec_def isControlFrame_def isContinuationFrame_def header_frame_def
        Frame_def DataWrap_def)
  moreover have "m_isValid ?hd" "m_processingState ?hd = Done" by (simp_all add: header_frame_def)
  moreover have "encode_frame w @ s \<noteq> []" by (simp add: encode_frame_def)
  ultimately show ?thesis
    using process_spec_unfold [of "encode_frame w @ s" "Frame n"]
    by (cases "frame_spec (wf_payload w @ s) ?hd") simp
qed

section \<open>Sending\<close>

lemma sendMsg_single:
  assumes "sz \<le> maxSize" "0 < maxSize" "sz \<le> length buffer" "sz \<le> 0x7FFFFFFFFFFFFFFF"
  shows "\<exists>sends. sendMsg rnd mustMask maxSize op buffer sz =
      Some (sends, (if mustMask then mask_payload (rnd 0) (take sz buffer) @ drop sz buffer else buffer), sz) \<and>
      concat sends = encode_frame \<lparr>wf_opCode = op, wf_last = True, wf_key = (if mustMask then rnd 0 else 0),
                                   wf_payload = take sz buffer\<rparr>"
proof -
  let ?key = "if mustMask then rnd 0 else 0"
  have n: "numFrames_of sz maxSize = 1"
  proof (cases "sz = maxSize")
    case True
    with assms(2) show ?thesis by (simp add: numFrames_of_def)
  next
    case False
    with assms have "sz div maxSize = 0" "sz mod maxSize = sz" by simp_all
    then show ?thesis by (simp add: numFrames_of_def)
  qed
  obtain h where h: "getFrameHeader op sz ?key True = Some h" "dw_contents h = header_bytes op sz ?key True"
    using getFrameHeader_contents [OF assms(4), of op ?key True] by (auto simp: dw_holds_def)
  have rd: "mem_read buffer 0 sz = Some (take sz buffer)"
    using assms(3) by (simp add: mem_read_def slice_of_def)
  have wr: "mem_write buffer 0 bs = Some (bs @ drop sz buffer)" if "length bs = sz" for bs
    using that assms(3) by (simp add: mem_write_def overwrite_def)
  have "min sz maxSize = sz" using assms(1) by simp
  with n h rd wr assms show ?thesis
    by (cases mustMask) (auto simp: sendMsg_def Let_def encode_frame_def mask_from_0)
qed

lemma sendMsg_fragments:
  assumes "maxSize < sz" "0 < maxSize" "sz \<le> length buffer" "maxSize \<le> 0x7FFFFFFFFFFFFFFF"
    "sendMsg rnd mustMask maxSize op buffer sz = Some (sends, buffer', n)"
  shows "\<exists>rest. concat sends = encode_frame \<lparr>wf_opCode = op, wf_last = False,
             wf_key = (if mustMask then rnd 0 else 0), wf_payload = take maxSize buffer\<rparr> @ rest"
proof -
  let ?key = "if mustMask then rnd 0 else 0"
  let ?n = "numFrames_of sz maxSize"
  have "?n > 1"
  proof -
    have "sz div maxSize \<ge> 1" using assms by (simp add: Suc_le_eq div_greater_zero_iff)
    moreover have "sz div maxSize = 1 \<Longrightarrow> sz mod maxSize \<noteq> 0"
      using assms(1) by (metis div_mult_mod_eq less_irrefl mult_1 add_0_right)
    ultimately show ?thesis by (fastforce simp: numFrames_of_def Let_def intro: le_neq_implies_less)
  qed
  then obtain k where k: "?n = Suc (Suc k)" by (auto dest: less_imp_Suc_add)
  obtain h where h: "getFrameHeader op maxSize ?key False = Some h" "dw_contents h = header_bytes op maxSize ?key False"
    using getFrameHeader_contents [OF assms(4), of op ?key False] by (auto simp: dw_holds_def)
  have rd: "mem_read buffer 0 maxSize = Some (take maxSize buffer)"
    using assms by (simp add: mem_read_def slice_of_def)
  have min: "min sz maxSize = maxSize" "min (length buffer) maxSize = maxSize" using assms by simp_all
  from assms(5) assms(1,2) k h rd min show ?thesis
    by (cases mustMask) (auto simp: sendMsg_def Let_def encode_frame_def mask_from_0 bind_eq_Some_conv
        simp del: sendFrames.simps(2) simp: sendFrames.simps(2) [of _ _ _ _ "Suc (Suc k)" "Suc k"])
qed

lemma numFrames_cover: "0 < m \<Longrightarrow> sz \<le> numFrames_of sz m * m"
proof -
  assume m: "0 < m"
  have eq: "sz = sz div m * m + sz mod m" by simp
  have "sz mod m \<le> m" using m by (simp add: less_imp_le)
  with eq have "sz \<le> Suc (sz div m) * m" unfolding mult_Suc by linarith
  moreover have "sz mod m = 0 \<Longrightarrow> sz = sz div m * m" by auto
  ultimately show ?thesis by (auto simp: numFrames_of_def Let_def)
qed

lemma length_header_bytes: "length (header_bytes op len key lst) \<le> 14"
  by (simp add: header_bytes_def)

lemma sendFrames_total:
  "pos + left \<le> length buffer \<Longrightarrow> maxSize \<le> 0x7FFFFFFFFFFFFFFF \<Longrightarrow>
     \<exists>sends buffer'. sendFrames rnd mustMask maxSize op numFrames todo pos left buffer =
       Some (sends, buffer', pos + min left (todo * maxSize)) \<and> length buffer' = length buffer \<and>
       length (concat sends) \<le> 14 * todo + left"
proof (induction todo arbitrary: pos left buffer)
  case 0
  then show ?case by simp
next
  case (Suc todo)
  let ?i = "numFrames - Suc todo"
  let ?sz = "min left maxSize"
  let ?key = "if mustMask then rnd ?i else 0"
  let ?payload = "take ?sz (drop pos buffer)"
  let ?masked = "if mustMask then mask_payload ?key ?payload else ?payload"
  have "?sz \<le> 0x7FFFFFFFFFFFFFFF" using Suc.prems(2) by simp
  then obtain h where h: "getFrameHeader (if ?i = 0 then op else Continue) ?sz ?key (?i = numFrames - 1) = Some h"
    "dw_contents h = header_bytes (if ?i = 0 then op else Continue) ?sz ?key (?i = numFrames - 1)"
    using getFrameHeader_contents [of ?sz _ ?key] by (meson dw_holds_def)
  have hl: "length (dw_contents h) \<le> 14" unfolding h(2) by (rule length_header_bytes)
  have rd: "mem_read buffer pos ?sz = Some ?payload"
    using Suc.prems(1) by (simp add: mem_read_def slice_of_def)
  have len: "length ?masked = ?sz" using Suc.prems(1) by simp
  have wr: "mem_write buffer pos ?masked = Some (overwrite buffer pos ?masked)"
    "length (overwrite buffer pos ?masked) = length buffer"
    using Suc.prems(1) len by (auto simp: mem_write_def overwrite_def)
  have "pos + ?sz + (left - ?sz) \<le> length (overwrite buffer pos ?masked)"
    using Suc.prems(1) wr(2) by simp
  from Suc.IH [OF this Suc.prems(2)] obtain sends buffer' where
    "sendFrames rnd mustMask maxSize op numFrames todo (pos + ?sz) (left - ?sz) (overwrite buffer pos ?masked) =
       Some (sends, buffer', pos + ?sz + min (left - ?sz) (todo * maxSize))"
    "length buffer' = length buffer" "length (concat sends) \<le> 14 * todo + (left - ?sz)" using wr(2) by auto
  moreover have "?sz + min (left - ?sz) (todo * maxSize) = min left (Suc todo * maxSize)" by auto
  moreover have "length ?masked \<le> left" using len by simp
  moreover have "length (dw_contents h @ ?masked @ concat sends) \<le> 14 * Suc todo + left"
    if "length (concat sends) \<le> 14 * todo + (left - ?sz)" for sends :: "byte list list"
    using that hl len by auto
  ultimately show ?case using h(1) rd wr len
    by (auto simp: Let_def)
qed

lemma sendMsg_total:
  assumes "0 < maxSize" "sz \<le> length buffer" "maxSize \<le> 0x7FFFFFFFFFFFFFFF"
  shows "\<exists>sends buffer'. sendMsg rnd mustMask maxSize op buffer sz = Some (sends, buffer', sz) \<and>
           length buffer' = length buffer \<and> length (concat sends) \<le> 14 * numFrames_of sz maxSize + sz"
proof -
  have "min sz (numFrames_of sz maxSize * maxSize) = sz" using numFrames_cover [OF assms(1)] by simp
  with assms sendFrames_total [of 0 sz buffer maxSize rnd mustMask op "numFrames_of sz maxSize" "numFrames_of sz maxSize"]
  show ?thesis by (simp add: sendMsg_def Let_def)
qed

text \<open>
  C4. The message loop is total and stays inside its memory: on any bytes a peer can send,
  from any frame kept between two reads, \<open>processMessage\<close> returns, reads and writes only
  received bytes, never moves the read offset back, and leaves either a frame fit for the
  next read or one whose opcode is \<open>Close\<close>.
\<close>

theorem processMessage_safe:
  assumes "frame_entry fr" and "sd_wf sd"
  shows "\<exists>sd' fr' evs. processMessage sd fr = Some (sd', fr', evs) \<and> sd_wf sd' \<and>
           sd_length sd' = sd_length sd \<and> length (sd_data sd') = length (sd_data sd) \<and>
           sd_readOffset sd \<le> sd_readOffset sd' \<and> sd_readOffset sd' \<le> sd_length sd \<and>
           (frame_entry fr' \<or> m_opCode fr' = Close)"
proof -
  obtain r fr' evs where p: "process_spec (unread sd) fr = (r, fr', evs)" by (cases "process_spec (unread sd) fr")
  from processMessage_refines [OF assms] p obtain sd' where
    "processMessage sd fr = Some (sd', fr', evs)" "sd_wf sd'" "sd_follows sd sd'" by auto
  moreover have "frame_entry fr' \<or> m_opCode fr' = Close"
    using process_spec_segment [OF assms(1) p, of "[]"] by blast
  ultimately show ?thesis by (auto simp: sd_follows_def sd_wf_def)
qed

lemma processMessage_safe_witness:
  "\<exists>sd' fr' evs. processMessage (received [0xFF, 0xFF, 1, 2]) (Frame 10) = Some (sd', fr', evs) \<and>
     sd_readOffset sd' \<le> 4"
proof -
  let ?sd = "received [0xFF, 0xFF, 1, 2]"
  have "frame_entry (Frame 10)" by (rule Frame_entry) simp
  moreover have "sd_wf ?sd" "sd_length ?sd = 4" by (simp_all add: received_def sd_wf_def)
  ultimately show ?thesis using processMessage_safe [of "Frame 10" ?sd] by force
qed

text \<open>
  A message that fits one frame round-trips through \<open>sendMsg\<close> and \<open>processMessage\<close>: the
  bytes given to \<open>send\<close> make one frame, which the receiver turns into the event of that
  message; \<open>sendMsg\<close> returns the message's size, and when it masks it leaves the caller's
  buffer masked.
\<close>

theorem sendMsg_delivered:
  assumes "0 < maxSize" and "sz \<le> maxSize" and "sz \<le> length buffer"
    and "sendable op sz True" and "op \<noteq> Continue" and "sz \<le> n" and "n < 2 ^ 63"
  shows "\<exists>sends. sendMsg rnd mustMask maxSize op buffer sz =
            Some (sends, (if mustMask then mask_payload (rnd 0) (take sz buffer) @ drop sz buffer else buffer), sz) \<and>
           (\<forall>sd. sd_wf sd \<and> unread sd = concat sends \<longrightarrow>
             (\<exists>sd' fr'. processMessage sd (Frame n) = Some (sd', fr',
                frame_events \<lparr>wf_opCode = op, wf_last = True, wf_key = 0, wf_payload = take sz buffer\<rparr>)))"
proof -
  let ?w = "\<lparr>wf_opCode = op, wf_last = True, wf_key = (if mustMask then rnd 0 else 0), wf_payload = take sz buffer\<rparr>"
  have "sz \<le> 0x7FFFFFFFFFFFFFFF" using assms(6,7) by simp
  from sendMsg_single [OF assms(2,1,3) this, of rnd mustMask op] obtain sends where
    s: "sendMsg rnd mustMask maxSize op buffer sz =
      Some (sends, (if mustMask then mask_payload (rnd 0) (take sz buffer) @ drop sz buffer else buffer), sz)"
    "concat sends = encode_frame ?w" by blast
  have d: "deliverable n ?w" using assms by (simp add: deliverable_def min_absorb2)
  have ev: "frame_events ?w = frame_events \<lparr>wf_opCode = op, wf_last = True, wf_key = 0, wf_payload = take sz buffer\<rparr>"
    by (cases op) (simp_all add: frame_events_def)
  have "\<exists>sd' fr'. processMessage sd (Frame n) = Some (sd', fr', frame_events ?w)"
    if "sd_wf sd" "unread sd = concat sends" for sd
  proof -
    from process_spec_stream [of "[?w]" n "Frame n"] d
    have e: "snd (snd (process_spec (encode_frame ?w) (Frame n))) = frame_events ?w" by simp
    from processMessage_refines [OF Frame_entry [OF assms(7)] that(1)] that(2) s(2) e
    show ?thesis by (cases "process_spec (encode_frame ?w) (Frame n)") auto
  qed
  with s ev show ?thesis by auto
qed

lemma sendMsg_delivered_witness:
  "\<exists>sends. sendMsg (\<lambda>_. 0x01020304) True 100 Text [72, 105, 33] 3 = Some (sends, [73, 107, 34], 3) \<and>
     (\<exists>sd' fr'. processMessage (received (concat sends)) (Frame 10) = Some (sd', fr', [OnData [72, 105, 33]]))"
proof -
  have ok: "sendable Text 3 True" by (simp add: sendable_def isOpCodeReserved_def)
  have len: "length (concat (fst (the (sendMsg (\<lambda>_. 0x01020304) True 100 Text [72, 105, 33] 3)))) < 2 ^ 32"
    using sendMsg_single [of 3 100 "[72, 105, 33]" "\<lambda>_. 0x01020304" True Text]
    by (auto simp: encode_frame_def header_bytes_def)
  have masked: "mask_payload 0x01020304 [72, 105, 33] = [73, 107, 34]" by code_simp
  have ev: "frame_events \<lparr>wf_opCode = Text, wf_last = True, wf_key = 0, wf_payload = take 3 [72, 105, 33]\<rparr> =
      [OnData [72, 105, 33]]"
    by (simp add: frame_events_def)
  have "3 \<le> length [72 :: byte, 105, 33]" "(10 :: nat) < 2 ^ 63" by simp_all
  from sendMsg_delivered [of 100 3 "[72, 105, 33]" Text 10 "\<lambda>_. 0x01020304" True, OF _ _ this(1) ok _ _ this(2)]
  obtain sends where s: "sendMsg (\<lambda>_. 0x01020304) True 100 Text [72, 105, 33] 3 = Some (sends, [73, 107, 34], 3)"
    and d: "\<forall>sd. sd_wf sd \<and> unread sd = concat sends \<longrightarrow>
      (\<exists>sd' fr'. processMessage sd (Frame 10) = Some (sd', fr', [OnData [72, 105, 33]]))"
    unfolding ev using masked by auto
  from s len have "length (concat sends) < 2 ^ 32" by simp
  from d received_wf [OF this] s show ?thesis by blast
qed

text \<open>
  A message larger than the sender's maximum never arrives at a receiver of this
  library. \<open>sendMsg\<close> splits it into fragments; the test of \<open>append\<close> in \<open>processMessage\<close> is
  inverted, so the receiver answers the first fragment, which does fit its buffer, with the
  "message is too big" close.
\<close>

theorem sendMsg_fragmented_refused:
  assumes "0 < maxSize" and "maxSize < sz" and "sz \<le> length buffer"
    and "sendable op maxSize False" and "op \<in> {Text, Binary}" and "maxSize \<le> n" and "n < 2 ^ 63"
  shows "\<exists>sends buffer'. sendMsg rnd mustMask maxSize op buffer sz = Some (sends, buffer', sz) \<and>
           (\<forall>sd. sd_wf sd \<and> unread sd = concat sends \<longrightarrow>
             (\<exists>sd' fr'. processMessage sd (Frame n) = Some (sd', fr', []) \<and> m_opCode fr' = Close))"
proof -
  let ?w = "\<lparr>wf_opCode = op, wf_last = False, wf_key = (if mustMask then rnd 0 else 0), wf_payload = take maxSize buffer\<rparr>"
  have m: "maxSize \<le> 0x7FFFFFFFFFFFFFFF" using assms(6,7) by simp
  obtain sends buffer' where s: "sendMsg rnd mustMask maxSize op buffer sz = Some (sends, buffer', sz)"
    using sendMsg_total [OF assms(1,3) m] by blast
  obtain rest where c: "concat sends = encode_frame ?w @ rest"
    using sendMsg_fragments [OF assms(2,1,3) m s] by blast
  have "\<exists>sd' fr'. processMessage sd (Frame n) = Some (sd', fr', []) \<and> m_opCode fr' = Close"
    if "sd_wf sd" "unread sd = concat sends" for sd
  proof -
    have "length (wf_payload ?w) = maxSize" using assms by simp
    with process_spec_fragment [of ?w n rest] assms
    have "snd (snd (process_spec (encode_frame ?w @ rest) (Frame n))) = [] \<and>
        m_opCode (fst (snd (process_spec (encode_frame ?w @ rest) (Frame n)))) = Close" by simp
    with processMessage_refines [OF Frame_entry [OF assms(7)] that(1)] that(2) c
    show ?thesis by (cases "process_spec (encode_frame ?w @ rest) (Frame n)") auto
  qed
  with s show ?thesis by blast
qed

lemma sendMsg_fragmented_refused_witness:
  "\<exists>sends buffer'. sendMsg (\<lambda>_. 0) False 2 Text [72, 105, 33] 3 = Some (sends, buffer', 3) \<and>
     (\<exists>sd' fr'. processMessage (received (concat sends)) (Frame 10) = Some (sd', fr', []) \<and> m_opCode fr' = Close)"
proof -
  have ok: "sendable Text 2 False" by (simp add: sendable_def isOpCodeReserved_def)
  have len: "length (concat (fst (the (sendMsg (\<lambda>_. 0) False 2 Text [72, 105, 33] 3)))) < 2 ^ 32"
    using sendMsg_total [of 2 3 "[72, 105, 33]" "\<lambda>_. 0" False Text] by (auto simp: numFrames_of_def)
  have "3 \<le> length [72 :: byte, 105, 33]" "(10 :: nat) < 2 ^ 63" by simp_all
  from sendMsg_fragmented_refused [of 2 3 "[72, 105, 33]" Text 10 "\<lambda>_. 0" False, OF _ _ this(1) ok _ _ this(2)]
  obtain sends buffer' where s: "sendMsg (\<lambda>_. 0) False 2 Text [72, 105, 33] 3 = Some (sends, buffer', 3)"
    and d: "\<forall>sd. sd_wf sd \<and> unread sd = concat sends \<longrightarrow>
      (\<exists>sd' fr'. processMessage sd (Frame 10) = Some (sd', fr', []) \<and> m_opCode fr' = Close)"
    by auto
  from s len have "length (concat sends) < 2 ^ 32" by simp
  from d received_wf [OF this] s show ?thesis by blast
qed

text \<open>
  The 64-bit length check looks at bit 15 where its comment asks for bit 63: a frame the
  sender produces for a payload of, say, 98304 bytes is refused whatever the receiver's
  maximum is.
\<close>

theorem readFrame_refuses_bit15:
  assumes "0xFFFF < len" and "len < 2 ^ 32" and "len AND 0x8000 \<noteq> 0"
    and "op \<in> {Text, Binary}" and "sd_wf sd" and "unread sd = header_bytes op len key lst @ rest"
  shows "\<exists>sd' fr'. readFrame sd (Frame n) = Some (sd', fr') \<and> m_processingState fr' = Done \<and>
           \<not> m_isValid fr' \<and> m_closeCode fr' = CloseCodeProtocolError"
proof -
  let ?b = "[first_byte op lst, second_byte key 127]"
  define tail where "tail = (if key \<noteq> 0 then be_bytes 4 (unat key) else []) @ rest"
  define h where "h = header_frame op 127 (if key \<noteq> 0 then 0x80 else 0) lst (Frame n)"
  let ?f1 = "h\<lparr>m_processingState := ReadPayloadLength\<rparr>"
  let ?f2 = "setError CloseCodeProtocolError ''Highest bit of payload length is not 0.'' (?f1\<lparr>m_length := len\<rparr>)"
  have h: "m_length h = 127" by (simp add: h_def header_frame_def)
  have "sendable op 70000 lst" using assms(4) by (auto simp: sendable_def isOpCodeReserved_def)
  from decodeHeader_sent [OF this, of key "Frame n"]
  have d: "decodeHeader ?b (Frame n) = (ReadPayloadLength, h)" by (simp add: wire_length_def h_def)
  have u: "unread sd = ?b @ be_bytes 8 len @ tail"
    using assms(1,6) by (simp add: header_bytes_def tail_def)
  have one: "stage_spec ReadHeader (unread sd) (Frame n) = (ReadPayloadLength, be_bytes 8 len @ tail, h)"
    unfolding u stage_spec_def processing_state.case by (subst read_spec_sent) (simp_all add: d)
  have two: "stage_spec ReadPayloadLength (be_bytes 8 len @ tail) ?f1 = (Done, tail, ?f2)"
    using assms(2,3) h by (simp add: stage_spec_def read_spec_sent decodeLength64_def be_nat_wire64)
  have "run_spec 4 (unread sd) (Frame n) = run_spec 3 (be_bytes 8 len @ tail) ?f1"
    using run_spec_step [of "Frame n" "unread sd" _ _ _ 3] one by simp
  also have "\<dots> = run_spec 2 tail (?f2\<lparr>m_processingState := Done\<rparr>)"
    using run_spec_step [of ?f1 "be_bytes 8 len @ tail" _ _ _ 2] two by simp
  also have "\<dots> = (tail, ?f2\<lparr>m_processingState := Done\<rparr>)" by (simp add: numeral_2_eq_2)
  finally have "snd (readFrame_spec (unread sd) (Frame n)) = ?f2\<lparr>m_processingState := Done\<rparr>"
    by (simp add: readFrame_spec_def)
  with readFrame_refines [OF assms(5), of "Frame n"] show ?thesis
    by (auto simp: setError_def frame_reset_def live_state_def)
qed

lemma readFrame_refuses_bit15_witness:
  "\<exists>sd' fr'. readFrame (received (header_bytes Binary 98304 0 True)) (Frame 1000000) = Some (sd', fr') \<and>
     \<not> m_isValid fr'"
proof -
  have "length (header_bytes Binary 98304 0 True) < 2 ^ 32" by (simp add: header_bytes_def)
  then show ?thesis
    using readFrame_refuses_bit15 [of 98304 Binary "received (header_bytes Binary 98304 0 True)" 0 True "[]" 1000000]
      received_wf [of "header_bytes Binary 98304 0 True"] by auto
qed

end
