(* ===== verification/Lu_Common.thy ===== *)
theory Lu_Common
  imports Lu_Prelude
begin

text \<open>
  The index arithmetic of \<open>include/common/Common.h\<close> on 32-bit \<open>unsigned\<close>: the power of two
  a queue's size is rounded to and the permutation that spreads neighbouring tickets over
  cache lines.
\<close>

unbundle bit_operations_syntax

definition GetCacheLineIndexBitsSize :: "nat \<Rightarrow> nat" where
  "GetCacheLineIndexBitsSize elementsPerCacheLine =
     (if elementsPerCacheLine = 256 then 8 else if elementsPerCacheLine = 128 then 7
      else if elementsPerCacheLine = 64 then 6 else if elementsPerCacheLine = 32 then 5
      else if elementsPerCacheLine = 16 then 4 else if elementsPerCacheLine = 8 then 3
      else if elementsPerCacheLine = 4 then 2 else if elementsPerCacheLine = 2 then 1 else 0)"

definition GetIndexShuffleBits :: "bool \<Rightarrow> nat \<Rightarrow> nat \<Rightarrow> nat" where
  "GetIndexShuffleBits minimizeContention arraySize elementsPerCacheLine =
     (let indexBitsSize = GetCacheLineIndexBitsSize elementsPerCacheLine;
          minSize = 2 ^ (indexBitsSize * 2)
      in if minimizeContention \<and> arraySize \<ge> minSize then indexBitsSize else 0)"

definition remapIndex :: "nat \<Rightarrow> u32 \<Rightarrow> u32" where
  "remapIndex bits index =
     (if bits = 0 then index
      else let mixMask = push_bit bits 1 - 1;
               mix = (index XOR drop_bit bits index) AND mixMask
           in (index XOR mix) XOR push_bit bits mix)"

definition nextPowerOfTwo :: "u32 \<Rightarrow> u32" where
  "nextPowerOfTwo n0 =
     (let n = n0 - 1;
          n = n OR drop_bit 1 n;
          n = n OR drop_bit 2 n;
          n = n OR drop_bit 4 n;
          n = n OR drop_bit 8 n;
          n = n OR drop_bit 16 n
      in n + 1)"

section \<open>The index permutation\<close>

lemma mask_word: "(2 ^ n - 1 :: u32) = mask n"
  by (simp add: mask_eq_exp_minus_1)

lemma unat_exp32: "k < 32 \<Longrightarrow> unat (2 ^ k :: u32) = 2 ^ k"
proof -
  assume "k < 32"
  then have "unat (word_of_nat (2 ^ k) :: u32) = 2 ^ k"
    by (simp only: unsigned_of_nat) (simp add: take_bit_nat_eq_self_iff)
  then show ?thesis by simp
qed

lemma bit_u32: "bit (x :: u32) n \<Longrightarrow> n < 32"
  using bit_imp_le_length [of x n] by simp

lemma bit_remapIndex:
  assumes "2 * b \<le> 32" "n < 32"
  shows "bit (remapIndex b x) n \<longleftrightarrow>
         (if n < b then bit x (n + b) else if n < 2 * b then bit x (n - b) else bit x n)"
  using assms
  by (auto simp: remapIndex_def Let_def mask_word bit_simps add.commute [of b])

lemma remapIndex_involution:
  assumes "2 * b \<le> 32"
  shows "remapIndex b (remapIndex b x) = x"
  by (rule bit_word_eqI) (use assms in \<open>auto simp: bit_remapIndex\<close>)

lemma word_less_exp_iff_bits:
  fixes x :: u32
  assumes "k < 32"
  shows "x < 2 ^ k \<longleftrightarrow> (\<forall>n. k \<le> n \<and> n < 32 \<longrightarrow> \<not> bit x n)"
proof -
  have "x < 2 ^ k \<longleftrightarrow> take_bit k x = x"
  proof -
    have "unat (2 ^ k :: u32) = 2 ^ k" using assms by (simp add: unat_exp32)
    then have "x < 2 ^ k \<longleftrightarrow> unat x < 2 ^ k" by (simp add: word_less_nat_alt)
    also have "\<dots> \<longleftrightarrow> take_bit k (unat x) = unat x" by (simp add: take_bit_nat_eq_self_iff)
    also have "\<dots> \<longleftrightarrow> take_bit k x = x" by (metis unsigned_take_bit_eq word_unat_eq_iff)
    finally show ?thesis .
  qed
  also have "\<dots> \<longleftrightarrow> (\<forall>n. k \<le> n \<and> n < 32 \<longrightarrow> \<not> bit x n)"
    by (auto simp: bit_eq_iff bit_take_bit_iff) (metis bit_u32 linorder_not_le)+
  finally show ?thesis .
qed

lemma remapIndex_bound:
  assumes "2 * b \<le> k" "k < 32" "x < 2 ^ k"
  shows "remapIndex b x < 2 ^ k"
  using assms by (auto simp: word_less_exp_iff_bits bit_remapIndex)

text \<open>The shuffle width that the queues choose fits their power-of-two size.\<close>

lemma shuffle_bits_fit:
  "2 * GetIndexShuffleBits mc (2 ^ k) n \<le> k"
proof -
  have "2 ^ (2 * GetIndexShuffleBits mc (2 ^ k) n) \<le> (2 ^ k :: nat)"
    by (auto simp: GetIndexShuffleBits_def Let_def mult.commute)
  then show ?thesis by simp
qed

section \<open>Rounding up to a power of two\<close>

lemma smear_bits:
  fixes m :: u32
  assumes s1: "s1 = m OR drop_bit 1 m" and s2: "s2 = s1 OR drop_bit 2 s1" and s4: "s4 = s2 OR drop_bit 4 s2"
    and s8: "s8 = s4 OR drop_bit 8 s4" and s16: "s16 = s8 OR drop_bit 16 s8"
  shows "bit s16 n \<longleftrightarrow> (\<exists>j < 32. bit m (n + j))"
proof -
  have split: "(\<exists>j < 2 * k. bit m (n + j)) \<longleftrightarrow> (\<exists>j < k. bit m (n + j)) \<or> (\<exists>j < k. bit m (n + k + j))" for n k
  proof
    assume "\<exists>j < 2 * k. bit m (n + j)"
    then obtain j where j: "j < 2 * k" "bit m (n + j)" by blast
    show "(\<exists>j < k. bit m (n + j)) \<or> (\<exists>j < k. bit m (n + k + j))"
    proof (cases "j < k")
      case False
      with j have "j - k < k \<and> bit m (n + k + (j - k))" by simp
      then show ?thesis by blast
    qed (use j in blast)
  next
    assume "(\<exists>j < k. bit m (n + j)) \<or> (\<exists>j < k. bit m (n + k + j))"
    then show "\<exists>j < 2 * k. bit m (n + j)"
      by (metis add.assoc add_strict_mono mult_2 trans_less_add1 nat_add_left_cancel_less)
  qed
  have b1: "bit s1 n \<longleftrightarrow> (\<exists>j < 2. bit m (n + j))" for n
    unfolding s1 by (auto simp: bit_simps less_2_cases_iff add.commute)
  have b2: "bit s2 n \<longleftrightarrow> (\<exists>j < 4. bit m (n + j))" for n
    using split [of 2 n] unfolding s2 by (simp add: bit_simps b1 add.commute [of 2])
  have b4: "bit s4 n \<longleftrightarrow> (\<exists>j < 8. bit m (n + j))" for n
    using split [of 4 n] unfolding s4 by (simp add: bit_simps b2 add.commute [of 4])
  have b8: "bit s8 n \<longleftrightarrow> (\<exists>j < 16. bit m (n + j))" for n
    using split [of 8 n] unfolding s8 by (simp add: bit_simps b4 add.commute [of 8])
  show ?thesis
    using split [of 16 n] unfolding s16 by (simp add: bit_simps b8 add.commute [of 16])
qed

lemma nextPowerOfTwo_smear:
  "m = n - 1 \<Longrightarrow> \<exists>s. nextPowerOfTwo n = s + 1 \<and> (\<forall>i. bit s i \<longleftrightarrow> (\<exists>j < 32. bit m (i + j)))"
  unfolding nextPowerOfTwo_def Let_def using smear_bits [OF refl refl refl refl refl, of m] by blast

lemma nextPowerOfTwo_exp:
  assumes "2 ^ k < unat n" "unat n \<le> 2 ^ Suc k" "k < 31"
  shows "nextPowerOfTwo n = 2 ^ Suc k"
proof -
  let ?m = "n - 1"
  obtain s where s: "nextPowerOfTwo n = s + 1" "\<And>i. bit s i \<longleftrightarrow> (\<exists>j < 32. bit ?m (i + j))"
    using nextPowerOfTwo_smear by blast
  have "n \<noteq> 0" using assms(1) by (metis unat_0 not_less_zero)
  then have m: "unat ?m = unat n - 1" by (simp add: unat_minus_one)
  have low: "?m < 2 ^ Suc k"
    using assms m by (simp add: word_less_nat_alt unat_exp32 del: power_Suc)
  have top: "bit ?m k"
  proof -
    have "unat ?m div 2 ^ k = 1"
      using assms m by (intro div_nat_eqI) auto
    then have "bit (unat ?m) k" by (simp add: bit_iff_odd)
    then show ?thesis by (simp add: bit_unsigned_iff)
  qed
  have none: "\<not> bit ?m i" if "Suc k \<le> i" for i
    using low that assms(3) word_less_exp_iff_bits [of "Suc k" ?m] bit_u32 [of ?m i] by auto
  have "s = mask (Suc k)"
  proof (rule bit_word_eqI)
    fix i assume "i < LENGTH(32)"
    show "bit s i = bit (mask (Suc k) :: u32) i"
    proof (cases "i \<le> k")
      case True
      then have "bit ?m (i + (k - i)) \<and> k - i < 32" using top assms(3) by simp
      with True s(2) assms(3) show ?thesis by (auto simp: bit_simps)
    next
      case False
      with s(2) none show ?thesis by (auto simp: bit_simps)
    qed
  qed
  with s(1) show ?thesis by (simp add: mask_eq_exp_minus_1)
qed

end
