(* ===== verification/Lu_Queue.thy ===== *)
theory Lu_Queue
  imports Lu_Common "HOL-Library.Multiset"
begin

text \<open>
  The bounded lock-free queue of \<open>include/queue/Queue.h\<close>: \<open>QueueBase\<close> with the slots of
  \<open>AtomicQueue2\<close>. Every atomic access, and every access to a slot's element, is one step of
  a thread; any interleaving of the steps of any number of threads is a run. The model is
  sequentially consistent: the memory orders of the code are not represented.
\<close>

section \<open>State\<close>

datatype slot_state = EMPTY | STORING | STORED | LOADING

record qconf =
  m_queueSize :: u32
  m_shuffleBits :: nat
  m_isSPSC :: bool

text \<open>The static members of \<open>AtomicQueue2<T, SIZE, MINIMIZE_CONTENTION, ..., SPSC>\<close>; a cache
  line of 64 bytes holds 64 one-byte states.\<close>

definition AtomicQueue2 :: "u32 \<Rightarrow> bool \<Rightarrow> bool \<Rightarrow> qconf" where
  "AtomicQueue2 SIZE minimizeContention SPSC =
     (let queueSize = (if minimizeContention then nextPowerOfTwo SIZE else SIZE)
      in \<lparr>m_queueSize = queueSize,
          m_shuffleBits = GetIndexShuffleBits minimizeContention (unat queueSize) (64 div 1),
          m_isSPSC = SPSC\<rparr>)"

record 'a queue =
  m_head :: u32
  m_tail :: u32
  m_states :: "slot_state list"
  m_elements :: "'a list"

datatype 'a qop = TryPush 'a | Push 'a | TryPop | Pop

text \<open>Where a thread is inside an operation, with its local variables.\<close>

datatype 'a qpc =
  Idle
| TryPushTest 'a u32 | TryPushTake 'a u32 | PushTake 'a u32
| PushSpin 'a u32 | PushWrite 'a nat | PushRelease 'a nat
| TryPopTest u32 | TryPopTake u32 | PopTake u32
| PopSpin u32 | PopRead nat | PopRelease nat 'a

datatype 'a qevent = Pushed 'a | Popped 'a | Refused

section \<open>Steps\<close>

definition slot_index :: "qconf \<Rightarrow> u32 \<Rightarrow> nat" where
  "slot_index c ticket = unat (remapIndex (m_shuffleBits c) (ticket mod m_queueSize c))"

text \<open>\<open>static_cast<int>(head - tail) >= static_cast<int>(m_queueSize)\<close>\<close>

definition looks_full :: "qconf \<Rightarrow> u32 \<Rightarrow> u32 \<Rightarrow> bool" where
  "looks_full c head tail \<longleftrightarrow> sint (head - tail) \<ge> sint (m_queueSize c)"

definition looks_empty :: "u32 \<Rightarrow> u32 \<Rightarrow> bool" where
  "looks_empty head tail \<longleftrightarrow> sint (head - tail) \<le> 0"

definition was_size :: "'a queue \<Rightarrow> nat" where
  "was_size q = nat (max (sint (m_head q - m_tail q)) 0)"

text \<open>\<open>was_full\<close> compares an \<open>unsigned\<close> with an \<open>int\<close>, as unsigned numbers.\<close>

definition was_empty :: "'a queue \<Rightarrow> bool" where
  "was_empty q \<longleftrightarrow> was_size q = 0"

definition capacity :: "qconf \<Rightarrow> nat" where
  "capacity c = unat (m_queueSize c)"

definition was_full :: "qconf \<Rightarrow> 'a queue \<Rightarrow> bool" where
  "was_full c q \<longleftrightarrow> capacity c \<le> was_size q"

text \<open>The entry of the four operations: what happens up to the first local state.\<close>

fun start_op :: "qconf \<Rightarrow> 'a qop \<Rightarrow> 'a queue \<Rightarrow> 'a queue \<times> 'a qpc" where
  "start_op c (TryPush x) q = (q, TryPushTest x (m_head q))"
| "start_op c (Push x) q =
     (if m_isSPSC c then (q, PushTake x (m_head q))
      else (q\<lparr>m_head := m_head q + 1\<rparr>, PushSpin x (m_head q)))"
| "start_op c TryPop q = (q, TryPopTest (m_tail q))"
| "start_op c Pop q =
     (if m_isSPSC c then (q, PopTake (m_tail q))
      else (q\<lparr>m_tail := m_tail q + 1\<rparr>, PopSpin (m_tail q)))"

text \<open>\<open>do_push_any\<close>: wait for the slot, write the element, release it.\<close>

fun push_slot :: "qconf \<Rightarrow> 'a queue \<Rightarrow> 'a qpc \<Rightarrow> 'a queue \<times> 'a qpc \<times> 'a qevent list" where
  "push_slot c q (PushSpin x head) =
     (let i = slot_index c head in
      if m_states q ! i = EMPTY
      then (if m_isSPSC c then q else q\<lparr>m_states := (m_states q)[i := STORING]\<rparr>, PushWrite x i, [])
      else (q, PushSpin x head, []))"
| "push_slot c q (PushWrite x i) =
     (q\<lparr>m_elements := (m_elements q)[i := x]\<rparr>, PushRelease x i, [])"
| "push_slot c q (PushRelease x i) =
     (q\<lparr>m_states := (m_states q)[i := STORED]\<rparr>, Idle, [Pushed x])"
| "push_slot c q pc = (q, pc, [])"

text \<open>\<open>do_pop_any\<close>.\<close>

fun pop_slot :: "qconf \<Rightarrow> 'a queue \<Rightarrow> 'a qpc \<Rightarrow> 'a queue \<times> 'a qpc \<times> 'a qevent list" where
  "pop_slot c q (PopSpin tail) =
     (let i = slot_index c tail in
      if m_states q ! i = STORED
      then (if m_isSPSC c then q else q\<lparr>m_states := (m_states q)[i := LOADING]\<rparr>, PopRead i, [])
      else (q, PopSpin tail, []))"
| "pop_slot c q (PopRead i) = (q, PopRelease i (m_elements q ! i), [])"
| "pop_slot c q (PopRelease i x) =
     (q\<lparr>m_states := (m_states q)[i := EMPTY]\<rparr>, Idle, [Popped x])"
| "pop_slot c q pc = (q, pc, [])"

text \<open>
  \<open>try_push\<close>, \<open>push\<close>, \<open>try_pop\<close> and \<open>pop\<close>: the capacity test on the loaded counters, taking
  a ticket (a plain store for one producer, compare-and-exchange otherwise), then the slot.
\<close>

fun thread_step :: "qconf \<Rightarrow> 'a qop \<Rightarrow> 'a queue \<Rightarrow> 'a qpc \<Rightarrow> 'a queue \<times> 'a qpc \<times> 'a qevent list" where
  "thread_step c op q Idle = (case start_op c op q of (q', pc) \<Rightarrow> (q', pc, []))"
| "thread_step c op q (TryPushTest x head) =
     (if looks_full c head (m_tail q) then (q, Idle, [Refused]) else (q, TryPushTake x head, []))"
| "thread_step c op q (TryPushTake x head) =
     (if m_isSPSC c \<or> m_head q = head
      then (q\<lparr>m_head := head + 1\<rparr>, PushSpin x head, [])
      else (q, TryPushTest x (m_head q), []))"
| "thread_step c op q (PushTake x head) = (q\<lparr>m_head := head + 1\<rparr>, PushSpin x head, [])"
| "thread_step c op q (TryPopTest tail) =
     (if looks_empty (m_head q) tail then (q, Idle, [Refused]) else (q, TryPopTake tail, []))"
| "thread_step c op q (TryPopTake tail) =
     (if m_isSPSC c \<or> m_tail q = tail
      then (q\<lparr>m_tail := tail + 1\<rparr>, PopSpin tail, [])
      else (q, TryPopTest (m_tail q), []))"
| "thread_step c op q (PopTake tail) = (q\<lparr>m_tail := tail + 1\<rparr>, PopSpin tail, [])"
| "thread_step c op q (PushSpin x head) = push_slot c q (PushSpin x head)"
| "thread_step c op q (PushWrite x i) = push_slot c q (PushWrite x i)"
| "thread_step c op q (PushRelease x i) = push_slot c q (PushRelease x i)"
| "thread_step c op q (PopSpin tail) = pop_slot c q (PopSpin tail)"
| "thread_step c op q (PopRead i) = pop_slot c q (PopRead i)"
| "thread_step c op q (PopRelease i x) = pop_slot c q (PopRelease i x)"

record 'a qsys =
  shared :: "'a queue"
  pcs :: "nat \<Rightarrow> 'a qpc"
  trace :: "'a qevent list"

definition qinit :: "qconf \<Rightarrow> 'a \<Rightarrow> 'a qsys" where
  "qinit c dflt = \<lparr>
     shared = \<lparr>m_head = 0, m_tail = 0, m_states = replicate (unat (m_queueSize c)) EMPTY,
               m_elements = replicate (unat (m_queueSize c)) dflt\<rparr>,
     pcs = (\<lambda>_. Idle), trace = []\<rparr>"

text \<open>Thread \<open>t\<close> takes a step; \<open>op\<close> is the operation it starts if it is idle.\<close>

definition sys_step :: "qconf \<Rightarrow> nat \<Rightarrow> 'a qop \<Rightarrow> 'a qsys \<Rightarrow> 'a qsys" where
  "sys_step c t op s =
     (case thread_step c op (shared s) (pcs s t) of (q, pc, evs) \<Rightarrow>
        \<lparr>shared = q, pcs = (pcs s)(t := pc), trace = trace s @ evs\<rparr>)"

inductive reach :: "qconf \<Rightarrow> (nat \<Rightarrow> 'a qop \<Rightarrow> bool) \<Rightarrow> 'a \<Rightarrow> 'a qsys \<Rightarrow> bool" for c allowed dflt where
  init: "reach c allowed dflt (qinit c dflt)"
| step: "reach c allowed dflt s \<Longrightarrow> allowed t op \<Longrightarrow> reach c allowed dflt (sys_step c t op s)"

primrec run_steps :: "qconf \<Rightarrow> (nat \<times> 'a qop) list \<Rightarrow> 'a qsys \<Rightarrow> 'a qsys" where
  "run_steps c [] s = s"
| "run_steps c (m # ms) s = run_steps c ms (sys_step c (fst m) (snd m) s)"

lemma reach_run:
  "reach c allowed dflt s \<Longrightarrow> \<forall>m \<in> set ms. allowed (fst m) (snd m) \<Longrightarrow>
     reach c allowed dflt (run_steps c ms s)"
  by (induction ms arbitrary: s) (auto intro: reach.step)

definition pushed :: "'a qevent list \<Rightarrow> 'a list" where
  "pushed evs = concat (map (\<lambda>e. case e of Pushed x \<Rightarrow> [x] | _ \<Rightarrow> []) evs)"

definition popped :: "'a qevent list \<Rightarrow> 'a list" where
  "popped evs = concat (map (\<lambda>e. case e of Popped x \<Rightarrow> [x] | _ \<Rightarrow> []) evs)"

lemma pushed_simps [simp]:
  "pushed [] = []" "pushed (xs @ ys) = pushed xs @ pushed ys" "pushed [Pushed x] = [x]"
  "pushed [Popped x] = []" "pushed [Refused] = []"
  by (simp_all add: pushed_def)

lemma popped_simps [simp]:
  "popped [] = []" "popped (xs @ ys) = popped xs @ popped ys" "popped [Pushed x] = []"
  "popped [Popped x] = [x]" "popped [Refused] = []"
  by (simp_all add: popped_def)

section \<open>Slot indices\<close>

definition conf_ok :: "qconf \<Rightarrow> bool" where
  "conf_ok c \<longleftrightarrow> 0 < m_queueSize c \<and>
     (m_shuffleBits c = 0 \<or>
      (\<exists>k < 32. m_queueSize c = 2 ^ k \<and> 2 * m_shuffleBits c \<le> k))"

lemma slot_index_bound:
  assumes "conf_ok c"
  shows "slot_index c t < unat (m_queueSize c)"
proof -
  have m: "t mod m_queueSize c < m_queueSize c"
    using assms by (simp add: conf_ok_def word_less_nat_alt unat_mod)
  have "remapIndex (m_shuffleBits c) (t mod m_queueSize c) < m_queueSize c"
  proof (cases "m_shuffleBits c = 0")
    case True
    with m show ?thesis by (simp add: remapIndex_def)
  next
    case False
    with assms m show ?thesis by (auto simp: conf_ok_def intro!: remapIndex_bound)
  qed
  then show ?thesis by (simp add: slot_index_def word_less_nat_alt)
qed

lemma slot_index_inj:
  assumes "conf_ok c" "slot_index c t = slot_index c u"
  shows "t mod m_queueSize c = u mod m_queueSize c"
proof -
  let ?b = "m_shuffleBits c"
  have "2 * ?b \<le> 32" using assms(1) by (auto simp: conf_ok_def)
  then have inv: "remapIndex ?b (remapIndex ?b x) = x" for x by (rule remapIndex_involution)
  from assms(2) have "remapIndex ?b (t mod m_queueSize c) = remapIndex ?b (u mod m_queueSize c)"
    by (simp add: slot_index_def word_unat_eq_iff)
  then show ?thesis using inv by metis
qed

section \<open>Exclusive slots\<close>

text \<open>The slot a thread has claimed and the state it put the slot in.\<close>

fun claim :: "'a qpc \<Rightarrow> (nat \<times> slot_state) option" where
  "claim (PushWrite x i) = Some (i, STORING)" | "claim (PushRelease x i) = Some (i, STORING)"
| "claim (PopRead i) = Some (i, LOADING)" | "claim (PopRelease i x) = Some (i, LOADING)"
| "claim _ = None"

text \<open>The element it has written or read there.\<close>

fun carries :: "'a qpc \<Rightarrow> (nat \<times> 'a) option" where
  "carries (PushRelease x i) = Some (i, x)" | "carries (PopRelease i x) = Some (i, x)"
| "carries _ = None"

lemma carries_claim: "carries pc = Some (i, x) \<Longrightarrow> \<exists>k. claim pc = Some (i, k)"
  by (cases pc) auto

lemma claim_state: "claim pc = Some (i, k) \<Longrightarrow> k = STORING \<or> k = LOADING"
  by (cases pc) auto

definition slots_ok :: "nat \<Rightarrow> slot_state list \<Rightarrow> 'a list \<Rightarrow> (nat \<Rightarrow> 'a qpc) \<Rightarrow> bool" where
  "slots_ok n sts els pc \<longleftrightarrow>
     length sts = n \<and> length els = n \<and>
     (\<forall>t i k. claim (pc t) = Some (i, k) \<longrightarrow> i < n \<and> sts ! i = k) \<and>
     (\<forall>t u i k l. claim (pc t) = Some (i, k) \<longrightarrow> claim (pc u) = Some (i, l) \<longrightarrow> t = u) \<and>
     (\<forall>t i x. carries (pc t) = Some (i, x) \<longrightarrow> els ! i = x)"

lemma slots_ok_init: "slots_ok n (replicate n EMPTY) (replicate n x) (\<lambda>_. Idle)"
  by (simp add: slots_ok_def)

lemma slots_ok_quiet:
  assumes "slots_ok n sts els pc" "claim p = None"
  shows "slots_ok n sts els (pc(t := p))"
proof -
  have "carries p = None" using assms(2) by (cases p) auto
  with assms show ?thesis by (auto simp: slots_ok_def)
qed

lemma slots_ok_acquire:
  assumes "slots_ok n sts els pc" "i < n" "sts ! i = EMPTY \<or> sts ! i = STORED"
    "claim p = Some (i, k)" "carries p = None"
  shows "slots_ok n (sts[i := k]) els (pc(t := p))"
proof -
  have free: "claim (pc u) \<noteq> Some (i, l)" for u l
    using assms(1,3) claim_state [of "pc u" i l] by (auto simp: slots_ok_def)
  have other: "claim (pc u) = Some (j, l) \<Longrightarrow> j \<noteq> i \<and> j < n \<and> sts ! j = l" for u j l
    using assms(1) free by (auto simp: slots_ok_def)
  show ?thesis
    unfolding slots_ok_def
    using assms free other by (auto simp: nth_list_update slots_ok_def)
qed

lemma slots_ok_hold:
  assumes "slots_ok n sts els pc" "claim (pc t) = Some (i, k)" "claim p = Some (i, k)"
    "length els' = n" "\<And>j. j \<noteq> i \<Longrightarrow> els' ! j = els ! j" "\<And>x. carries p = Some (i, x) \<Longrightarrow> els' ! i = x"
  shows "slots_ok n sts els' (pc(t := p))"
proof -
  have carries: "els' ! j = x" if "(if u = t then carries p else carries (pc u)) = Some (j, x)" for u j x
  proof (cases "u = t")
    case True
    with that have c: "carries p = Some (j, x)" by simp
    with carries_claim [OF c] assms(3) have "j = i" by auto
    with c assms(6) show ?thesis by simp
  next
    case False
    with that have c: "carries (pc u) = Some (j, x)" by simp
    obtain l where l: "claim (pc u) = Some (j, l)" using carries_claim [OF c] by blast
    have "j \<noteq> i"
    proof
      assume "j = i"
      with l assms(1,2) have "u = t" unfolding slots_ok_def by blast
      with False show False by simp
    qed
    with c assms(1,5) show ?thesis by (auto simp: slots_ok_def)
  qed
  from assms(1) have
    base: "length sts = n" "\<And>t i k. claim (pc t) = Some (i, k) \<Longrightarrow> i < n \<and> sts ! i = k"
    "\<And>t u i k l. claim (pc t) = Some (i, k) \<Longrightarrow> claim (pc u) = Some (i, l) \<Longrightarrow> t = u"
    unfolding slots_ok_def by blast+
  show ?thesis
    unfolding slots_ok_def fun_upd_apply
  proof (intro conjI allI impI)
    fix u j l assume "claim (if u = t then p else pc u) = Some (j, l)"
    then show "j < n" "sts ! j = l" using base(2) [of t] base(2) [of u] assms(2,3) by (auto split: if_splits)
  next
    fix u v j l m
    assume "claim (if u = t then p else pc u) = Some (j, l)" "claim (if v = t then p else pc v) = Some (j, m)"
    with assms(2,3) have "\<exists>l. claim (pc u) = Some (j, l)" "\<exists>m. claim (pc v) = Some (j, m)"
      by (auto split: if_splits)
    with base(3) show "u = v" by blast
  next
    fix u j x assume "carries (if u = t then p else pc u) = Some (j, x)"
    then show "els' ! j = x" using carries [of u j x] by (simp split: if_splits)
  qed (use base(1) assms(4) in auto)
qed

lemma slots_ok_release:
  assumes "slots_ok n sts els pc" "claim (pc t) = Some (i, k)"
  shows "slots_ok n (sts[i := l]) els (pc(t := Idle))"
proof -
  have other: "j \<noteq> i \<and> j < n \<and> sts ! j = m" if "claim (pc u) = Some (j, m)" "u \<noteq> t" for u j m
    using assms that unfolding slots_ok_def by blast
  have "sts[i := l] ! j = m" if "claim (pc u) = Some (j, m)" "u \<noteq> t" for u j m
    using other [OF that] by simp
  then show ?thesis
    using assms(1) unfolding slots_ok_def by auto
qed

definition sys_ok :: "qconf \<Rightarrow> 'a qsys \<Rightarrow> bool" where
  "sys_ok c s \<longleftrightarrow> slots_ok (unat (m_queueSize c)) (m_states (shared s)) (m_elements (shared s)) (pcs s)"

lemma sys_ok_step:
  assumes "\<not> m_isSPSC c" "conf_ok c" "sys_ok c s"
  shows "sys_ok c (sys_step c t op s)"
proof -
  note bound = slot_index_bound [OF assms(2)]
  note ok = assms(3) [unfolded sys_ok_def]
  note quiet = slots_ok_quiet [OF ok, where t = t]
  show ?thesis
  proof (cases "pcs s t")
    case Idle
    with assms(1) show ?thesis by (cases op) (auto simp: sys_step_def sys_ok_def quiet)
  next
    case (PushSpin x h)
    with assms(1) slots_ok_acquire [OF ok bound, where k = STORING] quiet show ?thesis
      by (auto simp: sys_step_def sys_ok_def Let_def)
  next
    case (PopSpin h)
    with assms(1) slots_ok_acquire [OF ok bound, where k = LOADING] quiet show ?thesis
      by (auto simp: sys_step_def sys_ok_def Let_def)
  next
    case (PushWrite x i)
    then have "claim (pcs s t) = Some (i, STORING)" by simp
    moreover from this have "i < length (m_elements (shared s))" "length (m_elements (shared s)) = unat (m_queueSize c)"
      using ok unfolding slots_ok_def by auto
    ultimately show ?thesis
      using slots_ok_hold [OF ok, of t i STORING "PushRelease x i" "(m_elements (shared s))[i := x]"] PushWrite
      by (simp add: sys_step_def sys_ok_def)
  next
    case (PopRead i)
    then have "claim (pcs s t) = Some (i, LOADING)" by simp
    moreover have "length (m_elements (shared s)) = unat (m_queueSize c)" using ok by (simp add: slots_ok_def)
    ultimately show ?thesis
      using slots_ok_hold [OF ok, of t i LOADING "PopRelease i (m_elements (shared s) ! i)" "m_elements (shared s)"] PopRead
      by (simp add: sys_step_def sys_ok_def)
  next
    case (PushRelease x i)
    with slots_ok_release [OF ok, of t i] show ?thesis by (auto simp: sys_step_def sys_ok_def)
  next
    case (PopRelease i x)
    with slots_ok_release [OF ok, of t i] show ?thesis by (auto simp: sys_step_def sys_ok_def)
  qed (auto simp: sys_step_def sys_ok_def quiet)
qed

section \<open>No element is lost, invented or delivered twice\<close>

definition visible :: "slot_state \<Rightarrow> 'a \<Rightarrow> 'a multiset" where
  "visible st x = (if st = STORED \<or> st = LOADING then {#x#} else {#})"

fun stored :: "slot_state list \<Rightarrow> 'a list \<Rightarrow> 'a multiset" where
  "stored (st # sts) (x # els) = visible st x + stored sts els"
| "stored _ _ = {#}"

lemma stored_update:
  "length sts = length els \<Longrightarrow> i < length els \<Longrightarrow>
     stored (sts[i := st]) (els[i := x]) + visible (sts ! i) (els ! i) = stored sts els + visible st x"
proof (induction sts els arbitrary: i rule: list_induct2')
  case (4 s sts e els)
  then show ?case by (cases i) (auto simp: union_ac)
qed auto

lemma stored_state:
  "length sts = length els \<Longrightarrow> i < length els \<Longrightarrow>
     stored (sts[i := st]) els + visible (sts ! i) (els ! i) = stored sts els + visible st (els ! i)"
  using stored_update [of sts els i st "els ! i"] by simp

lemma stored_init: "stored (replicate n EMPTY) (replicate n x) = {#}"
  by (induction n) (auto simp: visible_def)

definition conserved :: "'a qsys \<Rightarrow> bool" where
  "conserved s \<longleftrightarrow>
     mset (pushed (trace s)) =
     mset (popped (trace s)) + stored (m_states (shared s)) (m_elements (shared s))"

lemma conserved_step:
  assumes "\<not> m_isSPSC c" "conf_ok c" "sys_ok c s" "conserved s"
  shows "conserved (sys_step c t op s)"
proof -
  let ?sts = "m_states (shared s)" and ?els = "m_elements (shared s)"
  have len: "length ?sts = length ?els" "length ?els = unat (m_queueSize c)"
    using assms(3) by (auto simp: sys_ok_def slots_ok_def)
  have claimed: "i < length ?els \<and> ?sts ! i = k" if "claim (pcs s t) = Some (i, k)" for i k
    using assms(3) that len by (auto simp: sys_ok_def slots_ok_def)
  have carried: "?els ! i = x" if "carries (pcs s t) = Some (i, x)" for i x
    using assms(3) that by (auto simp: sys_ok_def slots_ok_def)
  have bound: "slot_index c h < length ?els" for h using slot_index_bound [OF assms(2)] len by simp
  note state = stored_state [OF len(1)]
  note defs = sys_step_def conserved_def visible_def Let_def
  show ?thesis
  proof (cases "pcs s t")
    case Idle
    with assms show ?thesis by (cases op) (auto simp: defs)
  next
    case (PushSpin x h)
    with assms(1,4) state [OF bound [of h], of STORING] show ?thesis by (auto simp: defs)
  next
    case (PopSpin h)
    with assms(1,4) state [OF bound [of h], of LOADING] show ?thesis by (auto simp: defs)
  next
    case (PushWrite x i)
    with claimed [of i STORING] have "i < length ?els" "?sts ! i = STORING" by auto
    with stored_update [OF len(1), of i STORING x] PushWrite assms(4) show ?thesis
      by (auto simp: defs) (metis list_update_id)
  next
    case (PushRelease x i)
    with claimed [of i STORING] carried [of i x] have "i < length ?els" "?sts ! i = STORING" "?els ! i = x" by auto
    with state [of i STORED] PushRelease assms(4) show ?thesis by (auto simp: defs)
  next
    case (PopRelease i x)
    with claimed [of i LOADING] carried [of i x] have "i < length ?els" "?sts ! i = LOADING" "?els ! i = x" by auto
    with state [of i EMPTY] PopRelease assms(4) show ?thesis by (auto simp: defs)
  qed (use assms in \<open>auto simp: defs\<close>)
qed

lemma reach_mpmc:
  assumes "reach c allowed dflt s" "\<not> m_isSPSC c" "conf_ok c"
  shows "sys_ok c s \<and> conserved s"
  using assms
proof induction
  case init
  then show ?case by (simp add: sys_ok_def qinit_def slots_ok_init conserved_def stored_init)
next
  case (step s t op)
  then show ?case using sys_ok_step conserved_step by blast
qed

section \<open>One producer and one consumer\<close>

definition spsc :: "nat \<Rightarrow> 'a qop \<Rightarrow> bool" where
  "spsc t op \<longleftrightarrow> (case op of TryPush _ \<Rightarrow> t = 0 | Push _ \<Rightarrow> t = 0 | TryPop \<Rightarrow> t = 1 | Pop \<Rightarrow> t = 1)"

text \<open>The slot of the \<open>k\<close>th ticket, counted without wrap-around.\<close>

definition ticket_slot :: "qconf \<Rightarrow> nat \<Rightarrow> nat" where
  "ticket_slot c k = slot_index c (word_of_nat k)"

lemma ticket_slot_bound: "conf_ok c \<Longrightarrow> ticket_slot c k < unat (m_queueSize c)"
  by (simp add: ticket_slot_def slot_index_bound)

lemma word_of_nat_mod:
  assumes "unat (m :: u32) dvd 2 ^ 32" 
  shows "unat (word_of_nat k mod m :: u32) = k mod unat m"
proof -
  have "unat (word_of_nat k mod m :: u32) = (k mod 2 ^ 32) mod unat m"
    by (simp add: unat_mod unsigned_of_nat take_bit_eq_mod)
  also have "\<dots> = k mod unat m" using assms by (rule mod_mod_cancel)
  finally show ?thesis .
qed

lemma ticket_slot_inj:
  assumes "conf_ok c" "unat (m_queueSize c) dvd 2 ^ 32"
    "ticket_slot c j = ticket_slot c k" "j \<le> k" "k < j + unat (m_queueSize c)"
  shows "j = k"
proof -
  have "j mod unat (m_queueSize c) = k mod unat (m_queueSize c)"
    using slot_index_inj [OF assms(1) assms(3) [unfolded ticket_slot_def]] word_of_nat_mod [OF assms(2)] by metis
  then have "(k - j) mod unat (m_queueSize c) = 0" using assms(4) by (metis mod_eq_dvd_iff_nat dvd_imp_mod_0)
  with assms(5) show ?thesis
    by (metis assms(4) diff_diff_cancel diff_zero le_add_diff_inverse less_diff_conv2 mod_less nat_add_left_cancel_less)
qed

text \<open>
  \<open>np\<close> and \<open>nc\<close> elements have been stored and taken; each side's local state follows from
  them, and the slots of the tickets between hold the elements in order.
\<close>

fun producer_ok :: "qconf \<Rightarrow> nat \<Rightarrow> 'a queue \<Rightarrow> 'a qpc \<Rightarrow> bool" where
  "producer_ok c np q Idle = (m_head q = word_of_nat np)"
| "producer_ok c np q (TryPushTest x h) = (m_head q = word_of_nat np \<and> h = word_of_nat np)"
| "producer_ok c np q (TryPushTake x h) = (m_head q = word_of_nat np \<and> h = word_of_nat np)"
| "producer_ok c np q (PushTake x h) = (m_head q = word_of_nat np \<and> h = word_of_nat np)"
| "producer_ok c np q (PushSpin x h) = (m_head q = word_of_nat (Suc np) \<and> h = word_of_nat np)"
| "producer_ok c np q (PushWrite x i) =
     (m_head q = word_of_nat (Suc np) \<and> i = ticket_slot c np \<and> m_states q ! i = EMPTY)"
| "producer_ok c np q (PushRelease x i) =
     (m_head q = word_of_nat (Suc np) \<and> i = ticket_slot c np \<and> m_states q ! i = EMPTY \<and> m_elements q ! i = x)"
| "producer_ok c np q _ = False"

fun consumer_ok :: "qconf \<Rightarrow> nat \<Rightarrow> 'a queue \<Rightarrow> 'a qpc \<Rightarrow> bool" where
  "consumer_ok c nc q Idle = (m_tail q = word_of_nat nc)"
| "consumer_ok c nc q (TryPopTest h) = (m_tail q = word_of_nat nc \<and> h = word_of_nat nc)"
| "consumer_ok c nc q (TryPopTake h) = (m_tail q = word_of_nat nc \<and> h = word_of_nat nc)"
| "consumer_ok c nc q (PopTake h) = (m_tail q = word_of_nat nc \<and> h = word_of_nat nc)"
| "consumer_ok c nc q (PopSpin h) = (m_tail q = word_of_nat (Suc nc) \<and> h = word_of_nat nc)"
| "consumer_ok c nc q (PopRead i) =
     (m_tail q = word_of_nat (Suc nc) \<and> i = ticket_slot c nc \<and> m_states q ! i = STORED)"
| "consumer_ok c nc q (PopRelease i x) =
     (m_tail q = word_of_nat (Suc nc) \<and> i = ticket_slot c nc \<and> m_states q ! i = STORED \<and> m_elements q ! i = x)"
| "consumer_ok c nc q _ = False"

definition window_ok :: "qconf \<Rightarrow> 'a queue \<Rightarrow> nat \<Rightarrow> 'a list \<Rightarrow> bool" where
  "window_ok c q nc ps \<longleftrightarrow>
     length (m_states q) = unat (m_queueSize c) \<and> length (m_elements q) = unat (m_queueSize c) \<and>
     nc \<le> length ps \<and> length ps \<le> nc + unat (m_queueSize c) \<and>
     (\<forall>k. nc \<le> k \<and> k < length ps \<longrightarrow>
        m_states q ! ticket_slot c k = STORED \<and> m_elements q ! ticket_slot c k = ps ! k) \<and>
     (\<forall>k. length ps \<le> k \<and> k < nc + unat (m_queueSize c) \<longrightarrow> m_states q ! ticket_slot c k = EMPTY)"

definition spsc_ok :: "qconf \<Rightarrow> 'a qsys \<Rightarrow> bool" where
  "spsc_ok c s \<longleftrightarrow>
     (let ps = pushed (trace s); cs = popped (trace s) in
      cs = take (length cs) ps \<and> window_ok c (shared s) (length cs) ps \<and>
      producer_ok c (length ps) (shared s) (pcs s 0) \<and>
      consumer_ok c (length cs) (shared s) (pcs s 1))"

definition pow2_conf :: "qconf \<Rightarrow> bool" where
  "pow2_conf c \<longleftrightarrow> conf_ok c \<and> unat (m_queueSize c) dvd 2 ^ 32"

lemma pow2_conf_pos: "pow2_conf c \<Longrightarrow> 0 < unat (m_queueSize c)"
  by (simp add: pow2_conf_def conf_ok_def word_less_nat_alt)

lemma ticket_slot_wrap:
  assumes "pow2_conf c"
  shows "ticket_slot c (k + unat (m_queueSize c)) = ticket_slot c k"
proof -
  have d: "unat (m_queueSize c) dvd 2 ^ 32" using assms by (simp add: pow2_conf_def)
  have "unat (word_of_nat (k + unat (m_queueSize c)) mod m_queueSize c :: u32) = unat (word_of_nat k mod m_queueSize c :: u32)"
    unfolding word_of_nat_mod [OF d] by simp
  then have "word_of_nat (k + unat (m_queueSize c)) mod m_queueSize c = word_of_nat k mod m_queueSize c"
    by (simp only: word_unat_eq_iff)
  then show ?thesis by (simp only: ticket_slot_def slot_index_def)
qed

lemma window_bound: "window_ok c q nc ps \<Longrightarrow> pow2_conf c \<Longrightarrow> ticket_slot c k < length (m_states q) \<and>
    ticket_slot c k < length (m_elements q)"
  using ticket_slot_bound [of c k] by (simp add: window_ok_def pow2_conf_def)

lemma window_free:
  assumes "window_ok c q nc ps" "pow2_conf c" "m_states q ! ticket_slot c (length ps) = EMPTY"
  shows "length ps < nc + unat (m_queueSize c)"
proof (rule ccontr)
  assume "\<not> ?thesis"
  with assms(1) have "length ps = nc + unat (m_queueSize c)" by (simp add: window_ok_def)
  moreover from this have "nc < length ps" using pow2_conf_pos [OF assms(2)] by simp
  ultimately have "m_states q ! ticket_slot c (length ps) = STORED"
    using ticket_slot_wrap [OF assms(2), of nc] assms(1) by (simp add: window_ok_def)
  with assms(3) show False by simp
qed

lemma window_used:
  assumes "window_ok c q nc ps" "pow2_conf c" "m_states q ! ticket_slot c nc = STORED"
  shows "nc < length ps"
proof (rule ccontr)
  assume "\<not> ?thesis"
  with assms(1) have "length ps = nc" by (simp add: window_ok_def)
  with assms(1) pow2_conf_pos [OF assms(2)] have "m_states q ! ticket_slot c nc = EMPTY"
    unfolding window_ok_def by (metis less_add_same_cancel1 order_refl)
  with assms(3) show False by simp
qed

lemma window_write:
  assumes "window_ok c q nc ps" "m_states q ! i = EMPTY"
  shows "window_ok c (q\<lparr>m_elements := (m_elements q)[i := x]\<rparr>) nc ps"
proof -
  have "i \<noteq> ticket_slot c k" if "nc \<le> k" "k < length ps" for k
    using assms that by (auto simp: window_ok_def)
  with assms(1) show ?thesis by (auto simp: window_ok_def)
qed

lemma window_push:
  assumes "window_ok c q nc ps" "pow2_conf c" "m_states q ! ticket_slot c (length ps) = EMPTY"
    "m_elements q ! ticket_slot c (length ps) = x"
  shows "window_ok c (q\<lparr>m_states := (m_states q)[ticket_slot c (length ps) := STORED]\<rparr>) nc (ps @ [x])"
proof -
  let ?n = "unat (m_queueSize c)" and ?i = "ticket_slot c (length ps)"
  note free = window_free [OF assms(1-3)]
  have inj: "j = k" if "ticket_slot c j = ticket_slot c k" "j \<le> k" "k < j + ?n" for j k
    using ticket_slot_inj that assms(2) by (auto simp: pow2_conf_def)
  have old: "ticket_slot c k \<noteq> ?i" if "nc \<le> k" "k < length ps" for k
    using assms(1,3) that by (auto simp: window_ok_def)
  have new: "ticket_slot c k \<noteq> ?i" if "Suc (length ps) \<le> k" "k < nc + ?n" for k
    using inj [of "length ps" k] that assms(1) by (auto simp: window_ok_def)
  show ?thesis
    unfolding window_ok_def
  proof (intro conjI allI impI)
    fix k assume k: "nc \<le> k \<and> k < length (ps @ [x])"
    show "m_states (q\<lparr>m_states := (m_states q)[?i := STORED]\<rparr>) ! ticket_slot c k = STORED"
      using k old [of k] assms(1) window_bound [OF assms(1,2)]
      by (cases "k = length ps") (auto simp: window_ok_def)
    show "m_elements (q\<lparr>m_states := (m_states q)[?i := STORED]\<rparr>) ! ticket_slot c k = (ps @ [x]) ! k"
      using k assms(1,4) by (cases "k = length ps") (auto simp: window_ok_def nth_append)
  next
    fix k assume "length (ps @ [x]) \<le> k \<and> k < nc + ?n"
    with new [of k] assms(1) show
      "m_states (q\<lparr>m_states := (m_states q)[?i := STORED]\<rparr>) ! ticket_slot c k = EMPTY"
      by (auto simp: window_ok_def)
  qed (use assms(1) free in \<open>auto simp: window_ok_def\<close>)
qed

lemma window_pop:
  assumes "window_ok c q nc ps" "pow2_conf c" "m_states q ! ticket_slot c nc = STORED"
  shows "window_ok c (q\<lparr>m_states := (m_states q)[ticket_slot c nc := EMPTY]\<rparr>) (Suc nc) ps"
proof -
  let ?n = "unat (m_queueSize c)" and ?i = "ticket_slot c nc"
  note used = window_used [OF assms(1-3)]
  have inj: "j = k" if "ticket_slot c j = ticket_slot c k" "j \<le> k" "k < j + ?n" for j k
    using ticket_slot_inj that assms(2) by (auto simp: pow2_conf_def)
  have old: "?i \<noteq> ticket_slot c k" if "Suc nc \<le> k" "k < length ps" for k
    using inj [of nc k] that assms(1) by (auto simp: window_ok_def)
  have new: "m_states q ! ticket_slot c k = EMPTY \<or> ticket_slot c k = ?i"
    if "length ps \<le> k" "k < Suc nc + ?n" for k
  proof (cases "k = nc + ?n")
    case True
    then show ?thesis using ticket_slot_wrap [OF assms(2)] by simp
  next
    case False
    with that assms(1) show ?thesis by (simp add: window_ok_def)
  qed
  show ?thesis
    unfolding window_ok_def
  proof (intro conjI allI impI)
    fix k assume k: "Suc nc \<le> k \<and> k < length ps"
    show "m_states (q\<lparr>m_states := (m_states q)[?i := EMPTY]\<rparr>) ! ticket_slot c k = STORED"
      using k old [of k] assms(1) by (auto simp: window_ok_def)
    show "m_elements (q\<lparr>m_states := (m_states q)[?i := EMPTY]\<rparr>) ! ticket_slot c k = ps ! k"
      using k assms(1) by (auto simp: window_ok_def)
  next
    fix k assume "length ps \<le> k \<and> k < Suc nc + ?n"
    with new [of k] window_bound [OF assms(1,2), of nc] show
      "m_states (q\<lparr>m_states := (m_states q)[?i := EMPTY]\<rparr>) ! ticket_slot c k = EMPTY"
      by (cases "ticket_slot c k = ?i") auto
  qed (use assms(1) used in \<open>auto simp: window_ok_def\<close>)
qed

lemma consumer_frame:
  "consumer_ok c nc q pc \<Longrightarrow> m_tail q' = m_tail q \<Longrightarrow>
     (m_states q ! ticket_slot c nc = STORED \<Longrightarrow>
        m_states q' ! ticket_slot c nc = STORED \<and>
        m_elements q' ! ticket_slot c nc = m_elements q ! ticket_slot c nc) \<Longrightarrow>
     consumer_ok c nc q' pc"
  by (cases pc) auto

lemma producer_frame:
  "producer_ok c np q pc \<Longrightarrow> m_head q' = m_head q \<Longrightarrow> m_elements q' = m_elements q \<Longrightarrow>
     (m_states q ! ticket_slot c np = EMPTY \<Longrightarrow> m_states q' ! ticket_slot c np = EMPTY) \<Longrightarrow>
     producer_ok c np q' pc"
  by (cases pc) auto

lemma write_other:
  "sts ! j = STORED \<Longrightarrow> sts ! i = EMPTY \<Longrightarrow> els[i := x] ! j = els ! j"
  by (cases "i = j") auto

lemma set_same: "sts ! j = st \<Longrightarrow> sts[i := st] ! j = st"
  by (cases "i = j"; cases "i < length sts") auto

lemma spsc_ok_producer:
  assumes "m_isSPSC c" "pow2_conf c" "spsc_ok c s" "spsc 0 op"
  shows "spsc_ok c (sys_step c 0 op s)"
proof -
  define q ps cs where "q = shared s" and "ps = pushed (trace s)" and "cs = popped (trace s)"
  note defs = q_def [symmetric] ps_def [symmetric] cs_def [symmetric]
  have ok: "cs = take (length cs) ps" "window_ok c q (length cs) ps" "producer_ok c (length ps) q (pcs s 0)"
    "consumer_ok c (length cs) q (pcs s 1)" "length cs \<le> length ps"
    using assms(3) by (auto simp: spsc_ok_def Let_def defs window_ok_def)
  note step = sys_step_def spsc_ok_def Let_def defs
  have quiet: "consumer_ok c (length cs) (q\<lparr>m_head := h\<rparr>) (pcs s (Suc 0))" for h
    using consumer_frame [OF ok(4)] by simp
  have quiet_w: "window_ok c (q\<lparr>m_head := h\<rparr>) (length cs) ps" for h using ok(2) by (simp add: window_ok_def)
  show ?thesis
  proof (cases "pcs s 0")
    case Idle
    with ok assms(1,4) show ?thesis by (cases op) (auto simp: step spsc_def)
  next
    case (PushSpin x h)
    with ok assms(1) show ?thesis by (auto simp: step ticket_slot_def)
  next
    case (PushWrite x i)
    with ok(3) have i: "i = ticket_slot c (length ps)" "m_states q ! i = EMPTY" by auto
    have "consumer_ok c (length cs) (q\<lparr>m_elements := (m_elements q)[i := x]\<rparr>) (pcs s 1)"
      by (rule consumer_frame [OF ok(4)]) (use i in \<open>auto intro: write_other\<close>)
    with PushWrite ok i window_write [OF ok(2) i(2)] window_bound [OF ok(2) assms(2)] show ?thesis
      by (auto simp: step)
  next
    case (PushRelease x i)
    with ok(3) have i: "i = ticket_slot c (length ps)" "m_states q ! i = EMPTY" "m_elements q ! i = x" by auto
    have "consumer_ok c (length cs) (q\<lparr>m_states := (m_states q)[i := STORED]\<rparr>) (pcs s 1)"
      by (rule consumer_frame [OF ok(4)]) (use i in \<open>auto intro: set_same\<close>)
    with PushRelease ok i window_push [OF ok(2) assms(2)] show ?thesis
      by (auto simp: step)
  qed (use ok assms(1) quiet quiet_w in \<open>auto simp: step\<close>)
qed

lemma spsc_ok_consumer:
  assumes "m_isSPSC c" "pow2_conf c" "spsc_ok c s" "spsc 1 op"
  shows "spsc_ok c (sys_step c 1 op s)"
proof -
  define q ps cs where "q = shared s" and "ps = pushed (trace s)" and "cs = popped (trace s)"
  note defs = q_def [symmetric] ps_def [symmetric] cs_def [symmetric]
  have ok: "cs = take (length cs) ps" "window_ok c q (length cs) ps" "producer_ok c (length ps) q (pcs s 0)"
    "consumer_ok c (length cs) q (pcs s 1)" "length cs \<le> length ps"
    using assms(3) by (auto simp: spsc_ok_def Let_def defs window_ok_def)
  note step = sys_step_def spsc_ok_def Let_def defs
  have quiet: "producer_ok c (length ps) (q\<lparr>m_tail := h\<rparr>) (pcs s 0)" for h
    using producer_frame [OF ok(3)] by simp
  have quiet_w: "window_ok c (q\<lparr>m_tail := h\<rparr>) (length cs) ps" for h using ok(2) by (simp add: window_ok_def)
  show ?thesis
  proof (cases "pcs s 1")
    case Idle
    with ok assms(1,4) show ?thesis by (cases op) (auto simp: step spsc_def)
  next
    case (PopSpin h)
    with ok assms(1) show ?thesis by (auto simp: step ticket_slot_def)
  next
    case (PopRead i)
    with ok show ?thesis by (auto simp: step)
  next
    case (PopRelease i x)
    with ok(4) have i: "i = ticket_slot c (length cs)" "m_states q ! i = STORED" "m_elements q ! i = x" by auto
    from window_used [OF ok(2) assms(2)] i have lt: "length cs < length ps" by simp
    with i ok(2) have x: "x = ps ! length cs" by (auto simp: window_ok_def)
    have "producer_ok c (length ps) (q\<lparr>m_states := (m_states q)[i := EMPTY]\<rparr>) (pcs s 0)"
      by (rule producer_frame [OF ok(3)]) (use i in \<open>auto intro: set_same\<close>)
    moreover have "cs @ [x] = take (Suc (length cs)) ps"
      using ok(1) x lt by (simp add: take_Suc_conv_app_nth)
    moreover have "min (length ps) (Suc (length cs)) = Suc (length cs)" using lt by simp
    ultimately show ?thesis
      using PopRelease ok i window_pop [OF ok(2) assms(2)] by (auto simp: step)
  qed (use ok assms(1) quiet quiet_w in \<open>auto simp: step\<close>)
qed

lemma reach_spsc:
  assumes "reach c spsc dflt s" "m_isSPSC c" "pow2_conf c"
  shows "spsc_ok c s"
  using assms
proof induction
  case init
  have "ticket_slot c k < unat (m_queueSize c)" for k
    using init ticket_slot_bound by (simp add: pow2_conf_def)
  then show ?case by (simp add: spsc_ok_def qinit_def window_ok_def)
next
  case (step s t op)
  then have "t = 0 \<or> t = 1" by (auto simp: spsc_def split: qop.splits)
  with step spsc_ok_producer spsc_ok_consumer show ?case by blast
qed

section \<open>The configurations of the code\<close>

lemma exp_between:
  assumes "1 < n"
  shows "\<exists>k. 2 ^ k < n \<and> n \<le> (2 :: nat) ^ Suc k"
proof -
  define k where "k = (LEAST k. n \<le> 2 ^ Suc k)"
  have "n \<le> 2 ^ Suc n" using less_exp [of n] by (simp only: power_Suc)
  then have le: "n \<le> 2 ^ Suc k" unfolding k_def by (rule LeastI)
  have "2 ^ k < n"
  proof (cases k)
    case 0
    with assms show ?thesis by simp
  next
    case (Suc j)
    then have "\<not> n \<le> 2 ^ Suc j" using not_less_Least [of j "\<lambda>k. n \<le> 2 ^ Suc k"] by (simp add: k_def)
    with Suc show ?thesis by simp
  qed
  with le show ?thesis by blast
qed

lemma nextPowerOfTwo_is_exp:
  assumes "1 \<le> unat n" "unat n \<le> 2 ^ 31"
  shows "\<exists>k < 32. nextPowerOfTwo n = 2 ^ k \<and> unat n \<le> 2 ^ k \<and> (k = 0 \<or> 2 ^ (k - 1) < unat n)"
proof (cases "unat n = 1")
  case True
  then have "n = 1" by (simp add: word_unat_eq_iff)
  then show ?thesis by (intro exI [of _ 0]) (simp add: nextPowerOfTwo_def)
next
  case False
  with assms obtain k where k: "2 ^ k < unat n" "unat n \<le> 2 ^ Suc k" using exp_between [of "unat n"] by auto
  from k(1) assms(2) have "(2 :: nat) ^ k < 2 ^ 31" by linarith
  then have "k < 31" by (rule power_less_imp_less_exp [rotated]) simp
  with k nextPowerOfTwo_exp [OF k] show ?thesis by (intro exI [of _ "Suc k"]) simp
qed

lemma AtomicQueue2_conf:
  assumes "1 \<le> unat SIZE" "unat SIZE \<le> 2 ^ 31"
  shows "conf_ok (AtomicQueue2 SIZE mc sp)" "mc \<Longrightarrow> pow2_conf (AtomicQueue2 SIZE mc sp)"
proof -
  obtain k where k: "k < 32" "nextPowerOfTwo SIZE = 2 ^ k" using nextPowerOfTwo_is_exp [OF assms] by blast
  have fit: "2 * GetIndexShuffleBits True (2 ^ k) 64 \<le> k" by (rule shuffle_bits_fit)
  have pos: "0 < (2 ^ k :: u32)" "unat (2 ^ k :: u32) dvd 2 ^ 32"
    using k(1) le_imp_power_dvd [of k 32 "2 :: nat"] by (simp_all only: word_less_nat_alt unat_exp32) simp_all
  have true: "pow2_conf (AtomicQueue2 SIZE True sp)"
    using k fit pos by (auto simp: pow2_conf_def conf_ok_def AtomicQueue2_def Let_def unat_exp32)
  then show "mc \<Longrightarrow> pow2_conf (AtomicQueue2 SIZE mc sp)" by simp
  show "conf_ok (AtomicQueue2 SIZE mc sp)"
  proof (cases mc)
    case True
    with true show ?thesis by (simp add: pow2_conf_def)
  next
    case False
    with assms(1) show ?thesis
      by (simp add: conf_ok_def AtomicQueue2_def Let_def GetIndexShuffleBits_def word_less_nat_alt)
  qed
qed

text \<open>
  C8. Exclusive slots: whatever operations any number of producers and consumers run, two
  threads never hold the same slot of the queue, so an element is never written or read by
  two threads at a time; the slot states say who holds it.
\<close>

theorem queue_slots_exclusive:
  assumes "reach (AtomicQueue2 SIZE mc False) allowed dflt s" and "1 \<le> unat SIZE" and "unat SIZE \<le> 2 ^ 31"
    and "claim (pcs s t) = Some (i, k)" and "claim (pcs s u) = Some (j, l)" and "t \<noteq> u"
  shows "i \<noteq> j \<and> i < length (m_elements (shared s)) \<and> m_states (shared s) ! i = k"
proof -
  have "\<not> m_isSPSC (AtomicQueue2 SIZE mc False)" by (simp add: AtomicQueue2_def Let_def)
  from reach_mpmc [OF assms(1) this AtomicQueue2_conf(1) [OF assms(2,3)]]
  show ?thesis using assms(4-6) unfolding sys_ok_def slots_ok_def by metis
qed

lemma queue_slots_exclusive_witness:
  "\<exists>i j. claim (pcs (run_steps (AtomicQueue2 4 True False)
        [(0, Push 7), (0, Push 7), (1, Push 8), (1, Push (8 :: nat))] (qinit (AtomicQueue2 4 True False) 0)) 0) = Some (i, STORING) \<and>
     claim (pcs (run_steps (AtomicQueue2 4 True False)
        [(0, Push 7), (0, Push 7), (1, Push 8), (1, Push (8 :: nat))] (qinit (AtomicQueue2 4 True False) 0)) 1) = Some (j, STORING) \<and>
     i \<noteq> j"
proof -
  let ?c = "AtomicQueue2 4 True False"
  let ?ms = "[(0, Push 7), (0, Push 7), (1, Push 8), (1, Push (8 :: nat))]"
  have "reach ?c (\<lambda>_ _. True) 0 (run_steps ?c ?ms (qinit ?c 0))" by (intro reach_run reach.init) simp
  moreover have "claim (pcs (run_steps ?c ?ms (qinit ?c 0)) 0) = Some (0, STORING)"
    "claim (pcs (run_steps ?c ?ms (qinit ?c 0)) 1) = Some (1, STORING)" by code_simp+
  moreover have "1 \<le> unat (4 :: u32)" "unat (4 :: u32) \<le> 2 ^ 31" "(0 :: nat) \<noteq> 1" by simp_all
  ultimately show ?thesis
    using queue_slots_exclusive [of 4 True "\<lambda>_ _. True" 0 "run_steps ?c ?ms (qinit ?c 0)" 0 0 STORING 1 1 STORING]
    by blast
qed

text \<open>
  C5. Conservation: at every moment of every run, the elements stored so far are those
  delivered so far together with those in the slots; nothing is lost, invented or
  delivered twice.
\<close>

theorem queue_conserves:
  assumes "reach (AtomicQueue2 SIZE mc False) allowed dflt s" and "1 \<le> unat SIZE" and "unat SIZE \<le> 2 ^ 31"
  shows "mset (pushed (trace s)) =
         mset (popped (trace s)) + stored (m_states (shared s)) (m_elements (shared s))"
proof -
  have "\<not> m_isSPSC (AtomicQueue2 SIZE mc False)" by (simp add: AtomicQueue2_def Let_def)
  from reach_mpmc [OF assms(1) this AtomicQueue2_conf(1) [OF assms(2,3)]]
  show ?thesis by (simp add: conserved_def)
qed

lemma queue_conserves_witness:
  "mset (pushed (trace (run_steps (AtomicQueue2 3 False False)
        [(0, TryPush (7 :: nat)), (0, Pop), (0, Pop), (0, Pop), (0, Pop), (0, Pop), (1, Pop), (1, Pop)]
        (qinit (AtomicQueue2 3 False False) 0)))) = {#7#}"
proof -
  let ?c = "AtomicQueue2 3 False False"
  let ?ms = "[(0, TryPush (7 :: nat)), (0, Pop), (0, Pop), (0, Pop), (0, Pop), (0, Pop), (1, Pop), (1, Pop)]"
  let ?s = "run_steps ?c ?ms (qinit ?c 0)"
  have "reach ?c (\<lambda>_ _. True) 0 ?s" by (intro reach_run reach.init) simp
  moreover have "popped (trace ?s) = []" by code_simp
  moreover have "m_states (shared ?s) = [LOADING, EMPTY, EMPTY]" "m_elements (shared ?s) = [7, 0, 0]" by code_simp+
  ultimately show ?thesis
    using queue_conserves [of 3 False "\<lambda>_ _. True" 0 ?s] by (simp add: visible_def)
qed

text \<open>
  C6. First in, first out: with one producer and one consumer the elements delivered are a
  prefix of the elements pushed, in order, and at most the capacity is outstanding,
  across wrap-around of the 32-bit tickets.
\<close>

theorem spsc_fifo:
  assumes "reach (AtomicQueue2 SIZE True True) spsc dflt s" and "1 \<le> unat SIZE" and "unat SIZE \<le> 2 ^ 31"
  shows "\<exists>rest. pushed (trace s) = popped (trace s) @ rest \<and> length rest \<le> unat (nextPowerOfTwo SIZE)"
proof -
  have "m_isSPSC (AtomicQueue2 SIZE True True)" by (simp add: AtomicQueue2_def Let_def)
  from reach_spsc [OF assms(1) this AtomicQueue2_conf(2) [OF assms(2,3)]]
  have "popped (trace s) = take (length (popped (trace s))) (pushed (trace s))"
    "length (pushed (trace s)) \<le> length (popped (trace s)) + unat (nextPowerOfTwo SIZE)"
    by (auto simp: spsc_ok_def Let_def window_ok_def AtomicQueue2_def)
  then show ?thesis
    by (intro exI [of _ "drop (length (popped (trace s))) (pushed (trace s))"]) (metis append_take_drop_id
        length_drop le_diff_conv add.commute)
qed

lemma spsc_fifo_witness:
  "\<exists>rest. pushed (trace (run_steps (AtomicQueue2 2 True True)
       ([(0, Push 7), (0, Push 7), (0, Push 7), (0, Push 7), (0, Push 7), (1, Pop), (1, Pop), (1, Pop), (1, Pop), (1, Pop)])
       (qinit (AtomicQueue2 2 True True) (0 :: nat)))) = [7] @ rest"
proof -
  let ?c = "AtomicQueue2 2 True True"
  let ?ms = "[(0, Push 7), (0, Push 7), (0, Push 7), (0, Push 7), (0, Push 7), (1, Pop), (1, Pop), (1, Pop), (1, Pop), (1, Pop)]"
  let ?s = "run_steps ?c ?ms (qinit ?c (0 :: nat))"
  have "reach ?c spsc 0 ?s" by (intro reach_run reach.init) (simp add: spsc_def)
  moreover have "popped (trace ?s) = [7]" by code_simp
  ultimately show ?thesis using spsc_fifo [of 2 0 ?s] by auto
qed

text \<open>
  Rounding and shuffling of the queue's indices: for every size up to \<open>2^31\<close> the
  rounded size is the least power of two not below it, and the shuffled slot indices are a
  permutation of the slots: in range, and each its own inverse.
\<close>

theorem queue_index_permutation:
  assumes "1 \<le> unat SIZE" and "unat SIZE \<le> 2 ^ 31"
  shows "\<exists>k < 32. nextPowerOfTwo SIZE = 2 ^ k \<and> unat SIZE \<le> 2 ^ k \<and> (k = 0 \<or> 2 ^ (k - 1) < unat SIZE) \<and>
           (\<forall>i < 2 ^ k. remapIndex (GetIndexShuffleBits True (2 ^ k) n) i < 2 ^ k \<and>
              remapIndex (GetIndexShuffleBits True (2 ^ k) n) (remapIndex (GetIndexShuffleBits True (2 ^ k) n) i) = i)"
proof -
  obtain k where k: "k < 32" "nextPowerOfTwo SIZE = 2 ^ k \<and> unat SIZE \<le> 2 ^ k \<and> (k = 0 \<or> 2 ^ (k - 1) < unat SIZE)"
    using nextPowerOfTwo_is_exp [OF assms] by blast
  have fit: "2 * GetIndexShuffleBits True (2 ^ k) n \<le> k" by (rule shuffle_bits_fit)
  from fit k(1) have "2 * GetIndexShuffleBits True (2 ^ k) n \<le> 32" by linarith
  note inv = remapIndex_involution [OF this]
  have "remapIndex (GetIndexShuffleBits True (2 ^ k) n) i < 2 ^ k" if "i < 2 ^ k" for i
    by (rule remapIndex_bound [OF fit k(1) that])
  with inv k show ?thesis by blast
qed

lemma queue_index_permutation_witness:
  "\<exists>k < 32. nextPowerOfTwo 1000 = 2 ^ k \<and> (1000 :: nat) \<le> 2 ^ k"
  using queue_index_permutation [of 1000 64] by auto

end
