(* ===== verification/Lu_Queue_Variants.thy ===== *)
theory Lu_Queue_Variants
  imports Lu_Queue
begin

text \<open>
  The other queues of \<open>include/queue/Queue.h\<close>: \<open>AtomicQueue\<close>, whose slots are atomic
  elements with a reserved value \<open>NIL\<close> (\<open>do_push_atomic\<close>, \<open>do_pop_atomic\<close>), and the sleeping
  consumer of \<open>MPSCQueue\<close>.
\<close>

section \<open>AtomicQueue\<close>

text \<open>
  Tickets are taken as in \<open>QueueBase\<close> (\<open>thread_step\<close>). A slot is claimed and filled in one
  compare-and-exchange, and emptied by one exchange; with a single producer and consumer
  the code loads and stores instead, which is two steps.
\<close>

fun atomic_step :: "'a \<Rightarrow> qconf \<Rightarrow> 'a qop \<Rightarrow> 'a queue \<Rightarrow> 'a qpc \<Rightarrow> 'a queue \<times> 'a qpc \<times> 'a qevent list" where
  "atomic_step NIL c op q (PushSpin x head) =
     (let i = slot_index c head in
      if m_elements q ! i \<noteq> NIL then (q, PushSpin x head, [])
      else if m_isSPSC c then (q, PushWrite x i, [])
      else (q\<lparr>m_elements := (m_elements q)[i := x]\<rparr>, Idle, [Pushed x]))"
| "atomic_step NIL c op q (PushWrite x i) =
     (q\<lparr>m_elements := (m_elements q)[i := x]\<rparr>, Idle, [Pushed x])"
| "atomic_step NIL c op q (PopSpin tail) =
     (let i = slot_index c tail; element = m_elements q ! i in
      if element = NIL then (q, PopSpin tail, [])
      else if m_isSPSC c then (q, PopRelease i element, [])
      else (q\<lparr>m_elements := (m_elements q)[i := NIL]\<rparr>, Idle, [Popped element]))"
| "atomic_step NIL c op q (PopRelease i element) =
     (q\<lparr>m_elements := (m_elements q)[i := NIL]\<rparr>, Idle, [Popped element])"
| "atomic_step NIL c op q pc = thread_step c op q pc"

definition atomic_sys_step :: "'a \<Rightarrow> qconf \<Rightarrow> nat \<Rightarrow> 'a qop \<Rightarrow> 'a qsys \<Rightarrow> 'a qsys" where
  "atomic_sys_step NIL c t op s =
     (case atomic_step NIL c op (shared s) (pcs s t) of (q, pc, evs) \<Rightarrow>
        \<lparr>shared = q, pcs = (pcs s)(t := pc), trace = trace s @ evs\<rparr>)"

text \<open>The code asserts that a pushed element is not \<open>NIL\<close>.\<close>

definition op_ok :: "'a \<Rightarrow> 'a qop \<Rightarrow> bool" where
  "op_ok NIL op \<longleftrightarrow> (case op of TryPush x \<Rightarrow> x \<noteq> NIL | Push x \<Rightarrow> x \<noteq> NIL | _ \<Rightarrow> True)"

inductive atomic_reach :: "'a \<Rightarrow> qconf \<Rightarrow> 'a qsys \<Rightarrow> bool" for NIL c where
  init: "atomic_reach NIL c (qinit c NIL)"
| step: "atomic_reach NIL c s \<Longrightarrow> op_ok NIL op \<Longrightarrow> atomic_reach NIL c (atomic_sys_step NIL c t op s)"

fun pc_ok :: "'a \<Rightarrow> 'a qpc \<Rightarrow> bool" where
  "pc_ok NIL (TryPushTest x h) = (x \<noteq> NIL)" | "pc_ok NIL (TryPushTake x h) = (x \<noteq> NIL)"
| "pc_ok NIL (PushTake x h) = (x \<noteq> NIL)" | "pc_ok NIL (PushSpin x h) = (x \<noteq> NIL)"
| "pc_ok NIL (PushWrite x i) = False" | "pc_ok NIL (PushRelease x i) = False"
| "pc_ok NIL (PopRead i) = False" | "pc_ok NIL (PopRelease i x) = False" | "pc_ok NIL _ = True"

definition atomic_ok :: "'a \<Rightarrow> qconf \<Rightarrow> 'a qsys \<Rightarrow> bool" where
  "atomic_ok NIL c s \<longleftrightarrow>
     length (m_elements (shared s)) = unat (m_queueSize c) \<and> (\<forall>t. pc_ok NIL (pcs s t)) \<and>
     mset (pushed (trace s)) =
     mset (popped (trace s)) + filter_mset (\<lambda>x. x \<noteq> NIL) (mset (m_elements (shared s)))"

lemma fill_slot:
  assumes "i < length els" "els ! i = NIL" "x \<noteq> NIL"
  shows "filter_mset (\<lambda>x. x \<noteq> NIL) (mset (els[i := x])) = add_mset x (filter_mset (\<lambda>x. x \<noteq> NIL) (mset els))"
  using assms by (simp add: mset_update)

lemma drain_slot:
  assumes "i < length els" "els ! i \<noteq> NIL"
  shows "add_mset (els ! i) (filter_mset (\<lambda>x. x \<noteq> NIL) (mset (els[i := NIL]))) = filter_mset (\<lambda>x. x \<noteq> NIL) (mset els)"
proof -
  have "els ! i \<in># mset els" using assms(1) by simp
  with assms show ?thesis by (simp add: mset_update)
qed

lemma atomic_ok_step:
  assumes "\<not> m_isSPSC c" "conf_ok c" "atomic_ok NIL c s" "op_ok NIL op"
  shows "atomic_ok NIL c (atomic_sys_step NIL c t op s)"
proof -
  let ?els = "m_elements (shared s)"
  have bound: "slot_index c h < length ?els" for h
    using slot_index_bound [OF assms(2)] assms(3) by (simp add: atomic_ok_def)
  have pc: "pc_ok NIL (pcs s t)" using assms(3) by (simp add: atomic_ok_def)
  note defs = atomic_sys_step_def atomic_ok_def Let_def
  show ?thesis
  proof (cases "pcs s t")
    case Idle
    with assms show ?thesis by (cases op) (auto simp: defs op_ok_def)
  next
    case (PushSpin x h)
    with pc fill_slot [OF bound [of h], of NIL x] assms(1,3) show ?thesis by (auto simp: defs)
  next
    case (PopSpin h)
    with drain_slot [OF bound [of h], of NIL] assms(1,3) show ?thesis
      by (auto simp: defs simp del: mset_update)
  qed (use pc assms in \<open>auto simp: atomic_sys_step_def atomic_ok_def\<close>)
qed

lemma no_element: "filter_mset (\<lambda>x. x \<noteq> NIL) (mset (replicate n NIL)) = {#}"
  by (induction n) auto

lemma atomic_reach_ok:
  assumes "atomic_reach NIL c s" "\<not> m_isSPSC c" "conf_ok c"
  shows "atomic_ok NIL c s"
  using assms
proof induction
  case init
  show ?case
    unfolding atomic_ok_def qinit_def using no_element by (simp del: mset_replicate)
next
  case (step s op t)
  from atomic_ok_step [OF step(4,5) step(3) [OF step(4,5)] step(2)] show ?case .
qed

text \<open>
  \<open>AtomicQueue\<close> conserves its elements too: under any interleaving of any number of
  threads that push only non-\<open>NIL\<close> elements, what was pushed is what was popped plus what
  the slots hold.
\<close>

theorem atomic_queue_conserves:
  assumes "atomic_reach NIL c s" and "\<not> m_isSPSC c" and "conf_ok c"
  shows "mset (pushed (trace s)) =
         mset (popped (trace s)) + filter_mset (\<lambda>x. x \<noteq> NIL) (mset (m_elements (shared s)))"
  using atomic_reach_ok [OF assms] by (simp add: atomic_ok_def)

lemma atomic_queue_conserves_witness:
  "let c = AtomicQueue2 2 True False;
       s = atomic_sys_step 0 c 0 Pop (atomic_sys_step (0 :: nat) c 0 (Push 5) (qinit c 0)) in
     mset (pushed (trace s)) = {#5#} \<and>
     mset (pushed (trace s)) = mset (popped (trace s)) + filter_mset (\<lambda>x. x \<noteq> 0) (mset (m_elements (shared s)))"
proof -
  let ?c = "AtomicQueue2 2 True False"
  let ?s = "atomic_sys_step 0 ?c 0 Pop (atomic_sys_step (0 :: nat) ?c 0 (Push 5) (qinit ?c 0))"
  have "atomic_reach 0 ?c ?s" by (intro atomic_reach.intros) (simp_all add: op_ok_def)
  moreover have "\<not> m_isSPSC ?c" by (simp add: AtomicQueue2_def Let_def)
  moreover have "conf_ok ?c" by (rule AtomicQueue2_conf) simp_all
  moreover have "pushed (trace ?s) = [5]" by code_simp
  ultimately show ?thesis using atomic_queue_conserves [of 0 ?c ?s] by (simp add: Let_def)
qed

section \<open>The sleeping consumer\<close>

text \<open>
  \<open>MPSCQueue\<close> over a queue whose \<open>try_push\<close> and \<open>try_pop\<close> are taken as atomic (a list with a
  capacity). The consumer polls 1000 times, then sets \<open>m_consumerWait\<close> and waits on the
  condition variable until the flag is false; a producer that sees the flag clears it under
  the mutex and notifies.
\<close>

datatype 'a cpc =
  CTry nat             \<comment> \<open>about to \<open>try_pop\<close>, with \<open>cnt\<close>\<close>
| CSetWait nat         \<comment> \<open>\<open>cnt == 1000\<close>: about to set the flag\<close>
| CEnterWait nat       \<comment> \<open>about to lock and test the predicate\<close>
| CBlocked nat         \<comment> \<open>inside \<open>m_cv.wait\<close>\<close>
| CReturned 'a

datatype 'a ppc = PIdle | PTry 'a | PCheck | PClear | PNotify

record 'a mpsc =
  items :: "'a list"
  m_consumerWait :: bool
  consumer :: "'a cpc"
  producer :: "nat \<Rightarrow> 'a ppc"

definition mpsc_pop_step :: "'a mpsc \<Rightarrow> 'a mpsc" where
  "mpsc_pop_step s =
     (case consumer s of
        CTry cnt \<Rightarrow>
          (case items s of
             x # xs \<Rightarrow> s\<lparr>items := xs, consumer := CReturned x\<rparr>
           | [] \<Rightarrow> s\<lparr>consumer := (if cnt = 1000 then CSetWait cnt else CTry (cnt + 1))\<rparr>)
      | CSetWait cnt \<Rightarrow> s\<lparr>m_consumerWait := True, consumer := CEnterWait cnt\<rparr>
      | CEnterWait cnt \<Rightarrow>
          s\<lparr>consumer := (if m_consumerWait s then CBlocked cnt else CTry (cnt + 1))\<rparr>
      | CBlocked cnt \<Rightarrow> s
      | CReturned x \<Rightarrow> s)"

definition mpsc_push_step :: "nat \<Rightarrow> nat \<Rightarrow> 'a mpsc \<Rightarrow> 'a mpsc" where
  "mpsc_push_step cap p s =
     (case producer s p of
        PIdle \<Rightarrow> s
      | PTry x \<Rightarrow>
          (if length (items s) < cap
           then s\<lparr>items := items s @ [x], producer := (producer s)(p := PCheck)\<rparr> else s)
      | PCheck \<Rightarrow>
          s\<lparr>producer := (producer s)(p := (if m_consumerWait s then PClear else PIdle))\<rparr>
      | PClear \<Rightarrow> s\<lparr>m_consumerWait := False, producer := (producer s)(p := PNotify)\<rparr>
      | PNotify \<Rightarrow>
          s\<lparr>producer := (producer s)(p := PIdle),
            consumer := (case consumer s of CBlocked cnt \<Rightarrow> CEnterWait cnt | pc \<Rightarrow> pc)\<rparr>)"

datatype mpsc_move = ConsumerStep | ProducerStep nat

definition mpsc_step :: "nat \<Rightarrow> mpsc_move \<Rightarrow> 'a mpsc \<Rightarrow> 'a mpsc" where
  "mpsc_step cap m s =
     (case m of ConsumerStep \<Rightarrow> mpsc_pop_step s | ProducerStep p \<Rightarrow> mpsc_push_step cap p s)"

text \<open>The consumer starts \<open>pop\<close> on an empty queue; producer \<open>p\<close> is about to push \<open>x\<close>.\<close>

definition mpsc_start :: "nat \<Rightarrow> 'a \<Rightarrow> 'a mpsc" where
  "mpsc_start p x = \<lparr>items = [], m_consumerWait = False, consumer = CTry 0,
     producer = (\<lambda>_. PIdle)(p := PTry x)\<rparr>"

text \<open>A state in which no step changes anything: the consumer sleeps and no one will wake it.\<close>

definition mpsc_stuck :: "nat \<Rightarrow> 'a mpsc \<Rightarrow> bool" where
  "mpsc_stuck cap s \<longleftrightarrow> (\<forall>m. mpsc_step cap m s = s)"

lemma mpsc_poll:
  "k \<le> 1000 \<Longrightarrow> (mpsc_step cap ConsumerStep ^^ k) (mpsc_start p x) = (mpsc_start p x)\<lparr>consumer := CTry k\<rparr>"
proof (induction k)
  case 0
  show ?case by (simp add: mpsc_start_def)
next
  case (Suc k)
  then have "(mpsc_step cap ConsumerStep ^^ k) (mpsc_start p x) = (mpsc_start p x)\<lparr>consumer := CTry k\<rparr>" by simp
  then have "(mpsc_step cap ConsumerStep ^^ Suc k) (mpsc_start p x) =
      mpsc_step cap ConsumerStep ((mpsc_start p x)\<lparr>consumer := CTry k\<rparr>)" by simp
  also have "\<dots> = (mpsc_start p x)\<lparr>consumer := CTry (Suc k)\<rparr>"
    using Suc.prems by (simp add: mpsc_step_def mpsc_pop_step_def mpsc_start_def)
  finally show ?case .
qed

text \<open>
  C40. The consumer of \<open>MPSCQueue\<close> can sleep forever on a non-empty queue: there is a run in
  which a producer pushes after the consumer's last failed \<open>try_pop\<close> and tests the wait flag
  before the consumer sets it, so nobody notifies. The predicate of the wait does not look
  at the queue.
\<close>

theorem mpsc_lost_wakeup:
  assumes "0 < cap"
  shows "\<exists>ms. let s = fold (mpsc_step cap) ms (mpsc_start p x) in
           mpsc_stuck cap s \<and> items s = [x] \<and> m_consumerWait s \<and> (\<exists>cnt. consumer s = CBlocked cnt)"
proof -
  let ?ms = "replicate 1000 ConsumerStep @ [ConsumerStep, ProducerStep p, ProducerStep p, ConsumerStep, ConsumerStep]"
  let ?s = "\<lparr>items = [x], m_consumerWait = True, consumer = CBlocked 1000, producer = (\<lambda>_. PIdle)\<rparr>"
  have "fold (mpsc_step cap) ?ms (mpsc_start p x) =
      fold (mpsc_step cap) [ConsumerStep, ProducerStep p, ProducerStep p, ConsumerStep, ConsumerStep]
        ((mpsc_start p x)\<lparr>consumer := CTry 1000\<rparr>)"
    by (simp only: fold_append fold_replicate comp_apply mpsc_poll order_refl)
  also have "\<dots> = ?s"
    using assms by (simp add: mpsc_step_def mpsc_pop_step_def mpsc_push_step_def mpsc_start_def fun_upd_idem)
  finally have "fold (mpsc_step cap) ?ms (mpsc_start p x) = ?s" .
  moreover have "mpsc_stuck cap ?s"
    by (auto simp: mpsc_stuck_def mpsc_step_def mpsc_pop_step_def mpsc_push_step_def split: mpsc_move.splits)
  ultimately show ?thesis by (intro exI [of _ ?ms]) (simp only: Let_def, auto)
qed

lemma mpsc_lost_wakeup_witness:
  "\<exists>ms. let s = fold (mpsc_step 4) ms (mpsc_start 0 (9 :: nat)) in
     mpsc_stuck 4 s \<and> items s = [9] \<and> m_consumerWait s \<and> (\<exists>cnt. consumer s = CBlocked cnt)"
  using mpsc_lost_wakeup [of 4 0 9] by simp

end
