(* ===== verification/Lu_Locks.thy ===== *)
theory Lu_Locks
  imports Lu_Prelude
begin

text \<open>
  The locks of \<open>src/common/spinlock.cpp\<close>, the barrier of \<open>src/common/barrier.cpp\<close> and
  \<open>WaitForCount\<close> of \<open>src/utils/WaitForCount.cpp\<close>. Each atomic access of a thread is a step.
  The locale \<open>exclusive_lock\<close> is what the users of a lock rely on; both spin locks provide it.
\<close>

section \<open>The contract of a lock\<close>

text \<open>
  \<open>acquire t\<close> and \<open>release t\<close> are steps of thread \<open>t\<close>; \<open>inside s t\<close> says that \<open>t\<close> holds the
  lock. A thread takes acquire steps while it is outside and releases when it is inside.
\<close>

datatype lock_move = Acquire nat | Release nat

text \<open>A run: every thread takes acquire steps while outside and releases only when inside.\<close>

fun lock_run ::
  "(nat \<Rightarrow> bool) \<Rightarrow> ('s \<Rightarrow> nat \<Rightarrow> bool) \<Rightarrow> (nat \<Rightarrow> 's \<Rightarrow> 's) \<Rightarrow> (nat \<Rightarrow> 's \<Rightarrow> 's) \<Rightarrow>
     lock_move list \<Rightarrow> 's \<Rightarrow> 's" where
  "lock_run thread inside acquire release [] s = s"
| "lock_run thread inside acquire release (Acquire t # ms) s =
     lock_run thread inside acquire release ms (if thread t \<and> \<not> inside s t then acquire t s else s)"
| "lock_run thread inside acquire release (Release t # ms) s =
     lock_run thread inside acquire release ms (if thread t \<and> inside s t then release t s else s)"

locale exclusive_lock =
  fixes start :: 's
    and acquire :: "nat \<Rightarrow> 's \<Rightarrow> 's"
    and release :: "nat \<Rightarrow> 's \<Rightarrow> 's"
    and inside :: "'s \<Rightarrow> nat \<Rightarrow> bool"
    and inv :: "'s \<Rightarrow> bool"
    and thread :: "nat \<Rightarrow> bool"
  assumes inv_start: "inv start"
    and inv_acquire: "inv s \<Longrightarrow> thread t \<Longrightarrow> \<not> inside s t \<Longrightarrow> inv (acquire t s)"
    and inv_release: "inv s \<Longrightarrow> thread t \<Longrightarrow> inside s t \<Longrightarrow> inv (release t s)"
    and exclusive: "inv s \<Longrightarrow> inside s t \<Longrightarrow> inside s u \<Longrightarrow> t = u"
    and acquire_others: "u \<noteq> t \<Longrightarrow> inside (acquire t s) u = inside s u"
    and release_self: "inside s t \<Longrightarrow> \<not> inside (release t s) t"
begin

abbreviation "run \<equiv> lock_run thread inside acquire release"

lemma run_inv: "inv s \<Longrightarrow> inv (run ms s)"
proof (induction ms arbitrary: s)
  case (Cons m ms)
  then show ?case by (cases m) (simp_all add: inv_acquire inv_release)
qed simp

lemma mutual_exclusion:
  "inside (run ms start) t \<Longrightarrow> inside (run ms start) u \<Longrightarrow> t = u"
  using exclusive run_inv inv_start by blast

text \<open>While \<open>t\<close> holds the lock, steps of the others do not take it away.\<close>

lemma holder_keeps:
  assumes "inv s" "inside s t" "Release t \<notin> set ms"
  shows "inside (run ms s) t"
  using assms
proof (induction ms arbitrary: s)
  case (Cons m ms)
  show ?case
  proof (cases m)
    case (Acquire u)
    with Cons show ?thesis by (cases "u = t") (simp_all add: inv_acquire acquire_others)
  next
    case (Release u)
    with Cons.prems have "\<not> inside s u" using exclusive [of s t u] by auto
    with Release Cons show ?thesis by simp
  qed
qed simp

end

section \<open>UnfairSpinlock\<close>

datatype unfair_pc = UOut | USawFree | UInside

record unfair_lock =
  m_lock :: nat
  u_pc :: "nat \<Rightarrow> unfair_pc"

definition unfair_start :: unfair_lock where
  "unfair_start = \<lparr>m_lock = 0, u_pc = (\<lambda>_. UOut)\<rparr>"

text \<open>\<open>lock\<close>: load, and if free exchange; a lost exchange or a taken lock pauses and retries.\<close>

definition unfair_lock_step :: "nat \<Rightarrow> unfair_lock \<Rightarrow> unfair_lock" where
  "unfair_lock_step t s =
     (case u_pc s t of
        UOut \<Rightarrow> (if m_lock s = 0 then s\<lparr>u_pc := (u_pc s)(t := USawFree)\<rparr> else s)
      | USawFree \<Rightarrow>
          s\<lparr>m_lock := 1, u_pc := (u_pc s)(t := (if m_lock s = 0 then UInside else UOut))\<rparr>
      | UInside \<Rightarrow> s)"

definition unfair_unlock :: "nat \<Rightarrow> unfair_lock \<Rightarrow> unfair_lock" where
  "unfair_unlock t s = s\<lparr>m_lock := 0, u_pc := (u_pc s)(t := UOut)\<rparr>"

definition unfair_inside :: "unfair_lock \<Rightarrow> nat \<Rightarrow> bool" where
  "unfair_inside s t \<longleftrightarrow> u_pc s t = UInside"

definition unfair_inv :: "unfair_lock \<Rightarrow> bool" where
  "unfair_inv s \<longleftrightarrow>
     (m_lock s = 0 \<longrightarrow> (\<forall>t. u_pc s t \<noteq> UInside)) \<and>
     (\<forall>t u. t \<noteq> u \<longrightarrow> u_pc s t = UInside \<longrightarrow> u_pc s u \<noteq> UInside)"

interpretation unfair: exclusive_lock unfair_start unfair_lock_step unfair_unlock unfair_inside unfair_inv "\<lambda>_. True"
proof unfold_locales
  show "unfair_inv unfair_start" by (simp add: unfair_inv_def unfair_start_def)
next
  fix s t assume *: "unfair_inv s" "\<not> unfair_inside s t"
  show "unfair_inv (unfair_lock_step t s)"
  proof (cases "u_pc s t")
    case USawFree
    with * show ?thesis
      by (cases "m_lock s = 0") (auto simp: unfair_inv_def unfair_lock_step_def)
  next
    case UOut
    with * show ?thesis
      by (cases "m_lock s = 0") (auto simp: unfair_inv_def unfair_lock_step_def)
  next
    case UInside
    with * show ?thesis by (simp add: unfair_inside_def)
  qed
next
  fix s t assume "unfair_inv s" "unfair_inside s t"
  then show "unfair_inv (unfair_unlock t s)"
    unfolding unfair_inv_def unfair_inside_def unfair_unlock_def by auto
next
  fix s t u assume "unfair_inv s" "unfair_inside s t" "unfair_inside s u"
  then show "t = u" by (auto simp: unfair_inv_def unfair_inside_def)
qed (auto simp: unfair_inside_def unfair_unlock_def unfair_lock_step_def split: unfair_pc.splits)

section \<open>TicketSpinlock\<close>

datatype ticket_pc = TOut | TWaiting u32 | TInside u32

record ticket_lock =
  m_ticket :: u32
  m_next :: u32
  t_pc :: "nat \<Rightarrow> ticket_pc"

definition ticket_start :: ticket_lock where
  "ticket_start = \<lparr>m_ticket = 0, m_next = 0, t_pc = (\<lambda>_. TOut)\<rparr>"

text \<open>\<open>lock\<close>: take a ticket, then compare it with \<open>m_next\<close> until the position is 0 (the inner
  loop only pauses).\<close>

definition ticket_lock_step :: "nat \<Rightarrow> ticket_lock \<Rightarrow> ticket_lock" where
  "ticket_lock_step t s =
     (case t_pc s t of
        TOut \<Rightarrow> s\<lparr>m_ticket := m_ticket s + 1, t_pc := (t_pc s)(t := TWaiting (m_ticket s))\<rparr>
      | TWaiting ticket \<Rightarrow>
          (let position = ticket - m_next s in
           if position = 0 then s\<lparr>t_pc := (t_pc s)(t := TInside ticket)\<rparr> else s)
      | TInside ticket \<Rightarrow> s)"

definition ticket_unlock_with :: "u32 \<Rightarrow> nat \<Rightarrow> ticket_lock \<Rightarrow> ticket_lock" where
  "ticket_unlock_with ticket t s = s\<lparr>m_next := ticket + 1, t_pc := (t_pc s)(t := TOut)\<rparr>"

text \<open>\<open>unlock(unsigned ticket)\<close> with the ticket \<open>lock()\<close> returned, as \<open>LockGuard\<close> calls it.\<close>

definition ticket_unlock :: "nat \<Rightarrow> ticket_lock \<Rightarrow> ticket_lock" where
  "ticket_unlock t s =
     (case t_pc s t of TInside ticket \<Rightarrow> ticket_unlock_with ticket t s | _ \<Rightarrow> s)"

text \<open>\<open>unlock()\<close> without a ticket.\<close>

definition ticket_unlock_plain :: "nat \<Rightarrow> ticket_lock \<Rightarrow> ticket_lock" where
  "ticket_unlock_plain t s = ticket_unlock_with (m_next s + 1) t s"

definition ticket_inside :: "ticket_lock \<Rightarrow> nat \<Rightarrow> bool" where
  "ticket_inside s t \<longleftrightarrow> (\<exists>k. t_pc s t = TInside k)"

text \<open>
  The abstraction: the threads at the lock queue in the order of their tickets. \<open>ticket_queue
  q s\<close> says that \<open>q\<close> is that queue: thread \<open>q ! i\<close> has ticket \<open>m_next + i\<close>, and only the first
  can be inside. Fewer than \<open>2^32\<close> threads make the tickets unambiguous.
\<close>

definition ticket_threads :: "nat \<Rightarrow> bool" where
  "ticket_threads t \<longleftrightarrow> t < 2 ^ 32 - 1"

definition ticket_queue :: "nat list \<Rightarrow> ticket_lock \<Rightarrow> bool" where
  "ticket_queue q s \<longleftrightarrow>
     distinct q \<and> (\<forall>t. t \<in> set q \<longleftrightarrow> t_pc s t \<noteq> TOut) \<and> (\<forall>t \<in> set q. ticket_threads t) \<and>
     m_ticket s = m_next s + word_of_nat (length q) \<and>
     (\<forall>i < length q. t_pc s (q ! i) = TWaiting (m_next s + word_of_nat i) \<or>
        i = 0 \<and> t_pc s (q ! i) = TInside (m_next s))"

definition ticket_inv :: "ticket_lock \<Rightarrow> bool" where
  "ticket_inv s \<longleftrightarrow> (\<exists>q. ticket_queue q s)"

lemma ticket_queue_short:
  assumes "ticket_queue q s"
  shows "length q < 2 ^ 32"
proof -
  have "set q \<subseteq> {..< 2 ^ 32 - 1}" using assms by (auto simp: ticket_queue_def ticket_threads_def)
  then have "card (set q) \<le> 2 ^ 32 - 1" by (metis card_lessThan card_mono finite_lessThan)
  moreover have "card (set q) = length q" using assms by (simp add: ticket_queue_def distinct_card)
  ultimately show ?thesis by simp
qed

lemma word_of_nat_eq_0: "n < 2 ^ 32 \<Longrightarrow> (word_of_nat n :: u32) = 0 \<longleftrightarrow> n = 0"
  by (auto simp: word_of_nat_eq_0_iff dest: nat_dvd_not_less)

lemma ticket_queue_inside:
  assumes "ticket_queue q s" "t_pc s t = TInside k"
  shows "\<exists>rest. q = t # rest \<and> k = m_next s"
proof -
  from assms have "t \<in> set q" by (simp add: ticket_queue_def)
  then obtain i where i: "i < length q" "q ! i = t" by (auto simp: in_set_conv_nth)
  with assms have "i = 0" "k = m_next s" by (auto simp: ticket_queue_def)
  with i show ?thesis by (cases q) auto
qed

lemma ticket_take:
  assumes "ticket_queue q s" "t_pc s t = TOut" "ticket_threads t"
  shows "ticket_queue (q @ [t]) (ticket_lock_step t s)"
proof -
  have new: "t \<notin> set q" using assms by (simp add: ticket_queue_def)
  then have "q ! i \<noteq> t" if "i < length q" for i using that by (metis nth_mem)
  with assms new show ?thesis
    by (auto simp: ticket_queue_def ticket_lock_step_def nth_append less_Suc_eq algebra_simps)
qed

lemma ticket_wait:
  assumes "ticket_queue q s" "t_pc s t = TWaiting k"
  shows "ticket_queue q (ticket_lock_step t s)"
proof (cases "k = m_next s")
  case True
  from assms have "t \<in> set q" by (simp add: ticket_queue_def)
  then obtain i where i: "i < length q" "q ! i = t" by (auto simp: in_set_conv_nth)
  with assms True have "(word_of_nat i :: u32) = 0" by (auto simp: ticket_queue_def)
  with i ticket_queue_short [OF assms(1)] have i0: "i = 0" by (simp add: word_of_nat_eq_0)
  have "q ! j \<noteq> t" if "j < length q" "j \<noteq> 0" for j
    using that i i0 assms(1) by (auto simp: ticket_queue_def nth_eq_iff_index_eq)
  with assms True i i0 show ?thesis
    by (auto simp: ticket_queue_def ticket_lock_step_def)
next
  case False
  with assms show ?thesis by (simp add: ticket_lock_step_def)
qed

lemma ticket_leave:
  assumes "ticket_queue (t # q) s" "t_pc s t = TInside k"
  shows "ticket_queue q (ticket_unlock t s)"
proof -
  from ticket_queue_inside [OF assms] have k: "k = m_next s" by simp
  have others: "q ! i \<noteq> t" if "i < length q" for i
    using assms(1) that by (auto simp: ticket_queue_def)
  have "t_pc s (q ! i) = TWaiting (m_next s + word_of_nat (Suc i))" if "i < length q" for i
    using assms(1) that unfolding ticket_queue_def by (metis Suc_less_eq length_Cons nat.distinct(1) nth_Cons_Suc)
  with assms k others show ?thesis
    by (auto simp: ticket_queue_def ticket_unlock_def ticket_unlock_with_def algebra_simps)
qed

interpretation ticket: exclusive_lock ticket_start ticket_lock_step ticket_unlock ticket_inside ticket_inv ticket_threads
proof unfold_locales
  show "ticket_inv ticket_start"
    by (auto simp: ticket_inv_def ticket_queue_def ticket_start_def intro: exI [of _ "[]"])
next
  fix s t assume *: "ticket_inv s" "ticket_threads t" "\<not> ticket_inside s t"
  then show "ticket_inv (ticket_lock_step t s)"
    by (cases "t_pc s t") (auto simp: ticket_inv_def ticket_inside_def dest: ticket_take ticket_wait)
next
  fix s t assume "ticket_inv s" "ticket_inside s t"
  then obtain q k where q: "ticket_queue q s" "t_pc s t = TInside k" by (auto simp: ticket_inv_def ticket_inside_def)
  from ticket_queue_inside [OF q] obtain rest where "q = t # rest" by blast
  with q ticket_leave [of t rest s k] show "ticket_inv (ticket_unlock t s)"
    unfolding ticket_inv_def by blast
next
  fix s t u assume "ticket_inv s" "ticket_inside s t" "ticket_inside s u"
  then obtain q k l where "ticket_queue q s" "t_pc s t = TInside k" "t_pc s u = TInside l"
    by (auto simp: ticket_inv_def ticket_inside_def)
  from ticket_queue_inside [OF this(1,2)] ticket_queue_inside [OF this(1,3)] show "t = u" by auto
qed (auto simp: ticket_inside_def ticket_unlock_def ticket_unlock_with_def ticket_lock_step_def Let_def
      split: ticket_pc.splits)

text \<open>The first thread of the queue enters at its next step.\<close>

lemma ticket_head_enters:
  assumes "ticket_queue (t # q) s"
  shows "ticket_inside (ticket_lock_step t s) t"
proof -
  from assms have "t_pc s t = TWaiting (m_next s) \<or> t_pc s t = TInside (m_next s)"
    unfolding ticket_queue_def by force
  then show ?thesis by (auto simp: ticket_inside_def ticket_lock_step_def)
qed

section \<open>Barrier\<close>

text \<open>
  \<open>Barrier::wait\<close>: count in, then spin until the counter is 0. \<open>Barrier::release\<close>: spin until
  the counter is the expected one, then store 0; a load of the loop and the store are steps of
  their own, so that threads can arrive in between.
\<close>

datatype barrier_pc = BOut | BSpinning | BPassed

datatype release_pc = RSpinning | RStoring | RReturned

record barrier =
  m_counter :: u32
  b_pc :: "nat \<Rightarrow> barrier_pc"
  b_release :: release_pc

definition barrier_start :: barrier where
  "barrier_start = \<lparr>m_counter = 0, b_pc = (\<lambda>_. BOut), b_release = RSpinning\<rparr>"

definition barrier_wait_step :: "nat \<Rightarrow> barrier \<Rightarrow> barrier" where
  "barrier_wait_step t b =
     (case b_pc b t of
        BOut \<Rightarrow> b\<lparr>m_counter := m_counter b + 1, b_pc := (b_pc b)(t := BSpinning)\<rparr>
      | BSpinning \<Rightarrow> (if m_counter b \<noteq> 0 then b else b\<lparr>b_pc := (b_pc b)(t := BPassed)\<rparr>)
      | BPassed \<Rightarrow> b)"

definition barrier_release_step :: "u32 \<Rightarrow> barrier \<Rightarrow> barrier" where
  "barrier_release_step expected b =
     (case b_release b of
        RSpinning \<Rightarrow> (if expected \<noteq> m_counter b then b else b\<lparr>b_release := RStoring\<rparr>)
      | RStoring \<Rightarrow> b\<lparr>m_counter := 0, b_release := RReturned\<rparr>
      | RReturned \<Rightarrow> b)"

datatype barrier_move = BWait nat | BRelease

definition barrier_step :: "u32 \<Rightarrow> barrier_move \<Rightarrow> barrier \<Rightarrow> barrier" where
  "barrier_step expected m b =
     (case m of BWait t \<Rightarrow> (if t < 2 ^ 32 - 1 then barrier_wait_step t b else b)
      | BRelease \<Rightarrow> barrier_release_step expected b)"

definition arrived :: "(nat \<Rightarrow> barrier_pc) \<Rightarrow> nat set" where
  "arrived pc = {t. pc t \<noteq> BOut}"

text \<open>
  Before the store the counter is the number of threads that have arrived, which is at least
  the expected one when the loop has ended.
\<close>

definition barrier_inv :: "u32 \<Rightarrow> barrier \<Rightarrow> bool" where
  "barrier_inv expected b \<longleftrightarrow>
     (\<forall>t. b_pc b t \<noteq> BOut \<longrightarrow> t < 2 ^ 32 - 1) \<and>
     (b_release b \<noteq> RReturned \<longrightarrow>
        m_counter b = word_of_nat (card (arrived (b_pc b))) \<and> (\<forall>t. b_pc b t \<noteq> BPassed)) \<and>
     (b_release b \<noteq> RSpinning \<longrightarrow> unat expected \<le> card (arrived (b_pc b)))"

lemma arrived_finite: "\<forall>t. b_pc b t \<noteq> BOut \<longrightarrow> t < 2 ^ 32 - 1 \<Longrightarrow> finite (arrived (b_pc b))"
  by (rule finite_subset [of _ "{..< 2 ^ 32 - 1}"]) (auto simp: arrived_def)

lemma arrived_bound:
  assumes "\<forall>t. b_pc b t \<noteq> BOut \<longrightarrow> t < 2 ^ 32 - 1"
  shows "card (arrived (b_pc b)) < 2 ^ 32"
proof -
  have "arrived (b_pc b) \<subseteq> {..< 2 ^ 32 - 1}" using assms by (auto simp: arrived_def)
  then have "card (arrived (b_pc b)) \<le> 2 ^ 32 - 1" by (metis card_lessThan card_mono finite_lessThan)
  then show ?thesis by simp
qed

lemma arrived_insert:
  "b_pc b t = BOut \<Longrightarrow> arrived ((b_pc b)(t := BSpinning)) = insert t (arrived (b_pc b))"
  by (auto simp: arrived_def)

lemma arrived_pass:
  "b_pc b t = BSpinning \<Longrightarrow> arrived ((b_pc b)(t := BPassed)) = arrived (b_pc b)"
  by (auto simp: arrived_def)

lemma barrier_wait_inv:
  assumes "barrier_inv expected b" "t < 2 ^ 32 - 1"
  shows "barrier_inv expected (barrier_wait_step t b)"
proof -
  let ?A = "arrived (b_pc b)"
  have lt: "\<forall>t. b_pc b t \<noteq> BOut \<longrightarrow> t < 2 ^ 32 - 1" using assms(1) by (simp add: barrier_inv_def)
  note fin = arrived_finite [OF lt]
  show ?thesis
  proof (cases "b_pc b t")
    case BOut
    then have "card (insert t ?A) = Suc (card ?A)" using fin by (simp add: arrived_def)
    with BOut assms show ?thesis
      unfolding barrier_wait_step_def barrier_inv_def
      by (auto simp: algebra_simps arrived_insert)
  next
    case BSpinning
    have "m_counter b \<noteq> 0" if "b_release b \<noteq> RReturned"
    proof -
      have "t \<in> ?A" using BSpinning by (simp add: arrived_def)
      then have "card ?A \<noteq> 0" using fin by auto
      moreover have "m_counter b = word_of_nat (card ?A)" using assms(1) that by (simp add: barrier_inv_def)
      ultimately show ?thesis using word_of_nat_eq_0 [OF arrived_bound [OF lt]] by simp
    qed
    with BSpinning assms show ?thesis
      unfolding barrier_wait_step_def barrier_inv_def
      by (auto simp: arrived_pass)
  qed (use assms in \<open>simp add: barrier_wait_step_def\<close>)
qed

lemma barrier_release_inv:
  assumes "barrier_inv expected b"
  shows "barrier_inv expected (barrier_release_step expected b)"
proof -
  have lt: "\<forall>t. b_pc b t \<noteq> BOut \<longrightarrow> t < 2 ^ 32 - 1" using assms by (simp add: barrier_inv_def)
  have "unat expected = card (arrived (b_pc b))" if "b_release b = RSpinning" "expected = m_counter b"
  proof -
    have "unat (word_of_nat (card (arrived (b_pc b))) :: u32) = card (arrived (b_pc b))"
      using arrived_bound [OF lt] by (simp add: unsigned_of_nat take_bit_nat_eq_self_iff)
    with assms that show ?thesis by (simp add: barrier_inv_def)
  qed
  with assms show ?thesis by (cases "b_release b") (auto simp: barrier_inv_def barrier_release_step_def)
qed

lemma barrier_run_inv: "barrier_inv expected b \<Longrightarrow> barrier_inv expected (fold (barrier_step expected) ms b)"
proof (induction ms arbitrary: b)
  case (Cons m ms)
  then have "barrier_inv expected (barrier_step expected m b)"
    by (cases m) (auto simp: barrier_step_def barrier_wait_inv barrier_release_inv)
  with Cons.IH show ?case by simp
qed simp

section \<open>WaitForCount\<close>

record wait_for_count =
  m_numberOfCountWaiting :: u32
  m_count :: u32

definition WaitForCount :: "u32 \<Rightarrow> wait_for_count" where
  "WaitForCount numOfCountWaiting = \<lparr>m_numberOfCountWaiting = numOfCountWaiting, m_count = 0\<rparr>"

text \<open>The boolean says whether the waiters were notified.\<close>

definition wc_increment :: "wait_for_count \<Rightarrow> bool \<times> wait_for_count" where
  "wc_increment w =
     (let w' = w\<lparr>m_count := m_count w + 1\<rparr> in (m_count w' = m_numberOfCountWaiting w', w'))"

definition wc_may_return :: "wait_for_count \<Rightarrow> bool" where
  "wc_may_return w \<longleftrightarrow> m_count w = m_numberOfCountWaiting w"

definition wc_update :: "u32 \<Rightarrow> wait_for_count \<Rightarrow> wait_for_count" where
  "wc_update numOfCountWaiting w = w\<lparr>m_numberOfCountWaiting := numOfCountWaiting\<rparr>"

lemma wc_count:
  "((snd \<circ> wc_increment) ^^ k) (WaitForCount n) = \<lparr>m_numberOfCountWaiting = n, m_count = word_of_nat k\<rparr>"
  by (induction k) (auto simp: WaitForCount_def wc_increment_def Let_def)

section \<open>Properties\<close>

text \<open>
  C32. \<open>TicketSpinlock\<close> with \<open>unlock(ticket)\<close> is a fair lock for fewer than \<open>2^32\<close> threads, across
  wrap-around of the tickets: in every reachable state the threads at the lock form a queue,
  a thread inside is its first (so there is at most one), and the first enters at its next
  step.
\<close>

theorem ticket_lock_fair:
  assumes "s = lock_run ticket_threads ticket_inside ticket_lock_step ticket_unlock ms ticket_start"
  shows "\<exists>q. ticket_queue q s \<and>
           (\<forall>t. ticket_inside s t \<longrightarrow> q \<noteq> [] \<and> hd q = t) \<and>
           (q \<noteq> [] \<longrightarrow> ticket_inside (ticket_lock_step (hd q) s) (hd q))"
proof -
  have "ticket_inv s" unfolding assms by (rule ticket.run_inv [OF ticket.inv_start])
  then obtain q where q: "ticket_queue q s" by (auto simp: ticket_inv_def)
  moreover have "q \<noteq> [] \<and> hd q = t" if "ticket_inside s t" for t
    using that ticket_queue_inside [OF q] unfolding ticket_inside_def by (metis list.sel(1) list.distinct(1))
  moreover have "ticket_inside (ticket_lock_step (hd q) s) (hd q)" if "q \<noteq> []"
    using that q ticket_head_enters [of "hd q" "tl q" s] by simp
  ultimately show ?thesis by blast
qed

lemma ticket_lock_fair_witness:
  "\<exists>q. ticket_queue q (lock_run ticket_threads ticket_inside ticket_lock_step ticket_unlock
          [Acquire 3, Acquire 5, Acquire 3] ticket_start) \<and> q \<noteq> [] \<and> hd q = 3"
proof -
  let ?s = "lock_run ticket_threads ticket_inside ticket_lock_step ticket_unlock
          [Acquire 3, Acquire 5, Acquire 3] ticket_start"
  have "ticket_inside ?s 3"
    by (simp add: ticket_threads_def ticket_inside_def ticket_start_def ticket_lock_step_def)
  then show ?thesis using ticket_lock_fair [OF refl, of "[Acquire 3, Acquire 5, Acquire 3]"] by blast
qed

text \<open>
  \<open>UnfairSpinlock\<close> is mutually exclusive: in no run of \<open>lock\<close> and \<open>unlock\<close> steps are two
  threads inside.
\<close>

theorem unfair_lock_exclusive:
  assumes "s = lock_run (\<lambda>_. True) unfair_inside unfair_lock_step unfair_unlock ms unfair_start"
    and "unfair_inside s t" and "unfair_inside s u"
  shows "t = u"
  using unfair.mutual_exclusion assms by blast

lemma unfair_lock_exclusive_witness:
  "\<forall>u. unfair_inside (lock_run (\<lambda>_. True) unfair_inside unfair_lock_step unfair_unlock
          [Acquire 0, Acquire 1, Acquire 0, Acquire 1] unfair_start) u = (u = 0)"
proof -
  let ?s = "lock_run (\<lambda>_. True) unfair_inside unfair_lock_step unfair_unlock
          [Acquire 0, Acquire 1, Acquire 0, Acquire 1] unfair_start"
  have "unfair_inside ?s 0" by (simp add: unfair_inside_def unfair_start_def unfair_lock_step_def)
  then show ?thesis using unfair_lock_exclusive [OF refl, of "[Acquire 0, Acquire 1, Acquire 0, Acquire 1]"] by blast
qed

text \<open>
  \<open>TicketSpinlock::unlock()\<close> without a ticket breaks the lock: it stores \<open>m_next + 2\<close>, so
  after one lock and unlock the next thread's ticket is never called, however long it
  spins.
\<close>

theorem ticket_unlock_plain_starves:
  assumes "s = ticket_unlock_plain t (ticket_lock_step t (ticket_lock_step t ticket_start))"
  shows "\<not> ticket_inside ((ticket_lock_step u ^^ n) s) u"
proof -
  let ?w = "\<lparr>m_ticket = 2, m_next = 2, t_pc = (\<lambda>_. TOut)(u := TWaiting 1)\<rparr>"
  have s: "s = \<lparr>m_ticket = 1, m_next = 2, t_pc = (\<lambda>_. TOut)\<rparr>"
    unfolding assms by (simp add: ticket_unlock_plain_def ticket_unlock_with_def ticket_lock_step_def ticket_start_def
        fun_upd_idem)
  have wait: "ticket_lock_step u ?w = ?w" by (simp add: ticket_lock_step_def)
  have "(ticket_lock_step u ^^ Suc k) s = ?w" for k
  proof (induction k)
    case 0
    then show ?case by (simp add: s ticket_lock_step_def fun_upd_def)
  next
    case (Suc k)
    have "(ticket_lock_step u ^^ Suc (Suc k)) s = ticket_lock_step u ((ticket_lock_step u ^^ Suc k) s)" by simp
    also have "\<dots> = ?w" unfolding Suc by (rule wait)
    finally show ?case .
  qed
  then show ?thesis
    by (cases n) (simp_all only: funpow_0 s ticket_inside_def, auto)
qed

lemma ticket_unlock_plain_starves_witness:
  "\<not> ticket_inside ((ticket_lock_step 1 ^^ 100)
     (ticket_unlock_plain 0 (ticket_lock_step 0 (ticket_lock_step 0 ticket_start)))) 1"
  using ticket_unlock_plain_starves [OF refl] by blast

text \<open>
  C35. \<open>Barrier\<close>: in any interleaving of one \<open>release(expected)\<close> and of less than \<open>2^32\<close> threads
  that each call \<open>wait\<close> once, no thread passes before \<open>release\<close> has stored 0 and returned, and by
  then at least \<open>expected\<close> threads have arrived. A thread that is spinning before the store, even
  one that arrived after the last load of \<open>release\<close>, passes when it looks right after the store.
\<close>

theorem barrier_safe:
  assumes "b = fold (barrier_step expected) ms barrier_start"
  shows "(b_pc b t = BPassed \<longrightarrow> b_release b = RReturned \<and> unat expected \<le> card (arrived (b_pc b)))
    \<and> (b_release b = RStoring \<and> b_pc b t = BSpinning \<longrightarrow>
         b_pc (fold (barrier_step expected) [BRelease, BWait t] b) t = BPassed)"
proof -
  have "barrier_inv expected barrier_start" by (simp add: barrier_inv_def barrier_start_def arrived_def)
  from barrier_run_inv [OF this] have i: "barrier_inv expected b" unfolding assms(1) .
  have "b_pc (fold (barrier_step expected) [BRelease, BWait t] b) t = BPassed"
    if "b_release b = RStoring" "b_pc b t = BSpinning"
    using that i by (simp add: barrier_step_def barrier_release_step_def barrier_wait_step_def barrier_inv_def)
  with i show ?thesis by (auto simp: barrier_inv_def)
qed

lemma barrier_safe_witness:
  "b_release (fold (barrier_step 1) [BWait 4, BRelease, BWait 5, BRelease, BWait 5] barrier_start) = RReturned"
  using barrier_safe [OF refl, of 1 "[BWait 4, BRelease, BWait 5, BRelease, BWait 5]" 5]
  by (simp add: barrier_step_def barrier_wait_step_def barrier_release_step_def barrier_start_def)

text \<open>
  A thread that arrives after the store makes the counter 1 again: a thread that was waiting
  and has not looked in between goes on spinning, and so does the late one.
\<close>

lemma barrier_late_arrival:
  assumes "barrier_inv expected b" "b_release b = RStoring"
    and "b_pc b u = BSpinning" "b_pc b t = BOut" "t < 2 ^ 32 - 1"
  shows "fold (barrier_step expected) (BRelease # BWait t # replicate n (BWait u) @ replicate n (BWait t)) b
    = b\<lparr>m_counter := 1, b_release := RReturned, b_pc := (b_pc b)(t := BSpinning)\<rparr>"
proof -
  let ?b = "b\<lparr>m_counter := 1, b_release := RReturned, b_pc := (b_pc b)(t := BSpinning)\<rparr>"
  have ne: "u \<noteq> t" using assms(3,4) by auto
  have spin: "(barrier_step expected (BWait v) ^^ n) ?b = ?b" if "v = u \<or> v = t" for v
    using that ne assms(3) by (induction n) (auto simp: barrier_step_def barrier_wait_step_def)
  have "fold (barrier_step expected) [BRelease, BWait t] b = ?b"
    using assms(2,4,5) by (simp add: barrier_step_def barrier_release_step_def barrier_wait_step_def)
  then show ?thesis using spin by (simp add: fold_replicate)
qed

text \<open>
  \<open>WaitForCount\<close>: after \<open>k\<close> increments \<open>wait\<close> returns exactly when \<open>k\<close> is the awaited count
  modulo \<open>2^32\<close>; a waiter that looks only after one increment too many keeps waiting.
\<close>

theorem wait_for_count_exact:
  "wc_may_return (((snd \<circ> wc_increment) ^^ k) (WaitForCount n)) \<longleftrightarrow> k mod 2 ^ 32 = unat n"
proof -
  have "(word_of_nat k :: u32) = n \<longleftrightarrow> unat (word_of_nat k :: u32) = unat n" by (simp add: word_unat_eq_iff)
  then show ?thesis by (simp add: wc_count wc_may_return_def unsigned_of_nat take_bit_eq_mod)
qed

end
