(* ===== verification/Lu_Job_Manager.thy ===== *)
theory Lu_Job_Manager
  imports Lu_Prelude "HOL-Library.Multiset"
begin

text \<open>
  \<open>JobManager\<close> and its workers (\<open>src/thread/JobManager.cpp\<close>). Every section that the code runs
  under \<open>m_section\<close> is one step. A job is named by its address, a callback by the number of its
  receiver; \<open>deleted\<close> records the jobs that were \<open>delete\<close>d, in order, and \<open>calls\<close> the callbacks
  made. \<open>hw\<close> is \<open>std::thread::hardware_concurrency()\<close>.
\<close>

section \<open>State\<close>

datatype priority = LOW_PAUSABLE | LOW | NORMAL | HIGH | DEDICATED

fun prio_val :: "priority \<Rightarrow> nat" where
  "prio_val LOW_PAUSABLE = 0" | "prio_val LOW = 1" | "prio_val NORMAL = 2" | "prio_val HIGH = 3"
| "prio_val DEDICATED = 4"

definition prios_up :: "priority list" where
  "prios_up = [LOW_PAUSABLE, LOW, NORMAL, HIGH, DEDICATED]"

definition prios_down :: "priority list" where
  "prios_down = [DEDICATED, HIGH, NORMAL, LOW, LOW_PAUSABLE]"

type_synonym job = nat

record work_item =
  wi_job :: job
  wi_id :: u32
  wi_callback :: "nat option"
  wi_priority :: priority

datatype job_call = OnJobAbort nat u32 job | OnJobComplete nat job | OnJobProgress nat u32 job

record job_manager =
  m_jobCounter :: u32
  m_pauseJobs :: bool
  m_running :: bool
  m_jobQueue :: "priority \<Rightarrow> work_item list"
  m_processing :: "work_item list"
  m_workers :: "nat list"
  nextWorker :: nat
  deleted :: "job list"
  calls :: "job_call list"

definition JobManager :: job_manager where
  "JobManager = \<lparr>m_jobCounter = 0, m_pauseJobs = False, m_running = True,
     m_jobQueue = (\<lambda>_. []), m_processing = [], m_workers = [], nextWorker = 0,
     deleted = [], calls = []\<rparr>"

section \<open>Operations\<close>

definition getMaxWorkers :: "nat \<Rightarrow> priority \<Rightarrow> nat" where
  "getMaxWorkers hw priority =
     (let max_workers = (if hw \<le> 2 then 1 else hw) in
      if priority = DEDICATED then 10000
      else u32_sub max_workers (prio_val HIGH - prio_val priority))"

text \<open>\<open>restart\<close> throws when the manager runs; \<open>Inl\<close> is the exception.\<close>

definition restart :: "job_manager \<Rightarrow> string + job_manager" where
  "restart jm =
     (if m_running jm then Inl ''JobManager already running'' else Inr (jm\<lparr>m_running := True\<rparr>))"

definition deleteJob :: "job \<Rightarrow> job_manager \<Rightarrow> job_manager" where
  "deleteJob job jm = jm\<lparr>deleted := deleted jm @ [job]\<rparr>"

definition startWorkers :: "nat \<Rightarrow> priority \<Rightarrow> job_manager \<Rightarrow> job_manager" where
  "startWorkers hw priority jm =
     (if length (m_processing jm) \<ge> getMaxWorkers hw priority then jm
      else if length (m_processing jm) < length (m_workers jm) then jm
      else jm\<lparr>m_workers := m_workers jm @ [nextWorker jm], nextWorker := nextWorker jm + 1\<rparr>)"

definition addJob :: "nat \<Rightarrow> job \<Rightarrow> nat option \<Rightarrow> priority \<Rightarrow> job_manager \<Rightarrow> u32 \<times> job_manager" where
  "addJob hw job callback priority jm =
     (if \<not> m_running jm then (0, deleteJob job jm)
      else
        let counter = (if m_jobCounter jm + 1 = 0 then m_jobCounter jm + 2 else m_jobCounter jm + 1);
            work = \<lparr>wi_job = job, wi_id = counter, wi_callback = callback, wi_priority = priority\<rparr>;
            jm1 = jm\<lparr>m_jobCounter := counter,
                     m_jobQueue := (m_jobQueue jm)(priority := m_jobQueue jm priority @ [work])\<rparr>
        in (wi_id work, startWorkers hw priority jm1))"

text \<open>The two wrappers for functions drop the identifier.\<close>

definition Submit :: "nat \<Rightarrow> job \<Rightarrow> priority \<Rightarrow> job_manager \<Rightarrow> job_manager" where
  "Submit hw f priority jm = snd (addJob hw f None priority jm)"

definition submit :: "nat \<Rightarrow> job \<Rightarrow> nat option \<Rightarrow> priority \<Rightarrow> job_manager \<Rightarrow> job_manager" where
  "submit hw f callback priority jm = snd (addJob hw f callback priority jm)"

text \<open>The first item with the id in a deque, and the deque without it (\<open>find\<close>, \<open>erase\<close>).\<close>

definition erase_first :: "('a \<Rightarrow> bool) \<Rightarrow> 'a list \<Rightarrow> 'a list" where
  "erase_first P xs = takeWhile (\<lambda>x. \<not> P x) xs @ tl (dropWhile (\<lambda>x. \<not> P x) xs)"

fun cancelQueued :: "u32 \<Rightarrow> priority list \<Rightarrow> job_manager \<Rightarrow> job_manager option" where
  "cancelQueued jobID [] jm = None"
| "cancelQueued jobID (p # ps) jm =
     (case find (\<lambda>wi. wi_id wi = jobID) (m_jobQueue jm p) of
        Some wi \<Rightarrow>
          Some ((deleteJob (wi_job wi) jm)\<lparr>m_jobQueue :=
            (m_jobQueue jm)(p := erase_first (\<lambda>wi. wi_id wi = jobID) (m_jobQueue jm p))\<rparr>)
      | None \<Rightarrow> cancelQueued jobID ps jm)"

text \<open>Replaces the first element that satisfies the test.\<close>

fun update_first :: "('a \<Rightarrow> bool) \<Rightarrow> ('a \<Rightarrow> 'a) \<Rightarrow> 'a list \<Rightarrow> 'a list" where
  "update_first P f [] = []"
| "update_first P f (x # xs) = (if P x then f x # xs else x # update_first P f xs)"

definition cancelJob :: "u32 \<Rightarrow> job_manager \<Rightarrow> job_manager" where
  "cancelJob jobID jm =
     (case cancelQueued jobID prios_up jm of
        Some jm' \<Rightarrow> jm'
      | None \<Rightarrow> jm\<lparr>m_processing :=
          update_first (\<lambda>wi. wi_id wi = jobID) (\<lambda>wi. wi\<lparr>wi_callback := None\<rparr>) (m_processing jm)\<rparr>)"

definition abortCall :: "work_item \<Rightarrow> job_call list" where
  "abortCall wi = (case wi_callback wi of Some cb \<Rightarrow> [OnJobAbort cb (wi_id wi) (wi_job wi)] | None \<Rightarrow> [])"

text \<open>
  \<open>cancelJobs\<close> up to the loop that waits for the workers to leave (that loop only releases the
  lock and notifies until \<open>m_workers\<close> is empty). Callbacks are events here; what a callback
  does to the manager while the lock is held is outside the model.
\<close>

definition cancelJobs :: "job_manager \<Rightarrow> job_manager" where
  "cancelJobs jm =
     (let pending = concat (map (m_jobQueue jm) prios_up) in
      jm\<lparr>m_running := False,
         m_jobQueue := (\<lambda>_. []),
         m_processing := map (\<lambda>wi. wi\<lparr>wi_callback := None\<rparr>) (m_processing jm),
         deleted := deleted jm @ map wi_job pending,
         calls := calls jm @ concat (map abortCall pending) @ concat (map abortCall (m_processing jm))\<rparr>)"

fun popFrom :: "nat \<Rightarrow> priority list \<Rightarrow> job_manager \<Rightarrow> (work_item \<times> job_manager) option" where
  "popFrom hw [] jm = None"
| "popFrom hw (p # ps) jm =
     (if p = LOW_PAUSABLE \<and> m_pauseJobs jm then popFrom hw ps jm
      else if m_jobQueue jm p \<noteq> [] \<and> length (m_processing jm) < getMaxWorkers hw p
      then let item = hd (m_jobQueue jm p) in
           Some (item, jm\<lparr>m_jobQueue := (m_jobQueue jm)(p := tl (m_jobQueue jm p)),
                          m_processing := m_processing jm @ [item]\<rparr>)
      else popFrom hw ps jm)"

definition popJob :: "nat \<Rightarrow> job_manager \<Rightarrow> (work_item \<times> job_manager) option" where
  "popJob hw jm = popFrom hw prios_down jm"

definition pauseJobs :: "job_manager \<Rightarrow> job_manager" where
  "pauseJobs jm = jm\<lparr>m_pauseJobs := True\<rparr>"

definition unPauseJobs :: "job_manager \<Rightarrow> job_manager" where
  "unPauseJobs jm = jm\<lparr>m_pauseJobs := False\<rparr>"

definition isProcessing :: "priority \<Rightarrow> job_manager \<Rightarrow> bool" where
  "isProcessing priority jm \<longleftrightarrow>
     \<not> m_pauseJobs jm \<and> list_ex (\<lambda>wi. wi_priority wi = priority) (m_processing jm)"

text \<open>\<open>isProcessing(type)\<close>; \<open>getType\<close> is the jobs' virtual function.\<close>

definition isProcessingType :: "(job \<Rightarrow> string) \<Rightarrow> string \<Rightarrow> job_manager \<Rightarrow> nat" where
  "isProcessingType getType type jm =
     (if m_pauseJobs jm then 0
      else length (filter (\<lambda>wi. getType (wi_job wi) = type) (m_processing jm)))"

definition removeWorker :: "nat \<Rightarrow> job_manager \<Rightarrow> job_manager" where
  "removeWorker w jm = jm\<lparr>m_workers := erase_first (\<lambda>v. v = w) (m_workers jm)\<rparr>"

definition findProcessing :: "job \<Rightarrow> job_manager \<Rightarrow> work_item option" where
  "findProcessing job jm = find (\<lambda>wi. wi_job wi = job) (m_processing jm)"

text \<open>\<open>onJobProgress\<close>, as \<open>Job::shouldCancel\<close> calls it.\<close>

definition onJobProgress :: "job \<Rightarrow> job_manager \<Rightarrow> bool \<times> job_manager" where
  "onJobProgress job jm =
     (case findProcessing job jm of
        Some wi \<Rightarrow>
          (case wi_callback wi of
             Some cb \<Rightarrow> (False, jm\<lparr>calls := calls jm @ [OnJobProgress cb (wi_id wi) job]\<rparr>)
           | None \<Rightarrow> (True, jm))
      | None \<Rightarrow> (True, jm))"

text \<open>
  \<open>onJobComplete\<close> in its two locked sections: the lookup that copies the item, and, after the
  callback, the removal. The job is freed right after the second one, when no list names it
  any more; that is part of the same step here.
\<close>

definition completeCall :: "work_item \<Rightarrow> job_call list" where
  "completeCall wi = (case wi_callback wi of Some cb \<Rightarrow> [OnJobComplete cb (wi_job wi)] | None \<Rightarrow> [])"

definition finishJob :: "work_item \<Rightarrow> job_manager \<Rightarrow> job_manager" where
  "finishJob item jm =
     deleteJob (wi_job item)
       (jm\<lparr>m_processing := erase_first (\<lambda>wi. wi_job wi = wi_job item) (m_processing jm)\<rparr>)"

section \<open>Workers\<close>

text \<open>
  \<open>JobWorker::process\<close>: the worker asks for a job (waiting while there is none, leaving when
  the manager stops) and completes it. The call of \<open>doWork\<close> in between is commented out in the
  code.
\<close>

datatype worker_pc = Asking | Working job | Completing work_item | Left

record job_sys =
  jm :: job_manager
  wpc :: "nat \<Rightarrow> worker_pc"

definition getNextJob :: "nat \<Rightarrow> nat \<Rightarrow> job_sys \<Rightarrow> job_sys" where
  "getNextJob hw w s =
     (if m_running (jm s) then
        (case popJob hw (jm s) of
           Some (item, jm') \<Rightarrow> s\<lparr>jm := jm', wpc := (wpc s)(w := Working (wi_job item))\<rparr>
         | None \<Rightarrow> s)
      else s\<lparr>jm := removeWorker w (jm s), wpc := (wpc s)(w := Left)\<rparr>)"

definition worker_step :: "nat \<Rightarrow> nat \<Rightarrow> job_sys \<Rightarrow> job_sys" where
  "worker_step hw w s =
     (if w \<ge> nextWorker (jm s) then s
      else case wpc s w of
        Asking \<Rightarrow> getNextJob hw w s
      | Working job \<Rightarrow>
          (case findProcessing job (jm s) of
             Some item \<Rightarrow> s\<lparr>wpc := (wpc s)(w := Completing item)\<rparr>
           | None \<Rightarrow> s\<lparr>wpc := (wpc s)(w := Asking)\<rparr>)
      | Completing item \<Rightarrow>
          s\<lparr>jm := finishJob item ((jm s)\<lparr>calls := calls (jm s) @ completeCall item\<rparr>),
            wpc := (wpc s)(w := Asking)\<rparr>
      | Left \<Rightarrow> s)"

datatype job_op =
  AddJob job "nat option" priority | CancelJob u32 | CancelJobs | PauseJobs | UnPauseJobs | Restart
| Progress job | Worker nat

definition job_step :: "nat \<Rightarrow> job_op \<Rightarrow> job_sys \<Rightarrow> job_sys" where
  "job_step hw op s =
     (case op of
        AddJob job cb p \<Rightarrow> s\<lparr>jm := snd (addJob hw job cb p (jm s))\<rparr>
      | CancelJob i \<Rightarrow> s\<lparr>jm := cancelJob i (jm s)\<rparr>
      | CancelJobs \<Rightarrow> s\<lparr>jm := cancelJobs (jm s)\<rparr>
      | PauseJobs \<Rightarrow> s\<lparr>jm := pauseJobs (jm s)\<rparr>
      | UnPauseJobs \<Rightarrow> s\<lparr>jm := unPauseJobs (jm s)\<rparr>
      | Restart \<Rightarrow> (case restart (jm s) of Inl _ \<Rightarrow> s | Inr jm' \<Rightarrow> s\<lparr>jm := jm'\<rparr>)
      | Progress job \<Rightarrow> s\<lparr>jm := snd (onJobProgress job (jm s))\<rparr>
      | Worker w \<Rightarrow> worker_step hw w s)"

definition job_init :: job_sys where
  "job_init = \<lparr>jm = JobManager, wpc = (\<lambda>_. Asking)\<rparr>"

definition queued :: "job_manager \<Rightarrow> work_item list" where
  "queued m = concat (map (m_jobQueue m) prios_up)"

text \<open>A client hands each job over once: \<open>added\<close> lists the jobs handed over so far.\<close>

fun new_jobs :: "job_op \<Rightarrow> job list" where
  "new_jobs (AddJob job cb p) = [job]" | "new_jobs _ = []"

inductive job_reach :: "nat \<Rightarrow> job list \<Rightarrow> job_sys \<Rightarrow> bool" for hw where
  init: "job_reach hw [] job_init"
| step: "job_reach hw added s \<Longrightarrow> set (new_jobs op) \<inter> set added = {} \<Longrightarrow>
           job_reach hw (added @ new_jobs op) (job_step hw op s)"

fun run_jobs :: "nat \<Rightarrow> job_op list \<Rightarrow> job_sys \<Rightarrow> job_sys" where
  "run_jobs hw [] s = s"
| "run_jobs hw (op # ops) s = run_jobs hw ops (job_step hw op s)"

lemma job_reach_run:
  "job_reach hw added s \<Longrightarrow> distinct (added @ concat (map new_jobs ops)) \<Longrightarrow>
     job_reach hw (added @ concat (map new_jobs ops)) (run_jobs hw ops s)"
proof (induction ops arbitrary: added s)
  case (Cons op ops)
  then have "job_reach hw (added @ new_jobs op) (job_step hw op s)" by (intro job_reach.step) auto
  from Cons.IH [OF this] Cons.prems(2) show ?case by simp
qed simp

section \<open>Every job is in exactly one place\<close>

definition at_most_once :: "'a multiset \<Rightarrow> bool" where
  "at_most_once M \<longleftrightarrow> (\<forall>x. count M x \<le> 1)"

definition owned :: "job_manager \<Rightarrow> job multiset" where
  "owned m = mset (map wi_job (queued m)) + mset (map wi_job (m_processing m)) + mset (deleted m)"

lemma erase_first_simps [simp]:
  "erase_first P [] = []" "erase_first P (x # xs) = (if P x then xs else x # erase_first P xs)"
  by (simp_all add: erase_first_def)

lemma erase_first_mset: "find P xs = Some x \<Longrightarrow> add_mset x (mset (erase_first P xs)) = mset xs"
  by (induction xs) (auto split: if_splits)

lemma map_update_first: "(\<And>x. g (f x) = g x) \<Longrightarrow> map g (update_first P f xs) = map g xs"
  by (induction xs) auto

lemma queued_upd:
  "mset (map wi_job (queued (m\<lparr>m_jobQueue := (m_jobQueue m)(p := xs)\<rparr>))) + mset (map wi_job (m_jobQueue m p)) =
   mset (map wi_job (queued m)) + mset (map wi_job xs)"
  by (cases p) (simp_all add: queued_def prios_up_def union_ac)

lemma queued_cong: "m_jobQueue m' = m_jobQueue m \<Longrightarrow> queued m' = queued m"
  by (simp add: queued_def)

lemma owned_addJob: "owned (snd (addJob hw job cb p m)) = add_mset job (owned m)"
proof (cases "m_running m")
  case False
  then show ?thesis by (simp add: addJob_def deleteJob_def owned_def queued_def)
next
  case True
  define c where "c = (if m_jobCounter m + 1 = 0 then m_jobCounter m + 2 else m_jobCounter m + 1)"
  let ?w = "\<lparr>wi_job = job, wi_id = c, wi_callback = cb, wi_priority = p\<rparr>"
  let ?m = "m\<lparr>m_jobCounter := c, m_jobQueue := (m_jobQueue m)(p := m_jobQueue m p @ [?w])\<rparr>"
  have q: "queued ?m = queued (m\<lparr>m_jobQueue := (m_jobQueue m)(p := m_jobQueue m p @ [?w])\<rparr>)"
    by (simp add: queued_def)
  have "owned ?m = add_mset job (owned m)"
    using queued_upd [of m p "m_jobQueue m p @ [?w]"] unfolding owned_def q by simp
  moreover have "owned (startWorkers hw p ?m) = owned ?m"
    by (simp add: startWorkers_def owned_def queued_def)
  ultimately show ?thesis using True by (simp add: addJob_def Let_def c_def)
qed

lemma owned_cancelQueued: "cancelQueued i ps m = Some m' \<Longrightarrow> owned m' = owned m \<and> m_processing m' = m_processing m"
proof (induction ps)
  case (Cons p ps)
  show ?case
  proof (cases "find (\<lambda>wi. wi_id wi = i) (m_jobQueue m p)")
    case None
    with Cons show ?thesis by simp
  next
    case (Some wi)
    let ?q = "erase_first (\<lambda>wi. wi_id wi = i) (m_jobQueue m p)"
    from Some Cons.prems have m': "m' = (deleteJob (wi_job wi) m)\<lparr>m_jobQueue := (m_jobQueue m)(p := ?q)\<rparr>" by simp
    then have q: "queued m' = queued (m\<lparr>m_jobQueue := (m_jobQueue m)(p := ?q)\<rparr>)" by (simp add: queued_def)
    have "mset (map wi_job (m_jobQueue m p)) = add_mset (wi_job wi) (mset (map wi_job ?q))"
      using erase_first_mset [OF Some] by (metis image_mset_add_mset mset_map)
    with queued_upd [of m p ?q] have "add_mset (wi_job wi) (mset (map wi_job (queued m'))) = mset (map wi_job (queued m))"
      unfolding q by simp
    with m' show ?thesis by (simp add: owned_def deleteJob_def)
  qed
qed simp

lemma owned_cancelJob: "owned (cancelJob i m) = owned m"
proof (cases "cancelQueued i prios_up m")
  case None
  then show ?thesis
    by (simp add: cancelJob_def owned_def queued_def map_update_first flip: mset_map)
qed (auto simp: cancelJob_def dest: owned_cancelQueued)

lemma cancelJob_processing: "map wi_job (m_processing (cancelJob i m)) = map wi_job (m_processing m)"
  by (cases "cancelQueued i prios_up m")
     (auto simp: cancelJob_def map_update_first dest: owned_cancelQueued)

lemma owned_cancelJobs: "owned (cancelJobs m) = owned m"
  by (simp add: cancelJobs_def owned_def queued_def Let_def prios_up_def union_ac comp_def)

lemma popFrom_owned:
  "popFrom hw ps m = Some (item, m') \<Longrightarrow>
     owned m' = owned m \<and> m_processing m' = m_processing m @ [item] \<and>
     m_workers m' = m_workers m \<and> nextWorker m' = nextWorker m \<and> deleted m' = deleted m"
proof (induction ps)
  case (Cons p ps)
  show ?case
  proof (cases "\<not> (p = LOW_PAUSABLE \<and> m_pauseJobs m) \<and> m_jobQueue m p \<noteq> [] \<and> length (m_processing m) < getMaxWorkers hw p")
    case True
    let ?q = "tl (m_jobQueue m p)"
    from True Cons.prems have
      m': "m' = m\<lparr>m_jobQueue := (m_jobQueue m)(p := ?q), m_processing := m_processing m @ [item]\<rparr>"
      and item: "item = hd (m_jobQueue m p)" by (auto simp: Let_def)
    then have q: "queued m' = queued (m\<lparr>m_jobQueue := (m_jobQueue m)(p := ?q)\<rparr>)" by (simp add: queued_def)
    have "m_jobQueue m p = item # ?q" using True item by simp
    then have "mset (map wi_job (m_jobQueue m p)) = add_mset (wi_job item) (mset (map wi_job ?q))"
      by (metis list.simps(9) mset.simps(2))
    with queued_upd [of m p ?q] have "add_mset (wi_job item) (mset (map wi_job (queued m'))) = mset (map wi_job (queued m))"
      unfolding q by simp
    with m' show ?thesis by (simp add: owned_def)
  next
    case False
    with Cons show ?thesis by (auto split: if_splits)
  qed
qed simp

lemma owned_finish:
  assumes "findProcessing (wi_job item) m = Some wi"
  shows "owned (finishJob item m) = owned m"
    and "mset (map wi_job (m_processing m)) = add_mset (wi_job item) (mset (map wi_job (m_processing (finishJob item m))))"
proof -
  let ?p = "erase_first (\<lambda>wi. wi_job wi = wi_job item) (m_processing m)"
  have wi: "wi_job wi = wi_job item" using assms by (simp add: findProcessing_def find_Some_iff) blast
  have "add_mset wi (mset ?p) = mset (m_processing m)"
    using assms erase_first_mset by (auto simp: findProcessing_def)
  then have *: "mset (map wi_job (m_processing m)) = add_mset (wi_job item) (mset (map wi_job ?p))"
    using wi by (metis image_mset_add_mset mset_map)
  then show "mset (map wi_job (m_processing m)) = add_mset (wi_job item) (mset (map wi_job (m_processing (finishJob item m))))"
    by (simp add: finishJob_def deleteJob_def)
  show "owned (finishJob item m) = owned m"
    using * by (simp add: owned_def finishJob_def deleteJob_def queued_def)
qed

text \<open>The job a worker has taken and not given back.\<close>

fun busy :: "worker_pc \<Rightarrow> job option" where
  "busy (Working job) = Some job" | "busy (Completing item) = Some (wi_job item)" | "busy _ = None"

definition workers_ok :: "job_sys \<Rightarrow> bool" where
  "workers_ok s \<longleftrightarrow>
     (\<forall>w j. busy (wpc s w) = Some j \<longrightarrow> j \<in># mset (map wi_job (m_processing (jm s)))) \<and>
     (\<forall>w v j. w \<noteq> v \<longrightarrow> busy (wpc s w) = Some j \<longrightarrow> busy (wpc s v) \<noteq> Some j)"

lemma findProcessing_ex:
  "j \<in># mset (map wi_job (m_processing m)) \<Longrightarrow> \<exists>wi. findProcessing j m = Some wi"
proof (cases "findProcessing j m")
  case None
  then show "j \<in># mset (map wi_job (m_processing m)) \<Longrightarrow> ?thesis"
    by (auto simp: findProcessing_def find_None_iff)
qed auto

lemma workers_ok_same:
  assumes "workers_ok s" "mset (map wi_job (m_processing m')) = mset (map wi_job (m_processing (jm s)))"
  shows "workers_ok (s\<lparr>jm := m'\<rparr>)"
  using assms unfolding workers_ok_def by simp

lemma workers_ok_finish:
  assumes "workers_ok s" "wpc s w = Completing item"
  shows "workers_ok (s\<lparr>jm := finishJob item ((jm s)\<lparr>calls := cs\<rparr>), wpc := (wpc s)(w := Asking)\<rparr>)
    \<and> owned (finishJob item ((jm s)\<lparr>calls := cs\<rparr>)) = owned (jm s)"
proof -
  let ?P = "mset (map wi_job (m_processing (jm s)))"
  let ?m = "(jm s)\<lparr>calls := cs\<rparr>"
  from assms have "wi_job item \<in># ?P" unfolding workers_ok_def by (metis busy.simps(2))
  then have "wi_job item \<in># mset (map wi_job (m_processing ?m))" by simp
  from findProcessing_ex [OF this] obtain wi where wi: "findProcessing (wi_job item) ?m = Some wi" by blast
  note fin = owned_finish [OF wi]
  have mine: "busy (wpc s v) \<noteq> Some (wi_job item)" if "v \<noteq> w" for v
    using assms that unfolding workers_ok_def by (metis busy.simps(2))
  have still: "j \<in># mset (map wi_job (m_processing (finishJob item ?m)))"
    if "busy (wpc s v) = Some j" "v \<noteq> w" for v j
  proof -
    have "j \<in># ?P" using assms(1) that(1) unfolding workers_ok_def by blast
    moreover have "?P = add_mset (wi_job item) (mset (map wi_job (m_processing (finishJob item ?m))))"
      using fin(2) by simp
    ultimately have "j \<in># add_mset (wi_job item) (mset (map wi_job (m_processing (finishJob item ?m))))"
      by (simp only:)
    then show ?thesis using mine [OF that(2)] that(1) by (metis insert_noteq_member insert_iff set_mset_add_mset_insert)
  qed
  have "workers_ok (s\<lparr>jm := finishJob item ?m, wpc := (wpc s)(w := Asking)\<rparr>)"
    using assms(1) still unfolding workers_ok_def by simp
  with fin(1) show ?thesis by (simp add: owned_def queued_def)
qed

lemma worker_step_ok:
  assumes "workers_ok s" "at_most_once (owned (jm s))"
  shows "workers_ok (worker_step hw w s) \<and> owned (jm (worker_step hw w s)) = owned (jm s)"
proof (cases "w \<ge> nextWorker (jm s)")
  case True
  with assms show ?thesis by (simp add: worker_step_def getNextJob_def)
next
  case idle: False
  let ?P = "mset (map wi_job (m_processing (jm s)))"
  show ?thesis
  proof (cases "wpc s w")
    case Asking
    show ?thesis
    proof (cases "m_running (jm s)")
      case False
      have "workers_ok (s\<lparr>jm := removeWorker w (jm s), wpc := (wpc s)(w := Left)\<rparr>)"
        using assms(1) by (auto simp: workers_ok_def removeWorker_def)
      with False Asking idle show ?thesis
        by (simp add: worker_step_def getNextJob_def removeWorker_def owned_def queued_def)
    next
      case running: True
      show ?thesis
      proof (cases "popJob hw (jm s)")
        case None
        with running Asking idle assms show ?thesis by (simp add: worker_step_def getNextJob_def)
      next
        case (Some r)
        obtain item m' where r: "r = (item, m')" by fastforce
        have pop: "owned m' = owned (jm s)" "m_processing m' = m_processing (jm s) @ [item]"
          using popFrom_owned Some r by (auto simp: popJob_def)
        have "count (owned m') (wi_job item) \<le> 1" using assms(2) pop(1) by (simp add: at_most_once_def)
        then have "wi_job item \<notin># ?P" using pop(2) by (simp add: owned_def count_eq_zero_iff)
        with assms(1) pop(2) have "workers_ok (s\<lparr>jm := m', wpc := (wpc s)(w := Working (wi_job item))\<rparr>)"
          unfolding workers_ok_def by auto
        with running Asking idle Some r pop(1) show ?thesis by (simp add: worker_step_def getNextJob_def)
      qed
    qed
  next
    case (Working job)
    with assms(1) have "job \<in># ?P" unfolding workers_ok_def by (metis busy.simps(1))
    from findProcessing_ex [OF this] obtain wi where wi: "findProcessing job (jm s) = Some wi" by blast
    then have "wi_job wi = job" by (simp add: findProcessing_def find_Some_iff) blast
    then have "busy (((wpc s)(w := Completing wi)) v) = busy (wpc s v)" for v using Working by simp
    with assms(1) have "workers_ok (s\<lparr>wpc := (wpc s)(w := Completing wi)\<rparr>)"
      unfolding workers_ok_def by simp
    with Working idle wi show ?thesis by (simp add: worker_step_def getNextJob_def)
  next
    case (Completing item)
    from workers_ok_finish [OF assms(1) Completing] Completing idle show ?thesis
      by (simp add: worker_step_def getNextJob_def)
  next
    case Left
    with assms show ?thesis by (simp add: worker_step_def getNextJob_def)
  qed
qed

lemma job_reach_inv:
  assumes "job_reach hw added s"
  shows "workers_ok s \<and> owned (jm s) = mset added \<and> distinct added"
  using assms
proof induction
  case init
  show ?case by (simp add: job_init_def JobManager_def workers_ok_def owned_def queued_def prios_up_def)
next
  case (step added s op)
  then have ok: "workers_ok s" "owned (jm s) = mset added" "distinct added" by simp_all
  then have once: "at_most_once (owned (jm s))" by (simp add: at_most_once_def distinct_count_atmost_1)
  note same = workers_ok_same [OF ok(1)]
  have proc: "m_processing (snd (addJob hw j cb p m)) = m_processing m" for j cb p m
    by (simp add: addJob_def deleteJob_def startWorkers_def Let_def)
  show ?case
  proof (cases op)
    case (AddJob j cb p)
    with ok same [of "snd (addJob hw j cb p (jm s))"] step(2) show ?thesis
      by (simp add: job_step_def owned_addJob proc)
  next
    case (CancelJob i)
    with ok same [of "cancelJob i (jm s)"] show ?thesis
      by (simp add: job_step_def owned_cancelJob cancelJob_processing flip: mset_map)
  next
    case CancelJobs
    have "map wi_job (m_processing (cancelJobs (jm s))) = map wi_job (m_processing (jm s))"
      by (simp add: cancelJobs_def Let_def)
    with ok same [of "cancelJobs (jm s)"] CancelJobs show ?thesis
      by (simp add: job_step_def owned_cancelJobs del: mset_map)
  next
    case (Worker w)
    with ok worker_step_ok [OF ok(1) once] show ?thesis by (simp add: job_step_def)
  next
    case (Progress j)
    have "m_processing (snd (onJobProgress j (jm s))) = m_processing (jm s)"
      "owned (snd (onJobProgress j (jm s))) = owned (jm s)"
      by (simp_all add: onJobProgress_def owned_def queued_def split: option.splits)
    with ok same [of "snd (onJobProgress j (jm s))"] Progress show ?thesis by (simp add: job_step_def)
  next
    case Restart
    with ok same [of "(jm s)\<lparr>m_running := True\<rparr>"] show ?thesis
      by (simp add: job_step_def restart_def owned_def queued_def)
  qed (use ok same in \<open>simp_all add: job_step_def pauseJobs_def unPauseJobs_def owned_def queued_def\<close>)
qed

section \<open>Which job runs next\<close>

definition runnable :: "nat \<Rightarrow> job_manager \<Rightarrow> priority \<Rightarrow> bool" where
  "runnable hw m p \<longleftrightarrow>
     \<not> (p = LOW_PAUSABLE \<and> m_pauseJobs m) \<and> m_jobQueue m p \<noteq> [] \<and>
     length (m_processing m) < getMaxWorkers hw p"

lemma popFrom_find:
  "popFrom hw ps m =
     (case find (runnable hw m) ps of
        None \<Rightarrow> None
      | Some p \<Rightarrow> Some (hd (m_jobQueue m p),
          m\<lparr>m_jobQueue := (m_jobQueue m)(p := tl (m_jobQueue m p)),
            m_processing := m_processing m @ [hd (m_jobQueue m p)]\<rparr>))"
  by (induction ps) (auto simp: runnable_def Let_def)

lemma find_prios_down:
  "find P prios_down = Some p \<Longrightarrow> P p \<and> (\<forall>r. prio_val p < prio_val r \<longrightarrow> \<not> P r)"
proof -
  assume "find P prios_down = Some p"
  moreover have "prio_val p < prio_val r \<Longrightarrow> r \<in> set prios_down" for r by (cases r) (auto simp: prios_down_def)
  ultimately show ?thesis
    by (cases p) (auto simp: prios_down_def split: if_splits, (case_tac r; simp)+)
qed

lemmas job_eval =
  job_step_def worker_step_def getNextJob_def job_init_def JobManager_def addJob_def startWorkers_def deleteJob_def
  cancelJobs_def popJob_def prios_up_def prios_down_def getMaxWorkers_def u32_sub_def findProcessing_def
  finishJob_def runnable_def

section \<open>Properties\<close>

text \<open>
  C9. Ownership: at every moment, under any interleaving of clients and workers, every job
  ever handed to the manager is in exactly one place: in one queue, being processed, or
  deleted once. No job is lost, run by two workers or freed twice, also when it is cancelled
  while it runs or the manager stops.
\<close>

theorem jobs_owned_once:
  assumes "job_reach hw added s"
  shows "mset (map wi_job (queued (jm s))) + mset (map wi_job (m_processing (jm s))) + mset (deleted (jm s)) = mset added
    \<and> distinct (deleted (jm s)) \<and> (\<forall>w v j. w \<noteq> v \<longrightarrow> busy (wpc s w) = Some j \<longrightarrow> busy (wpc s v) \<noteq> Some j)"
proof -
  note inv = job_reach_inv [OF assms]
  have "count (mset (deleted (jm s))) j \<le> 1" for j
  proof -
    have "count (owned (jm s)) j \<le> 1" using inv by (simp add: distinct_count_atmost_1)
    then show ?thesis by (simp add: owned_def)
  qed
  then have "distinct (deleted (jm s))"
    by (metis count_greater_zero_iff count_mset_0_iff distinct_count_atmost_1 le_eq_less_or_eq less_one linorder_not_less set_mset_mset)
  with inv show ?thesis by (auto simp: owned_def workers_ok_def)
qed

lemma jobs_owned_once_witness:
  "let s = run_jobs 4 [AddJob 11 None LOW, AddJob 12 (Some 0) HIGH, Worker 0, CancelJobs, Worker 0, Worker 0] job_init in
     mset (map wi_job (queued (jm s))) + mset (map wi_job (m_processing (jm s))) + mset (deleted (jm s)) = mset [11, 12] \<and>
     distinct (deleted (jm s))"
proof -
  let ?ops = "[AddJob 11 None LOW, AddJob 12 (Some 0) HIGH, Worker 0, CancelJobs, Worker 0, Worker 0]"
  have "job_reach 4 ([] @ concat (map new_jobs ?ops)) (run_jobs 4 ?ops job_init)"
    by (intro job_reach_run job_reach.init) simp
  then have "job_reach 4 [11, 12] (run_jobs 4 ?ops job_init)" by (simp del: run_jobs.simps)
  from jobs_owned_once [OF this] show ?thesis by (simp only: Let_def)
qed

text \<open>
  C10. Scheduling: the job a worker gets is the oldest of the highest priority that may run,
  where \<open>PRIORITY_LOW_PAUSABLE\<close> may not while jobs are paused and each priority has its own
  limit of busy workers; it gets none exactly when no priority may run.
\<close>

theorem popJob_schedules:
  "case popJob hw m of
     None \<Rightarrow> \<forall>p. \<not> runnable hw m p
   | Some (item, m') \<Rightarrow>
       \<exists>p. runnable hw m p \<and> (\<forall>r. prio_val p < prio_val r \<longrightarrow> \<not> runnable hw m r) \<and>
           m_jobQueue m p = item # m_jobQueue m' p \<and> m_processing m' = m_processing m @ [item] \<and>
           (\<forall>r. r \<noteq> p \<longrightarrow> m_jobQueue m' r = m_jobQueue m r)"
proof (cases "find (runnable hw m) prios_down")
  case None
  then have "\<not> runnable hw m p" for p unfolding find_None_iff by (cases p) (auto simp: prios_down_def)
  with None show ?thesis by (simp add: popJob_def popFrom_find)
next
  case (Some p)
  with find_prios_down [OF Some] show ?thesis
    by (auto simp: popJob_def popFrom_find runnable_def intro!: exI [of _ p])
qed

lemma popJob_schedules_witness:
  "\<exists>item m'. popJob 4 (snd (addJob 4 12 None HIGH (snd (addJob 4 11 None LOW JobManager)))) = Some (item, m') \<and>
     wi_job item = 12"
proof -
  let ?m = "snd (addJob 4 12 None HIGH (snd (addJob 4 11 None LOW JobManager)))"
  have high: "runnable 4 ?m HIGH" "m_jobQueue ?m DEDICATED = []" "map wi_job (m_jobQueue ?m HIGH) = [12]"
    by (simp_all add: job_eval)
  note sched = popJob_schedules [of 4 ?m]
  have "popJob 4 ?m \<noteq> None" using sched high(1) by (auto split: option.splits)
  then obtain item m' where pop: "popJob 4 ?m = Some (item, m')" by auto
  with sched obtain p where p: "runnable 4 ?m p" "\<And>r. prio_val p < prio_val r \<Longrightarrow> \<not> runnable 4 ?m r"
    "m_jobQueue ?m p = item # m_jobQueue m' p" by auto
  from p(2) [of HIGH] p(1) high(1,2) have "p = HIGH" by (cases p) (auto simp: runnable_def)
  with p(3) high(3) pop show ?thesis by auto
qed

text \<open>
  Job ids: \<open>addJob\<close> returns 0, the invalid id, exactly when the manager is stopped, in
  which case it deletes the job; otherwise the job is queued last in its priority under the
  returned id, also when the 32-bit counter wraps around.
\<close>

theorem addJob_id:
  "(fst (addJob hw job cb p m) = 0 \<longleftrightarrow> \<not> m_running m) \<and>
   (if m_running m
    then m_jobQueue (snd (addJob hw job cb p m)) p = m_jobQueue m p @
      [\<lparr>wi_job = job, wi_id = fst (addJob hw job cb p m), wi_callback = cb, wi_priority = p\<rparr>]
    else snd (addJob hw job cb p m) = deleteJob job m)"
proof -
  have "m_jobCounter m + 2 \<noteq> 0" if "m_jobCounter m + 1 = 0"
  proof -
    from that have "m_jobCounter m = - 1" by (simp add: add_eq_0_iff2)
    then show ?thesis by simp
  qed
  then show ?thesis by (auto simp: addJob_def Let_def startWorkers_def)
qed

text \<open>
  On a machine with one or two hardware threads the limits wrap around: normal jobs get
  a limit of 0 and never run, while low-priority jobs get about \<open>2^32\<close> workers and
  high-priority ones a single one.
\<close>

theorem normal_jobs_starve:
  assumes "hw \<le> 2"
  shows "getMaxWorkers hw HIGH = 1 \<and> getMaxWorkers hw NORMAL = 0 \<and> getMaxWorkers hw LOW = 2 ^ 32 - 1 \<and>
    (popJob hw m = Some (item, m') \<longrightarrow> m_jobQueue m' NORMAL = m_jobQueue m NORMAL)"
proof -
  have lim: "getMaxWorkers hw HIGH = 1" "getMaxWorkers hw NORMAL = 0" "getMaxWorkers hw LOW = 2 ^ 32 - 1"
    using assms by (simp_all add: getMaxWorkers_def u32_simps u32_sub_def)
  have "m_jobQueue m' NORMAL = m_jobQueue m NORMAL" if "popJob hw m = Some (item, m')"
  proof -
    from that obtain p where p: "find (runnable hw m) prios_down = Some p"
      "m' = m\<lparr>m_jobQueue := (m_jobQueue m)(p := tl (m_jobQueue m p)), m_processing := m_processing m @ [hd (m_jobQueue m p)]\<rparr>"
      by (auto simp: popJob_def popFrom_find split: option.splits)
    from find_prios_down [OF p(1)] lim(2) have "p \<noteq> NORMAL" by (auto simp: runnable_def)
    with p(2) show ?thesis by simp
  qed
  with lim show ?thesis by blast
qed

lemma normal_jobs_starve_witness:
  "getMaxWorkers 2 NORMAL = 0 \<and> popJob 2 (snd (addJob 2 7 None NORMAL JobManager)) = None"
proof -
  have "popJob 2 (snd (addJob 2 7 None NORMAL JobManager)) = None" by (simp add: job_eval)
  then show ?thesis using normal_jobs_starve [of 2] by auto
qed

end
