(* ===== verification/Lu_Job_Queue.thy ===== *)
theory Lu_Job_Queue
  imports Lu_Job_Manager
begin

text \<open>
  \<open>JobQueue\<close> (\<open>src/thread/JobQueue.cpp\<close>): a client of \<open>JobManager\<close> that keeps at most
  \<open>m_jobsAtOnce\<close> of its jobs at the manager and the others in a deque, in FIFO or LIFO order.
  The operations thread the manager's state. \<open>same\<close> is the jobs' virtual \<open>operator==\<close>, \<open>me\<close> the
  queue's number as a callback receiver.
\<close>

record job_queue =
  jq_jobs :: "job list"
  jq_processing :: "(job \<times> u32) list"
  m_jobsAtOnce :: nat
  m_priority :: priority
  m_lifo :: bool

definition JobQueue :: "bool \<Rightarrow> nat \<Rightarrow> priority \<Rightarrow> job_queue" where
  "JobQueue lifo jobsAtOnce prio = \<lparr>jq_jobs = [], jq_processing = [], m_jobsAtOnce = jobsAtOnce,
     m_priority = prio, m_lifo = lifo\<rparr>"

text \<open>\<open>queueNextJob\<close>: hands the job at the back to the manager; a job the stopped manager
  refuses (and deletes) is dropped and the next one is tried.\<close>

function queueNextJob :: "nat \<Rightarrow> nat \<Rightarrow> job_queue \<Rightarrow> job_manager \<Rightarrow> job_queue \<times> job_manager" where
  "queueNextJob hw me q m =
     (if jq_jobs q \<noteq> [] \<and> length (jq_processing q) < m_jobsAtOnce q then
        (let job = last (jq_jobs q);
             r = addJob hw job (Some me) (m_priority q) m;
             q' = q\<lparr>jq_jobs := butlast (jq_jobs q)\<rparr>
         in if fst r > 0 then (q'\<lparr>jq_processing := jq_processing q @ [(job, fst r)]\<rparr>, snd r)
            else queueNextJob hw me q' (snd r))
      else (q, m))"
  by pat_completeness auto
termination by (relation "measure (\<lambda>(hw, me, q, m). length (jq_jobs q))") auto

declare queueNextJob.simps [simp del]

definition jq_addJob ::
  "(job \<Rightarrow> job \<Rightarrow> bool) \<Rightarrow> nat \<Rightarrow> nat \<Rightarrow> job \<Rightarrow> job_queue \<Rightarrow> job_manager \<Rightarrow> bool \<times> job_queue \<times> job_manager" where
  "jq_addJob same hw me job q m =
     (if list_ex (\<lambda>j. same j job) (jq_jobs q) \<or> list_ex (\<lambda>(j, _). same j job) (jq_processing q)
      then (False, q, deleteJob job m)
      else
        let q1 = q\<lparr>jq_jobs := (if m_lifo q then jq_jobs q @ [job] else job # jq_jobs q)\<rparr>
        in (True, queueNextJob hw me q1 m))"

text \<open>\<open>onJobComplete\<close> and \<open>onJobAbort\<close> both are \<open>onJobNotify\<close>.\<close>

definition jq_forget :: "(job \<Rightarrow> job \<Rightarrow> bool) \<Rightarrow> job \<Rightarrow> job_queue \<Rightarrow> job_queue" where
  "jq_forget same job q = q\<lparr>jq_processing := erase_first (\<lambda>(j, _). same j job) (jq_processing q)\<rparr>"

definition onJobNotify ::
  "(job \<Rightarrow> job \<Rightarrow> bool) \<Rightarrow> nat \<Rightarrow> nat \<Rightarrow> job \<Rightarrow> job_queue \<Rightarrow> job_manager \<Rightarrow> job_queue \<times> job_manager" where
  "onJobNotify same hw me job q m = queueNextJob hw me (jq_forget same job q) m"

definition jq_cancelJob ::
  "(job \<Rightarrow> job \<Rightarrow> bool) \<Rightarrow> job \<Rightarrow> job_queue \<Rightarrow> job_manager \<Rightarrow> job_queue \<times> job_manager" where
  "jq_cancelJob same job q m =
     (case find (\<lambda>(j, _). same j job) (jq_processing q) of
        Some (_, i) \<Rightarrow> (jq_forget same job q, cancelJob i m)
      | None \<Rightarrow>
          (case find (\<lambda>j. same j job) (jq_jobs q) of
             Some j \<Rightarrow> (q\<lparr>jq_jobs := erase_first (\<lambda>j. same j job) (jq_jobs q)\<rparr>, deleteJob j m)
           | None \<Rightarrow> (q, m)))"

definition jq_cancelJobs :: "job_queue \<Rightarrow> job_manager \<Rightarrow> job_queue \<times> job_manager" where
  "jq_cancelJobs q m =
     (q\<lparr>jq_jobs := [], jq_processing := []\<rparr>,
      fold deleteJob (jq_jobs q) (fold (\<lambda>(_, i). cancelJob i) (jq_processing q) m))"

definition jq_isProcessing :: "job_queue \<Rightarrow> job_manager \<Rightarrow> bool" where
  "jq_isProcessing q m \<longleftrightarrow> m_running m \<and> (jq_processing q \<noteq> [] \<or> jq_jobs q \<noteq> [])"

definition queueEmpty :: "job_queue \<Rightarrow> bool" where
  "queueEmpty q \<longleftrightarrow> jq_jobs q = []"

section \<open>The order of service\<close>

text \<open>
  The abstraction: the jobs still waiting, in the order in which they will be handed to the
  manager. What an ordering discipline promises is a locale; the two disciplines of the
  code provide it.
\<close>

definition waiting :: "job_queue \<Rightarrow> job list" where
  "waiting q = rev (jq_jobs q)"

locale service_order =
  fixes enqueue :: "'j \<Rightarrow> 'q \<Rightarrow> 'q"
    and serve :: "'q \<Rightarrow> 'q"
    and order :: "'q \<Rightarrow> 'j list"
    and place :: "'j \<Rightarrow> 'j list \<Rightarrow> 'j list"
    and ok :: "'q \<Rightarrow> bool"
  assumes order_enqueue: "ok q \<Longrightarrow> order (enqueue x q) = place x (order q)"
    and order_serve: "ok q \<Longrightarrow> order (serve q) = tl (order q)"
    and ok_enqueue: "ok q \<Longrightarrow> ok (enqueue x q)"
    and ok_serve: "ok q \<Longrightarrow> ok (serve q)"
begin

text \<open>Enqueueing a list and serving \<open>k\<close> times is the same on the abstract list.\<close>

lemma order_run:
  "ok q \<Longrightarrow> order ((serve ^^ k) (fold enqueue xs q)) = drop k (fold place xs (order q)) \<and>
     ok ((serve ^^ k) (fold enqueue xs q))"
proof -
  assume "ok q"
  then have base: "order (fold enqueue xs q) = fold place xs (order q) \<and> ok (fold enqueue xs q)"
    by (induction xs arbitrary: q) (auto simp: order_enqueue ok_enqueue)
  show ?thesis
    by (induction k) (auto simp: base order_serve ok_serve drop_Suc tl_drop)
qed

end

definition jq_push :: "job \<Rightarrow> job_queue \<Rightarrow> job_queue" where
  "jq_push job q = q\<lparr>jq_jobs := (if m_lifo q then jq_jobs q @ [job] else job # jq_jobs q)\<rparr>"

definition jq_pop :: "job_queue \<Rightarrow> job_queue" where
  "jq_pop q = q\<lparr>jq_jobs := butlast (jq_jobs q)\<rparr>"

lemma waiting_pop [simp]: "waiting (jq_pop q) = tl (waiting q)" "m_lifo (jq_pop q) = m_lifo q"
  by (simp_all add: waiting_def jq_pop_def) (metis butlast_rev rev_rev_ident)

lemma waiting_push [simp]:
  "waiting (jq_push x q) = (if m_lifo q then x # waiting q else waiting q @ [x])" "m_lifo (jq_push x q) = m_lifo q"
  by (simp_all add: waiting_def jq_push_def)

interpretation fifo: service_order jq_push jq_pop waiting "\<lambda>x xs. xs @ [x]" "\<lambda>q. \<not> m_lifo q"
  by unfold_locales simp_all

interpretation lifo: service_order jq_push jq_pop waiting "\<lambda>x xs. x # xs" "\<lambda>q. m_lifo q"
  by unfold_locales simp_all

text \<open>After any number of \<open>addJob\<close>s, the jobs of a FIFO queue leave in the order they came.\<close>

lemma fifo_service: "\<not> m_lifo q \<Longrightarrow> waiting ((jq_pop ^^ k) (fold jq_push xs q)) = drop k (waiting q @ xs)"
proof -
  have "fold (\<lambda>x xs. xs @ [x]) xs ys = ys @ xs" for ys :: "job list" by (induction xs arbitrary: ys) auto
  then show "\<not> m_lifo q \<Longrightarrow> ?thesis" using fifo.order_run [of q k xs] by simp
qed

lemma lifo_service: "m_lifo q \<Longrightarrow> waiting ((jq_pop ^^ k) (fold jq_push xs q)) = drop k (rev xs @ waiting q)"
proof -
  have "fold (#) xs ys = rev xs @ ys" for ys :: "job list" by (induction xs arbitrary: ys) auto
  then show "m_lifo q \<Longrightarrow> ?thesis" using lifo.order_run [of q k xs] by simp
qed

lemma last_waiting: "jq_jobs q \<noteq> [] \<Longrightarrow> last (jq_jobs q) = hd (waiting q)"
  by (simp add: waiting_def hd_rev)

text \<open>With a running manager \<open>queueNextJob\<close> hands over the first waiting job, if there is room.\<close>

lemma addJob_running: "m_running m \<Longrightarrow> fst (addJob hw j cb p m) \<noteq> 0"
proof -
  assume "m_running m"
  moreover have "m_jobCounter m + 2 \<noteq> 0" if "m_jobCounter m + 1 = 0"
  proof -
    from that have "m_jobCounter m = - 1" by (simp add: add_eq_0_iff2)
    then show ?thesis by simp
  qed
  ultimately show ?thesis by (auto simp: addJob_def Let_def)
qed

lemma queueNextJob_running:
  assumes "m_running m"
  shows "queueNextJob hw me q m =
    (if waiting q \<noteq> [] \<and> length (jq_processing q) < m_jobsAtOnce q
     then ((jq_pop q)\<lparr>jq_processing := jq_processing q @
             [(hd (waiting q), fst (addJob hw (hd (waiting q)) (Some me) (m_priority q) m))]\<rparr>,
           snd (addJob hw (hd (waiting q)) (Some me) (m_priority q) m))
     else (q, m))"
proof -
  have "fst (addJob hw j (Some me) p m) > 0" for j p
    using addJob_running [OF assms] by (simp add: word_gt_0)
  moreover have "waiting q \<noteq> [] \<longleftrightarrow> jq_jobs q \<noteq> []" by (simp add: waiting_def)
  ultimately show ?thesis
    by (subst queueNextJob.simps) (auto simp: Let_def jq_pop_def last_waiting)
qed

lemma queueNextJob_bound:
  "length (jq_processing q) \<le> m_jobsAtOnce q \<Longrightarrow>
     length (jq_processing (fst (queueNextJob hw me q m))) \<le> m_jobsAtOnce (fst (queueNextJob hw me q m)) \<and>
     m_jobsAtOnce (fst (queueNextJob hw me q m)) = m_jobsAtOnce q \<and>
     m_lifo (fst (queueNextJob hw me q m)) = m_lifo q"
proof (induction hw me q m rule: queueNextJob.induct)
  case (1 hw me q m)
  let ?r = "addJob hw (last (jq_jobs q)) (Some me) (m_priority q) m"
  let ?q = "q\<lparr>jq_jobs := butlast (jq_jobs q)\<rparr>"
  show ?case
  proof (cases "jq_jobs q \<noteq> [] \<and> length (jq_processing q) < m_jobsAtOnce q \<and> \<not> fst ?r > 0")
    case True
    then have "queueNextJob hw me q m = queueNextJob hw me ?q (snd ?r)"
      by (subst queueNextJob.simps) (simp add: Let_def)
    with 1(1) [OF _ refl refl refl] 1(2) True show ?thesis by simp
  next
    case False
    then have "queueNextJob hw me q m = (q, m) \<or> length (jq_processing q) < m_jobsAtOnce q \<and>
        queueNextJob hw me q m = (?q\<lparr>jq_processing := jq_processing q @ [(last (jq_jobs q), fst ?r)]\<rparr>, snd ?r)"
      by (subst (1 2) queueNextJob.simps) (auto simp: Let_def)
    with 1(2) show ?thesis by auto
  qed
qed

lemma erase_first_length: "length (erase_first P xs) \<le> length xs"
  by (induction xs) auto

text \<open>
  A \<open>JobQueue\<close> never has more than \<open>m_jobsAtOnce\<close> jobs at the manager, whatever its clients
  and the manager's callbacks do, and keeps its discipline.
\<close>

theorem jq_jobs_at_once:
  assumes "length (jq_processing q) \<le> m_jobsAtOnce q"
  shows "length (jq_processing (fst (snd (jq_addJob same hw me job q m)))) \<le> m_jobsAtOnce q \<and>
         length (jq_processing (fst (onJobNotify same hw me job q m))) \<le> m_jobsAtOnce q \<and>
         length (jq_processing (fst (jq_cancelJob same job q m))) \<le> m_jobsAtOnce q"
proof -
  have "length (jq_processing (jq_forget same job q)) \<le> m_jobsAtOnce q"
    using erase_first_length [of _ "jq_processing q"] assms by (simp add: jq_forget_def) (meson le_trans)
  with queueNextJob_bound [of "jq_forget same job q" hw me m]
  have "length (jq_processing (fst (onJobNotify same hw me job q m))) \<le> m_jobsAtOnce q"
    "length (jq_processing (jq_forget same job q)) \<le> m_jobsAtOnce q"
    by (simp_all add: onJobNotify_def) (simp_all add: jq_forget_def)
  moreover have "length (jq_processing (fst (jq_cancelJob same job q m))) \<le> m_jobsAtOnce q"
    using assms calculation(2) by (auto simp: jq_cancelJob_def split: option.splits)
  moreover have "length (jq_processing (fst (snd (jq_addJob same hw me job q m)))) \<le> m_jobsAtOnce q"
    using assms queueNextJob_bound [of "jq_push job q" hw me m]
    by (auto simp: jq_addJob_def jq_push_def Let_def)
  ultimately show ?thesis by blast
qed

lemma jq_jobs_at_once_witness:
  "length (jq_processing (fst (snd (jq_addJob (=) 4 0 7 (JobQueue False 1 LOW) JobManager)))) \<le> 1"
  using jq_jobs_at_once [of "JobQueue False 1 LOW" "(=)" 4 0 7 JobManager] by (simp add: JobQueue_def)

text \<open>
  Order of service: with a running manager, \<open>addJob\<close> puts a new job behind all waiting
  ones (or before them, for a LIFO queue) and then hands the first waiting job to the
  manager if there is room for it, and no other.
\<close>

theorem jq_addJob_order:
  assumes "m_running m" and "\<not> list_ex (\<lambda>j. same j job) (jq_jobs q)"
    and "\<not> list_ex (\<lambda>(j, _). same j job) (jq_processing q)"
  shows "let order = (if m_lifo q then job # waiting q else waiting q @ [job]);
             (ok, q', m') = jq_addJob same hw me job q m
         in ok \<and>
            (if length (jq_processing q) < m_jobsAtOnce q
             then waiting q' = tl order \<and>
                  (\<exists>i. jq_processing q' = jq_processing q @ [(hd order, i)] \<and>
                     m_jobQueue m' (m_priority q) = m_jobQueue m (m_priority q) @
                       [\<lparr>wi_job = hd order, wi_id = i, wi_callback = Some me, wi_priority = m_priority q\<rparr>])
             else waiting q' = order \<and> m' = m)"
proof -
  let ?order = "if m_lifo q then job # waiting q else waiting q @ [job]"
  have w: "waiting (jq_push job q) = ?order" by (auto simp: waiting_def jq_push_def)
  have add: "jq_addJob same hw me job q m = (True, queueNextJob hw me (jq_push job q) m)"
    using assms(2,3) by (simp add: jq_addJob_def jq_push_def)
  have queued: "m_jobQueue (snd (addJob hw j cb p m)) p =
      m_jobQueue m p @ [\<lparr>wi_job = j, wi_id = fst (addJob hw j cb p m), wi_callback = cb, wi_priority = p\<rparr>]" for j cb p
    using assms(1) by (simp add: addJob_def Let_def startWorkers_def)
  have keep: "jq_processing (jq_push job q) = jq_processing q" "m_jobsAtOnce (jq_push job q) = m_jobsAtOnce q"
    "m_priority (jq_push job q) = m_priority q" by (simp_all add: jq_push_def)
  show ?thesis
  proof (cases "length (jq_processing q) < m_jobsAtOnce q")
    case True
    have "waiting (r\<lparr>jq_processing := x\<rparr>) = waiting r" for r x by (simp add: waiting_def)
    then have "waiting ((jq_pop (jq_push job q))\<lparr>jq_processing := x\<rparr>) = tl ?order" for x
      using waiting_pop(1) [of "jq_push job q"] w by (simp only:)
    with True add w keep queued queueNextJob_running [OF assms(1), of hw me "jq_push job q"] show ?thesis
      by (simp add: Let_def)
  next
    case False
    with add w keep queueNextJob_running [OF assms(1), of hw me "jq_push job q"] show ?thesis by (simp add: Let_def)
  qed
qed

lemma jq_addJob_order_witness:
  "let (ok, q', m') = jq_addJob (=) 4 0 7 (JobQueue False 1 LOW) JobManager in
     ok \<and> waiting q' = [] \<and> map fst (jq_processing q') = [7]"
  using jq_addJob_order [of JobManager "(=)" 7 "JobQueue False 1 LOW" 4 0]
  by (auto simp: JobQueue_def JobManager_def waiting_def Let_def split: prod.splits)

lemma queueNextJob_deleted:
  "length (deleted m) \<le> length (deleted (snd (queueNextJob hw me q m)))"
proof (induction hw me q m rule: queueNextJob.induct)
  case (1 hw me q m)
  let ?r = "addJob hw (last (jq_jobs q)) (Some me) (m_priority q) m"
  have add: "length (deleted m) \<le> length (deleted (snd ?r))"
    by (simp add: addJob_def deleteJob_def startWorkers_def Let_def)
  show ?case
  proof (cases "jq_jobs q \<noteq> [] \<and> length (jq_processing q) < m_jobsAtOnce q \<and> \<not> fst ?r > 0")
    case True
    then have "queueNextJob hw me q m = queueNextJob hw me (q\<lparr>jq_jobs := butlast (jq_jobs q)\<rparr>) (snd ?r)"
      by (subst queueNextJob.simps) (simp add: Let_def)
    with 1(1) [OF _ refl refl refl] add True show ?thesis by simp
  next
    case False
    then show ?thesis using add by (subst queueNextJob.simps) (auto simp: Let_def)
  qed
qed

text \<open>
  Stopping the manager deadlocks on a queue with jobs waiting: \<open>JobManager::cancelJobs\<close>
  calls \<open>onJobAbort\<close> with \<open>m_section\<close> held, and for a job it processes that makes the queue ask
  the manager for the next one, through \<open>addJob\<close>, which locks the same non-recursive mutex:
  the guard of that call holds after the aborted job is forgotten.
\<close>

theorem abort_reenters_manager:
  assumes "jq_processing q = [(job, i)]" and "m_jobsAtOnce q = 1" and "same job job" and "jq_jobs q \<noteq> []"
  shows "jq_jobs (jq_forget same job q) \<noteq> [] \<and>
    length (jq_processing (jq_forget same job q)) < m_jobsAtOnce (jq_forget same job q) \<and>
    snd (onJobNotify same hw me job q m) \<noteq> m"
proof -
  let ?q = "jq_forget same job q" and ?m = "snd (onJobNotify same hw me job q m)"
  have q: "jq_jobs ?q \<noteq> []" "jq_processing ?q = []" "m_jobsAtOnce ?q = 1" "m_priority ?q = m_priority q"
    using assms by (simp_all add: jq_forget_def)
  have "?m \<noteq> m"
  proof (cases "m_running m")
    case True
    with q queueNextJob_running [OF True, of hw me ?q]
    have "m_jobQueue ?m (m_priority q) \<noteq> m_jobQueue m (m_priority q)"
      by (simp add: onJobNotify_def waiting_def) (simp add: addJob_def Let_def startWorkers_def)
    then show ?thesis by auto
  next
    case False
    have "queueNextJob hw me ?q m =
        queueNextJob hw me (?q\<lparr>jq_jobs := butlast (jq_jobs ?q)\<rparr>) (deleteJob (last (jq_jobs ?q)) m)"
      using False q by (subst queueNextJob.simps) (simp add: addJob_def Let_def)
    with queueNextJob_deleted [of "deleteJob (last (jq_jobs ?q)) m" hw me "?q\<lparr>jq_jobs := butlast (jq_jobs ?q)\<rparr>"]
    have "length (deleted m) < length (deleted ?m)" by (simp add: onJobNotify_def deleteJob_def)
    then show ?thesis by auto
  qed
  with q show ?thesis by simp
qed

lemma abort_reenters_manager_witness:
  "snd (onJobNotify (=) 4 0 7 \<lparr>jq_jobs = [8], jq_processing = [(7, 1)], m_jobsAtOnce = 1, m_priority = LOW, m_lifo = False\<rparr>
      (cancelJobs JobManager)) \<noteq> cancelJobs JobManager"
  using abort_reenters_manager
    [of "\<lparr>jq_jobs = [8], jq_processing = [(7, 1)], m_jobsAtOnce = 1, m_priority = LOW, m_lifo = False\<rparr>" 7 1 "(=)" 4 0]
  by simp

end
