(* ===== verification/Lu_Text.thy ===== *)
theory Lu_Text
  imports Lu_Prelude
begin

text \<open>
  Text handling: \<open>DelimiterTextParser\<close> (\<open>src/utils/DelimiterTextParser.cpp\<close>), the string helpers of
  \<open>Utils\<close> (\<open>include/utils/Utils.h\<close>, \<open>src/utils/Utils.cpp\<close>) and the conversions of the standard
  library they use. Exceptions are \<open>Inl\<close>. A one-character delimiter is a string of length 1.
\<close>

section \<open>Standard library\<close>

text \<open>\<open>std::string_view(const char*)\<close> stops at the first NUL.\<close>

definition c_str :: "string \<Rightarrow> string" where
  "c_str s = takeWhile (\<lambda>c. c \<noteq> CHR 0x00) s"

definition is_digit :: "char \<Rightarrow> bool" where
  "is_digit c \<longleftrightarrow> 48 \<le> (of_char c :: nat) \<and> (of_char c :: nat) \<le> 57"

definition is_space :: "char \<Rightarrow> bool" where
  "is_space c \<longleftrightarrow> (of_char c :: nat) = 32 \<or> 9 \<le> (of_char c :: nat) \<and> (of_char c :: nat) \<le> 13"

definition digits_val :: "string \<Rightarrow> nat" where
  "digits_val ds = foldl (\<lambda>n c. 10 * n + (of_char c - 48)) 0 ds"

text \<open>The decimal prefix that \<open>strtol\<close> and its relatives read: sign and value.\<close>

definition decimal :: "string \<Rightarrow> (bool \<times> nat) option" where
  "decimal s =
     (let s1 = dropWhile is_space s;
          neg = (s1 \<noteq> [] \<and> hd s1 = CHR ''-'');
          s2 = (if s1 \<noteq> [] \<and> (hd s1 = CHR ''-'' \<or> hd s1 = CHR ''+'') then tl s1 else s1);
          ds = takeWhile is_digit s2
      in if ds = [] then None else Some (neg, digits_val ds))"

text \<open>\<open>std::stoi\<close>, \<open>std::stoll\<close> (\<open>w\<close> bits, signed) and \<open>std::stoul\<close>, \<open>std::stoull\<close> (64 bits,
  a minus sign negates in that width); \<open>None\<close> is their exception.\<close>

definition sto_signed :: "nat \<Rightarrow> string \<Rightarrow> int option" where
  "sto_signed w s =
     (case decimal s of
        None \<Rightarrow> None
      | Some (neg, n) \<Rightarrow>
          (let v = (if neg then - int n else int n)
           in if - (2 ^ (w - 1)) \<le> v \<and> v < 2 ^ (w - 1) then Some v else None))"

definition sto_unsigned :: "string \<Rightarrow> nat option" where
  "sto_unsigned s =
     (case decimal s of
        None \<Rightarrow> None
      | Some (neg, n) \<Rightarrow>
          if n \<ge> 2 ^ 64 then None else Some (if neg then (2 ^ 64 - n) mod 2 ^ 64 else n))"

section \<open>DelimiterTextParser\<close>

datatype text_error = ItemMissing | BadInteger | BadUnsigned | BadBoolean | BadFloat | BadTime

record text_parser =
  tp_delimeter :: string
  tp_line :: string
  tp_startPos :: nat
  tp_currentIndex :: nat
  tp_lineNumber :: nat

type_synonym 'a parsed = "text_error + 'a \<times> text_parser"

text \<open>The constructor from a \<open>string_view\<close>; the one from a \<open>std::string\<close> takes its \<open>c_str\<close>.\<close>

definition DelimiterTextParser :: "string \<Rightarrow> string \<Rightarrow> nat \<Rightarrow> text_parser" where
  "DelimiterTextParser line delimeter startLine =
     \<lparr>tp_delimeter = delimeter, tp_line = line, tp_startPos = 0, tp_currentIndex = 1,
      tp_lineNumber = startLine\<rparr>"

definition nextLine :: "string \<Rightarrow> text_parser \<Rightarrow> text_parser" where
  "nextLine line p = p\<lparr>tp_line := c_str line, tp_startPos := 0, tp_currentIndex := 1,
     tp_lineNumber := tp_lineNumber p + 1\<rparr>"

definition trim :: "string \<Rightarrow> string" where
  "trim s =
     (let s1 = (if \<exists>c \<in> set s. c \<noteq> CHR '' '' then dropWhile (\<lambda>c. c = CHR '' '') s else s)
      in if \<exists>c \<in> set s1. c \<noteq> CHR '' '' then rev (dropWhile (\<lambda>c. c = CHR '' '') (rev s1)) else s1)"

definition null_to_empty :: "string \<Rightarrow> string" where
  "null_to_empty s = (if s = ''null'' \<or> s = ''Null'' \<or> s = ''NULL'' then [] else s)"

definition next_item :: "text_parser \<Rightarrow> string parsed" where
  "next_item p =
     (let found = find_sub (tp_delimeter p) (tp_line p) (tp_startPos p) in
      if found = None \<and> tp_startPos p \<ge> length (tp_line p) then Inl ItemMissing
      else
        let endPos = (case found of Some e \<Rightarrow> e | None \<Rightarrow> length (tp_line p));
            len = endPos - tp_startPos p;
            retVal = take len (drop (tp_startPos p) (tp_line p))
        in Inr (null_to_empty (trim retVal),
                p\<lparr>tp_startPos := endPos + length (tp_delimeter p), tp_currentIndex := tp_currentIndex p + 1\<rparr>))"

definition nextChar :: "text_parser \<Rightarrow> char parsed" where
  "nextChar p =
     (case next_item p of Inl e \<Rightarrow> Inl e
      | Inr (s, p') \<Rightarrow> Inr (if s = [] then CHR '' '' else hd s, p'))"

text \<open>The other readers convert the next item; an empty one gives the default.\<close>

definition next_with :: "(string \<Rightarrow> 'a option) \<Rightarrow> 'a \<Rightarrow> text_error \<Rightarrow> text_parser \<Rightarrow> 'a parsed" where
  "next_with conv dflt err p =
     (case next_item p of Inl e \<Rightarrow> Inl e
      | Inr (s, p') \<Rightarrow>
          if s = [] then Inr (dflt, p')
          else (case conv s of Some v \<Rightarrow> Inr (v, p') | None \<Rightarrow> Inl err))"

definition nextInt :: "text_parser \<Rightarrow> int parsed" where
  "nextInt = next_with (sto_signed 32) 0 BadInteger"

definition nextUInt :: "text_parser \<Rightarrow> nat parsed" where
  "nextUInt = next_with (\<lambda>s. map_option (\<lambda>n. n mod 2 ^ 32) (sto_unsigned s)) 0 BadUnsigned"

definition nextLongLong :: "text_parser \<Rightarrow> int parsed" where
  "nextLongLong = next_with (sto_signed 64) 0 BadInteger"

definition nextULongLong :: "text_parser \<Rightarrow> nat parsed" where
  "nextULongLong = next_with sto_unsigned 0 BadUnsigned"

definition nextBool :: "text_parser \<Rightarrow> bool parsed" where
  "nextBool = next_with (\<lambda>s. map_option (\<lambda>v. v = 1) (sto_signed 32 s)) False BadBoolean"

text \<open>\<open>nextDouble\<close> and \<open>nextFloat\<close>, with the floating point conversion as a parameter, and
  \<open>nextDateTime\<close> with \<open>strptime\<close>/\<open>mktime\<close> as one (which an empty item does not skip).\<close>

definition nextFloat :: "(string \<Rightarrow> 'f option) \<Rightarrow> 'f \<Rightarrow> text_parser \<Rightarrow> 'f parsed" where
  "nextFloat stof zero = next_with stof zero BadFloat"

definition nextDateTime :: "(string \<Rightarrow> int) \<Rightarrow> text_parser \<Rightarrow> int parsed" where
  "nextDateTime getDateTime p =
     (case next_item p of Inl e \<Rightarrow> Inl e
      | Inr (s, p') \<Rightarrow> if getDateTime s = - 1 then Inl BadTime else Inr (getDateTime s, p'))"

section \<open>Utils\<close>

definition towlower :: "char \<Rightarrow> char" where
  "towlower c =
     (let n = (of_char c :: nat) in if 65 \<le> n \<and> n \<le> 90 then char_of (n + 32) else c)"

definition toLower :: "string \<Rightarrow> string" where
  "toLower s = map towlower s"

text \<open>The loop of \<open>splitString\<close> from \<open>startPos\<close>; an empty delimiter never advances.\<close>

function split_loop :: "string \<Rightarrow> string \<Rightarrow> nat \<Rightarrow> string list" where
  "split_loop str delimeter startPos =
     (if delimeter = [] then []
      else case find_sub delimeter str startPos of
        Some endPos \<Rightarrow> take (endPos - startPos) (drop startPos str) #
                       split_loop str delimeter (endPos + length delimeter)
      | None \<Rightarrow> [drop startPos str])"
  by pat_completeness auto
termination
  by (relation "measure (\<lambda>(s, d, n). Suc (length s) - n)") (auto dest!: find_sub_Some simp: neq_Nil_conv)

declare split_loop.simps [simp del]

definition splitString :: "string \<Rightarrow> string \<Rightarrow> string list" where
  "splitString str delimeter = (if str = [] then [] else split_loop str delimeter 0)"

text \<open>
  \<open>getUTCDateTime\<close> and \<open>getDateTime\<close>: \<open>strptime\<close> stops where the format ends, \<open>timegm\<close> and \<open>mktime\<close>
  give the seconds since 1970.
\<close>

definition getUTCDateTime ::
  "(string \<Rightarrow> string \<Rightarrow> 'tm option) \<Rightarrow> ('tm \<Rightarrow> int) \<Rightarrow> string \<Rightarrow> string \<Rightarrow> int" where
  "getUTCDateTime strptime timegm dateTimeStr fmt =
     (case strptime (c_str dateTimeStr) (c_str fmt) of None \<Rightarrow> - 1 | Some tm \<Rightarrow> timegm tm)"

definition getDateTime ::
  "(string \<Rightarrow> string \<Rightarrow> 'tm option) \<Rightarrow> ('tm \<Rightarrow> int) \<Rightarrow> string \<Rightarrow> string \<Rightarrow> int" where
  "getDateTime strptime mktime dateTimeStr fmt =
     (case strptime (c_str dateTimeStr) (c_str fmt) of None \<Rightarrow> - 1 | Some tm \<Rightarrow> mktime tm)"

text \<open>The second before 1970 is not told from an error: \<open>nextDateTime\<close> refuses it.\<close>

lemma nextDateTime_refuses_epoch:
  assumes "next_item p = Inr (s, p')" "strptime (c_str s) (c_str fmt) = Some tm" "mktime tm = - 1"
  shows "nextDateTime (\<lambda>s. getDateTime strptime mktime s fmt) p = Inl BadTime"
  using assms by (simp add: nextDateTime_def getDateTime_def)

section \<open>Splitting and joining\<close>

fun join_with :: "'a list \<Rightarrow> 'a list list \<Rightarrow> 'a list" where
  "join_with d [] = []" | "join_with d [x] = x" | "join_with d (x # y # ys) = x @ d @ join_with d (y # ys)"

lemma join_with_Cons: "ys \<noteq> [] \<Longrightarrow> join_with d (x # ys) = x @ d @ join_with d ys"
  by (cases ys) auto

lemma split_loop_nonempty: "d \<noteq> [] \<Longrightarrow> split_loop s d n \<noteq> []"
  by (subst split_loop.simps) (auto split: option.splits)

lemma find_sub_at:
  assumes "find_sub pat s pos = Some j"
  shows "pos \<le> j" "j + length pat \<le> length s" "take (length pat) (drop j s) = pat"
proof -
  have f: "pos \<le> length s" "find_from pat (drop pos s) pos = Some j"
    using assms by (auto simp: find_sub_def split: if_splits)
  from find_from_Some [OF f(2)] show "pos \<le> j" "j + length pat \<le> length s" using f(1) by auto
  from find_from_Some [OF f(2)] have "is_prefix_of pat (drop (j - pos) (drop pos s))" "pos \<le> j" by auto
  then show "take (length pat) (drop j s) = pat" by (auto simp: is_prefix_of_iff)
qed

lemma split_loop_join:
  assumes "d \<noteq> []" "n \<le> length s"
  shows "join_with d (split_loop s d n) = drop n s"
  using assms
proof (induction s d n rule: split_loop.induct)
  case (1 s d n)
  show ?case
  proof (cases "find_sub d s n")
    case None
    with 1(2) show ?thesis by (simp add: split_loop.simps)
  next
    case (Some j)
    note at = find_sub_at [OF Some]
    have "join_with d (split_loop s d n) = take (j - n) (drop n s) @ d @ drop (j + length d) s"
      using 1(1) [OF 1(2) Some] 1(2) at Some split_loop_nonempty [OF 1(2), of s "j + length d"]
      by (simp add: split_loop.simps [of s d n] join_with_Cons)
    also have "d @ drop (j + length d) s = drop j s"
      using at(3) append_take_drop_id [of "length d" "drop j s"] by (simp add: add.commute)
    also have "take (j - n) (drop n s) @ drop j s = drop n s"
      using at(1) append_take_drop_id [of "j - n" "drop n s"] by simp
    finally show ?thesis .
  qed
qed

text \<open>
  \<open>splitString\<close> loses nothing: joining the parts with the delimiter gives the string back,
  for every non-empty string and delimiter.
\<close>

theorem splitString_join:
  assumes "s \<noteq> []" and "d \<noteq> []"
  shows "join_with d (splitString s d) = s"
  using split_loop_join [OF assms(2), of 0 s] assms(1) by (simp add: splitString_def)

lemma splitString_join_witness: "join_with '','' (splitString ''a,,b'' '','') = ''a,,b''"
  using splitString_join [of "''a,,b''" "'',''"] by simp

section \<open>Items of a line\<close>

text \<open>A token that \<open>next\<close> returns as it is, between delimiters.\<close>

definition clean :: "string \<Rightarrow> string \<Rightarrow> bool" where
  "clean d t \<longleftrightarrow>
     t \<noteq> [] \<and> hd t \<noteq> CHR '' '' \<and> last t \<noteq> CHR '' '' \<and> null_to_empty t = t \<and>
     (\<forall>k < length t. \<not> is_prefix_of d (drop k (t @ d)))"

lemma trim_clean: "t \<noteq> [] \<Longrightarrow> hd t \<noteq> CHR '' '' \<Longrightarrow> last t \<noteq> CHR '' '' \<Longrightarrow> trim t = t"
proof -
  assume t: "t \<noteq> []" "hd t \<noteq> CHR '' ''" "last t \<noteq> CHR '' ''"
  have front: "dropWhile (\<lambda>c. c = CHR '' '') s = s" if "s \<noteq> []" "hd s \<noteq> CHR '' ''" for s
    using that by (cases s) auto
  show "trim t = t"
    using front [of t] front [of "rev t"] t by (simp add: trim_def Let_def hd_rev)
qed

lemma is_prefix_of_take: "is_prefix_of p s \<longleftrightarrow> take (length p) s = p"
  by (auto simp: is_prefix_of_iff) (metis append_take_drop_id)

lemma clean_find:
  assumes "clean d t" "d \<noteq> []"
  shows "find_from d (t @ d @ r) i = Some (i + length t)" "find_from d t i = None"
proof -
  have "\<not> is_prefix_of d (drop k (t @ d @ r))" if "k < length t" for k
  proof -
    have "take (length d) (drop k (t @ d @ r)) = take (length d) (drop k (t @ d))"
      using that by (simp add: take_append drop_append)
    then show ?thesis using assms(1) that by (simp add: clean_def is_prefix_of_take)
  qed
  then show "find_from d (t @ d @ r) i = Some (i + length t)" by (rule find_from_skip)
  show "find_from d t i = None"
  proof (rule ccontr)
    assume "find_from d t i \<noteq> None"
    then obtain j where "find_from d t i = Some j" by auto
    from find_from_Some [OF this] have j: "i \<le> j" "j + length d \<le> i + length t" "is_prefix_of d (drop (j - i) t)" by auto
    then have "j - i < length t" using assms(2) by (cases d) auto
    moreover have "is_prefix_of d (drop (j - i) (t @ d))" using j(3) by (auto simp: is_prefix_of_iff)
    ultimately show False using assms(1) by (simp add: clean_def)
  qed
qed

lemma next_token:
  assumes "clean d t" "d \<noteq> []" "tp_delimeter p = d" "tp_startPos p = n" "drop n (tp_line p) = t @ d @ r"
  shows "next_item p = Inr (t, p\<lparr>tp_startPos := n + length t + length d, tp_currentIndex := tp_currentIndex p + 1\<rparr>)"
proof -
  have "n \<le> length (tp_line p)" using assms(5) assms(1) by (cases "n \<le> length (tp_line p)") (auto simp: clean_def)
  then have "find_sub d (tp_line p) n = Some (n + length t)"
    using clean_find(1) [OF assms(1,2), of r n] assms(5) by (simp add: find_sub_def)
  with assms show ?thesis by (simp add: next_item_def Let_def trim_clean clean_def)
qed

lemma next_last_token:
  assumes "clean d t" "d \<noteq> []" "tp_delimeter p = d" "tp_startPos p = n" "drop n (tp_line p) = t"
  shows "next_item p = Inr (t, p\<lparr>tp_startPos := length (tp_line p) + length d, tp_currentIndex := tp_currentIndex p + 1\<rparr>)"
proof -
  have n: "n < length (tp_line p)" using assms(1,5) by (cases "n < length (tp_line p)") (auto simp: clean_def)
  then have "find_sub d (tp_line p) n = None"
    using clean_find(2) [OF assms(1,2), of n] assms(5) by (simp add: find_sub_def)
  moreover have "length t = length (tp_line p) - n" using assms(5) by auto
  ultimately show ?thesis using n assms by (simp add: next_item_def Let_def trim_clean clean_def)
qed

lemma next_end: "tp_delimeter p \<noteq> [] \<Longrightarrow> tp_startPos p > length (tp_line p) \<Longrightarrow> next_item p = Inl ItemMissing"
  by (simp add: next_item_def find_sub_def)

text \<open>All items of a line: \<open>next\<close> until it throws.\<close>

function items :: "text_parser \<Rightarrow> string list" where
  "items p =
     (if tp_delimeter p = [] then []
      else case next_item p of Inl e \<Rightarrow> [] | Inr (s, p') \<Rightarrow> s # items p')"
  by pat_completeness auto
termination
proof (relation "measure (\<lambda>p. Suc (length (tp_line p)) - tp_startPos p)", simp)
  fix p r s p' assume "tp_delimeter p \<noteq> []" "next_item p = Inr r" "(s, p') = r"
  then show "(p', p) \<in> measure (\<lambda>p. Suc (length (tp_line p)) - tp_startPos p)"
    by (cases "find_sub (tp_delimeter p) (tp_line p) (tp_startPos p)")
       (auto simp: next_item_def Let_def neq_Nil_conv split: if_splits dest!: find_sub_Some)
qed

declare items.simps [simp del]

lemma items_from:
  assumes "\<forall>t \<in> set ts. clean d t" "d \<noteq> []" "ts \<noteq> []" "tp_delimeter p = d"
    "drop (tp_startPos p) (tp_line p) = join_with d ts"
  shows "items p = ts"
  using assms
proof (induction ts arbitrary: p)
  case (Cons t ts)
  show ?case
  proof (cases "ts = []")
    case True
    with Cons.prems next_last_token [of d t p "tp_startPos p"] next_end
    show ?thesis by (simp add: items.simps [of p]) (simp add: items.simps next_end)
  next
    case False
    with Cons.prems have d: "drop (tp_startPos p) (tp_line p) = t @ d @ join_with d ts"
      by (simp add: join_with_Cons)
    let ?p = "p\<lparr>tp_startPos := tp_startPos p + length t + length d, tp_currentIndex := tp_currentIndex p + 1\<rparr>"
    have n: "next_item p = Inr (t, ?p)" using next_token [OF _ _ _ refl d] Cons.prems by simp
    have "drop (length t + length d) (drop (tp_startPos p) (tp_line p)) = join_with d ts"
      unfolding d by simp
    then have "drop (tp_startPos ?p) (tp_line ?p) = join_with d ts" by (simp add: add.commute add.left_commute)
    with Cons False have "items ?p = ts" by simp
    with n Cons.prems show ?thesis by (simp add: items.simps [of p])
  qed
qed simp

text \<open>
  Parsing what was printed: for a line made of items joined by the delimiter, \<open>next\<close>
  returns exactly those items, in order, and then throws. Items must be non-empty, without
  surrounding spaces, not a spelling of null, and free of the delimiter.
\<close>

theorem parser_roundtrip:
  assumes "\<forall>t \<in> set ts. clean d t" and "d \<noteq> []" and "ts \<noteq> []"
  shows "items (DelimiterTextParser (join_with d ts) d n) = ts"
  using items_from [OF assms] by (simp add: DelimiterTextParser_def)

lemma parser_roundtrip_witness:
  "items (DelimiterTextParser (join_with '', '' [''chat'', ''super chat'']) '', '' 1) = [''chat'', ''super chat'']"
proof -
  have "\<forall>t \<in> set [''chat'', ''super chat'']. clean '', '' t" by code_simp
  then show ?thesis by (rule parser_roundtrip) simp_all
qed

end
