(* ===== verification/Lu_Handshake.thy ===== *)
theory Lu_Handshake
  imports Lu_Text
begin

text \<open>
  The opening handshake (\<open>src/platform/socket/websocket/HandshakeRequest.cpp\<close>,
  \<open>HandshakeResponse.cpp\<close>, \<open>HandshakeSeverResponse.cpp\<close>). Parameters stand for what is not in the
  repository: \<open>base64Sha\<close> for the base64 of the SHA-1 digest, \<open>below\<close> for the comparison
  \<open>stof(s) < 1.1F\<close>, where \<open>None\<close> is the exception of \<open>stof\<close>.
\<close>

definition CRLF :: string where
  "CRLF = [CHR 0x0D, CHR 0x0A]"

text \<open>
  Outcome of a parse: \<open>Refused\<close> is the empty response (or \<open>false\<close>), \<open>Thrown\<close> an exception that
  leaves the function, \<open>OutOfBounds\<close> a view past the end of the data.
\<close>

datatype 'a outcome = Accepted 'a | Refused | Thrown | OutOfBounds

type_synonym headers = "(string \<times> string) list"

text \<open>\<open>std::map::emplace\<close> keeps the value a key already has.\<close>

definition emplace :: "string \<Rightarrow> string \<Rightarrow> headers \<Rightarrow> headers" where
  "emplace k v kv = (if map_of kv k = None then kv @ [(k, v)] else kv)"

text \<open>
  The header loop that \<open>getResponse\<close> and \<open>readServerResponse\<close> share: \<open>first\<close> reads the first line
  while no key is known. \<open>line.substr(delimiterPos + 2)\<close> throws beyond the end of the line.
\<close>

function readHeaders :: "(string \<Rightarrow> headers option) \<Rightarrow> string \<Rightarrow> nat \<Rightarrow> headers \<Rightarrow> headers outcome" where
  "readHeaders first dat readHeader kv =
     (case find_sub CRLF dat readHeader of
        None \<Rightarrow> OutOfBounds
      | Some location \<Rightarrow>
          if location = readHeader then Accepted kv
          else
            let line = take (location - readHeader) (drop readHeader dat) in
            if kv = [] then
              (case first line of None \<Rightarrow> Refused | Some kv' \<Rightarrow> readHeaders first dat (location + 2) kv')
            else
              (case find_sub '':'' line 0 of
                 None \<Rightarrow> Refused
               | Some delimiterPos \<Rightarrow>
                   if delimiterPos + 2 > length line then Thrown
                   else readHeaders first dat (location + 2)
                          (emplace (toLower (take delimiterPos line)) (drop (delimiterPos + 2) line) kv)))"
  by pat_completeness auto
termination
  by (relation "measure (\<lambda>(f, s, n, kv). Suc (length s) - n)") (auto dest!: find_sub_Some simp: CRLF_def)

declare readHeaders.simps [simp del]

section \<open>The server's side\<close>

text \<open>The items of a request line; a missing item is an exception, which refuses.\<close>

definition requestLine :: "(string \<Rightarrow> bool option) \<Rightarrow> string \<Rightarrow> string \<Rightarrow> headers option" where
  "requestLine below expectedResource line =
     (case next_item (DelimiterTextParser line '' '' 1) of Inl _ \<Rightarrow> None | Inr (verb, p1) \<Rightarrow>
      case next_item p1 of Inl _ \<Rightarrow> None | Inr (resource, p2) \<Rightarrow>
      case next_item p2 of Inl _ \<Rightarrow> None | Inr (httpProtocol, _) \<Rightarrow>
      case next_item (DelimiterTextParser (c_str httpProtocol) ''/'' 1) of Inl _ \<Rightarrow> None | Inr (protocol, p3) \<Rightarrow>
      case nextFloat below True p3 of Inl _ \<Rightarrow> None | Inr (tooOld, _) \<Rightarrow>
        if verb \<noteq> ''GET'' \<or> resource \<noteq> expectedResource \<or> tooOld then None
        else Some [(''request-method'', line)])"

text \<open>\<open>std::set_intersection\<close> of two lists sorted in descending order.\<close>

fun set_intersection :: "int list \<Rightarrow> int list \<Rightarrow> int list" where
  "set_intersection (x # xs) (y # ys) =
     (if x > y then set_intersection xs (y # ys)
      else if y > x then set_intersection (x # xs) ys
      else x # set_intersection xs ys)"
| "set_intersection _ _ = []"

definition listIntersection :: "int list \<Rightarrow> int list \<Rightarrow> int list" where
  "listIntersection list1 list2 = set_intersection (rev (sort list1)) (rev (sort list2))"

definition getAcceptKey :: "(string \<Rightarrow> string) \<Rightarrow> string \<Rightarrow> string" where
  "getAcceptKey base64Sha key = base64Sha (key @ ''258EAFA5-E914-47DA-95CA-C5AB0DC85B11'')"

definition HandshakeResponse ::
  "(string \<Rightarrow> string) \<Rightarrow> string \<Rightarrow> string \<Rightarrow> string list \<Rightarrow> int list \<Rightarrow> int list \<Rightarrow> string \<Rightarrow> string" where
  "HandshakeResponse base64Sha upgrade key protocols versions supportedVersions supportedProtocol =
     (let protocol = (if supportedProtocol \<in> set protocols then supportedProtocol else []) in
      if upgrade = ''tcp'' then ''HTTP/1.1 101 Switching Protocols'' @ CRLF @ ''Upgrade: tcp'' @ CRLF @ CRLF
      else if protocol = [] \<or> listIntersection supportedVersions versions = [] then []
      else ''HTTP/1.1 101 Switching Protocols'' @ CRLF @ ''Upgrade: websocket'' @ CRLF @
           ''Connection: Upgrade'' @ CRLF @ ''Sec-WebSocket-Accept: '' @ getAcceptKey base64Sha key @ CRLF @
           ''Sec-WebSocket-Protocol: '' @ supportedProtocol @ CRLF @ CRLF)"

text \<open>The value lists: items until an empty one, a 0 or an exception; only the first
  conversion of a version is outside the \<open>try\<close>.\<close>

definition protocolList :: "string \<Rightarrow> string list" where
  "protocolList value = takeWhile (\<lambda>s. s \<noteq> []) (items (DelimiterTextParser (c_str value) '', '' 1))"

definition versionOf :: "string \<Rightarrow> int option" where
  "versionOf s = (if s = [] then Some 0 else sto_signed 32 s)"

fun versionsFrom :: "string list \<Rightarrow> int list" where
  "versionsFrom [] = []"
| "versionsFrom (s # ss) =
     (case versionOf s of None \<Rightarrow> [] | Some v \<Rightarrow> if v = 0 then [] else v # versionsFrom ss)"

definition versionList :: "string \<Rightarrow> int list option" where
  "versionList value =
     (let ss = items (DelimiterTextParser (c_str value) '', '' 1) in
      if ss = [] \<or> versionOf (hd ss) = None then None else Some (versionsFrom ss))"

definition getResponse ::
  "(string \<Rightarrow> bool option) \<Rightarrow> (string \<Rightarrow> string) \<Rightarrow> string \<Rightarrow> string \<Rightarrow> string \<Rightarrow> int list \<Rightarrow> string outcome" where
  "getResponse below base64Sha dat expectedResource supportedProtocol supportedVersion =
     (case readHeaders (requestLine below expectedResource) dat 0 [] of
        Refused \<Rightarrow> Refused | Thrown \<Rightarrow> Thrown | OutOfBounds \<Rightarrow> OutOfBounds
      | Accepted kv \<Rightarrow>
          (case map_of kv ''upgrade'' of
             None \<Rightarrow> Refused
           | Some upgrade \<Rightarrow>
               if upgrade = ''tcp''
               then Accepted (HandshakeResponse base64Sha upgrade [] [] [] supportedVersion supportedProtocol)
               else if upgrade \<noteq> ''websocket'' then Refused
               else (case map_of kv ''sec-websocket-key'' of None \<Rightarrow> Refused | Some key \<Rightarrow>
                 case map_of kv ''connection'' of None \<Rightarrow> Refused | Some connection \<Rightarrow>
                 if toLower connection \<noteq> ''upgrade'' then Refused
                 else case map_of kv ''sec-websocket-protocol'' of None \<Rightarrow> Refused | Some protocolsValue \<Rightarrow>
                 if protocolsValue = [] then Refused
                 else if c_str protocolsValue = [] then Thrown
                 else case map_of kv ''sec-websocket-version'' of None \<Rightarrow> Refused | Some versionValue \<Rightarrow>
                 case versionList versionValue of None \<Rightarrow> Thrown | Some versions \<Rightarrow>
                 if protocolList protocolsValue = [] then Refused
                 else let response = HandshakeResponse base64Sha upgrade key (protocolList protocolsValue)
                        versions supportedVersion supportedProtocol
                      in if response = [] then Refused else Accepted response)))"

section \<open>The client's side\<close>

record request_info =
  ri_resourceName :: string
  ri_host :: string
  ri_upgrade :: string
  ri_origin :: string
  ri_wsVersion :: string
  ri_extensions :: string
  ri_protocols :: "string list"
  ri_headers :: "(string \<times> string) list"

definition header :: "string \<times> string \<Rightarrow> string" where
  "header kv = fst kv @ '': '' @ snd kv @ CRLF"

definition createHandShakeRequest :: "request_info \<Rightarrow> string \<Rightarrow> string" where
  "createHandShakeRequest info key =
     ''GET '' @ ri_resourceName info @ '' HTTP/1.1'' @ CRLF @
     ''Host: '' @ ri_host info @ CRLF @
     (if ri_upgrade info = [] then ''Upgrade: websocket'' @ CRLF else ''Upgrade: '' @ ri_upgrade info @ CRLF) @
     ''Connection: Upgrade'' @ CRLF @ ''Sec-WebSocket-Key: '' @ key @ CRLF @
     (if ri_origin info \<noteq> [] then ''Origin: '' @ ri_origin info @ CRLF else []) @
     ''Sec-WebSocket-Version: '' @ ri_wsVersion info @ CRLF @
     (if ri_extensions info \<noteq> [] then ''Sec-WebSocket-Extensions: '' @ ri_extensions info @ CRLF else []) @
     (if ri_protocols info \<noteq> []
      then ''Sec-WebSocket-Protocol: '' @ join_with '', '' (ri_protocols info) @ CRLF else []) @
     concat (map header (ri_headers info)) @ CRLF"

definition statusLine :: "(string \<Rightarrow> bool option) \<Rightarrow> string \<Rightarrow> headers option" where
  "statusLine below line =
     (case next_item (DelimiterTextParser line '' '' 1) of Inl _ \<Rightarrow> None | Inr (httpProtocol, p1) \<Rightarrow>
      case nextInt p1 of Inl _ \<Rightarrow> None | Inr (statusCode, _) \<Rightarrow>
      case next_item (DelimiterTextParser (c_str httpProtocol) ''/'' 1) of Inl _ \<Rightarrow> None | Inr (protocol, p3) \<Rightarrow>
      case nextFloat below True p3 of Inl _ \<Rightarrow> None | Inr (tooOld, _) \<Rightarrow>
        if tooOld \<or> statusCode \<noteq> 101 then None
        else Some [(''ServerResponse'', ''101'')])"

definition readServerResponse ::
  "(string \<Rightarrow> bool option) \<Rightarrow> (string \<Rightarrow> string) \<Rightarrow> string \<Rightarrow> string \<Rightarrow> headers outcome" where
  "readServerResponse below base64Sha response key =
     (case readHeaders (statusLine below) response 0 [] of
        Refused \<Rightarrow> Refused | Thrown \<Rightarrow> Thrown | OutOfBounds \<Rightarrow> OutOfBounds
      | Accepted kv \<Rightarrow>
          (case map_of kv ''upgrade'' of
             None \<Rightarrow> Refused
           | Some upgrade \<Rightarrow>
               if upgrade = ''tcp'' then Accepted kv
               else if upgrade \<noteq> ''websocket'' then Refused
               else (case map_of kv ''connection'' of None \<Rightarrow> Refused | Some connection \<Rightarrow>
                 if toLower connection \<noteq> ''upgrade'' then Refused
                 else if (case map_of kv ''sec-websocket-protocol'' of
                            Some protocolsValue \<Rightarrow> protocolsValue \<noteq> [] \<and> c_str protocolsValue = []
                          | None \<Rightarrow> False)
                 then Thrown
                 else (case map_of kv ''sec-websocket-accept'' of None \<Rightarrow> Refused | Some accept \<Rightarrow>
                   if accept \<noteq> getAcceptKey base64Sha key then Refused else Accepted kv))))"

definition getUpgrade :: "headers \<Rightarrow> string" where
  "getUpgrade kv = (case map_of kv ''upgrade'' of None \<Rightarrow> [] | Some u \<Rightarrow> u)"

section \<open>The header loop on lines\<close>

text \<open>A block of header lines, each without a carriage return, then the empty line.\<close>

definition block :: "string list \<Rightarrow> string" where
  "block ls = concat (map (\<lambda>l. l @ CRLF) ls) @ CRLF"

definition line_ok :: "string \<Rightarrow> bool" where
  "line_ok l \<longleftrightarrow> l \<noteq> [] \<and> CHR 0x0D \<notin> set l"

fun headers_of :: "(string \<Rightarrow> headers option) \<Rightarrow> string list \<Rightarrow> headers \<Rightarrow> headers outcome" where
  "headers_of first [] kv = Accepted kv"
| "headers_of first (line # ls) kv =
     (if kv = [] then
        (case first line of None \<Rightarrow> Refused | Some kv' \<Rightarrow> headers_of first ls kv')
      else
        (case find_sub '':'' line 0 of
           None \<Rightarrow> Refused
         | Some d \<Rightarrow>
             if d + 2 > length line then Thrown
             else headers_of first ls (emplace (toLower (take d line)) (drop (d + 2) line) kv)))"

lemma block_Cons: "block (l # ls) = l @ CRLF @ block ls"
  by (simp add: block_def)

lemma find_crlf:
  assumes "line_ok l" "drop n s = l @ CRLF @ r" "n \<le> length s"
  shows "find_sub CRLF s n = Some (n + length l)"
proof -
  have "\<not> is_prefix_of CRLF (drop k (l @ CRLF @ r))" if "k < length l" for k
  proof -
    have "drop k (l @ CRLF @ r) = (l ! k) # drop (Suc k) l @ CRLF @ r"
      using that by (simp add: Cons_nth_drop_Suc)
    moreover have "l ! k \<noteq> CHR 0x0D" using assms(1) that unfolding line_ok_def by (metis nth_mem)
    ultimately show ?thesis by (simp add: CRLF_def)
  qed
  from find_from_skip [OF this] assms(2,3) show ?thesis by (simp add: find_sub_def)
qed

lemma drop_line:
  assumes "drop n s = l @ CRLF @ r" "n \<le> length s"
  shows "drop (n + length l + 2) s = r" "n + length l + 2 \<le> length s"
proof -
  have "drop (n + length l + 2) s = drop (length l + 2) (drop n s)" by (simp add: add.commute add.left_commute)
  also have "\<dots> = r" unfolding assms(1) by (simp add: CRLF_def)
  finally show "drop (n + length l + 2) s = r" .
  have "length (drop n s) = length l + 2 + length r" unfolding assms(1) by (simp add: CRLF_def)
  then show "n + length l + 2 \<le> length s" using assms(2) by simp
qed

lemma readHeaders_lines:
  assumes "\<forall>l \<in> set ls. line_ok l" "drop n s = block ls @ r" "n \<le> length s"
  shows "readHeaders first s n kv = headers_of first ls kv"
  using assms
proof (induction ls arbitrary: n kv)
  case Nil
  then have "find_sub CRLF s n = Some n"
    by (simp add: find_sub_def block_def find_from_prefix is_prefix_of_iff)
  then show ?case by (simp add: readHeaders.simps)
next
  case (Cons l ls)
  have d: "drop n s = l @ CRLF @ block ls @ r" using Cons.prems(2) by (simp add: block_Cons)
  have l: "line_ok l" using Cons.prems(1) by simp
  note f = find_crlf [OF l d Cons.prems(3)]
  have line: "take (length l) (drop n s) = l" by (simp add: d)
  note nxt = drop_line [OF d Cons.prems(3)]
  have IH: "readHeaders first s (n + length l + 2) kv' = headers_of first ls kv'" for kv'
    using Cons.IH [OF _ nxt] Cons.prems(1) by simp
  have "length l \<noteq> 0" using l by (simp add: line_ok_def)
  then show ?case
    by (subst readHeaders.simps) (simp add: f line IH IH [simplified] Let_def split: option.splits)
qed

text \<open>A line \<open>key: value\<close>.\<close>

definition colon_line :: "string \<times> string \<Rightarrow> string" where
  "colon_line kv = fst kv @ '': '' @ snd kv"

lemma find_colon: "CHR '':'' \<notin> set k \<Longrightarrow> find_sub '':'' (k @ CHR '':'' # r) 0 = Some (length k)"
proof -
  assume k: "CHR '':'' \<notin> set k"
  have "\<not> is_prefix_of '':'' (drop i (k @ '':'' @ r))" if "i < length k" for i
  proof -
    have "drop i (k @ '':'' @ r) = (k ! i) # drop (Suc i) k @ '':'' @ r" using that by (simp add: Cons_nth_drop_Suc)
    moreover have "k ! i \<noteq> CHR '':''" using k that by (metis nth_mem)
    ultimately show ?thesis by simp
  qed
  from find_from_skip [OF this, of 0] show ?thesis by (simp add: find_sub_def)
qed

fun emplaces :: "(string \<times> string) list \<Rightarrow> headers \<Rightarrow> headers" where
  "emplaces [] kv = kv" | "emplaces ((k, v) # kvs) kv = emplaces kvs (emplace (toLower k) v kv)"

lemma emplace_nonempty [simp]: "emplace k v kv \<noteq> []"
  by (auto simp: emplace_def)

lemma headers_of_colon:
  "\<forall>kv \<in> set kvs. CHR '':'' \<notin> set (fst kv) \<Longrightarrow> kv0 \<noteq> [] \<Longrightarrow>
     headers_of first (map colon_line kvs) kv0 = Accepted (emplaces kvs kv0)"
proof (induction kvs arbitrary: kv0)
  case (Cons p kvs)
  obtain k v where p: "p = (k, v)" by fastforce
  have "find_sub '':'' (colon_line p) 0 = Some (length k)"
    using find_colon [of k "'' '' @ v"] Cons.prems(1) p by (simp add: colon_line_def)
  moreover have "take (length k) (colon_line p) = k" "drop (length k + 2) (colon_line p) = v"
    "length k + 2 \<le> length (colon_line p)"
    by (simp_all add: p colon_line_def)
  ultimately show ?case using Cons p by simp
qed simp

lemma map_of_emplace: "map_of (emplace k v kv) x = map_of (kv @ [(k, v)]) x"
  by (auto simp: emplace_def map_add_def split: option.splits)

lemma map_of_emplaces: "map_of (emplaces kvs kv) x = map_of (kv @ map (\<lambda>(k, v). (toLower k, v)) kvs) x"
proof (induction kvs arbitrary: kv)
  case (Cons p kvs)
  obtain k v where p: "p = (k, v)" by fastforce
  show ?case unfolding p using Cons.IH [of "emplace (toLower k) v kv"] map_of_emplace [of "toLower k" v kv x]
    by (simp add: map_add_def split: option.splits)
qed simp

section \<open>Our client and our server\<close>

lemma clean_words:
  "clean '' '' ''GET''" "clean '' '' ''HTTP/1.1''" "clean ''/'' ''HTTP''" "clean ''/'' ''1.1''" "clean '' '' ''101''"
  by code_simp+

lemma http_version:
  assumes "below ''1.1'' = Some False"
  shows "\<exists>p3 p4. next_item (DelimiterTextParser (c_str ''HTTP/1.1'') ''/'' 1) = Inr (''HTTP'', p3) \<and>
           nextFloat below True p3 = Inr (False, p4)"
proof -
  let ?p = "DelimiterTextParser (c_str ''HTTP/1.1'') ''/'' 1"
  let ?q = "?p\<lparr>tp_startPos := 5, tp_currentIndex := 2\<rparr>"
  have line: "tp_line ?p = ''HTTP/1.1''" "tp_delimeter ?p = ''/''" "tp_startPos ?p = 0" "tp_currentIndex ?p = 1"
    by (simp_all add: DelimiterTextParser_def c_str_def)
  have one: "next_item ?p = Inr (''HTTP'', ?q)"
    using next_token [OF clean_words(3) _ line(2,3), of "''1.1''"] line by simp
  have "\<exists>q. next_item ?q = Inr (''1.1'', q)"
    using next_last_token [OF clean_words(4), of ?q 5] line by simp
  with one assms show ?thesis by (auto simp: nextFloat_def next_with_def)
qed

lemma requestLine_sent:
  assumes "clean '' '' res" "below ''1.1'' = Some False"
  shows "requestLine below res (''GET '' @ res @ '' HTTP/1.1'') = Some [(''request-method'', ''GET '' @ res @ '' HTTP/1.1'')]"
proof -
  let ?l = "''GET '' @ res @ '' HTTP/1.1''"
  let ?p = "DelimiterTextParser ?l '' '' 1"
  let ?p1 = "?p\<lparr>tp_startPos := 4, tp_currentIndex := 2\<rparr>"
  let ?p2 = "?p1\<lparr>tp_startPos := 4 + length res + 1, tp_currentIndex := 3\<rparr>"
  have line: "tp_line ?p = ?l" "tp_delimeter ?p = '' ''" "tp_startPos ?p = 0" "tp_currentIndex ?p = 1"
    by (simp_all add: DelimiterTextParser_def)
  have one: "next_item ?p = Inr (''GET'', ?p1)"
    using next_token [OF clean_words(1) _ line(2,3), of "res @ '' HTTP/1.1''"] line by simp
  have two: "next_item ?p1 = Inr (res, ?p2)"
    using next_token [OF assms(1), of ?p1 4 "''HTTP/1.1''"] line by simp
  have "4 + length res + 1 = length (''GET '' @ res @ '' '')" "?l = (''GET '' @ res @ '' '') @ ''HTTP/1.1''" by simp_all
  then have "drop (4 + length res + 1) ?l = ''HTTP/1.1''"
    by (simp only: drop_append) simp
  then have three: "\<exists>q. next_item ?p2 = Inr (''HTTP/1.1'', q)"
    using next_last_token [OF clean_words(2), of ?p2 "4 + length res + 1"] line by simp
  from http_version [of below, OF assms(2)] one two three show ?thesis
    by (auto simp: requestLine_def)
qed

lemma statusLine_sent:
  assumes "below ''1.1'' = Some False"
  shows "statusLine below ''HTTP/1.1 101 Switching Protocols'' = Some [(''ServerResponse'', ''101'')]"
proof -
  let ?l = "''HTTP/1.1 101 Switching Protocols''"
  let ?p = "DelimiterTextParser ?l '' '' 1"
  let ?p1 = "?p\<lparr>tp_startPos := 9, tp_currentIndex := 2\<rparr>"
  have line: "tp_line ?p = ?l" "tp_delimeter ?p = '' ''" "tp_startPos ?p = 0" "tp_currentIndex ?p = 1"
    by (simp_all add: DelimiterTextParser_def)
  have one: "next_item ?p = Inr (''HTTP/1.1'', ?p1)"
    using next_token [OF clean_words(2) _ line(2,3), of "''101 Switching Protocols''"] line by simp
  have "\<exists>q. next_item ?p1 = Inr (''101'', q)"
    using next_token [OF clean_words(5), of ?p1 9 "''Switching Protocols''"] line by simp
  moreover have "sto_signed 32 ''101'' = Some 101" by code_simp
  ultimately have "\<exists>q. nextInt ?p1 = Inr (101, q)" by (auto simp: nextInt_def next_with_def)
  with http_version [of below, OF assms] one show ?thesis by (auto simp: statusLine_def)
qed

definition text_ok :: "string \<Rightarrow> bool" where
  "text_ok s \<longleftrightarrow> CHR 0x0D \<notin> set s"

definition header_list :: "request_info \<Rightarrow> string \<Rightarrow> (string \<times> string) list" where
  "header_list info key =
     [(''Host'', ri_host info), (''Upgrade'', if ri_upgrade info = [] then ''websocket'' else ri_upgrade info),
      (''Connection'', ''Upgrade''), (''Sec-WebSocket-Key'', key)] @
     (if ri_origin info \<noteq> [] then [(''Origin'', ri_origin info)] else []) @
     [(''Sec-WebSocket-Version'', ri_wsVersion info)] @
     (if ri_extensions info \<noteq> [] then [(''Sec-WebSocket-Extensions'', ri_extensions info)] else []) @
     (if ri_protocols info \<noteq> [] then [(''Sec-WebSocket-Protocol'', join_with '', '' (ri_protocols info))] else []) @
     ri_headers info"

lemma createHandShakeRequest_block:
  "createHandShakeRequest info key =
     block ((''GET '' @ ri_resourceName info @ '' HTTP/1.1'') # map colon_line (header_list info key))"
proof -
  have "concat (map header hs) = concat (map (\<lambda>l. l @ CRLF) (map colon_line hs))" for hs
    by (induction hs) (auto simp: header_def colon_line_def)
  then show ?thesis
    by (simp add: createHandShakeRequest_def block_def header_list_def colon_line_def)
qed

text \<open>
  What the client may ask: no line breaks in any field, one of the server's protocols, and
  the WebSocket protocol or plain TCP.
\<close>

definition info_ok :: "request_info \<Rightarrow> string \<Rightarrow> bool" where
  "info_ok info supported \<longleftrightarrow>
     clean '' '' (ri_resourceName info) \<and> text_ok (ri_resourceName info) \<and> text_ok (ri_host info) \<and>
     ri_upgrade info \<in> {[], ''tcp''} \<and> text_ok (ri_origin info) \<and> ri_wsVersion info = ''13'' \<and>
     text_ok (ri_extensions info) \<and> supported \<in> set (ri_protocols info) \<and>
     (\<forall>p \<in> set (ri_protocols info). clean '', '' p \<and> text_ok p \<and> CHR 0x00 \<notin> set p) \<and>
     (\<forall>h \<in> set (ri_headers info). text_ok (fst h) \<and> text_ok (snd h) \<and> CHR '':'' \<notin> set (fst h))"

definition asked_upgrade :: "request_info \<Rightarrow> string" where
  "asked_upgrade info = (if ri_upgrade info = [] then ''websocket'' else ri_upgrade info)"

lemma set_join: "set (join_with d xs) \<subseteq> set d \<union> (\<Union>x \<in> set xs. set x)"
  by (induction d xs rule: join_with.induct) auto

lemma toLower_names:
  "toLower ''Host'' = ''host''" "toLower ''Upgrade'' = ''upgrade''" "toLower ''Connection'' = ''connection''"
  "toLower ''Sec-WebSocket-Key'' = ''sec-websocket-key''" "toLower ''Origin'' = ''origin''"
  "toLower ''Sec-WebSocket-Version'' = ''sec-websocket-version''"
  "toLower ''Sec-WebSocket-Extensions'' = ''sec-websocket-extensions''"
  "toLower ''Sec-WebSocket-Protocol'' = ''sec-websocket-protocol''"
  "toLower ''Sec-WebSocket-Accept'' = ''sec-websocket-accept''"
  by code_simp+

lemma line_ok_colon: "text_ok (fst h) \<Longrightarrow> text_ok (snd h) \<Longrightarrow> line_ok (colon_line h)"
  by (auto simp: line_ok_def colon_line_def text_ok_def)

lemma request_lines:
  assumes "info_ok info supported" "text_ok key"
  shows "\<forall>l \<in> set ((''GET '' @ ri_resourceName info @ '' HTTP/1.1'') # map colon_line (header_list info key)). line_ok l"
proof -
  let ?line = "''GET '' @ ri_resourceName info @ '' HTTP/1.1''"
  have "text_ok (join_with '', '' (ri_protocols info))"
    using set_join [of "'', ''" "ri_protocols info"] assms(1) by (auto simp: text_ok_def info_ok_def)
  with assms line_ok_colon show ?thesis
    by (auto simp: header_list_def info_ok_def text_ok_def line_ok_def [of ?line] simp del: append.simps)
qed

lemma request_headers:
  assumes "info_ok info supported" "text_ok key" "below ''1.1'' = Some False"
  shows "\<exists>kv. readHeaders (requestLine below (ri_resourceName info)) (createHandShakeRequest info key) 0 [] = Accepted kv \<and>
    map_of kv ''upgrade'' = Some (asked_upgrade info) \<and> map_of kv ''sec-websocket-key'' = Some key \<and>
    map_of kv ''connection'' = Some ''Upgrade'' \<and>
    map_of kv ''sec-websocket-protocol'' = Some (join_with '', '' (ri_protocols info)) \<and>
    map_of kv ''sec-websocket-version'' = Some ''13''"
proof -
  let ?line = "''GET '' @ ri_resourceName info @ '' HTTP/1.1''"
  let ?ls = "?line # map colon_line (header_list info key)"
  let ?kv = "emplaces (header_list info key) [(''request-method'', ?line)]"
  have prot: "ri_protocols info \<noteq> []" using assms(1) by (auto simp: info_ok_def)
  note lines = request_lines [OF assms(1,2)]
  have keys: "\<forall>kv \<in> set (header_list info key). CHR '':'' \<notin> set (fst kv)"
    using assms(1) by (auto simp: header_list_def info_ok_def)
  have first: "requestLine below (ri_resourceName info) ?line = Some [(''request-method'', ?line)]"
    using requestLine_sent assms(1,3) by (simp add: info_ok_def)
  have "readHeaders (requestLine below (ri_resourceName info)) (createHandShakeRequest info key) 0 [] =
      headers_of (requestLine below (ri_resourceName info)) ?ls []"
    by (rule readHeaders_lines [OF lines, where r = "[]"]) (simp_all add: createHandShakeRequest_block)
  also have "\<dots> = Accepted ?kv"
    using first headers_of_colon [OF keys, of "[(''request-method'', ?line)]"] by simp
  finally have r: "readHeaders (requestLine below (ri_resourceName info)) (createHandShakeRequest info key) 0 [] = Accepted ?kv" .
  show ?thesis
    by (intro exI [of _ ?kv] conjI r; unfold map_of_emplaces)
       (use assms(1) prot in \<open>simp_all add: header_list_def toLower_names info_ok_def asked_upgrade_def map_add_def\<close>)
qed

lemma set_intersection_member:
  "sorted_wrt (\<ge>) xs \<Longrightarrow> sorted_wrt (\<ge>) ys \<Longrightarrow> v \<in> set xs \<Longrightarrow> v \<in> set ys \<Longrightarrow> v \<in> set (set_intersection xs ys)"
  by (induction xs ys rule: set_intersection.induct) force+

lemma listIntersection_member: "v \<in> set xs \<Longrightarrow> v \<in> set ys \<Longrightarrow> listIntersection xs ys \<noteq> []"
proof -
  have desc: "sorted_wrt (\<ge>) (rev (sort zs))" for zs :: "int list"
    by (simp add: sorted_wrt_rev)
  assume "v \<in> set xs" "v \<in> set ys"
  then have "v \<in> set (listIntersection xs ys)"
    unfolding listIntersection_def by (intro set_intersection_member desc) simp_all
  then show ?thesis by auto
qed

lemma protocolList_sent:
  assumes "\<forall>p \<in> set ps. clean '', '' p \<and> CHR 0x00 \<notin> set p" "ps \<noteq> []"
  shows "protocolList (join_with '', '' ps) = ps" "c_str (join_with '', '' ps) = join_with '', '' ps"
proof -
  show c: "c_str (join_with '', '' ps) = join_with '', '' ps"
    unfolding c_str_def using set_join [of "'', ''" ps] assms(1) by (intro takeWhile_eq_all_conv [THEN iffD2]) fastforce
  have "items (DelimiterTextParser (join_with '', '' ps) '', '' 1) = ps"
    by (rule items_from) (use assms in \<open>auto simp: DelimiterTextParser_def\<close>)
  moreover have "takeWhile (\<lambda>s. s \<noteq> []) ps = ps" using assms(1) by (auto simp: takeWhile_eq_all_conv clean_def)
  ultimately show "protocolList (join_with '', '' ps) = ps" by (simp add: protocolList_def c)
qed

lemma versionList_13: "versionList ''13'' = Some [13]"
proof -
  have "clean '', '' ''13''" "sto_signed 32 ''13'' = Some 13" by code_simp+
  moreover from this have "items (DelimiterTextParser ''13'' '', '' 1) = [''13'']"
    using items_from [of "[''13'']" "'', ''" "DelimiterTextParser ''13'' '', '' 1"] by (simp add: DelimiterTextParser_def)
  ultimately show ?thesis by (simp add: versionList_def versionOf_def c_str_def)
qed

definition response_headers :: "(string \<Rightarrow> string) \<Rightarrow> string \<Rightarrow> string \<Rightarrow> (string \<times> string) list" where
  "response_headers base64Sha key supported =
     [(''Upgrade'', ''websocket''), (''Connection'', ''Upgrade''),
      (''Sec-WebSocket-Accept'', getAcceptKey base64Sha key), (''Sec-WebSocket-Protocol'', supported)]"

definition accept_response :: "(string \<Rightarrow> string) \<Rightarrow> string \<Rightarrow> string \<Rightarrow> string" where
  "accept_response base64Sha key supported =
     block (''HTTP/1.1 101 Switching Protocols'' # map colon_line (response_headers base64Sha key supported))"

lemma HandshakeResponse_block:
  assumes "supported \<in> set protocols" "supported \<noteq> []" "listIntersection versions' versions \<noteq> []"
  shows "HandshakeResponse base64Sha ''websocket'' key protocols versions versions' supported =
         accept_response base64Sha key supported"
  using assms
  by (simp add: HandshakeResponse_def accept_response_def response_headers_def block_def colon_line_def)

lemma server_accepts:
  assumes "info_ok info supported" "text_ok key" "below ''1.1'' = Some False" "13 \<in> set versions" "ri_upgrade info = []"
  shows "getResponse below base64Sha (createHandShakeRequest info key) (ri_resourceName info) supported versions =
         Accepted (accept_response base64Sha key supported)"
proof -
  from request_headers [of info supported key below, OF assms(1-3)] obtain kv where
    kv: "readHeaders (requestLine below (ri_resourceName info)) (createHandShakeRequest info key) 0 [] = Accepted kv"
    "map_of kv ''upgrade'' = Some ''websocket''" "map_of kv ''sec-websocket-key'' = Some key"
    "map_of kv ''connection'' = Some ''Upgrade''"
    "map_of kv ''sec-websocket-protocol'' = Some (join_with '', '' (ri_protocols info))"
    "map_of kv ''sec-websocket-version'' = Some ''13''" using assms(5) by (auto simp: asked_upgrade_def)
  let ?v = "join_with '', '' (ri_protocols info)"
  have ps: "ri_protocols info \<noteq> []" "supported \<in> set (ri_protocols info)" "supported \<noteq> []"
    using assms(1) by (auto simp: info_ok_def clean_def)
  have pl: "protocolList ?v = ri_protocols info" "c_str ?v = ?v"
    using protocolList_sent [OF _ ps(1)] assms(1) by (auto simp: info_ok_def)
  have ne: "?v \<noteq> []" using pl(1) ps(1) by (auto simp: protocolList_def c_str_def items.simps next_item_def
        DelimiterTextParser_def find_sub_def)
  have resp: "HandshakeResponse base64Sha ''websocket'' key (ri_protocols info) [13] versions supported =
      accept_response base64Sha key supported"
    by (rule HandshakeResponse_block [OF ps(2,3) listIntersection_member [OF assms(4)]]) simp
  have "accept_response base64Sha key supported \<noteq> []" by (simp add: accept_response_def block_def)
  with kv pl ne ps(1) resp show ?thesis
    by (simp add: getResponse_def toLower_names versionList_13)
qed

text \<open>The answer of a server that accepts: for plain TCP it is short and has no key.\<close>

definition server_answer :: "(string \<Rightarrow> string) \<Rightarrow> request_info \<Rightarrow> string \<Rightarrow> string \<Rightarrow> string" where
  "server_answer base64Sha info key supported =
     (if ri_upgrade info = [] then accept_response base64Sha key supported
      else block [''HTTP/1.1 101 Switching Protocols'', ''Upgrade: tcp''])"

lemma server_answers:
  assumes "info_ok info supported" "text_ok key" "below ''1.1'' = Some False" "13 \<in> set versions"
  shows "getResponse below base64Sha (createHandShakeRequest info key) (ri_resourceName info) supported versions =
         Accepted (server_answer base64Sha info key supported)"
proof (cases "ri_upgrade info = []")
  case True
  with server_accepts [of info supported key below versions base64Sha] assms show ?thesis
    by (simp add: server_answer_def)
next
  case False
  with assms(1) have tcp: "ri_upgrade info = ''tcp''" by (auto simp: info_ok_def)
  with request_headers [of info supported key below, OF assms(1-3)] show ?thesis
    by (auto simp: getResponse_def asked_upgrade_def server_answer_def HandshakeResponse_def block_def)
qed

lemma server_answer_lines:
  assumes "info_ok info supported" "text_ok (getAcceptKey base64Sha key)"
  shows "\<exists>ls. server_answer base64Sha info key supported = block ls \<and> (\<forall>l \<in> set ls. line_ok l)"
proof -
  let ?hs = "response_headers base64Sha key supported"
  have "text_ok supported" using assms(1) unfolding info_ok_def by blast
  with assms(2) have "\<forall>h \<in> set ?hs. line_ok (colon_line h)"
    by (auto simp: response_headers_def intro!: line_ok_colon) (auto simp: text_ok_def)
  moreover have "line_ok ''HTTP/1.1 101 Switching Protocols''" "line_ok ''Upgrade: tcp''"
    by (simp_all add: line_ok_def)
  ultimately show ?thesis
    by (cases "ri_upgrade info = []") (force simp: server_answer_def accept_response_def)+
qed

lemma client_reads:
  assumes "\<forall>h \<in> set hs. text_ok (fst h) \<and> text_ok (snd h) \<and> CHR '':'' \<notin> set (fst h)" "below ''1.1'' = Some False"
  shows "readHeaders (statusLine below) (block (''HTTP/1.1 101 Switching Protocols'' # map colon_line hs)) 0 [] =
         Accepted (emplaces hs [(''ServerResponse'', ''101'')])"
proof -
  let ?ls = "''HTTP/1.1 101 Switching Protocols'' # map colon_line hs"
  have lines: "\<forall>l \<in> set ?ls. line_ok l"
    using assms(1) by (auto simp: line_ok_def colon_line_def text_ok_def)
  have keys: "\<forall>kv \<in> set hs. CHR '':'' \<notin> set (fst kv)" using assms(1) by blast
  have "readHeaders (statusLine below) (block ?ls) 0 [] = headers_of (statusLine below) ?ls []"
    by (rule readHeaders_lines [OF lines, where r = "[]"]) simp_all
  also have "\<dots> = Accepted (emplaces hs [(''ServerResponse'', ''101'')])"
    using statusLine_sent [of below, OF assms(2)] headers_of_colon [OF keys, of "[(''ServerResponse'', ''101'')]"] by simp
  finally show ?thesis .
qed

lemma client_accepts:
  assumes "text_ok (getAcceptKey base64Sha key)" "text_ok supported" "supported \<noteq> [] \<longrightarrow> c_str supported \<noteq> []"
    "below ''1.1'' = Some False"
  shows "\<exists>kv. readServerResponse below base64Sha (accept_response base64Sha key supported) key = Accepted kv \<and>
           getUpgrade kv = ''websocket''"
proof -
  let ?hs = "response_headers base64Sha key supported"
  let ?kv = "emplaces ?hs [(''ServerResponse'', ''101'')]"
  have r: "readHeaders (statusLine below) (accept_response base64Sha key supported) 0 [] = Accepted ?kv"
    unfolding accept_response_def
    by (rule client_reads [of ?hs below]) (use assms in \<open>auto simp: response_headers_def text_ok_def\<close>)
  have kv: "map_of ?kv ''upgrade'' = Some ''websocket''" "map_of ?kv ''connection'' = Some ''Upgrade''"
    "map_of ?kv ''sec-websocket-accept'' = Some (getAcceptKey base64Sha key)"
    "map_of ?kv ''sec-websocket-protocol'' = Some supported"
    unfolding map_of_emplaces by (simp_all add: response_headers_def toLower_names map_add_def)
  with r assms(3) show ?thesis
    by (auto simp: readServerResponse_def toLower_names getUpgrade_def)
qed

lemma client_accepts_answer:
  assumes "info_ok info supported" "below ''1.1'' = Some False" "text_ok (getAcceptKey base64Sha key)"
  shows "\<exists>kv. readServerResponse below base64Sha (server_answer base64Sha info key supported) key = Accepted kv \<and>
           getUpgrade kv = asked_upgrade info"
proof (cases "ri_upgrade info = []")
  case True
  have s: "clean '', '' supported" "text_ok supported" "CHR 0x00 \<notin> set supported"
    using assms(1) unfolding info_ok_def by blast+
  then have "c_str supported \<noteq> []" by (cases supported) (auto simp: clean_def c_str_def)
  with s(2) client_accepts [of base64Sha key supported below] assms(2,3) True show ?thesis
    by (simp add: server_answer_def asked_upgrade_def)
next
  case False
  with assms(1) have tcp: "ri_upgrade info = ''tcp''" by (auto simp: info_ok_def)
  let ?hs = "[(''Upgrade'', ''tcp'')]"
  have "server_answer base64Sha info key supported = block (''HTTP/1.1 101 Switching Protocols'' # map colon_line ?hs)"
    using tcp by (simp add: server_answer_def colon_line_def)
  moreover have "map_of (emplaces ?hs [(''ServerResponse'', ''101'')]) ''upgrade'' = Some ''tcp''"
    unfolding map_of_emplaces by (simp add: toLower_names map_add_def)
  ultimately show ?thesis
    using client_reads [of ?hs below] assms(2) tcp
    by (simp add: readServerResponse_def getUpgrade_def asked_upgrade_def text_ok_def)
qed

text \<open>
  C24. The opening handshake completes: the server answers every request that the client
  side builds (for the server's resource, version 13 and one of its protocols, with any
  extra headers, origin and extensions free of line breaks), the client accepts exactly
  that answer for the key it sent, and both agree on the protocol that follows, WebSocket or
  plain TCP. The digest is arbitrary, as long as it has no carriage return.
\<close>

theorem handshake_completes:
  assumes "info_ok info supported" and "text_ok key" and "13 \<in> set versions"
    and "below ''1.1'' = Some False" and "text_ok (getAcceptKey base64Sha key)"
  shows "\<exists>response kv.
    getResponse below base64Sha (createHandShakeRequest info key) (ri_resourceName info) supported versions = Accepted response \<and>
    readServerResponse below base64Sha response key = Accepted kv \<and> getUpgrade kv = asked_upgrade info"
  using server_answers [of info supported key below versions base64Sha]
    client_accepts_answer [of info supported below base64Sha key] assms by blast

lemma handshake_completes_witness:
  "\<exists>response kv.
    getResponse (\<lambda>_. Some False) id (createHandShakeRequest
       \<lparr>ri_resourceName = ''/chat'', ri_host = ''localhost'', ri_upgrade = [], ri_origin = [], ri_wsVersion = ''13'',
        ri_extensions = [], ri_protocols = [''LuBinary''], ri_headers = []\<rparr> ''abc'') ''/chat'' ''LuBinary'' [13] = Accepted response \<and>
    readServerResponse (\<lambda>_. Some False) id response ''abc'' = Accepted kv"
proof -
  let ?info = "\<lparr>ri_resourceName = ''/chat'', ri_host = ''localhost'', ri_upgrade = [], ri_origin = [], ri_wsVersion = ''13'',
        ri_extensions = [], ri_protocols = [''LuBinary''], ri_headers = []\<rparr>"
  have "clean '' '' ''/chat''" "clean '', '' ''LuBinary''" by code_simp+
  then have "info_ok ?info ''LuBinary''" by (simp add: info_ok_def text_ok_def)
  moreover have "text_ok ''abc''" "text_ok (getAcceptKey id ''abc'')" by (simp_all add: text_ok_def getAcceptKey_def)
  ultimately show ?thesis
    using handshake_completes [of ?info "''LuBinary''" "''abc''" "[13]" "\<lambda>_. Some False" id] by auto
qed

text \<open>
  A peer can make the handshake throw: after a valid request line, a header line that
  ends at its colon makes \<open>line.substr(delimiterPos + 2)\<close> start beyond the line, outside every
  \<open>try\<close> block.
\<close>

theorem getResponse_throws:
  assumes "clean '' '' res" and "text_ok res" and "below ''1.1'' = Some False"
    and "text_ok k" and "CHR '':'' \<notin> set k" and "\<forall>l \<in> set ls. line_ok l"
  shows "getResponse below base64Sha (block ((''GET '' @ res @ '' HTTP/1.1'') # (k @ '':'') # ls)) res supported versions = Thrown"
proof -
  let ?line = "''GET '' @ res @ '' HTTP/1.1''"
  have lines: "\<forall>l \<in> set (?line # (k @ '':'') # ls). line_ok l"
    using assms by (auto simp: line_ok_def text_ok_def)
  have "find_sub '':'' (k @ '':'') 0 = Some (length k)" using find_colon [OF assms(5), of "[]"] by simp
  moreover have "readHeaders (requestLine below res) (block (?line # (k @ '':'') # ls)) 0 [] =
      headers_of (requestLine below res) (?line # (k @ '':'') # ls) []"
    by (rule readHeaders_lines [OF lines, where r = "[]"]) simp_all
  ultimately have "readHeaders (requestLine below res) (block (?line # (k @ '':'') # ls)) 0 [] = Thrown"
    using requestLine_sent [of res below] assms(1,3) by simp
  then show ?thesis by (simp add: getResponse_def)
qed

lemma getResponse_throws_witness:
  "getResponse (\<lambda>_. Some False) id (block [''GET /chat HTTP/1.1'', ''X:'']) ''/chat'' ''LuBinary'' [13] = Thrown"
proof -
  have "clean '' '' ''/chat''" by code_simp
  then show ?thesis
    using getResponse_throws [of "''/chat''" "\<lambda>_. Some False" "''X''" "[]" id "''LuBinary''" "[13]"]
    by (simp add: text_ok_def)
qed

section \<open>Bounds\<close>

lemma find_from_earliest:
  "is_prefix_of pat (drop k s) \<Longrightarrow> k \<le> length s \<Longrightarrow> \<exists>j. find_from pat s i = Some j \<and> j \<le> i + k"
proof (induction pat s i arbitrary: k rule: find_from.induct)
  case (1 pat i)
  then show ?case by (cases pat) auto
next
  case (2 pat y ys i)
  show ?case
  proof (cases "is_prefix_of pat (y # ys)")
    case False
    with 2(2) obtain m where m: "k = Suc m" by (cases k) auto
    with 2(1) [OF False, of m] 2(2,3) False show ?thesis by auto
  qed auto
qed

lemma find_crlf_earliest:
  assumes "n \<le> k" "take 2 (drop k s) = CRLF" "k \<le> length s"
  shows "\<exists>j. find_sub CRLF s n = Some j \<and> j \<le> k"
proof -
  have "is_prefix_of CRLF (drop (k - n) (drop n s))"
    using assms by (simp add: is_prefix_of_take CRLF_def numeral_2_eq_2)
  moreover have "k - n \<le> length (drop n s)" using assms by (simp add: diff_le_mono)
  ultimately obtain j where "find_from CRLF (drop n s) n = Some j" "j \<le> n + (k - n)"
    using find_from_earliest [of CRLF "k - n" "drop n s" n] by auto
  with assms show ?thesis by (auto simp: find_sub_def)
qed

lemma readHeaders_in_bounds:
  assumes "s = d @ CRLF @ CRLF" "n \<le> length d \<or> n = length d + 2"
  shows "readHeaders first s n kv \<noteq> OutOfBounds"
  using assms
proof (induction first s n kv rule: readHeaders.induct)
  case (1 first s n kv)
  show ?case
  proof (cases "n = length d + 2")
    case True
    with 1(3) have "find_sub CRLF s n = Some n"
      by (simp add: find_sub_def find_from_prefix is_prefix_of_iff CRLF_def)
    then show ?thesis by (simp add: readHeaders.simps)
  next
    case False
    with 1(4) have n: "n \<le> length d" by simp
    have "take 2 (drop (length d) s) = CRLF" using 1(3) by (simp add: CRLF_def)
    from find_crlf_earliest [OF n this] 1(3) obtain j where j: "find_sub CRLF s n = Some j" "j \<le> length d" by auto
    have nxt: "j + 2 \<le> length d \<or> j + 2 = length d + 2"
    proof (rule ccontr)
      assume "\<not> ?thesis"
      with j(2) have jd: "Suc j = length d" by linarith
      from find_sub_at(3) [OF j(1)] have "take 2 (drop j s) = CRLF" by (simp add: CRLF_def numeral_2_eq_2)
      moreover have "drop j s ! 1 = CHR 0x0D"
      proof -
        have "j \<le> length s" using jd 1(3) by simp
        then have "drop j s ! 1 = s ! (j + 1)" by (rule nth_drop)
        also have "j + 1 = length d" using jd by simp
        also have "s ! length d = CHR 0x0D" using 1(3) by (simp add: nth_append CRLF_def)
        finally show ?thesis .
      qed
      moreover have "take 2 (drop j s) ! 1 = drop j s ! 1" by (rule nth_take) simp
      ultimately show False by (simp add: CRLF_def)
    qed
    let ?line = "take (j - n) (drop n s)"
    consider "j = n" | "j \<noteq> n" "kv = []" | "j \<noteq> n" "kv \<noteq> []" by blast
    then show ?thesis
    proof cases
      case 1
      with j(1) show ?thesis by (simp add: readHeaders.simps)
    next
      case 2
      with 1(1) [OF j(1) 2(1) refl 2(2) _ 1(3) nxt] j(1) show ?thesis
        by (subst readHeaders.simps) (simp add: Let_def split: option.split)
    next
      case 3
      with 1(2) [OF j(1) 3(1) refl 3(2) _ _ 1(3) nxt] j(1) show ?thesis
        by (subst readHeaders.simps) (simp add: Let_def split: option.split)
    qed
  qed
qed

text \<open>
  Whatever a peer sends, parsing its request stays inside the received data: on any bytes
  that end with the empty line (which is when the socket calls \<open>getResponse\<close>), the header loop
  never looks for a line end that is not there.
\<close>

theorem getResponse_in_bounds:
  "getResponse below base64Sha (d @ CRLF @ CRLF) res supported versions \<noteq> OutOfBounds"
proof -
  have "readHeaders (requestLine below res) (d @ CRLF @ CRLF) 0 [] \<noteq> OutOfBounds"
    by (rule readHeaders_in_bounds [OF refl]) simp
  then show ?thesis
    by (auto simp: getResponse_def Let_def split: outcome.splits option.splits if_splits)
qed

end
