(* ===== verification/Lu_Base_Socket.thy ===== *)
theory Lu_Base_Socket
  imports Lu_Prelude
begin

text \<open>
  The socket layer (\<open>FileDescriptor.cpp\<close>, \<open>BaseSocket.cpp\<close>, \<open>SSLSocket.cpp\<close> and the read
  functions of \<open>Utils.cpp\<close>). What the kernel or OpenSSL answers is an argument: a list with
  one answer for each call the code makes, in order. A loop that asks for more answers than
  the list holds has not returned yet and is \<open>None\<close>; a call that passes memory outside its
  buffer is the value \<open>Some (Inl MemoryFault)\<close>, and \<open>std::abort\<close> is
  \<open>Some (Inl Aborted)\<close>, an exception that nothing catches \<open>Some (Inl Uncaught)\<close>, an integer
  division by zero \<open>Inl DividedByZero\<close>.
\<close>

datatype fault = MemoryFault | Aborted | Uncaught | DividedByZero

type_synonym 'a run = "(fault + 'a) option"

text \<open>The values of \<open>errno\<close> the code looks at; on Linux \<open>EWOULDBLOCK\<close> is \<open>EAGAIN\<close>.\<close>

datatype errno = EAGAIN | EINTR | ENOBUFS | EOPNOTSUPP | EOther int

section \<open>FileDescriptor\<close>

abbreviation "NULL_FD \<equiv> (- 1 :: int)"

definition fd_close :: "int \<Rightarrow> int \<Rightarrow> int \<times> int" where
  "fd_close ret fd = (if fd = NULL_FD then (0, fd) else if ret = 0 then (ret, NULL_FD) else (ret, fd))"

text \<open>
  \<open>setFDFlags\<close> and \<open>removeFDFlags\<close>: the first argument is the answer of \<open>F_GETFL\<close>, the second
  that of \<open>F_SETFL\<close> for the flags it is given. The result is the function's value and the
  flags it asked for, if it got that far.
\<close>

definition setFDFlags :: "32 word \<Rightarrow> (32 word \<Rightarrow> int) \<Rightarrow> 32 word \<Rightarrow> bool \<times> 32 word option" where
  "setFDFlags got setfl flags =
     (if got = - 1 then (False, None) else (setfl (got OR flags) \<noteq> - 1, Some (got OR flags)))"

definition removeFDFlags :: "32 word \<Rightarrow> (32 word \<Rightarrow> int) \<Rightarrow> 32 word \<Rightarrow> bool \<times> 32 word option" where
  "removeFDFlags got setfl flags =
     (if got = - 1 then (False, None)
      else (setfl (got AND NOT flags) \<noteq> - 1, Some (got AND NOT flags)))"

definition O_NONBLOCK :: "32 word" where
  "O_NONBLOCK = 2048"

definition setToNonBlocking :: "32 word \<Rightarrow> (32 word \<Rightarrow> int) \<Rightarrow> bool \<times> 32 word option" where
  "setToNonBlocking got setfl = setFDFlags got setfl O_NONBLOCK"

definition setBlocking :: "32 word \<Rightarrow> (32 word \<Rightarrow> int) \<Rightarrow> bool \<times> 32 word option" where
  "setBlocking got setfl = removeFDFlags got setfl O_NONBLOCK"

section \<open>Reading\<close>

text \<open>
  One answer of \<open>recv\<close>, \<open>read\<close> or \<open>readv\<close>: bytes (none at the end of the stream) or an error.
  The three wrappers return whether the connection is alive, and the bytes read.
\<close>

datatype recv_result = Received "byte list" | RecvError errno

definition readDataSocket :: "recv_result \<Rightarrow> fault + bool \<times> byte list" where
  "readDataSocket r =
     (case r of RecvError e \<Rightarrow> Inr (e = EAGAIN, []) | Received bs \<Rightarrow> Inr (bs \<noteq> [], bs))"

text \<open>The vectored version aborts the process on \<open>EOPNOTSUPP\<close>.\<close>

definition readDataSocketV :: "recv_result \<Rightarrow> fault + bool \<times> byte list" where
  "readDataSocketV r =
     (case r of
        RecvError e \<Rightarrow> if e = EOPNOTSUPP then Inl Aborted else Inr (e = EAGAIN, [])
      | Received bs \<Rightarrow> Inr (bs \<noteq> [], bs))"

definition readDataFile :: "recv_result \<Rightarrow> fault + bool \<times> byte list" where
  "readDataFile r =
     (case r of RecvError e \<Rightarrow> Inr (e = EAGAIN, []) | Received bs \<Rightarrow> Inr (bs \<noteq> [], bs))"

datatype ssl_error = SSL_ERROR_WANT_READ | SSL_ERROR_WANT_WRITE | SSL_ERROR_OTHER

definition ssl_retry :: "ssl_error \<Rightarrow> bool" where
  "ssl_retry e \<longleftrightarrow> e = SSL_ERROR_WANT_READ \<or> e = SSL_ERROR_WANT_WRITE"

datatype ssl_result = SSLReceived "byte list" | SSLError ssl_error

definition ssl_readDataSocket :: "ssl_result \<Rightarrow> fault + bool \<times> byte list" where
  "ssl_readDataSocket r =
     (case r of SSLError e \<Rightarrow> Inr (ssl_retry e, []) | SSLReceived bs \<Rightarrow> Inr (bs \<noteq> [], bs))"

section \<open>Sending\<close>

text \<open>
  \<open>BaseSocket::send\<close>. An answer is the value of \<open>::send\<close> with \<open>errno\<close> at that moment; the kernel
  puts that many bytes of the span it was given on the wire. The loop reduces \<open>size\<close> and
  raises \<open>totalSent\<close> after a short write, and compares the two.
\<close>

definition send_transient :: "errno \<Rightarrow> bool" where
  "send_transient e \<longleftrightarrow> e = EAGAIN \<or> e = EINTR \<or> e = ENOBUFS"

fun send_loop :: "byte list \<Rightarrow> (int \<times> errno) list \<Rightarrow> int \<Rightarrow> int \<Rightarrow> byte list \<Rightarrow> (int \<times> byte list) run" where
  "send_loop buf ks totalSent len wire =
     (if totalSent < len then
        (case ks of
           [] \<Rightarrow> None
         | (n, e) # ks' \<Rightarrow>
             (case mem_read buf (nat totalSent) (nat len) of
                None \<Rightarrow> Some (Inl MemoryFault)
              | Some span \<Rightarrow>
                  if n < 0 then
                    (if e = EAGAIN then send_loop buf ks' totalSent len wire
                     else Some (Inr (totalSent, wire)))
                  else if n \<noteq> len then
                    (if send_transient e
                     then send_loop buf ks' (totalSent + n) (len - n) (wire @ take (nat n) span)
                     else Some (Inr (totalSent, wire @ take (nat n) span)))
                  else send_loop buf ks' (totalSent + n) len (wire @ take (nat n) span)))
      else Some (Inr (totalSent, wire)))"

declare send_loop.simps [simp del]

definition base_send :: "int \<Rightarrow> byte list \<Rightarrow> int \<Rightarrow> (int \<times> errno) list \<Rightarrow> (int \<times> byte list) run" where
  "base_send fd buf len ks =
     (if fd = NULL_FD then Some (Inr (0, [])) else send_loop buf ks 0 len [])"

text \<open>
  \<open>SSLSocket::send\<close>: every \<open>SSL_write\<close> is given the whole buffer again. The answer is the
  value of \<open>SSL_write\<close> and that of \<open>SSL_get_error\<close>.
\<close>

fun ssl_send_loop :: "byte list \<Rightarrow> (int \<times> ssl_error) list \<Rightarrow> int \<Rightarrow> byte list \<Rightarrow> (int \<times> byte list) run" where
  "ssl_send_loop buf ks len wire =
     (if 0 < len then
        (case ks of
           [] \<Rightarrow> None
         | (n, e) # ks' \<Rightarrow>
             (case mem_read buf 0 (nat len) of
                None \<Rightarrow> Some (Inl MemoryFault)
              | Some span \<Rightarrow>
                  if n < 0 then
                    (if ssl_retry e then ssl_send_loop buf ks' len wire else Some (Inr (0, wire)))
                  else if n \<noteq> len then
                    (if ssl_retry e then ssl_send_loop buf ks' len (wire @ take (nat n) span)
                     else Some (Inr (0, wire @ take (nat n) span)))
                  else Some (Inr (n, wire @ take (nat n) span))))
      else Some (Inr (0, wire)))"

declare ssl_send_loop.simps [simp del]

definition ssl_send :: "bool \<Rightarrow> byte list \<Rightarrow> int \<Rightarrow> (int \<times> ssl_error) list \<Rightarrow> (int \<times> byte list) run" where
  "ssl_send open buf len ks = (if open then ssl_send_loop buf ks len [] else Some (Inr (0, [])))"

text \<open>
  \<open>BaseSocket::sendfile\<close>: \<open>::sendfile\<close> copies bytes of the file from the offset it is given
  and moves that offset. The first call, before the loop, already asks for the whole size.
\<close>

fun sendfile_loop ::
  "byte list \<Rightarrow> (int \<times> errno) list \<Rightarrow> nat \<Rightarrow> int \<Rightarrow> int \<Rightarrow> int \<Rightarrow> byte list \<Rightarrow> (int \<times> byte list) option" where
  "sendfile_loop file ks offset sendBytes totalSent len wire =
     (if totalSent < len then
        (case ks of
           [] \<Rightarrow> None
         | (n, e) # ks' \<Rightarrow>
             (let wire' = wire @ slice_of offset (nat n) file; offset' = offset + nat n in
              if n < 0 then
                (if e = EAGAIN then sendfile_loop file ks' offset sendBytes totalSent len wire
                 else Some (totalSent, wire))
              else if n \<noteq> len then
                (if send_transient e
                 then sendfile_loop file ks' offset' sendBytes (totalSent + n) (len - n) wire'
                 else Some (totalSent, wire'))
              else sendfile_loop file ks' offset' sendBytes (totalSent + n) len wire'))
      else Some (sendBytes, wire))"

declare sendfile_loop.simps [simp del]

definition base_sendfile :: "byte list \<Rightarrow> int \<Rightarrow> (int \<times> errno) list \<Rightarrow> (int \<times> byte list) option" where
  "base_sendfile file len ks =
     (case ks of
        [] \<Rightarrow> None
      | (n, e) # ks' \<Rightarrow>
          if n = - 1 then Some (0, [])
          else sendfile_loop file ks' (nat n) n 0 len (slice_of 0 (nat n) file))"

section \<open>What sending promises\<close>

text \<open>The documented contract of \<open>::send\<close>: it never takes more than it is offered.\<close>

fun sends_within :: "(int \<times> errno) list \<Rightarrow> int \<Rightarrow> bool" where
  "sends_within [] len \<longleftrightarrow> True"
| "sends_within ((n, e) # ks) len \<longleftrightarrow> n \<le> len \<and> sends_within ks (if n < 0 then len else len - n)"

lemma take_slice_of: "m \<le> n \<Longrightarrow> take m (slice_of off n xs) = slice_of off m xs"
  by (simp add: slice_of_def min_absorb1)

lemma take_append_slice: "take k xs @ slice_of k n xs = take (k + n) xs"
  by (simp add: slice_of_def take_add)

lemma send_loop_prefix:
  assumes "sends_within ks len" "0 \<le> totalSent" "0 \<le> len" "wire = take (nat totalSent) buf"
    and "totalSent < len \<Longrightarrow> totalSent + len \<le> int (length buf)" "totalSent \<le> int (length buf)"
    and "send_loop buf ks totalSent len wire = Some r"
  shows "\<exists>ret sent. r = Inr (ret, sent) \<and> sent = take (length sent) buf \<and> 0 \<le> ret \<and> ret \<le> int (length sent)"
  using assms
proof (induction ks arbitrary: totalSent len wire)
  case Nil
  then show ?case by (auto simp: send_loop.simps split: if_splits)
next
  case (Cons k ks)
  obtain n e where k: "k = (n, e)" by force
  show ?case
  proof (cases "totalSent < len")
    case False
    with Cons.prems show ?thesis by (auto simp: send_loop.simps)
  next
    case more: True
    with Cons.prems(3,4,6) have span: "mem_read buf (nat totalSent) (nat len) = Some (slice_of (nat totalSent) (nat len) buf)"
      using Cons.prems(2,5) by (simp add: mem_read_def)
    show ?thesis
    proof (cases "n < 0")
      case True
      show ?thesis
      proof (cases "e = EAGAIN")
        case True
        with Cons.prems \<open>n < 0\<close> k more span show ?thesis
          by (intro Cons.IH [of len totalSent wire]) (auto simp: send_loop.simps [of _ "_ # _"])
      next
        case False
        with Cons.prems \<open>n < 0\<close> k more span show ?thesis
          by (auto simp: send_loop.simps [of _ "_ # _"] min_def)
      qed
    next
      case False
      let ?wire = "take (nat (totalSent + n)) buf"
      from Cons.prems(1) k have n: "n \<le> len" by simp
      have wire: "wire @ take (nat n) (slice_of (nat totalSent) (nat len) buf) = ?wire"
        using n False Cons.prems(2,4) by (simp add: take_slice_of take_append_slice nat_add_distrib)
      have len: "length ?wire = nat (totalSent + n)"
        using n Cons.prems(2,5) False more by simp
      consider (full) "n = len" | (short) "n \<noteq> len" "send_transient e" | (stop) "n \<noteq> len" "\<not> send_transient e"
        by blast
      then show ?thesis
      proof cases
        case full
        with Cons.prems k more span wire False have "send_loop buf ks (totalSent + n) len ?wire = Some r"
          by (simp add: send_loop.simps [of _ "_ # _"])
        moreover have "\<not> totalSent + n < len" using full Cons.prems(2) by simp
        ultimately have "r = Inr (totalSent + n, ?wire)" by (simp add: send_loop.simps)
        with len Cons.prems(2) False show ?thesis by auto
      next
        case short
        with Cons.prems k more span wire False have "send_loop buf ks (totalSent + n) (len - n) ?wire = Some r"
          by (simp add: send_loop.simps [of _ "_ # _"])
        with short Cons.prems(1,2,5) k more False n show ?thesis
          by (intro Cons.IH [of "len - n" "totalSent + n" ?wire]) auto
      next
        case stop
        with Cons.prems k more span wire False have "r = Inr (totalSent, ?wire)"
          by (simp add: send_loop.simps [of _ "_ # _"])
        with len Cons.prems(2) False show ?thesis by auto
      qed
    qed
  qed
qed

text \<open>
  C27. \<open>BaseSocket::send\<close> puts a prefix of the caller's buffer on the wire, in order and
  without repeating a byte, whatever the kernel answers: it never passes memory outside the
  buffer to the kernel, and never reports more bytes than it sent.
\<close>

theorem send_prefix:
  assumes "sends_within ks len" "0 \<le> len" "len \<le> int (length buf)"
    and "base_send fd buf len ks = Some r"
  shows "\<exists>ret sent. r = Inr (ret, sent) \<and> sent = take (length sent) buf \<and> 0 \<le> ret \<and> ret \<le> int (length sent)"
proof (cases "fd = NULL_FD")
  case True
  with assms(4) show ?thesis by (auto simp: base_send_def)
next
  case False
  with assms show ?thesis
    by (intro send_loop_prefix [of ks len 0 "[]"]) (auto simp: base_send_def)
qed

theorem send_prefix_witness:
  "sends_within [(-1, EAGAIN), (1, EAGAIN), (2, EINTR)] 3
   \<and> base_send 5 [7, 8, 9] 3 [(-1, EAGAIN), (1, EAGAIN), (2, EINTR)] = Some (Inr (3, [7, 8, 9]))
   \<and> (\<exists>ret sent. Inr (3, [7, 8, 9]) = (Inr (ret, sent) :: fault + int \<times> byte list)
        \<and> sent = take (length sent) [7, 8, 9] \<and> 0 \<le> ret \<and> ret \<le> int (length sent))"
proof -
  let ?ks = "[(-1, EAGAIN), (1, EAGAIN), (2, EINTR)]"
  have within: "sends_within ?ks 3" by simp
  have run: "base_send 5 [7, 8, 9] 3 ?ks = Some (Inr (3, [7, 8, 9]))"
    by (simp add: base_send_def send_loop.simps mem_read_def slice_of_def send_transient_def)
  show ?thesis
    using send_prefix [OF within _ _ run] within run by simp
qed

text \<open>
  A short write loses data: once the kernel takes at least half of the buffer and fewer
  than all of its bytes, \<open>send\<close> stops, because it compares what was sent with what is left. It
  reports the short count for a transient \<open>errno\<close>, and 0 bytes for any other value that an
  earlier call left in \<open>errno\<close>, which a successful \<open>::send\<close> does not set.
\<close>

theorem send_short_write:
  assumes "fd \<noteq> NULL_FD" "len \<le> int (length buf)" "0 < n" "n < len" "len \<le> 2 * n"
  shows "base_send fd buf len ((n, e) # ks) =
           Some (Inr (if send_transient e then n else 0, take (nat n) buf))"
proof -
  have span: "mem_read buf 0 (nat len) = Some (take (nat len) buf)"
    using assms by (simp add: mem_read_def slice_of_def)
  have "send_loop buf ks n (len - n) (take (nat n) buf) = Some (Inr (n, take (nat n) buf))"
    using assms by (subst send_loop.simps) simp
  with assms span show ?thesis
    by (simp add: base_send_def send_loop.simps [of _ "_ # _"] min_absorb1)
qed

theorem send_short_write_witness:
  "base_send 5 [1, 2, 3] 3 [(2, EAGAIN), (1, EAGAIN)] = Some (Inr (2, [1, 2]))"
  using send_short_write [of 5 3 "[1, 2, 3]" 2 EAGAIN "[(1, EAGAIN)]"]
  by (simp add: send_transient_def)

lemma send_all:
  assumes "fd \<noteq> NULL_FD" "0 < len" "len \<le> int (length buf)"
  shows "base_send fd buf len (replicate k (-1, EAGAIN) @ (len, e) # ks) =
           Some (Inr (len, take (nat len) buf))"
proof -
  have span: "mem_read buf 0 (nat len) = Some (take (nat len) buf)"
    using assms by (simp add: mem_read_def slice_of_def)
  have "send_loop buf ks len len (take (nat len) buf) = Some (Inr (len, take (nat len) buf))"
    by (subst send_loop.simps) simp
  with assms span have "send_loop buf (replicate k (-1, EAGAIN) @ (len, e) # ks) 0 len [] =
      Some (Inr (len, take (nat len) buf))"
    by (induction k) (simp_all add: send_loop.simps [of _ "_ # _"])
  with assms show ?thesis by (simp add: base_send_def)
qed

text \<open>
  \<open>SSLSocket::send\<close> sends the buffer once and reports its size, if \<open>SSL_write\<close> keeps its
  documented default of writing all or nothing (partial writes are off): the calls that ask
  to be retried take no bytes.
\<close>

theorem ssl_send_all:
  assumes "0 < len" "len \<le> int (length buf)"
    and "\<forall>(n, e) \<in> set retries. n < 0 \<and> ssl_retry e"
  shows "ssl_send True buf len (retries @ (len, e) # ks) = Some (Inr (len, take (nat len) buf))"
proof -
  have span: "mem_read buf 0 (nat len) = Some (take (nat len) buf)"
    using assms by (simp add: mem_read_def slice_of_def)
  have "ssl_send_loop buf (retries @ (len, e) # ks) len [] = Some (Inr (len, take (nat len) buf))"
    using assms(3)
  proof (induction retries)
    case Nil
    with assms span show ?case by (simp add: ssl_send_loop.simps [of _ "_ # _"])
  next
    case (Cons a retries)
    with assms span show ?case by (auto simp: ssl_send_loop.simps [of _ "_ # _"])
  qed
  then show ?thesis by (simp add: ssl_send_def)
qed

theorem ssl_send_all_witness:
  "ssl_send True [1, 2] 2 [(-1, SSL_ERROR_WANT_WRITE), (2, SSL_ERROR_OTHER)] = Some (Inr (2, [1, 2]))"
  using ssl_send_all [of 2 "[1, 2]" "[(-1, SSL_ERROR_WANT_WRITE)]" SSL_ERROR_OTHER "[]"]
  by (simp add: ssl_retry_def)

text \<open>
  \<open>sendfile\<close> sends the file twice: when the kernel copies all it is asked for, \<open>2 * size\<close>
  bytes of the file go out and \<open>size\<close> is reported; and when the file holds just \<open>size\<close> bytes,
  the call after the one that sent them all copies nothing, and 0 is reported unless \<open>errno\<close>
  happens to hold a transient error, in which case the loop asks again.
\<close>

theorem sendfile_sends_twice:
  assumes "0 < len"
  shows "base_sendfile file len ((len, e) # (len, e') # ks) = Some (len, take (2 * nat len) file)
    \<and> (\<not> send_transient e' \<longrightarrow>
         base_sendfile file len ((len, e) # (0, e') # ks) = Some (0, take (nat len) file))"
proof
  have wire: "slice_of 0 (nat len) file @ slice_of (nat len) (nat len) file = take (2 * nat len) file"
    using take_append_slice [of "nat len" "file" "nat len"] by (simp add: slice_of_def mult_2)
  have "sendfile_loop file ks (nat len + nat len) len len len (take (2 * nat len) file)
      = Some (len, take (2 * nat len) file)"
    by (subst sendfile_loop.simps) simp
  with assms wire show "base_sendfile file len ((len, e) # (len, e') # ks) =
           Some (len, take (2 * nat len) file)"
    by (simp add: base_sendfile_def sendfile_loop.simps [of _ "_ # _"] Let_def)
  show "\<not> send_transient e' \<longrightarrow>
      base_sendfile file len ((len, e) # (0, e') # ks) = Some (0, take (nat len) file)"
    using assms
    by (simp add: base_sendfile_def sendfile_loop.simps [of _ "_ # _"] Let_def slice_of_def)
qed

theorem sendfile_sends_twice_witness:
  "base_sendfile [1, 2, 3, 4] 2 [(2, EINTR), (2, EINTR)] = Some (2, [1, 2, 3, 4])
   \<and> base_sendfile [1, 2] 2 [(2, EINTR), (0, EOther 0)] = Some (0, [1, 2])"
  using sendfile_sends_twice [of 2 "[1, 2, 3, 4]" EINTR EINTR "[]"]
    sendfile_sends_twice [of 2 "[1, 2]" EINTR "EOther 0" "[]"]
  by (simp add: send_transient_def)

lemma nonblocking_roundtrip:
  "got \<noteq> - 1 \<Longrightarrow> got AND O_NONBLOCK = 0 \<Longrightarrow> snd (setToNonBlocking got setfl) = Some flags \<Longrightarrow> flags \<noteq> - 1 \<Longrightarrow>
     snd (setBlocking flags setfl') = Some got"
  by (auto simp: setToNonBlocking_def setBlocking_def setFDFlags_def removeFDFlags_def
      bit_eq_iff bit_simps split: if_splits)

lemma fd_close_idempotent: "fd_close 0 (snd (fd_close 0 fd)) = (0, NULL_FD)"
  by (simp add: fd_close_def)

end
