(* ===== verification/Lu_Receive.thy ===== *)
theory Lu_Receive
  imports Lu_Base_Socket
begin

text \<open>
  The receive loop that \<open>DataSocket\<close>, \<open>DataSocketV\<close>, \<open>WebSocket\<close>, \<open>HBDataSocket\<close>,
  \<open>HBSocketClient\<close> and \<open>EventChannel\<close> each spell out: read until the kernel has no more bytes,
  hand every read to the messages' reader, and make room in the buffer again. The part they
  share is here, with its contract as a locale; each socket instantiates it in its own
  theory.
\<close>

section \<open>The loop\<close>

fun receive ::
  "('r \<Rightarrow> fault + bool \<times> byte list) \<Rightarrow> (byte list \<Rightarrow> 's \<Rightarrow> ('s \<times> 'e list) run) \<Rightarrow>
     'r list \<Rightarrow> 's \<Rightarrow> (bool \<times> 's \<times> 'e list) run" where
  "receive read on_bytes [] s = None"
| "receive read on_bytes (r # rs) s =
     (case read r of
        Inl f \<Rightarrow> Some (Inl f)
      | Inr (alive, bs) \<Rightarrow>
          if \<not> alive then Some (Inr (False, s, []))
          else if bs = [] then Some (Inr (True, s, []))
          else case on_bytes bs s of
            None \<Rightarrow> None
          | Some (Inl f) \<Rightarrow> Some (Inl f)
          | Some (Inr (s', es)) \<Rightarrow>
              (case receive read on_bytes rs s' of
                 None \<Rightarrow> None
               | Some (Inl f) \<Rightarrow> Some (Inl f)
               | Some (Inr (b, s'', es')) \<Rightarrow> Some (Inr (b, s'', es @ es'))))"

text \<open>The kernel returns no more bytes than the call that reads has room for.\<close>

fun reads_within ::
  "('r \<Rightarrow> fault + bool \<times> byte list) \<Rightarrow> (byte list \<Rightarrow> 's \<Rightarrow> ('s \<times> 'e list) run) \<Rightarrow> ('s \<Rightarrow> nat) \<Rightarrow>
     'r list \<Rightarrow> 's \<Rightarrow> bool" where
  "reads_within read on_bytes room [] s \<longleftrightarrow> True"
| "reads_within read on_bytes room (r # rs) s \<longleftrightarrow>
     (case read r of
        Inr (True, bs) \<Rightarrow>
          length bs \<le> room s \<and>
          (if bs = [] then True else case on_bytes bs s of Some (Inr (s', es)) \<Rightarrow> reads_within read on_bytes room rs s' | _ \<Rightarrow> True)
      | _ \<Rightarrow> True)"

text \<open>
  The event handler around the loop, the same in all sockets: \<open>EPOLLHUP\<close> and \<open>EPOLLERR\<close> close
  the connection, \<open>EPOLLIN\<close> receives, and a connection that ended while receiving is closed.
  The first value is whether the handler stays in the event loop.
\<close>

definition EPOLLIN :: "32 word" where
  "EPOLLIN = 1"

definition EPOLLERR :: "32 word" where
  "EPOLLERR = 8"

definition EPOLLHUP :: "32 word" where
  "EPOLLHUP = 16"

definition onEvent ::
  "('r list \<Rightarrow> 's \<Rightarrow> (bool \<times> 's \<times> 'e list) run) \<Rightarrow> 'e \<Rightarrow> 32 word \<Rightarrow> 'r list \<Rightarrow> 's \<Rightarrow> (bool \<times> 's \<times> 'e list) run" where
  "onEvent Receive onClientClose events rs s =
     (if events AND EPOLLHUP \<noteq> 0 \<or> events AND EPOLLERR \<noteq> 0 then Some (Inr (False, s, [onClientClose]))
      else if events AND EPOLLIN = 0 then Some (Inr (True, s, []))
      else case Receive rs s of
        Some (Inr (False, s', es)) \<Rightarrow> Some (Inr (False, s', es @ [onClientClose]))
      | r \<Rightarrow> r)"

section \<open>The buffer behind the loop\<close>

record recv_buffer =
  rb_bytes :: "byte list"
  rb_readOffset :: nat
  rb_leftToRead :: nat
  rb_leftToRecv :: nat

definition rb_new :: "nat \<Rightarrow> recv_buffer" where
  "rb_new n = \<lparr>rb_bytes = replicate n 0, rb_readOffset = 0, rb_leftToRead = 0, rb_leftToRecv = n\<rparr>"

text \<open>The kernel writes the bytes at \<open>buffer + m_readOffset + m_numberOfBytesLeftToRead\<close>.\<close>

definition rb_fill :: "byte list \<Rightarrow> recv_buffer \<Rightarrow> recv_buffer option" where
  "rb_fill bs rb =
     (case mem_write (rb_bytes rb) (rb_readOffset rb + rb_leftToRead rb) bs of
        None \<Rightarrow> None
      | Some mem \<Rightarrow> Some (rb\<lparr>rb_bytes := mem, rb_leftToRead := rb_leftToRead rb + length bs\<rparr>))"

definition updateForDataRead :: "nat \<Rightarrow> recv_buffer \<Rightarrow> recv_buffer" where
  "updateForDataRead n rb =
     rb\<lparr>rb_readOffset := rb_readOffset rb + n, rb_leftToRead := rb_leftToRead rb - n\<rparr>"

text \<open>
  Making room: the source copies the rest to the front with \<open>memcpy\<close>, also where the two
  ranges overlap; here it has the value of the bytewise copy. Nothing happens when more
  than \<open>shift\<close> bytes are left, and then \<open>m_numberOfBytesLeftToRecv\<close> keeps its old value.
\<close>

definition rb_compact :: "nat \<Rightarrow> nat \<Rightarrow> recv_buffer \<Rightarrow> recv_buffer" where
  "rb_compact bufferSize shift rb =
     (if rb_leftToRead rb = 0 then rb\<lparr>rb_readOffset := 0, rb_leftToRecv := bufferSize\<rparr>
      else if rb_leftToRead rb \<le> shift then
        rb\<lparr>rb_bytes := overwrite (rb_bytes rb) 0 (slice_of (rb_readOffset rb) (rb_leftToRead rb) (rb_bytes rb)),
           rb_readOffset := 0, rb_leftToRecv := bufferSize - rb_leftToRead rb\<rparr>
      else rb)"

text \<open>The bytes received and not yet consumed, and the invariant of the window.\<close>

definition rb_pending :: "recv_buffer \<Rightarrow> byte list" where
  "rb_pending rb = slice_of (rb_readOffset rb) (rb_leftToRead rb) (rb_bytes rb)"

definition rb_ok :: "nat \<Rightarrow> recv_buffer \<Rightarrow> bool" where
  "rb_ok n rb \<longleftrightarrow> length (rb_bytes rb) = n
     \<and> rb_readOffset rb + rb_leftToRead rb + rb_leftToRecv rb \<le> n \<and> 0 < rb_leftToRecv rb"

lemma rb_ok_new: "0 < n \<Longrightarrow> rb_ok n (rb_new n)"
  by (simp add: rb_ok_def rb_new_def)

lemma rb_pending_new [simp]: "rb_pending (rb_new n) = []"
  by (simp add: rb_pending_def rb_new_def)

lemma slice_of_window_overwrite:
  "off + n + length bs \<le> length xs \<Longrightarrow>
     slice_of off (n + length bs) (overwrite xs (off + n) bs) = slice_of off n xs @ bs"
  by (simp add: overwrite_def slice_of_def drop_take)

lemma rb_fill_ok:
  assumes "rb_ok n rb" "length bs \<le> rb_leftToRecv rb"
  obtains rb' where "rb_fill bs rb = Some rb'" "rb_pending rb' = rb_pending rb @ bs"
    "length (rb_bytes rb') = n" "rb_readOffset rb' = rb_readOffset rb"
    "rb_leftToRead rb' = rb_leftToRead rb + length bs" "rb_readOffset rb' + rb_leftToRead rb' \<le> n"
proof -
  have fits: "rb_readOffset rb + rb_leftToRead rb + length bs \<le> length (rb_bytes rb)"
    using assms by (simp add: rb_ok_def)
  show thesis
  proof (rule that)
    show "rb_fill bs rb = Some (rb\<lparr>rb_bytes := overwrite (rb_bytes rb) (rb_readOffset rb + rb_leftToRead rb) bs,
        rb_leftToRead := rb_leftToRead rb + length bs\<rparr>)"
      using fits by (simp add: rb_fill_def mem_write_def)
  qed (use fits assms in \<open>auto simp: rb_pending_def slice_of_window_overwrite rb_ok_def\<close>)
qed

lemma rb_compact_ok:
  assumes "length (rb_bytes rb) = n" "rb_readOffset rb + rb_leftToRead rb \<le> n"
    and "rb_leftToRead rb \<le> shift" "shift < n"
  shows "rb_ok n (rb_compact n shift rb)" "rb_pending (rb_compact n shift rb) = rb_pending rb"
proof -
  have len: "length (slice_of (rb_readOffset rb) (rb_leftToRead rb) (rb_bytes rb)) = rb_leftToRead rb"
    using assms by simp
  have "slice_of 0 (rb_leftToRead rb) (overwrite (rb_bytes rb) 0 (slice_of (rb_readOffset rb) (rb_leftToRead rb) (rb_bytes rb)))
      = slice_of (rb_readOffset rb) (rb_leftToRead rb) (rb_bytes rb)"
    using slice_of_overwrite [of 0 "slice_of (rb_readOffset rb) (rb_leftToRead rb) (rb_bytes rb)" "rb_bytes rb"] assms len
    by simp
  then show "rb_pending (rb_compact n shift rb) = rb_pending rb"
    using assms by (simp add: rb_compact_def rb_pending_def)
  show "rb_ok n (rb_compact n shift rb)"
    using assms len by (simp add: rb_compact_def rb_ok_def)
qed

lemma rb_pending_shrink:
  assumes "rb_pending rb = p @ r" "rb_readOffset rb + rb_leftToRead rb \<le> length (rb_bytes rb)"
  shows "rb_pending (rb\<lparr>rb_readOffset := rb_readOffset rb + (rb_leftToRead rb - length r), rb_leftToRead := length r\<rparr>) = r"
proof -
  have left: "rb_leftToRead rb = length p + length r"
  proof -
    have "length (rb_pending rb) = rb_leftToRead rb" using assms(2) by (simp add: rb_pending_def)
    with assms(1) show ?thesis by simp
  qed
  have "slice_of (rb_readOffset rb + length p) (length r) (rb_bytes rb) = drop (length p) (rb_pending rb)"
    using left by (simp add: rb_pending_def slice_of_def drop_take add.commute)
  then show ?thesis using left assms(1) by (simp add: rb_pending_def)
qed

section \<open>The contract\<close>

text \<open>
  A reader of messages: a state with the bytes it has not consumed, and the events that
  bytes stand for (\<open>parse\<close>, undefined on a stream that breaks the protocol). The laws are
  that parsing can be resumed, and that one read moves the state as parsing says and leaves
  room for more.
\<close>

locale message_reader =
  fixes read :: "'r \<Rightarrow> fault + bool \<times> byte list"
    and got :: "byte list \<Rightarrow> 'r"
    and nothing :: 'r
    and on_bytes :: "byte list \<Rightarrow> 's \<Rightarrow> ('s \<times> 'e list) run"
    and room :: "'s \<Rightarrow> nat"
    and ok :: "'s \<Rightarrow> bool"
    and pending :: "'s \<Rightarrow> byte list"
    and parse :: "byte list \<Rightarrow> ('e list \<times> byte list) option"
  assumes read_got: "read (got bs) = Inr (bs \<noteq> [], bs)"
    and read_nothing: "read nothing = Inr (True, [])"
    and parse_append:
      "parse a = Some (es, r) \<Longrightarrow>
         parse (a @ b) = map_option (\<lambda>(es', r'). (es @ es', r')) (parse (r @ b))"
    and parse_prefix: "parse (a @ b) \<noteq> None \<Longrightarrow> parse a \<noteq> None"
    and parse_pending: "ok s \<Longrightarrow> parse (pending s) = Some ([], pending s)"
    and on_bytes_ok:
      "ok s \<Longrightarrow> bs \<noteq> [] \<Longrightarrow> length bs \<le> room s \<Longrightarrow> parse (pending s @ bs) = Some (es, r) \<Longrightarrow>
         \<exists>s'. on_bytes bs s = Some (Inr (s', es)) \<and> ok s' \<and> pending s' = r \<and> 0 < room s'"
begin

abbreviation "burst chunks \<equiv> map got chunks @ [nothing]"

text \<open>However the kernel cuts the stream, the loop delivers what the whole stream stands for.\<close>

lemma receive_delivers:
  assumes "ok s" "[] \<notin> set chunks" "reads_within read on_bytes room (burst chunks) s"
    and "parse (pending s @ concat chunks) = Some (es, r)"
  shows "\<exists>s'. receive read on_bytes (burst chunks) s = Some (Inr (True, s', es)) \<and> ok s' \<and> pending s' = r"
  using assms
proof (induction chunks arbitrary: s es)
  case Nil
  then show ?case using parse_pending [OF Nil(1)] by (simp add: read_nothing)
next
  case (Cons c chunks)
  have "parse ((pending s @ c) @ concat chunks) \<noteq> None"
    using Cons.prems(4) by simp
  then have "parse (pending s @ c) \<noteq> None" by (rule parse_prefix)
  then obtain es1 r1 where one: "parse (pending s @ c) = Some (es1, r1)" by auto
  then obtain es2 where rest: "parse (r1 @ concat chunks) = Some (es2, r)" and es: "es = es1 @ es2"
    using parse_append [OF one, of "concat chunks"] Cons.prems(4) by auto
  from Cons.prems(2,3) have c: "c \<noteq> []" "length c \<le> room s" by (auto simp: read_got)
  from on_bytes_ok [OF Cons.prems(1) c one] obtain s1 where
    s1: "on_bytes c s = Some (Inr (s1, es1))" "ok s1" "pending s1 = r1" by blast
  with Cons.prems(3) c(1) have "reads_within read on_bytes room (burst chunks) s1"
    by (simp add: read_got)
  from Cons.IH [OF s1(2) _ this] Cons.prems(2) rest s1(3) obtain s2 where
    "receive read on_bytes (burst chunks) s1 = Some (Inr (True, s2, es2))" "ok s2" "pending s2 = r"
    by auto
  with s1(1) c(1) es show ?case by (simp add: read_got)
qed

text \<open>Reads of bounded size fit whenever every state has that much room.\<close>

lemma reads_within_bounded:
  assumes "\<And>s. ok s \<Longrightarrow> k \<le> room s" "ok s" "\<forall>c \<in> set chunks. c \<noteq> [] \<and> length c \<le> k"
    and "parse (pending s @ concat chunks) \<noteq> None"
  shows "reads_within read on_bytes room (burst chunks) s"
  using assms(2-)
proof (induction chunks arbitrary: s)
  case Nil
  then show ?case by (simp add: read_nothing)
next
  case (Cons c chunks)
  have "parse ((pending s @ c) @ concat chunks) \<noteq> None"
    using Cons.prems(3) by simp
  moreover from this have "parse (pending s @ c) \<noteq> None" by (rule parse_prefix)
  ultimately obtain es r where one: "parse (pending s @ c) = Some (es, r)" and rest: "parse (r @ concat chunks) \<noteq> None"
    using parse_append [of "pending s @ c" _ _ "concat chunks"] by fastforce
  have fits: "length c \<le> room s" using Cons.prems(1,2) assms(1) [of s] by auto
  with on_bytes_ok [OF Cons.prems(1) _ _ one] Cons.prems(2) obtain s1 where
    "on_bytes c s = Some (Inr (s1, es))" "ok s1" "pending s1 = r" by auto
  with Cons.IH [of s1] Cons.prems(2) rest fits show ?case by (simp add: read_got)
qed

end

end
