(* ===== verification/Lu_Data_Handler.thy ===== *)
theory Lu_Data_Handler
  imports Lu_Receive
begin

text \<open>
  The data handlers \<open>String\<close> (one buffer) and \<open>StringV\<close> (two buffers read with \<open>readv\<close>), the
  messages they read, and the loop \<open>readMessages\<close> of the sockets that use them, with the
  handler's operations as arguments as they are a template parameter there. The interface of
  a handler is a locale; both handlers are instances of it.
\<close>

section \<open>Messages\<close>

abbreviation "HEADER_SIZE \<equiv> (4::nat)"
abbreviation "DATA_SIZE \<equiv> (64::nat)"
abbreviation "MESSAGE_SIZE \<equiv> (68::nat)"

text \<open>
  \<open>strncpy(dest, src, n)\<close> copies the characters before the first NUL and fills up to \<open>n\<close> with zeros.
\<close>

definition strncpy :: "byte list \<Rightarrow> byte list \<Rightarrow> nat \<Rightarrow> byte list option" where
  "strncpy dest src n =
     (let s = takeWhile (\<lambda>b. b \<noteq> 0) (take n src) in mem_write dest 0 (s @ replicate (n - length s) 0))"

text \<open>
  \<open>Message(data)\<close>: the header with \<open>sizeof(Message)\<close>, the characters, and the terminating zero
  written at index \<open>data.length()\<close>, both without a check.
\<close>

definition Message :: "byte list \<Rightarrow> byte list option" where
  "Message data =
     do { body \<leftarrow> strncpy (replicate DATA_SIZE 0) data (length data);
          body' \<leftarrow> mem_write body (length data) [0];
          Some (le_bytes HEADER_SIZE MESSAGE_SIZE @ body') }"

definition getString :: "byte list \<Rightarrow> byte list" where
  "getString m = takeWhile (\<lambda>b. b \<noteq> 0) (drop HEADER_SIZE m)"

section \<open>String\<close>

abbreviation "BUFFER_SIZE \<equiv> (1000::nat)"

definition str_readHeader :: "byte list \<Rightarrow> nat \<Rightarrow> nat option" where
  "str_readHeader buf off = map_option le_nat (mem_read buf off HEADER_SIZE)"

definition str_readMessage :: "byte list \<Rightarrow> nat \<Rightarrow> nat \<Rightarrow> byte list option" where
  "str_readMessage buf off n =
     do { src \<leftarrow> mem_read buf off n; mem_write (replicate MESSAGE_SIZE 0) 0 src }"

section \<open>StringV\<close>

record stringv =
  m_buffer1 :: "byte list"
  m_buffer2 :: "byte list"

definition StringV :: stringv where
  "StringV = \<lparr>m_buffer1 = replicate BUFFER_SIZE 0, m_buffer2 = replicate BUFFER_SIZE 0\<rparr>"

definition strv_readHeader :: "stringv \<Rightarrow> nat \<Rightarrow> nat option" where
  "strv_readHeader h off =
     (if off < BUFFER_SIZE \<and> off + HEADER_SIZE \<ge> BUFFER_SIZE then
        do { a \<leftarrow> mem_read (m_buffer1 h) off (BUFFER_SIZE - off);
             b \<leftarrow> mem_read (m_buffer2 h) 0 (HEADER_SIZE - (BUFFER_SIZE - off));
             Some (le_nat (a @ b)) }
      else if off < BUFFER_SIZE then map_option le_nat (mem_read (m_buffer1 h) off HEADER_SIZE)
      else map_option le_nat (mem_read (m_buffer2 h) (off - BUFFER_SIZE) HEADER_SIZE))"

definition strv_readMessage :: "stringv \<Rightarrow> nat \<Rightarrow> nat \<Rightarrow> byte list option" where
  "strv_readMessage h off n =
     (let newMessage = replicate MESSAGE_SIZE 0 in
      if off < BUFFER_SIZE \<and> off + n \<ge> BUFFER_SIZE then
        do { a \<leftarrow> mem_read (m_buffer1 h) off (BUFFER_SIZE - off);
             newMessage \<leftarrow> mem_write newMessage 0 a;
             b \<leftarrow> mem_read (m_buffer2 h) 0 (n - (BUFFER_SIZE - off));
             mem_write newMessage (BUFFER_SIZE - off) b }
      else if off < BUFFER_SIZE then
        do { src \<leftarrow> mem_read (m_buffer1 h) off n; mem_write newMessage 0 src }
      else do { src \<leftarrow> mem_read (m_buffer2 h) (off - BUFFER_SIZE) n; mem_write newMessage 0 src })"

text \<open>
  \<open>getNumberOfBuffers\<close> prepares the two entries of the \<open>iovec\<close>: the offset and length in each
  buffer. A length that would be negative wraps around as \<open>size_t\<close> does.
\<close>

definition getNumberOfBuffers :: "nat \<Rightarrow> (nat \<times> nat) \<times> (nat \<times> nat)" where
  "getNumberOfBuffers writeableOffset =
     (if writeableOffset < BUFFER_SIZE
      then ((writeableOffset, BUFFER_SIZE - writeableOffset), (0, BUFFER_SIZE))
      else ((0, 0), (writeableOffset - BUFFER_SIZE,
              (BUFFER_SIZE + 2 ^ 64 - (writeableOffset - BUFFER_SIZE)) mod 2 ^ 64)))"

definition strv_swap :: "stringv \<Rightarrow> stringv" where
  "strv_swap h = \<lparr>m_buffer1 = m_buffer2 h, m_buffer2 = m_buffer1 h\<rparr>"

text \<open>\<open>readv\<close> fills the first entry before the second.\<close>

definition readv_fill :: "(nat \<times> nat) \<times> (nat \<times> nat) \<Rightarrow> byte list \<Rightarrow> stringv \<Rightarrow> stringv option" where
  "readv_fill iov bs h =
     (let ((off1, len1), (off2, len2)) = iov in
      do { b1 \<leftarrow> mem_write (m_buffer1 h) off1 (take len1 bs);
           b2 \<leftarrow> mem_write (m_buffer2 h) off2 (drop len1 bs);
           Some \<lparr>m_buffer1 = b1, m_buffer2 = b2\<rparr> })"

section \<open>The loop over messages\<close>

datatype data_event = OnData "byte list" | StopSocket

partial_function (option) readMessages ::
  "('h \<Rightarrow> nat \<Rightarrow> nat option) \<Rightarrow> ('h \<Rightarrow> nat \<Rightarrow> nat \<Rightarrow> byte list option) \<Rightarrow> nat \<Rightarrow> 'h \<Rightarrow> nat \<Rightarrow> nat \<Rightarrow>
     (nat \<times> nat \<times> data_event list) run" where
  "readMessages readHeader readMessage headerSize h off left =
     (if headerSize \<le> left then
        (case readHeader h off of
           None \<Rightarrow> Some (Inl MemoryFault)
         | Some expectedMsgSize \<Rightarrow>
             if expectedMsgSize \<le> left then
               (case readMessage h off expectedMsgSize of
                  None \<Rightarrow> Some (Inl MemoryFault)
                | Some m \<Rightarrow>
                    Option.bind
                      (readMessages readHeader readMessage headerSize h (off + expectedMsgSize) (left - expectedMsgSize))
                      (\<lambda>res. Some (case res of
                          Inl f \<Rightarrow> Inl f
                        | Inr (off', left', es) \<Rightarrow>
                            Inr (off', left', (if expectedMsgSize = 0 then [StopSocket] else []) @ OnData m # es))))
             else Some (Inr (off, left, [])))
      else Some (Inr (off, left, [])))"

text \<open>A message of size 0 is delivered again and again: the loop never returns.\<close>

lemma readMessages_zero:
  assumes "headerSize \<le> left" "readHeader h off = Some 0" "readMessage h off 0 \<noteq> None"
  shows "readMessages readHeader readMessage headerSize h off left = None"
proof -
  have "\<not> (headerSize \<le> left \<and> readHeader h off = Some 0 \<and> readMessage h off 0 \<noteq> None)"
    if "readMessages readHeader readMessage headerSize h off left = Some y" for y
    by (rule readMessages.raw_induct [where P = "\<lambda>readHeader readMessage headerSize h off left _.
          \<not> (headerSize \<le> left \<and> readHeader h off = Some 0 \<and> readMessage h off 0 \<noteq> None)", OF _ that])
      (auto simp: bind_eq_Some_conv split: option.splits, fastforce)
  with assms show ?thesis by fastforce
qed

section \<open>What a stream of messages stands for\<close>

text \<open>
  The reference: the messages of a stream in order, each as the \<open>Message\<close> object it is copied
  into, and the rest that is not a whole message yet. A size the object cannot hold, and
  size 0, break the protocol.
\<close>

definition as_message :: "byte list \<Rightarrow> byte list" where
  "as_message bs = bs @ replicate (MESSAGE_SIZE - length bs) 0"

function split_msgs :: "byte list \<Rightarrow> (data_event list \<times> byte list) option" where
  "split_msgs bs =
     (if length bs < HEADER_SIZE then Some ([], bs)
      else let n = le_nat (take HEADER_SIZE bs) in
        if n = 0 \<or> MESSAGE_SIZE < n then None
        else if length bs < n then Some ([], bs)
        else map_option (\<lambda>(es, r). (OnData (as_message (take n bs)) # es, r)) (split_msgs (drop n bs)))"
  by auto
termination
  by (relation "measure length") auto

declare split_msgs.simps [simp del]

lemma split_msgs_short: "length bs < HEADER_SIZE \<Longrightarrow> split_msgs bs = Some ([], bs)"
  by (simp add: split_msgs.simps)

lemma split_msgs_rest:
  "split_msgs bs = Some (es, r) \<Longrightarrow> length r < MESSAGE_SIZE \<and> split_msgs r = Some ([], r) \<and>
     (\<exists>p. bs = p @ r)"
proof (induction bs arbitrary: es rule: split_msgs.induct)
  case (1 bs)
  show ?case
  proof (cases "length bs < HEADER_SIZE")
    case True
    with "1.prems" show ?thesis by (auto simp: split_msgs.simps)
  next
    case False
    define n where "n = le_nat (take HEADER_SIZE bs)"
    from "1.prems" False have ok: "\<not> (n = 0 \<or> MESSAGE_SIZE < n)"
      by (auto simp: split_msgs.simps [of bs] n_def Let_def split: if_splits)
    show ?thesis
    proof (cases "length bs < n")
      case True
      with "1.prems" False ok have "r = bs" "es = []"
        by (auto simp: split_msgs.simps [of bs] n_def [symmetric] Let_def)
      with "1.prems" True ok show ?thesis by auto
    next
      case more: False
      with "1.prems" False ok obtain es' where "split_msgs (drop n bs) = Some (es', r)"
        by (auto simp: split_msgs.simps [of bs] n_def [symmetric] Let_def)
      from "1.IH" [OF False n_def ok more this] obtain p where
        "length r < MESSAGE_SIZE" "split_msgs r = Some ([], r)" "drop n bs = p @ r" by blast
      moreover from this(3) have "bs = (take n bs @ p) @ r"
        by (metis append.assoc append_take_drop_id)
      ultimately show ?thesis by blast
    qed
  qed
qed

lemma take_append_ge: "k \<le> length a \<Longrightarrow> take k (a @ b) = take k a"
  by simp

lemma split_msgs_append:
  "split_msgs a = Some (es, r) \<Longrightarrow>
     split_msgs (a @ b) = map_option (\<lambda>(es', r'). (es @ es', r')) (split_msgs (r @ b))"
proof (induction a arbitrary: es rule: split_msgs.induct)
  case (1 a)
  show ?case
  proof (cases "length a < HEADER_SIZE")
    case True
    with "1.prems" show ?thesis by (auto simp: split_msgs.simps [of a] option.map_ident)
  next
    case False
    define n where "n = le_nat (take HEADER_SIZE a)"
    from "1.prems" False have ok: "\<not> (n = 0 \<or> MESSAGE_SIZE < n)"
      by (auto simp: split_msgs.simps [of a] n_def Let_def split: if_splits)
    show ?thesis
    proof (cases "length a < n")
      case True
      with "1.prems" False ok show ?thesis
        by (auto simp: split_msgs.simps [of a] n_def [symmetric] Let_def option.map_ident)
    next
      case more: False
      with "1.prems" False ok obtain es' where
        rec: "split_msgs (drop n a) = Some (es', r)" and es: "es = OnData (as_message (take n a)) # es'"
        by (auto simp: split_msgs.simps [of a] n_def [symmetric] Let_def)
      from "1.IH" [OF False n_def ok more rec]
      have "split_msgs (drop n a @ b) = map_option (\<lambda>(es'', r'). (es' @ es'', r')) (split_msgs (r @ b))" .
      moreover have "le_nat (take HEADER_SIZE (a @ b)) = n"
        using False by (simp add: n_def take_append_ge)
      ultimately show ?thesis
        using False ok more es
        by (simp add: split_msgs.simps [of "a @ b"] Let_def option.map_comp comp_def case_prod_beta)
    qed
  qed
qed

lemma split_msgs_prefix: "split_msgs (a @ b) \<noteq> None \<Longrightarrow> split_msgs a \<noteq> None"
proof (induction a rule: split_msgs.induct)
  case (1 a)
  show ?case
  proof (cases "length a < HEADER_SIZE")
    case True
    then show ?thesis by (simp add: split_msgs_short)
  next
    case False
    define n where "n = le_nat (take HEADER_SIZE a)"
    have head: "le_nat (take HEADER_SIZE (a @ b)) = n"
      using False by (simp add: n_def take_append_ge)
    with "1.prems" False have ok: "\<not> (n = 0 \<or> MESSAGE_SIZE < n)"
      by (auto simp: split_msgs.simps [of "a @ b"] Let_def split: if_splits)
    show ?thesis
    proof (cases "length a < n")
      case True
      with False ok show ?thesis by (simp add: split_msgs.simps [of a] n_def [symmetric] Let_def)
    next
      case more: False
      with "1.prems" False ok head have "split_msgs (drop n a @ b) \<noteq> None"
        by (auto simp: split_msgs.simps [of "a @ b"] Let_def split: if_splits)
      from "1.IH" [OF False n_def ok more this] False ok more show ?thesis
        by (simp add: split_msgs.simps [of a] n_def [symmetric] Let_def)
    qed
  qed
qed

text \<open>The messages the library's own clients send. A text ends at its first NUL.\<close>

abbreviation "text_of data \<equiv> takeWhile (\<lambda>b. b \<noteq> (0 :: byte)) data"

lemma overwrite_zero: "i < length xs \<Longrightarrow> xs ! i = z \<Longrightarrow> overwrite xs i [z] = xs"
  using id_take_nth_drop [of i xs] by (simp add: overwrite_def)

lemma Message_Some:
  "length data < DATA_SIZE \<Longrightarrow>
     Message data = Some (le_bytes HEADER_SIZE MESSAGE_SIZE @ text_of data
       @ replicate (DATA_SIZE - length (text_of data)) 0)"
proof -
  assume short: "length data < DATA_SIZE"
  let ?s = "text_of data"
  have le: "length ?s \<le> length data" by (rule length_takeWhile_le)
  have b: "strncpy (replicate DATA_SIZE 0) data (length data)
      = Some (?s @ replicate (DATA_SIZE - length ?s) 0)"
    using short le by (simp add: strncpy_def Let_def mem_write_def overwrite_def flip: replicate_add)
  have "(?s @ replicate (DATA_SIZE - length ?s) (0 :: byte)) ! length data = 0"
    using short le by (simp add: nth_append)
  then have "mem_write (?s @ replicate (DATA_SIZE - length ?s) 0) (length data) [0]
      = Some (?s @ replicate (DATA_SIZE - length ?s) 0)"
    using short le by (simp add: mem_write_def overwrite_zero)
  with b show ?thesis by (simp add: Message_def)
qed

lemma length_message_text: "length data < DATA_SIZE \<Longrightarrow> length (text_of data) \<le> DATA_SIZE"
  by (rule order_trans [OF length_takeWhile_le]) simp

lemma Message_None: "DATA_SIZE \<le> length data \<Longrightarrow> Message data = None"
  by (auto simp: Message_def strncpy_def Let_def mem_write_def overwrite_def split: option.splits bind_splits)

lemma getString_Message: "Message data = Some m \<Longrightarrow> getString m = text_of data"
proof -
  assume m: "Message data = Some m"
  then have "length data < DATA_SIZE" by (metis Message_None not_le_imp_less option.simps(3))
  with m show ?thesis
    by (auto simp: Message_Some getString_def takeWhile_append takeWhile_replicate dest: set_takeWhileD)
qed

lemma length_Message: "Message data = Some m \<Longrightarrow> length m = MESSAGE_SIZE"
  using Message_Some [of data] Message_None [of data] length_message_text [of data]
  by (cases "length data < DATA_SIZE") auto

lemma Message_header: "Message data = Some m \<Longrightarrow> le_nat (take HEADER_SIZE m) = MESSAGE_SIZE"
  using Message_Some [of data] Message_None [of data]
  by (cases "length data < DATA_SIZE") (auto simp: le_nat_le_bytes)

lemma split_msgs_Messages:
  "list_all2 (\<lambda>data m. Message data = Some m) texts ms \<Longrightarrow> split_msgs (concat ms) = Some (map OnData ms, [])"
proof (induction rule: list_all2_induct)
  case Nil
  then show ?case by (simp add: split_msgs.simps)
next
  case (Cons data texts m ms)
  have "length m = MESSAGE_SIZE" "le_nat (take HEADER_SIZE m) = MESSAGE_SIZE"
    using Cons.hyps(1) length_Message Message_header by blast+
  with Cons.IH show ?case
    by (simp add: split_msgs.simps [of "m @ _"] Let_def as_message_def)
qed

section \<open>The interface of a handler\<close>

text \<open>
  The socket sees a handler as one array of bytes: \<open>readHeader\<close> reads the size at an offset and
  \<open>readMessage\<close> copies that many bytes into a new \<open>Message\<close>, wherever the handler keeps them.
\<close>

locale data_handler =
  fixes contents :: "'h \<Rightarrow> byte list"
    and readHeader :: "'h \<Rightarrow> nat \<Rightarrow> nat option"
    and readMessage :: "'h \<Rightarrow> nat \<Rightarrow> nat \<Rightarrow> byte list option"
    and valid :: "'h \<Rightarrow> bool"
  assumes header: "valid h \<Longrightarrow> off + HEADER_SIZE \<le> length (contents h) \<Longrightarrow>
      readHeader h off = Some (le_nat (slice_of off HEADER_SIZE (contents h)))"
    and message: "valid h \<Longrightarrow> off + n \<le> length (contents h) \<Longrightarrow>
      readMessage h off n =
        (if n \<le> MESSAGE_SIZE then Some (as_message (slice_of off n (contents h))) else None)"
begin

abbreviation "read_all \<equiv> readMessages readHeader readMessage HEADER_SIZE"

lemma read_all_split:
  "valid h \<Longrightarrow> off + left \<le> length (contents h) \<Longrightarrow> split_msgs (slice_of off left (contents h)) = Some (es, r) \<Longrightarrow>
     read_all h off left = Some (Inr (off + (left - length r), length r, es))"
proof (induction left arbitrary: off es rule: less_induct)
  case (less left)
  let ?w = "slice_of off left (contents h)"
  have lw: "length ?w = left" using less.prems by simp
  show ?case
  proof (cases "left < HEADER_SIZE")
    case True
    with less.prems lw show ?thesis by (subst readMessages.simps) (auto simp: split_msgs_short)
  next
    case False
    define n where "n = le_nat (take HEADER_SIZE ?w)"
    have head: "readHeader h off = Some n"
      using header [of h off] less.prems False by (simp add: n_def slice_of_def min_absorb1)
    from less.prems(3) False lw have ok: "n \<noteq> 0" "n \<le> MESSAGE_SIZE"
      by (auto simp: split_msgs.simps [of ?w] n_def [symmetric] Let_def split: if_splits)
    show ?thesis
    proof (cases "left < n")
      case True
      with less.prems False head lw ok show ?thesis
        by (subst readMessages.simps) (auto simp: split_msgs.simps [of ?w] n_def [symmetric] Let_def)
    next
      case more: False
      with less.prems(3) False lw ok obtain es' where
        rec: "split_msgs (drop n ?w) = Some (es', r)" and es: "es = OnData (as_message (take n ?w)) # es'"
        by (auto simp: split_msgs.simps [of ?w] n_def [symmetric] Let_def)
      have "drop n ?w = slice_of (off + n) (left - n) (contents h)"
        by (simp add: slice_of_def drop_take add.commute)
      with less.IH [of "left - n" "off + n" es'] rec more ok less.prems(1,2)
      have step: "read_all h (off + n) (left - n) = Some (Inr (off + n + (left - n - length r), length r, es'))"
        by simp
      have "length r \<le> left - n" using split_msgs_rest [OF rec] lw by (auto dest!: arg_cong [of _ _ length])
      moreover have "readMessage h off n = Some (as_message (take n ?w))"
        using message [of h off n] less.prems(1,2) more ok by (simp add: slice_of_def min_absorb1)
      ultimately show ?thesis
        using False head more ok step es by (subst readMessages.simps) simp
    qed
  qed
qed

text \<open>A message of size 0 is delivered again and again.\<close>

lemma read_all_zero:
  assumes "valid h" "off + left \<le> length (contents h)" "HEADER_SIZE \<le> left"
    and "le_nat (slice_of off HEADER_SIZE (contents h)) = 0"
  shows "read_all h off left = None"
  using assms header [of h off] message [of h off 0] by (intro readMessages_zero) auto

end

section \<open>The two handlers\<close>

lemma mem_write_message:
  "mem_write (replicate MESSAGE_SIZE 0) 0 src =
     (if length src \<le> MESSAGE_SIZE then Some (as_message src) else None)"
  by (simp add: mem_write_def overwrite_def as_message_def)

interpretation str: data_handler id str_readHeader str_readMessage "\<lambda>_. True"
proof
  fix h :: "byte list" and off n
  show "off + HEADER_SIZE \<le> length (id h) \<Longrightarrow>
      str_readHeader h off = Some (le_nat (slice_of off HEADER_SIZE (id h)))"
    by (simp add: str_readHeader_def mem_read_def)
  show "off + n \<le> length (id h) \<Longrightarrow> str_readMessage h off n =
      (if n \<le> MESSAGE_SIZE then Some (as_message (slice_of off n (id h))) else None)"
    by (simp add: str_readMessage_def mem_read_def mem_write_message)
qed

definition strv_contents :: "stringv \<Rightarrow> byte list" where
  "strv_contents h = m_buffer1 h @ m_buffer2 h"

definition strv_valid :: "stringv \<Rightarrow> bool" where
  "strv_valid h \<longleftrightarrow> length (m_buffer1 h) = BUFFER_SIZE \<and> length (m_buffer2 h) = BUFFER_SIZE"

lemma slice_of_append:
  "slice_of off n (xs @ ys) = slice_of off n xs @ slice_of (off - length xs) (n - (length xs - off)) ys"
  by (simp add: slice_of_def)

lemma mem_write_two_parts:
  "length a + length b \<le> MESSAGE_SIZE \<Longrightarrow>
     do { m \<leftarrow> mem_write (replicate MESSAGE_SIZE 0) 0 a; mem_write m (length a) b } = Some (as_message (a @ b))"
  by (simp add: mem_write_def overwrite_def as_message_def)

interpretation strv: data_handler strv_contents strv_readHeader strv_readMessage strv_valid
proof
  fix h off n
  assume valid: "strv_valid h"
  show "strv_readHeader h off = Some (le_nat (slice_of off HEADER_SIZE (strv_contents h)))"
    if "off + HEADER_SIZE \<le> length (strv_contents h)"
    using that valid
    by (auto simp: strv_readHeader_def strv_contents_def strv_valid_def mem_read_def slice_of_append)
      (simp_all add: slice_of_def)
  show "strv_readMessage h off n =
      (if n \<le> MESSAGE_SIZE then Some (as_message (slice_of off n (strv_contents h))) else None)"
    if "off + n \<le> length (strv_contents h)"
  proof -
    consider (both) "off < BUFFER_SIZE" "off + n \<ge> BUFFER_SIZE" | (first) "off + n < BUFFER_SIZE" | (second) "BUFFER_SIZE \<le> off"
      by linarith
    then show ?thesis
    proof cases
      case both
      let ?a = "slice_of off (BUFFER_SIZE - off) (m_buffer1 h)"
      let ?b = "slice_of 0 (n - (BUFFER_SIZE - off)) (m_buffer2 h)"
      have reads: "mem_read (m_buffer1 h) off (BUFFER_SIZE - off) = Some ?a"
          "mem_read (m_buffer2 h) 0 (n - (BUFFER_SIZE - off)) = Some ?b"
        and len: "length ?a = BUFFER_SIZE - off" "length ?a + length ?b = n"
        using that valid both by (auto simp: mem_read_def strv_contents_def strv_valid_def)
      have "slice_of off n (strv_contents h) = ?a @ ?b"
        using both valid by (simp add: strv_contents_def strv_valid_def slice_of_append) (simp add: slice_of_def)
      moreover have "length ?a \<le> MESSAGE_SIZE \<Longrightarrow> \<not> n \<le> MESSAGE_SIZE \<Longrightarrow>
          mem_write (as_message ?a) (BUFFER_SIZE - off) ?b = None"
        using len by (auto simp: mem_write_def as_message_def)
      moreover have "n \<le> MESSAGE_SIZE \<Longrightarrow> mem_write (as_message ?a) (BUFFER_SIZE - off) ?b = Some (as_message (?a @ ?b))"
        using mem_write_two_parts [of ?a ?b] len mem_write_message [of ?a] by (simp add: split: if_splits)
      ultimately show ?thesis
        using both reads len by (auto simp: strv_readMessage_def Let_def mem_write_message)
    next
      case first
      with that valid show ?thesis
        by (simp add: strv_readMessage_def mem_read_def mem_write_message strv_contents_def strv_valid_def
            slice_of_append)
    next
      case second
      with that valid show ?thesis
        by (simp add: strv_readMessage_def mem_read_def mem_write_message strv_contents_def strv_valid_def
            slice_of_append) (auto simp: slice_of_def)
    qed
  qed
qed

end
