(* ===== verification/Lu_Data_Socket.thy ===== *)
theory Lu_Data_Socket
  imports Lu_Data_Handler
begin

text \<open>
  \<open>DataSocket\<close> (with the handler \<open>String\<close>) and \<open>DataSocketV\<close> (with \<open>StringV\<close>): their receive
  steps, and what they deliver. Both are instances of the reader's contract, the first also
  over an \<open>SSLSocket\<close>.
\<close>

section \<open>DataSocket\<close>

text \<open>\<open>readMessages\<close> on the window of a receive buffer, for any handler that reads that buffer.\<close>

definition rb_readMessages ::
  "(byte list \<Rightarrow> nat \<Rightarrow> nat option) \<Rightarrow> (byte list \<Rightarrow> nat \<Rightarrow> nat \<Rightarrow> byte list option) \<Rightarrow> nat \<Rightarrow>
     recv_buffer \<Rightarrow> (recv_buffer \<times> data_event list) run" where
  "rb_readMessages readHeader readMessage headerSize rb =
     (case readMessages readHeader readMessage headerSize (rb_bytes rb) (rb_readOffset rb) (rb_leftToRead rb) of
        None \<Rightarrow> None
      | Some (Inl f) \<Rightarrow> Some (Inl f)
      | Some (Inr (off, left, es)) \<Rightarrow>
          Some (Inr (rb\<lparr>rb_readOffset := off, rb_leftToRead := left\<rparr>, es)))"

text \<open>One read of \<open>DataSocket<String>::Receive\<close>: fill, read the messages, make room.\<close>

definition ds_on_bytes :: "byte list \<Rightarrow> recv_buffer \<Rightarrow> (recv_buffer \<times> data_event list) run" where
  "ds_on_bytes bs rb =
     (case rb_fill bs rb of
        None \<Rightarrow> Some (Inl MemoryFault)
      | Some rb \<Rightarrow>
          (case rb_readMessages str_readHeader str_readMessage HEADER_SIZE rb of
             None \<Rightarrow> None
           | Some (Inl f) \<Rightarrow> Some (Inl f)
           | Some (Inr (rb, es)) \<Rightarrow> Some (Inr (rb_compact BUFFER_SIZE (BUFFER_SIZE div 4) rb, es))))"

definition DataSocket :: recv_buffer where
  "DataSocket = rb_new BUFFER_SIZE"

definition DataSocket_Receive ::
  "recv_result list \<Rightarrow> recv_buffer \<Rightarrow> (bool \<times> recv_buffer \<times> data_event list) run" where
  "DataSocket_Receive = receive readDataSocket ds_on_bytes"

definition SSLDataSocket_Receive ::
  "ssl_result list \<Rightarrow> recv_buffer \<Rightarrow> (bool \<times> recv_buffer \<times> data_event list) run" where
  "SSLDataSocket_Receive = receive ssl_readDataSocket ds_on_bytes"

section \<open>DataSocketV\<close>

record data_socketv =
  dv_handler :: stringv
  dv_readOffset :: nat
  dv_leftToRead :: nat
  dv_leftToRecv :: nat

definition DataSocketV :: data_socketv where
  "DataSocketV = \<lparr>dv_handler = StringV, dv_readOffset = 0, dv_leftToRead = 0, dv_leftToRecv = 2 * BUFFER_SIZE\<rparr>"

definition dv_compact :: "data_socketv \<Rightarrow> data_socketv" where
  "dv_compact s =
     (if dv_leftToRead s = 0 then s\<lparr>dv_readOffset := 0, dv_leftToRecv := 2 * BUFFER_SIZE\<rparr>
      else if dv_readOffset s \<ge> BUFFER_SIZE then
        s\<lparr>dv_handler := strv_swap (dv_handler s), dv_readOffset := dv_readOffset s - BUFFER_SIZE,
          dv_leftToRecv := 2 * BUFFER_SIZE - dv_leftToRead s\<rparr>
      else s)"

definition dv_readMessages :: "data_socketv \<Rightarrow> (data_socketv \<times> data_event list) run" where
  "dv_readMessages s =
     (case readMessages strv_readHeader strv_readMessage HEADER_SIZE (dv_handler s)
             (dv_readOffset s) (dv_leftToRead s) of
        None \<Rightarrow> None
      | Some (Inl f) \<Rightarrow> Some (Inl f)
      | Some (Inr (off, left, es)) \<Rightarrow> Some (Inr (s\<lparr>dv_readOffset := off, dv_leftToRead := left\<rparr>, es)))"

definition dv_on_bytes :: "byte list \<Rightarrow> data_socketv \<Rightarrow> (data_socketv \<times> data_event list) run" where
  "dv_on_bytes bs s =
     (case readv_fill (getNumberOfBuffers (dv_readOffset s + dv_leftToRead s)) bs (dv_handler s) of
        None \<Rightarrow> Some (Inl MemoryFault)
      | Some h \<Rightarrow>
          (case dv_readMessages (s\<lparr>dv_handler := h, dv_leftToRead := dv_leftToRead s + length bs\<rparr>) of
             None \<Rightarrow> None
           | Some (Inl f) \<Rightarrow> Some (Inl f)
           | Some (Inr (s, es)) \<Rightarrow> Some (Inr (dv_compact s, es))))"

definition DataSocketV_Receive ::
  "recv_result list \<Rightarrow> data_socketv \<Rightarrow> (bool \<times> data_socketv \<times> data_event list) run" where
  "DataSocketV_Receive = receive readDataSocketV dv_on_bytes"

text \<open>The room offered to \<open>readv\<close>: the two lengths of the \<open>iovec\<close>.\<close>

definition dv_room :: "data_socketv \<Rightarrow> nat" where
  "dv_room s = (let ((_, n1), (_, n2)) = getNumberOfBuffers (dv_readOffset s + dv_leftToRead s) in n1 + n2)"

section \<open>Both deliver the messages of the stream\<close>

definition ds_ok :: "recv_buffer \<Rightarrow> bool" where
  "ds_ok rb \<longleftrightarrow> rb_ok BUFFER_SIZE rb \<and> rb_leftToRecv rb = BUFFER_SIZE - rb_leftToRead rb \<and> split_msgs (rb_pending rb) = Some ([], rb_pending rb)"

lemma ds_on_bytes_ok:
  assumes "ds_ok rb" "length bs \<le> rb_leftToRecv rb" "split_msgs (rb_pending rb @ bs) = Some (es, r)"
  shows "\<exists>rb'. ds_on_bytes bs rb = Some (Inr (rb', es)) \<and> ds_ok rb' \<and> rb_pending rb' = r"
proof -
  from assms(1,2) obtain rb1 where fill: "rb_fill bs rb = Some rb1"
    and rb1: "rb_pending rb1 = rb_pending rb @ bs" "length (rb_bytes rb1) = BUFFER_SIZE"
      "rb_readOffset rb1 + rb_leftToRead rb1 \<le> BUFFER_SIZE"
    by (auto simp: ds_ok_def elim: rb_fill_ok)
  let ?off = "rb_readOffset rb1 + (rb_leftToRead rb1 - length r)"
  let ?rb2 = "rb1\<lparr>rb_readOffset := ?off, rb_leftToRead := length r\<rparr>"
  from split_msgs_rest [OF assms(3)] obtain p where
    r: "length r < MESSAGE_SIZE" "split_msgs r = Some ([], r)" "rb_pending rb @ bs = p @ r" by blast
  have msgs: "rb_readMessages str_readHeader str_readMessage HEADER_SIZE rb1 = Some (Inr (?rb2, es))"
    using str.read_all_split [of "rb_readOffset rb1" "rb_leftToRead rb1" "rb_bytes rb1" es r] rb1 assms(3)
    by (simp add: rb_readMessages_def rb_pending_def)
  have pend: "rb_pending ?rb2 = r"
    by (rule rb_pending_shrink) (use rb1 r in simp_all)
  have "length r \<le> rb_leftToRead rb1"
    using r(3) rb1 by (metis le_add2 length_append length_slice_of min.cobounded1 order.trans rb_pending_def)
  then have "?off + length r \<le> BUFFER_SIZE" using rb1(3) by simp
  then have "rb_ok BUFFER_SIZE (rb_compact BUFFER_SIZE 250 ?rb2)" "rb_pending (rb_compact BUFFER_SIZE 250 ?rb2) = r"
    using rb_compact_ok [of ?rb2 BUFFER_SIZE 250] r(1) rb1(2) pend by simp_all
  moreover have "rb_leftToRecv (rb_compact BUFFER_SIZE 250 ?rb2) = BUFFER_SIZE - rb_leftToRead (rb_compact BUFFER_SIZE 250 ?rb2)"
    using r(1) by (simp add: rb_compact_def)
  ultimately show ?thesis using fill msgs r(2) by (simp add: ds_on_bytes_def ds_ok_def)
qed

interpretation ds: message_reader readDataSocket Received "RecvError EAGAIN" ds_on_bytes rb_leftToRecv ds_ok rb_pending split_msgs
proof
  fix rb bs es r
  assume "ds_ok rb" "length bs \<le> rb_leftToRecv rb" "split_msgs (rb_pending rb @ bs) = Some (es, r)"
  from ds_on_bytes_ok [OF this]
  show "\<exists>rb'. ds_on_bytes bs rb = Some (Inr (rb', es)) \<and> ds_ok rb' \<and> rb_pending rb' = r \<and> 0 < rb_leftToRecv rb'"
    by (auto simp: ds_ok_def rb_ok_def)
qed (auto simp: readDataSocket_def split_msgs_append split_msgs_prefix ds_ok_def)

interpretation ssl_ds: message_reader ssl_readDataSocket SSLReceived "SSLError SSL_ERROR_WANT_READ" ds_on_bytes rb_leftToRecv ds_ok rb_pending split_msgs
proof
  fix rb bs es r
  assume "ds_ok rb" "bs \<noteq> []" "length bs \<le> rb_leftToRecv rb" "split_msgs (rb_pending rb @ bs) = Some (es, r)"
  then show "\<exists>rb'. ds_on_bytes bs rb = Some (Inr (rb', es)) \<and> ds_ok rb' \<and> rb_pending rb' = r \<and> 0 < rb_leftToRecv rb'"
    by (rule ds.on_bytes_ok)
qed (auto simp: ssl_readDataSocket_def ssl_retry_def split_msgs_append split_msgs_prefix ds_ok_def)

definition dv_pending :: "data_socketv \<Rightarrow> byte list" where
  "dv_pending s = slice_of (dv_readOffset s) (dv_leftToRead s) (strv_contents (dv_handler s))"

definition dv_ok :: "data_socketv \<Rightarrow> bool" where
  "dv_ok s \<longleftrightarrow> strv_valid (dv_handler s) \<and> dv_readOffset s < BUFFER_SIZE \<and> dv_leftToRead s < MESSAGE_SIZE
     \<and> split_msgs (dv_pending s) = Some ([], dv_pending s)"

lemma getNumberOfBuffers_room:
  "w \<le> 2 * BUFFER_SIZE \<Longrightarrow>
     getNumberOfBuffers w = ((if w < BUFFER_SIZE then w else 0, BUFFER_SIZE - w), (w - BUFFER_SIZE, min BUFFER_SIZE (2 * BUFFER_SIZE - w)))"
  by (auto simp: getNumberOfBuffers_def mod_if)

lemma take_drop_append: "take k xs @ drop k xs @ ys = xs @ ys"
  by (simp flip: append_assoc)

lemma readv_fill_contents:
  assumes "strv_valid h" "w + length bs \<le> 2 * BUFFER_SIZE"
  shows "\<exists>h'. readv_fill (getNumberOfBuffers w) bs h = Some h' \<and> strv_valid h'
     \<and> strv_contents h' = overwrite (strv_contents h) w bs"
proof (cases "w < BUFFER_SIZE")
  case True
  with assms show ?thesis
    by (simp add: readv_fill_def getNumberOfBuffers_room mem_write_def strv_valid_def strv_contents_def
        overwrite_def min_def) (auto simp: take_drop_append add.commute)
next
  case False
  with assms show ?thesis
    by (simp add: readv_fill_def getNumberOfBuffers_room mem_write_def strv_valid_def strv_contents_def
        overwrite_def)
qed

lemma dv_compact_ok:
  assumes "strv_valid (dv_handler s)" "dv_readOffset s + dv_leftToRead s \<le> 2 * BUFFER_SIZE"
    and "dv_leftToRead s < MESSAGE_SIZE"
  shows "strv_valid (dv_handler (dv_compact s))" "dv_readOffset (dv_compact s) < BUFFER_SIZE"
    "dv_leftToRead (dv_compact s) = dv_leftToRead s" "dv_pending (dv_compact s) = dv_pending s"
proof -
  show "strv_valid (dv_handler (dv_compact s))" "dv_leftToRead (dv_compact s) = dv_leftToRead s"
    using assms by (auto simp: dv_compact_def strv_swap_def strv_valid_def)
  show "dv_readOffset (dv_compact s) < BUFFER_SIZE"
    using assms by (auto simp: dv_compact_def)
  show "dv_pending (dv_compact s) = dv_pending s"
    using assms
    by (auto simp: dv_compact_def dv_pending_def strv_swap_def strv_valid_def strv_contents_def slice_of_def)
qed

lemma dv_on_bytes_ok:
  assumes ok: "dv_ok s" and room: "length bs \<le> dv_room s" and split: "split_msgs (dv_pending s @ bs) = Some (es, r)"
  shows "\<exists>s'. dv_on_bytes bs s = Some (Inr (s', es)) \<and> dv_ok s' \<and> dv_pending s' = r"
proof -
  let ?w = "dv_readOffset s + dv_leftToRead s"
  have w: "?w + length bs \<le> 2 * BUFFER_SIZE"
    using ok room by (auto simp: dv_ok_def dv_room_def getNumberOfBuffers_room min_def split: if_splits)
  from readv_fill_contents [of "dv_handler s" ?w bs] ok w obtain h where
    h: "readv_fill (getNumberOfBuffers ?w) bs (dv_handler s) = Some h" "strv_valid h"
      "strv_contents h = overwrite (strv_contents (dv_handler s)) ?w bs"
    by (auto simp: dv_ok_def)
  have len: "length (strv_contents h) = 2 * BUFFER_SIZE" "length (strv_contents (dv_handler s)) = 2 * BUFFER_SIZE"
    using h(2) ok by (auto simp: strv_valid_def strv_contents_def dv_ok_def)
  let ?left = "dv_leftToRead s + length bs"
  have window: "slice_of (dv_readOffset s) ?left (strv_contents h) = dv_pending s @ bs"
    using slice_of_window_overwrite [of "dv_readOffset s" "dv_leftToRead s" bs "strv_contents (dv_handler s)"] w len h(3)
    by (simp add: dv_pending_def)
  from split_msgs_rest [OF split] obtain p where
    r: "length r < MESSAGE_SIZE" "split_msgs r = Some ([], r)" "dv_pending s @ bs = p @ r" by blast
  have plen: "?left = length p + length r"
    using arg_cong [OF r(3), of length] w len by (simp add: dv_pending_def)
  have msgs: "readMessages strv_readHeader strv_readMessage HEADER_SIZE h (dv_readOffset s) ?left
      = Some (Inr (dv_readOffset s + length p, length r, es))"
    using strv.read_all_split [OF h(2), of "dv_readOffset s" ?left es r] w len window split plen by simp
  let ?s2 = "s\<lparr>dv_handler := h, dv_readOffset := dv_readOffset s + length p, dv_leftToRead := length r\<rparr>"
  have "dv_pending ?s2 = drop (length p) (slice_of (dv_readOffset s) ?left (strv_contents h))"
    using plen by (simp add: dv_pending_def slice_of_def drop_take add.commute)
  with window r(3) have pend: "dv_pending ?s2 = r" by simp
  have "dv_readOffset ?s2 + dv_leftToRead ?s2 \<le> 2 * BUFFER_SIZE" using plen w by simp
  from dv_compact_ok [OF _ this] h(2) r(1) pend
  have "dv_ok (dv_compact ?s2)" "dv_pending (dv_compact ?s2) = r" by (auto simp: dv_ok_def r(2))
  with h(1) msgs show ?thesis by (simp add: dv_on_bytes_def dv_readMessages_def)
qed

lemma dv_room: "dv_ok s \<Longrightarrow> 900 \<le> dv_room s"
  by (auto simp: dv_ok_def dv_room_def getNumberOfBuffers_room)

interpretation dv: message_reader readDataSocketV Received "RecvError EAGAIN" dv_on_bytes dv_room dv_ok dv_pending split_msgs
proof
  fix s bs es r
  assume "dv_ok s" "length bs \<le> dv_room s" "split_msgs (dv_pending s @ bs) = Some (es, r)"
  from dv_on_bytes_ok [OF this]
  show "\<exists>s'. dv_on_bytes bs s = Some (Inr (s', es)) \<and> dv_ok s' \<and> dv_pending s' = r \<and> 0 < dv_room s'"
    using dv_room by fastforce
qed (auto simp: readDataSocketV_def split_msgs_append split_msgs_prefix dv_ok_def)

lemma ds_ok_new: "ds_ok DataSocket"
  using rb_ok_new [of BUFFER_SIZE] by (simp add: ds_ok_def DataSocket_def split_msgs_short) (simp add: rb_new_def)

lemma ds_room: "ds_ok rb \<Longrightarrow> 900 \<le> rb_leftToRecv rb"
proof -
  assume "ds_ok rb"
  then have "length (rb_pending rb) < MESSAGE_SIZE" "rb_leftToRecv rb = BUFFER_SIZE - rb_leftToRead rb"
    and "length (rb_pending rb) = rb_leftToRead rb"
    using split_msgs_rest [of "rb_pending rb"] by (auto simp: ds_ok_def rb_ok_def rb_pending_def)
  then show ?thesis by simp
qed

lemma dv_ok_new: "dv_ok DataSocketV"
  by (simp add: dv_ok_def DataSocketV_def StringV_def strv_valid_def dv_pending_def split_msgs_short)

text \<open>
  C16. Messages arrive whole and in order: texts of less than 64 bytes (a longer one overruns
  the object) become \<open>Message\<close> objects, and however the kernel cuts their stream into reads (each
  within the room it is offered), a new \<open>DataSocket\<close> stays within its buffer, returns, and has
  given the callback exactly those messages, in order, with nothing left over. Each message
  holds its text up to the first NUL, which is the whole text when it has none.
\<close>

theorem DataSocket_delivers:
  assumes "\<forall>data \<in> set texts. length data < DATA_SIZE"
  shows "\<exists>ms. list_all2 (\<lambda>data m. Message data = Some m) texts ms \<and> map getString ms = map text_of texts
    \<and> (\<forall>chunks. concat chunks = concat ms \<and> [] \<notin> set chunks
         \<and> reads_within readDataSocket ds_on_bytes rb_leftToRecv (map Received chunks @ [RecvError EAGAIN]) DataSocket \<longrightarrow>
        (\<exists>rb. DataSocket_Receive (map Received chunks @ [RecvError EAGAIN]) DataSocket =
            Some (Inr (True, rb, map OnData ms)) \<and> rb_pending rb = []))"
proof -
  define ms where "ms = map (\<lambda>data. the (Message data)) texts"
  have msgs: "list_all2 (\<lambda>data m. Message data = Some m) texts ms"
    using assms Message_Some by (auto simp: ms_def list_all2_map2 list_all2_same)
  then have "map getString ms = map text_of texts"
    by (induction rule: list_all2_induct) (auto simp: getString_Message)
  moreover have "\<exists>rb. DataSocket_Receive (map Received chunks @ [RecvError EAGAIN]) DataSocket =
           Some (Inr (True, rb, map OnData ms)) \<and> rb_pending rb = []"
    if "concat chunks = concat ms" "[] \<notin> set chunks"
      "reads_within readDataSocket ds_on_bytes rb_leftToRecv (map Received chunks @ [RecvError EAGAIN]) DataSocket" for chunks
  proof -
    have "split_msgs (rb_pending DataSocket @ concat chunks) = Some (map OnData ms, [])"
      using split_msgs_Messages [OF msgs] that(1) by (simp add: DataSocket_def)
    from ds.receive_delivers [OF ds_ok_new that(2,3) this] show ?thesis by (auto simp: DataSocket_Receive_def)
  qed
  ultimately show ?thesis using msgs by blast
qed

theorem DataSocket_delivers_witness:
  "\<exists>m rb. Message [104, 0, 105] = Some m \<and>
     DataSocket_Receive (map Received [take 3 m, drop 3 m] @ [RecvError EAGAIN]) DataSocket =
       Some (Inr (True, rb, [OnData m])) \<and> getString m = [104]"
proof -
  obtain m where m: "Message [104, 0, 105] = Some m" by (simp add: Message_Some)
  then have len: "length m = MESSAGE_SIZE" by (rule length_Message)
  let ?chunks = "[take 3 m, drop 3 m]"
  have texts: "list_all2 (\<lambda>data m. Message data = Some m) [[104, 0, 105]] [m]" using m by simp
  have chunks: "concat ?chunks = concat [m]" "[] \<notin> set ?chunks" using len by auto
  have "reads_within readDataSocket ds_on_bytes rb_leftToRecv (map Received ?chunks @ [RecvError EAGAIN]) DataSocket"
    using split_msgs_Messages [OF texts] len
    by (intro ds.reads_within_bounded [OF ds_room ds_ok_new]) (auto simp: DataSocket_def)
  note reads = this
  from DataSocket_delivers [of "[[104, 0, 105]]"] obtain ms where
    ms: "list_all2 (\<lambda>data m. Message data = Some m) [[104, 0, 105]] ms" "map getString ms = [[104]]"
    and r: "\<And>chunks. concat chunks = concat ms \<Longrightarrow> [] \<notin> set chunks \<Longrightarrow>
      reads_within readDataSocket ds_on_bytes rb_leftToRecv (map Received chunks @ [RecvError EAGAIN]) DataSocket \<Longrightarrow>
      \<exists>rb. DataSocket_Receive (map Received chunks @ [RecvError EAGAIN]) DataSocket = Some (Inr (True, rb, map OnData ms))"
    by fastforce
  from ms(1) m have "ms = [m]" by (auto simp: list_all2_Cons1)
  with r [OF _ chunks(2) reads] chunks(1) ms(2) m show ?thesis by auto
qed

text \<open>
  C18. \<open>DataSocketV\<close> with its two swapped buffers reads like one unbounded buffer, for a stream
  that keeps to the protocol: every header in it that is complete announces a size from 1 to
  the 68 bytes of a \<open>Message\<close> (\<open>split_msgs\<close> is not \<open>None\<close>; with other sizes the code overruns the
  message it copies into, or never returns). For any cut of such a stream into reads, each
  within the room offered, the events are those of its messages, the rest stays pending for
  the next event, and the two buffers are never overrun, read out of range or left without
  room.
\<close>

theorem DataSocketV_refines:
  assumes "[] \<notin> set chunks" "split_msgs (concat chunks) = Some (es, r)"
    and "reads_within readDataSocketV dv_on_bytes dv_room (map Received chunks @ [RecvError EAGAIN]) DataSocketV"
  shows "\<exists>s. DataSocketV_Receive (map Received chunks @ [RecvError EAGAIN]) DataSocketV = Some (Inr (True, s, es))
           \<and> dv_ok s \<and> dv_pending s = r \<and> 0 < dv_room s"
proof -
  have "split_msgs (dv_pending DataSocketV @ concat chunks) = Some (es, r)"
    using assms(2) by (simp add: DataSocketV_def dv_pending_def)
  from dv.receive_delivers [OF dv_ok_new assms(1,3) this] show ?thesis
    using dv_room by (fastforce simp: DataSocketV_Receive_def)
qed

theorem DataSocketV_refines_witness:
  "\<exists>s. DataSocketV_Receive (map Received [[5, 0], [0, 0, 7, 4]] @ [RecvError EAGAIN]) DataSocketV =
         Some (Inr (True, s, [OnData (as_message [5, 0, 0, 0, 7])])) \<and> dv_pending s = [4]"
proof -
  let ?chunks = "[[5, 0], [0, 0, 7, 4]] :: byte list list"
  have parse: "split_msgs (concat ?chunks) = Some ([OnData (as_message [5, 0, 0, 0, 7])], [4])"
    by (simp add: split_msgs.simps le_nat_def be_nat_def)
  have "reads_within readDataSocketV dv_on_bytes dv_room (map Received ?chunks @ [RecvError EAGAIN]) DataSocketV"
    using parse by (intro dv.reads_within_bounded [OF dv_room dv_ok_new]) (auto simp: DataSocketV_def dv_pending_def)
  from DataSocketV_refines [OF _ parse this] show ?thesis by auto
qed

section \<open>What a hostile peer can do\<close>

lemma rb_fill_new:
  "length c \<le> n \<Longrightarrow> rb_fill c (rb_new n) =
     Some \<lparr>rb_bytes = c @ replicate (n - length c) 0, rb_readOffset = 0, rb_leftToRead = length c, rb_leftToRecv = n\<rparr>"
  by (simp add: rb_fill_def rb_new_def mem_write_def overwrite_def)

lemma str_readHeader_front:
  "HEADER_SIZE \<le> length c \<Longrightarrow> str_readHeader (c @ z) 0 = Some (le_nat (take HEADER_SIZE c))"
  by (simp add: str_readHeader_def mem_read_def slice_of_def)

text \<open>
  A peer can write past the end of \<open>DataSocket\<close>'s buffer: after a first read of more than a
  quarter of the buffer that does not complete the message its header announces, the buffer
  is not compacted and \<open>m_numberOfBytesLeftToRecv\<close> not reduced, so the next read may return as
  many bytes as the whole buffer holds, behind those that are there.
\<close>

theorem DataSocket_overflow:
  assumes "BUFFER_SIZE div 4 < length c" "length c \<le> BUFFER_SIZE" "length c < le_nat (take HEADER_SIZE c)"
    and "length d \<le> BUFFER_SIZE" "BUFFER_SIZE < length c + length d"
  shows "reads_within readDataSocket ds_on_bytes rb_leftToRecv [Received c, Received d] DataSocket
       \<and> DataSocket_Receive (Received c # Received d # rs) DataSocket = Some (Inl MemoryFault)"
proof -
  let ?rb = "\<lparr>rb_bytes = c @ replicate (BUFFER_SIZE - length c) 0, rb_readOffset = 0,
               rb_leftToRead = length c, rb_leftToRecv = BUFFER_SIZE\<rparr>"
  have "readMessages str_readHeader str_readMessage HEADER_SIZE (rb_bytes ?rb) 0 (length c) = Some (Inr (0, length c, []))"
    using assms by (subst readMessages.simps) (simp add: str_readHeader_front)
  with assms have one: "ds_on_bytes c DataSocket = Some (Inr (?rb, []))"
    by (simp add: ds_on_bytes_def DataSocket_def rb_fill_new rb_readMessages_def rb_compact_def)
  have two: "ds_on_bytes d ?rb = Some (Inl MemoryFault)"
    using assms by (simp add: ds_on_bytes_def rb_fill_def mem_write_def)
  have "c \<noteq> []" "d \<noteq> []" using assms by auto
  with one two assms show ?thesis
    by (simp add: DataSocket_Receive_def readDataSocket_def) (simp add: DataSocket_def rb_new_def)
qed

theorem DataSocket_overflow_witness:
  "DataSocket_Receive [Received ([188, 2, 0, 0] @ replicate 596 1), Received (replicate 500 1)] DataSocket
     = Some (Inl MemoryFault)"
proof -
  let ?c = "[188, 2, 0, 0] @ replicate 596 1 :: byte list"
  have "le_nat (take HEADER_SIZE ?c) = 700" by (simp add: le_nat_def be_nat_def)
  then show ?thesis
    using DataSocket_overflow [of ?c "replicate 500 1" "[]"] by simp
qed

text \<open>
  C38. A header of size 0 keeps the thread forever: \<open>readMessages\<close> asks to stop the socket, then
  delivers an empty message and looks at the same header again, so \<open>Receive\<close> never returns,
  whatever the kernel would answer later.
\<close>

theorem DataSocket_zero_size:
  assumes "HEADER_SIZE \<le> length c" "length c \<le> BUFFER_SIZE" "le_nat (take HEADER_SIZE c) = 0"
  shows "DataSocket_Receive (Received c # rs) DataSocket = None"
proof -
  let ?mem = "c @ replicate (BUFFER_SIZE - length c) 0"
  have "readMessages str_readHeader str_readMessage HEADER_SIZE ?mem 0 (length c) = None"
    using assms by (intro readMessages_zero) (auto simp: str_readHeader_front str_readMessage_def mem_read_def mem_write_message)
  with assms have "ds_on_bytes c DataSocket = None"
    by (simp add: ds_on_bytes_def DataSocket_def rb_fill_new rb_readMessages_def)
  moreover have "c \<noteq> []" using assms by auto
  ultimately show ?thesis by (simp add: DataSocket_Receive_def readDataSocket_def)
qed

theorem DataSocket_zero_size_witness:
  "DataSocket_Receive [Received [0, 0, 0, 0], RecvError EAGAIN] DataSocket = None"
  using DataSocket_zero_size [of "[0, 0, 0, 0]" "[RecvError EAGAIN]"] by (simp add: le_nat_def be_nat_def)

end
