(* ===== verification/Lu_Web_Socket.thy ===== *)
theory Lu_Web_Socket
  imports Lu_Data_Socket Lu_Frame_Correct Lu_Handshake
begin

text \<open>
  The sockets that open with the handshake: \<open>WebSocket.h\<close>, \<open>HBDataSocket.h\<close> (a server that
  speaks WebSocket or plain TCP) and \<open>HBSocketClient.h\<close> (its client). They combine the receive
  buffer, the handshake and the frames. Parameters: \<open>below\<close> and \<open>base64Sha\<close> as in the handshake;
  the operations of the data handler, which is a template parameter of the two HB sockets.
\<close>

section \<open>Text and bytes\<close>

definition text_of :: "byte list \<Rightarrow> string" where
  "text_of bs = map (\<lambda>b. char_of (unat b)) bs"

definition bytes_of :: "string \<Rightarrow> byte list" where
  "bytes_of s = map (\<lambda>c. word_of_nat (of_char c)) s"

lemma text_of_bytes_of [simp]: "text_of (bytes_of s) = s"
proof -
  have "char_of (unat (word_of_nat (of_char c) :: byte)) = c" for c :: char
    by (simp add: unat_byte_of_nat)
  then show ?thesis by (simp add: text_of_def bytes_of_def comp_def)
qed

lemma length_text_of [simp]: "length (text_of bs) = length bs"
  by (simp add: text_of_def)

lemma length_bytes_of [simp]: "length (bytes_of s) = length s"
  by (simp add: bytes_of_def)

lemma text_of_append [simp]: "text_of (a @ b) = text_of a @ text_of b"
  by (simp add: text_of_def)

lemma bytes_of_Nil_iff [simp]: "bytes_of s = [] \<longleftrightarrow> s = []"
  by (simp add: bytes_of_def)

section \<open>State\<close>

datatype socket_status = Connecting | Connected | ConnectedAsWebSocket | ConnectedAsTCP | Closing

datatype socket_event =
  FrameEvent ws_event | DataEvent data_event | Sent "byte list" | OnOpen | Stopped | OnClientClose

record web_socket =
  ws_buffer :: recv_buffer
  ws_status :: socket_status
  ws_frame :: frame
  ws_headerOffset :: nat

definition web_socket_new :: "nat \<Rightarrow> nat \<Rightarrow> web_socket" where
  "web_socket_new bufferSize maxMessageSize =
     \<lparr>ws_buffer = rb_new bufferSize, ws_status = Connecting, ws_frame = Frame maxMessageSize, ws_headerOffset = 0\<rparr>"

section \<open>Finding the end of the header\<close>

text \<open>
  The loop over \<open>dataStringView.find("\r\n", m_readWebsocketHeaderOffset)\<close>: whether an empty
  line was found, and the new value of \<open>m_readWebsocketHeaderOffset\<close>.
\<close>

function scan_header :: "string \<Rightarrow> nat \<Rightarrow> bool \<times> nat" where
  "scan_header view off =
     (case find_sub CRLF view off of
        None \<Rightarrow> (False, off)
      | Some location \<Rightarrow> if location = off then (True, off + 2) else scan_header view (location + 2))"
  by auto
termination
  by (relation "measure (\<lambda>(view, off). Suc (length view) - off)") (auto dest!: find_sub_Some simp: CRLF_def)

declare scan_header.simps [simp del]

text \<open>
  The view starts at \<open>m_readWebsocketHeaderOffset\<close> in the buffer, and the search starts at that
  same offset in the view. The offset is added once here and once in \<open>scan_header\<close>, as in the
  source.
\<close>

definition header_view :: "web_socket \<Rightarrow> string" where
  "header_view s =
     text_of (slice_of (ws_headerOffset s) (rb_leftToRead (ws_buffer s) - ws_headerOffset s) (rb_bytes (ws_buffer s)))"

text \<open>What the three sockets do when no empty line is there yet.\<close>

definition header_incomplete :: "nat \<Rightarrow> web_socket \<Rightarrow> web_socket \<times> socket_event list" where
  "header_incomplete off s =
     (s\<lparr>ws_headerOffset := off\<rparr>, if rb_leftToRecv (ws_buffer s) = 0 then [Stopped] else [])"

section \<open>WebSocket\<close>

definition WS_RESOURCE :: string where
  "WS_RESOURCE = ''/comms''"

definition WS_PROTOCOL :: string where
  "WS_PROTOCOL = ''LuBinary''"

definition ws_processHandshake ::
  "(string \<Rightarrow> bool option) \<Rightarrow> (string \<Rightarrow> string) \<Rightarrow> web_socket \<Rightarrow> (web_socket \<times> socket_event list) run" where
  "ws_processHandshake below base64Sha s =
     (case scan_header (header_view s) (ws_headerOffset s) of
        (False, off) \<Rightarrow> Some (Inr (header_incomplete off s))
      | (True, off) \<Rightarrow>
          (case mem_read (rb_bytes (ws_buffer s)) 0 off of
             None \<Rightarrow> Some (Inl MemoryFault)
           | Some bs \<Rightarrow>
               (case getResponse below base64Sha (text_of bs) WS_RESOURCE WS_PROTOCOL [13] of
                  Thrown \<Rightarrow> Some (Inl Uncaught)
                | OutOfBounds \<Rightarrow> Some (Inl MemoryFault)
                | Refused \<Rightarrow> Some (Inr (s\<lparr>ws_headerOffset := off\<rparr>, [Stopped]))
                | Accepted response \<Rightarrow>
                    Some (Inr (s\<lparr>ws_buffer := updateForDataRead off (ws_buffer s), ws_headerOffset := 0,
                                 ws_status := Connected\<rparr>, [Sent (bytes_of response), OnOpen])))))"

text \<open>
  One call of \<open>m_frame.processMessage\<close> on the window of the buffer: \<open>SocketData\<close> points at
  \<open>m_buffer.data() + m_readOffset\<close>; the frame may unmask bytes there in place.
\<close>

definition ws_readFrames :: "web_socket \<Rightarrow> (web_socket \<times> socket_event list) run" where
  "ws_readFrames s =
     (let rb = ws_buffer s; off = rb_readOffset rb in
      case processMessage \<lparr>sd_data = drop off (rb_bytes rb), sd_length = rb_leftToRead rb mod 2 ^ 32, sd_readOffset = 0\<rparr> (ws_frame s) of
        None \<Rightarrow> Some (Inl MemoryFault)
      | Some (sd, fr, evs) \<Rightarrow>
          Some (Inr (s\<lparr>ws_buffer := updateForDataRead (sd_readOffset sd) (rb\<lparr>rb_bytes := take off (rb_bytes rb) @ sd_data sd\<rparr>),
                       ws_frame := fr\<rparr>,
                     map FrameEvent evs @ (if m_opCode fr = Close then [Stopped] else []))))"

definition ws_readMessages ::
  "(string \<Rightarrow> bool option) \<Rightarrow> (string \<Rightarrow> string) \<Rightarrow> web_socket \<Rightarrow> (web_socket \<times> socket_event list) run" where
  "ws_readMessages below base64Sha s =
     (if ws_status s = Connecting then
        (case ws_processHandshake below base64Sha s of
           None \<Rightarrow> None
         | Some (Inl f) \<Rightarrow> Some (Inl f)
         | Some (Inr (s1, es1)) \<Rightarrow>
             if ws_status s1 = Connecting then Some (Inr (s1, es1))
             else (case ws_readFrames s1 of
               None \<Rightarrow> None
             | Some (Inl f) \<Rightarrow> Some (Inl f)
             | Some (Inr (s2, es2)) \<Rightarrow> Some (Inr (s2, es1 @ es2))))
      else ws_readFrames s)"

text \<open>One read of \<open>Receive\<close>, for any of the three sockets: \<open>readMsgs\<close> is its \<open>readMessages\<close>.\<close>

definition socket_on_bytes ::
  "(web_socket \<Rightarrow> (web_socket \<times> socket_event list) run) \<Rightarrow> nat \<Rightarrow> byte list \<Rightarrow> web_socket \<Rightarrow>
     (web_socket \<times> socket_event list) run" where
  "socket_on_bytes readMsgs bufferSize bs s =
     (case rb_fill bs (ws_buffer s) of
        None \<Rightarrow> Some (Inl MemoryFault)
      | Some rb \<Rightarrow>
          (case readMsgs (s\<lparr>ws_buffer := rb\<rparr>) of
             None \<Rightarrow> None
           | Some (Inl f) \<Rightarrow> Some (Inl f)
           | Some (Inr (s', es)) \<Rightarrow>
               Some (Inr (s'\<lparr>ws_buffer := rb_compact bufferSize (bufferSize div 4) (ws_buffer s')\<rparr>, es))))"

definition WS_BUFFER_SIZE :: nat where
  "WS_BUFFER_SIZE = 8 * 1024 * 100 + 4"

definition WebSocket :: "nat \<Rightarrow> web_socket" where
  "WebSocket maxMessageSize = web_socket_new WS_BUFFER_SIZE maxMessageSize"

definition WebSocket_Receive ::
  "(string \<Rightarrow> bool option) \<Rightarrow> (string \<Rightarrow> string) \<Rightarrow> recv_result list \<Rightarrow> web_socket \<Rightarrow>
     (bool \<times> web_socket \<times> socket_event list) run" where
  "WebSocket_Receive below base64Sha =
     receive readDataSocket (socket_on_bytes (ws_readMessages below base64Sha) WS_BUFFER_SIZE)"

definition WebSocket_onEvent ::
  "(string \<Rightarrow> bool option) \<Rightarrow> (string \<Rightarrow> string) \<Rightarrow> 32 word \<Rightarrow> recv_result list \<Rightarrow> web_socket \<Rightarrow>
     (bool \<times> web_socket \<times> socket_event list) run" where
  "WebSocket_onEvent below base64Sha = onEvent (WebSocket_Receive below base64Sha) OnClientClose"

section \<open>HBDataSocket\<close>

text \<open>
  \<open>BUFFER_SIZE\<close> of the HB sockets: a quarter more than \<open>MaxMessageSize\<close>, and at least
  \<open>RECV_BUFFER_SIZE\<close>. The size is computed in \<open>float\<close>: an integer, or a product, is rounded to the nearest number of
  24 significant bits, ties to even. The product with \<open>1.25F\<close> is that with 5, four times as
  large, and the conversion back to an integer drops the fraction. \<open>float_exp\<close> counts the bits
  that are lost.
\<close>

fun float_exp :: "nat \<Rightarrow> nat" where
  "float_exp n = (if n < 2 ^ 24 then 0 else Suc (float_exp (n div 2)))"

declare float_exp.simps [simp del]

definition float_round :: "nat \<Rightarrow> nat" where
  "float_round n =
     (let u = 2 ^ float_exp n; q = n div u; r = n mod u in
      (if u < 2 * r \<or> (u = 2 * r \<and> odd q) then q + 1 else q) * u)"

definition HB_BUFFER_SIZE :: "nat \<Rightarrow> nat" where
  "HB_BUFFER_SIZE maxMessageSize = max (float_round (5 * float_round maxMessageSize) div 4) (1500 * 4)"

definition requestUpgrade :: "(string \<Rightarrow> bool option) \<Rightarrow> string \<Rightarrow> string \<Rightarrow> string" where
  "requestUpgrade below dat expectedResource =
     (case readHeaders (requestLine below expectedResource) dat 0 [] of Accepted kv \<Rightarrow> getUpgrade kv | _ \<Rightarrow> [])"

definition status_for :: "string \<Rightarrow> socket_status" where
  "status_for upgrade = (if upgrade = ''tcp'' then ConnectedAsTCP else ConnectedAsWebSocket)"

definition hb_processHandshake ::
  "(string \<Rightarrow> bool option) \<Rightarrow> (string \<Rightarrow> string) \<Rightarrow> web_socket \<Rightarrow> (web_socket \<times> socket_event list) run" where
  "hb_processHandshake below base64Sha s =
     (case scan_header (header_view s) (ws_headerOffset s) of
        (False, off) \<Rightarrow> Some (Inr (header_incomplete off s))
      | (True, off) \<Rightarrow>
          (case mem_read (rb_bytes (ws_buffer s)) 0 off of
             None \<Rightarrow> Some (Inl MemoryFault)
           | Some bs \<Rightarrow>
               (case getResponse below base64Sha (text_of bs) WS_RESOURCE WS_PROTOCOL [13] of
                  Thrown \<Rightarrow> Some (Inl Uncaught)
                | OutOfBounds \<Rightarrow> Some (Inl MemoryFault)
                | Refused \<Rightarrow> Some (Inr (s\<lparr>ws_headerOffset := off\<rparr>, [Stopped]))
                | Accepted response \<Rightarrow>
                    Some (Inr (s\<lparr>ws_buffer := updateForDataRead off (ws_buffer s), ws_headerOffset := 0,
                                 ws_status := status_for (requestUpgrade below (text_of bs) WS_RESOURCE)\<rparr>,
                               [Sent (bytes_of response), OnOpen])))))"

text \<open>What an HB socket does with bytes once it is connected.\<close>

definition hb_readRawTCPMessages ::
  "(byte list \<Rightarrow> nat \<Rightarrow> nat option) \<Rightarrow> (byte list \<Rightarrow> nat \<Rightarrow> nat \<Rightarrow> byte list option) \<Rightarrow> nat \<Rightarrow>
     web_socket \<Rightarrow> (web_socket \<times> socket_event list) run" where
  "hb_readRawTCPMessages readHeader readMessage headerSize s =
     (case rb_readMessages readHeader readMessage headerSize (ws_buffer s) of
        None \<Rightarrow> None
      | Some (Inl f) \<Rightarrow> Some (Inl f)
      | Some (Inr (rb, es)) \<Rightarrow> Some (Inr (s\<lparr>ws_buffer := rb\<rparr>, map DataEvent es)))"

definition hb_readConnected ::
  "(byte list \<Rightarrow> nat \<Rightarrow> nat option) \<Rightarrow> (byte list \<Rightarrow> nat \<Rightarrow> nat \<Rightarrow> byte list option) \<Rightarrow> nat \<Rightarrow>
     web_socket \<Rightarrow> (web_socket \<times> socket_event list) run" where
  "hb_readConnected readHeader readMessage headerSize s =
     (if ws_status s = ConnectedAsTCP then hb_readRawTCPMessages readHeader readMessage headerSize s
      else if ws_status s = ConnectedAsWebSocket then ws_readFrames s
      else Some (Inr (s, [Stopped])))"

text \<open>\<open>readMessages\<close>: first the handshake, as long as the socket is connecting.\<close>

definition hb_readMessages ::
  "(web_socket \<Rightarrow> (web_socket \<times> socket_event list) run) \<Rightarrow>
     (web_socket \<Rightarrow> (web_socket \<times> socket_event list) run) \<Rightarrow> web_socket \<Rightarrow> (web_socket \<times> socket_event list) run" where
  "hb_readMessages processHandshake readConnected s =
     (if ws_status s = Connecting then
        (case processHandshake s of
           None \<Rightarrow> None
         | Some (Inl f) \<Rightarrow> Some (Inl f)
         | Some (Inr (s1, es1)) \<Rightarrow>
             if ws_status s1 = Connecting then Some (Inr (s1, es1))
             else (case readConnected s1 of
               None \<Rightarrow> None
             | Some (Inl f) \<Rightarrow> Some (Inl f)
             | Some (Inr (s2, es2)) \<Rightarrow> Some (Inr (s2, es1 @ es2))))
      else readConnected s)"

definition HBDataSocket :: "nat \<Rightarrow> web_socket" where
  "HBDataSocket maxMessageSize = web_socket_new (HB_BUFFER_SIZE maxMessageSize) maxMessageSize"

definition HBDataSocket_Receive ::
  "(string \<Rightarrow> bool option) \<Rightarrow> (string \<Rightarrow> string) \<Rightarrow>
     (byte list \<Rightarrow> nat \<Rightarrow> nat option) \<Rightarrow> (byte list \<Rightarrow> nat \<Rightarrow> nat \<Rightarrow> byte list option) \<Rightarrow> nat \<Rightarrow> nat \<Rightarrow>
     recv_result list \<Rightarrow> web_socket \<Rightarrow> (bool \<times> web_socket \<times> socket_event list) run" where
  "HBDataSocket_Receive below base64Sha readHeader readMessage headerSize maxMessageSize =
     receive readDataSocket
       (socket_on_bytes
         (hb_readMessages (hb_processHandshake below base64Sha) (hb_readConnected readHeader readMessage headerSize))
         (HB_BUFFER_SIZE maxMessageSize))"

text \<open>
  \<open>sendMsg\<close>: nothing before the handshake is complete; the second component is what \<open>send\<close>
  is given, in order. A server does not mask, a client does.
\<close>

definition hb_sendMsg ::
  "(nat \<Rightarrow> u32) \<Rightarrow> bool \<Rightarrow> nat \<Rightarrow> opcode \<Rightarrow> byte list \<Rightarrow> nat \<Rightarrow> web_socket \<Rightarrow> (byte list list \<times> byte list \<times> nat) option" where
  "hb_sendMsg rnd mustMask maxMessageSize op buffer len s =
     (if ws_status s = ConnectedAsTCP then Some ([take len buffer], buffer, len)
      else if ws_status s = ConnectedAsWebSocket then sendMsg rnd mustMask maxMessageSize op buffer len
      else Some ([], buffer, 0))"

section \<open>HBSocketClient\<close>

text \<open>\<open>startHandshake\<close> sends the request for the key it has generated and stored.\<close>

definition startHandshake :: "request_info \<Rightarrow> string \<Rightarrow> byte list" where
  "startHandshake info key = bytes_of (createHandShakeRequest info key)"

definition HBSocketClient :: "nat \<Rightarrow> web_socket" where
  "HBSocketClient maxMessageSize = web_socket_new (HB_BUFFER_SIZE maxMessageSize) maxMessageSize"

definition hb_processServerReply ::
  "(string \<Rightarrow> bool option) \<Rightarrow> (string \<Rightarrow> string) \<Rightarrow> string \<Rightarrow> web_socket \<Rightarrow> (web_socket \<times> socket_event list) run" where
  "hb_processServerReply below base64Sha key s =
     (case scan_header (header_view s) (ws_headerOffset s) of
        (False, off) \<Rightarrow> Some (Inr (header_incomplete off s))
      | (True, off) \<Rightarrow>
          (case mem_read (rb_bytes (ws_buffer s)) 0 off of
             None \<Rightarrow> Some (Inl MemoryFault)
           | Some bs \<Rightarrow>
               (case readServerResponse below base64Sha (text_of bs) key of
                  Thrown \<Rightarrow> Some (Inl Uncaught)
                | OutOfBounds \<Rightarrow> Some (Inl MemoryFault)
                | Refused \<Rightarrow> Some (Inr (s\<lparr>ws_headerOffset := off\<rparr>, [Stopped]))
                | Accepted kv \<Rightarrow>
                    Some (Inr (s\<lparr>ws_buffer := updateForDataRead off (ws_buffer s), ws_headerOffset := 0,
                                 ws_status := status_for (getUpgrade kv)\<rparr>, [OnOpen])))))"

text \<open>What a client does with bytes once it is connected, in a copy of its own of the server's code.\<close>

definition hbc_readRawTCPMessages ::
  "(byte list \<Rightarrow> nat \<Rightarrow> nat option) \<Rightarrow> (byte list \<Rightarrow> nat \<Rightarrow> nat \<Rightarrow> byte list option) \<Rightarrow> nat \<Rightarrow>
     web_socket \<Rightarrow> (web_socket \<times> socket_event list) run" where
  "hbc_readRawTCPMessages readHeader readMessage headerSize s =
     (case rb_readMessages readHeader readMessage headerSize (ws_buffer s) of
        None \<Rightarrow> None
      | Some (Inl f) \<Rightarrow> Some (Inl f)
      | Some (Inr (rb, es)) \<Rightarrow> Some (Inr (s\<lparr>ws_buffer := rb\<rparr>, map DataEvent es)))"

definition hbc_readConnected ::
  "(byte list \<Rightarrow> nat \<Rightarrow> nat option) \<Rightarrow> (byte list \<Rightarrow> nat \<Rightarrow> nat \<Rightarrow> byte list option) \<Rightarrow> nat \<Rightarrow>
     web_socket \<Rightarrow> (web_socket \<times> socket_event list) run" where
  "hbc_readConnected readHeader readMessage headerSize s =
     (if ws_status s = ConnectedAsTCP then hbc_readRawTCPMessages readHeader readMessage headerSize s
      else if ws_status s = ConnectedAsWebSocket then ws_readFrames s
      else Some (Inr (s, [Stopped])))"

definition hbc_readMessages ::
  "(string \<Rightarrow> bool option) \<Rightarrow> (string \<Rightarrow> string) \<Rightarrow> string \<Rightarrow>
     (byte list \<Rightarrow> nat \<Rightarrow> nat option) \<Rightarrow> (byte list \<Rightarrow> nat \<Rightarrow> nat \<Rightarrow> byte list option) \<Rightarrow> nat \<Rightarrow>
     web_socket \<Rightarrow> (web_socket \<times> socket_event list) run" where
  "hbc_readMessages below base64Sha key readHeader readMessage headerSize s =
     (if ws_status s = Connecting then
        (case hb_processServerReply below base64Sha key s of
           None \<Rightarrow> None
         | Some (Inl f) \<Rightarrow> Some (Inl f)
         | Some (Inr (s1, es1)) \<Rightarrow>
             if ws_status s1 = Connecting then Some (Inr (s1, es1))
             else (case hbc_readConnected readHeader readMessage headerSize s1 of
               None \<Rightarrow> None
             | Some (Inl f) \<Rightarrow> Some (Inl f)
             | Some (Inr (s2, es2)) \<Rightarrow> Some (Inr (s2, es1 @ es2))))
      else hbc_readConnected readHeader readMessage headerSize s)"

lemma hbc_readConnected_same: "hbc_readConnected rh rm hs = hb_readConnected rh rm hs"
  by (rule ext) (simp add: hbc_readConnected_def hb_readConnected_def hbc_readRawTCPMessages_def hb_readRawTCPMessages_def)

lemma hbc_readMessages_same:
  "hbc_readMessages below base64Sha key rh rm hs =
     hb_readMessages (hb_processServerReply below base64Sha key) (hb_readConnected rh rm hs)"
  by (rule ext, unfold hbc_readMessages_def hb_readMessages_def hbc_readConnected_same) (rule refl)

definition HBSocketClient_Receive ::
  "(string \<Rightarrow> bool option) \<Rightarrow> (string \<Rightarrow> string) \<Rightarrow> string \<Rightarrow>
     (byte list \<Rightarrow> nat \<Rightarrow> nat option) \<Rightarrow> (byte list \<Rightarrow> nat \<Rightarrow> nat \<Rightarrow> byte list option) \<Rightarrow> nat \<Rightarrow> nat \<Rightarrow>
     recv_result list \<Rightarrow> web_socket \<Rightarrow> (bool \<times> web_socket \<times> socket_event list) run" where
  "HBSocketClient_Receive below base64Sha key readHeader readMessage headerSize maxMessageSize =
     receive readDataSocket
       (socket_on_bytes
         (hbc_readMessages below base64Sha key readHeader readMessage headerSize)
         (HB_BUFFER_SIZE maxMessageSize))"

end
