(* ===== verification/Lu_Web_Socket_Correct.thy ===== *)
theory Lu_Web_Socket_Correct
  imports Lu_Web_Socket
begin

text \<open>
  What the sockets with a handshake guarantee: a client and a server that open a session agree
  on its protocol, and the frames behind the request are delivered. The handshake, the frames
  and the receive buffer enter through their own lemmas.
\<close>

section \<open>A socket that holds its first bytes\<close>

definition filled :: "nat \<Rightarrow> nat \<Rightarrow> byte list \<Rightarrow> web_socket" where
  "filled n m bs =
     \<lparr>ws_buffer = \<lparr>rb_bytes = bs @ replicate (n - length bs) 0, rb_readOffset = 0, rb_leftToRead = length bs, rb_leftToRecv = n\<rparr>,
      ws_status = Connecting, ws_frame = Frame m, ws_headerOffset = 0\<rparr>"

lemma filled_fields [simp]:
  "ws_status (filled n m bs) = Connecting" "ws_frame (filled n m bs) = Frame m" "ws_headerOffset (filled n m bs) = 0"
  "rb_readOffset (ws_buffer (filled n m bs)) = 0" "rb_leftToRead (ws_buffer (filled n m bs)) = length bs"
  "rb_bytes (ws_buffer (filled n m bs)) = bs @ replicate (n - length bs) 0"
  by (simp_all add: filled_def)

lemma socket_on_bytes_new:
  "length bs \<le> n \<Longrightarrow> socket_on_bytes readMsgs n bs (web_socket_new n m) =
     (case readMsgs (filled n m bs) of
        None \<Rightarrow> None
      | Some (Inl f) \<Rightarrow> Some (Inl f)
      | Some (Inr (s', es)) \<Rightarrow> Some (Inr (s'\<lparr>ws_buffer := rb_compact n (n div 4) (ws_buffer s')\<rparr>, es)))"
  by (simp add: socket_on_bytes_def web_socket_new_def rb_fill_new filled_def)

lemma header_view_filled: "header_view (filled n m bs) = text_of bs"
  by (simp add: header_view_def slice_of_def)

lemma scan_header_block:
  assumes "\<forall>l \<in> set ls. line_ok l" "drop n s = block ls @ r" "n \<le> length s"
  shows "scan_header s n = (True, n + length (block ls))"
  using assms
proof (induction ls arbitrary: n)
  case Nil
  then have "find_sub CRLF s n = Some n"
    by (simp add: find_sub_def block_def find_from_prefix is_prefix_of_iff)
  then show ?case by (simp add: scan_header.simps block_def CRLF_def)
next
  case (Cons l ls)
  have d: "drop n s = l @ CRLF @ block ls @ r" using Cons.prems(2) by (simp add: block_Cons)
  have l: "line_ok l" using Cons.prems(1) by simp
  note f = find_crlf [OF l d Cons.prems(3)]
  have "scan_header s (n + length l + 2) = (True, n + length l + 2 + length (block ls))"
    using Cons.IH [OF _ drop_line [OF d Cons.prems(3)]] Cons.prems(1) by simp
  with f l show ?case
    by (subst scan_header.simps) (auto simp: line_ok_def block_Cons CRLF_def add.commute add.left_commute)
qed

lemma scan_filled:
  assumes "\<forall>l \<in> set ls. line_ok l" "bs = bytes_of (block ls) @ rest"
  shows "scan_header (header_view (filled n m bs)) 0 = (True, length (block ls))"
    and "mem_read (rb_bytes (ws_buffer (filled n m bs))) 0 (length (block ls)) = Some (bytes_of (block ls))"
proof -
  show "scan_header (header_view (filled n m bs)) 0 = (True, length (block ls))"
    using scan_header_block [OF assms(1), of 0 "text_of bs" "text_of rest"] assms(2) by (simp add: header_view_filled)
  show "mem_read (rb_bytes (ws_buffer (filled n m bs))) 0 (length (block ls)) = Some (bytes_of (block ls))"
    using assms(2) by (simp add: mem_read_def slice_of_def)
qed

section \<open>Reading frames from the window\<close>

definition consumed :: "web_socket \<Rightarrow> bool" where
  "consumed s \<longleftrightarrow> rb_leftToRead (ws_buffer s) = 0"

lemma ws_readFrames_stream:
  assumes bytes: "rb_bytes (ws_buffer s) = p @ concat (map encode_frame ws) @ z"
    and win: "rb_readOffset (ws_buffer s) = length p" "rb_leftToRead (ws_buffer s) = length (concat (map encode_frame ws))"
    and frame: "ws_frame s = Frame m" "m < 2 ^ 63" "\<forall>w \<in> set ws. deliverable m w"
    and small: "length (rb_bytes (ws_buffer s)) < 2 ^ 32"
  shows "\<exists>s'. ws_readFrames s = Some (Inr (s', map FrameEvent (concat (map frame_events ws)))) \<and> consumed s'
     \<and> ws_status s' = ws_status s \<and> length (rb_bytes (ws_buffer s')) = length (rb_bytes (ws_buffer s))"
proof -
  let ?fs = "concat (map encode_frame ws)"
  let ?sd = "\<lparr>sd_data = ?fs @ z, sd_length = length ?fs, sd_readOffset = 0\<rparr>"
  have len: "length ?fs < 2 ^ 32" using small bytes by simp
  have wf: "sd_wf ?sd" "unread ?sd = ?fs"
    using len by (simp_all add: sd_wf_def unread_def slice_of_def)
  from processMessage_refines [OF Frame_entry [OF frame(2)] wf(1)] obtain sd' where
    p: "processMessage ?sd (Frame m) = Some (sd', snd (process_spec ?fs (Frame m)))"
    "unread sd' = fst (process_spec ?fs (Frame m))" "sd_wf sd'" "sd_follows ?sd sd'"
    using wf(2) by auto
  note spec = process_spec_stream [OF frame(3), of "Frame m"] process_spec_stream_open [OF frame(3), of "Frame m"]
  have op: "m_opCode (Frame m) \<noteq> Close" by (simp add: Frame_def)
  have "sd_readOffset sd' = length ?fs"
    using p spec length_unread [OF p(3)] by (simp add: sd_follows_def sd_wf_def)
  with p spec op len bytes win frame(1) show ?thesis
    by (cases "process_spec ?fs (Frame m)")
       (auto simp: ws_readFrames_def Let_def consumed_def updateForDataRead_def sd_follows_def)
qed

lemma compact_consumed:
  "consumed s \<Longrightarrow> rb_pending (rb_compact n k (ws_buffer s)) = []
     \<and> (length (rb_bytes (ws_buffer s)) = n \<and> 0 < n \<longrightarrow> rb_ok n (rb_compact n k (ws_buffer s)))"
  by (simp add: consumed_def rb_compact_def rb_pending_def rb_ok_def)

section \<open>WebSocket\<close>

text \<open>
  C26. A \<open>WebSocket\<close> server opens and serves: the first read of a connection, which fits into the
  buffer, may hold the request of a client for this server's resource and protocol followed
  by frames; the server answers the request, calls \<open>onOpen\<close>, delivers every frame's event in
  order, and is left connected with its whole buffer free. The frames are those that the
  server takes (\<open>deliverable m\<close>): control frames of up to 125 bytes and unfragmented data
  messages of up to its maximum \<open>m\<close>, without a length above \<open>0xFFFF\<close> that has bit 15 set.
\<close>

theorem WebSocket_serves:
  assumes "info_ok info WS_PROTOCOL" "ri_resourceName info = WS_RESOURCE" "text_ok key" "below ''1.1'' = Some False"
    and "\<forall>w \<in> set ws. deliverable m w" "m < 2 ^ 63"
    and "bs = bytes_of (createHandShakeRequest info key) @ concat (map encode_frame ws)" "length bs \<le> WS_BUFFER_SIZE"
  shows "\<exists>s. WebSocket_Receive below base64Sha [Received bs, RecvError EAGAIN] (WebSocket m) =
           Some (Inr (True, s, [Sent (bytes_of (server_answer base64Sha info key WS_PROTOCOL)), OnOpen] @
                      map FrameEvent (concat (map frame_events ws))))
         \<and> ws_status s = Connected \<and> rb_ok WS_BUFFER_SIZE (ws_buffer s) \<and> rb_pending (ws_buffer s) = []"
proof -
  let ?n = WS_BUFFER_SIZE
  let ?req = "createHandShakeRequest info key" and ?ans = "server_answer base64Sha info key WS_PROTOCOL"
  let ?s1 = "(filled ?n m bs)\<lparr>ws_buffer := updateForDataRead (length ?req) (ws_buffer (filled ?n m bs)),
      ws_headerOffset := 0, ws_status := Connected\<rparr>"
  have scan: "scan_header (header_view (filled ?n m bs)) 0 = (True, length ?req)"
      "mem_read (rb_bytes (ws_buffer (filled ?n m bs))) 0 (length ?req) = Some (bytes_of ?req)"
    using scan_filled [OF request_lines [OF assms(1,3)]] assms(7) by (simp_all add: createHandShakeRequest_block)
  have "getResponse below base64Sha ?req WS_RESOURCE WS_PROTOCOL [13] = Accepted ?ans"
    using server_answers [of info WS_PROTOCOL key below "[13]" base64Sha] assms(1-4) by simp
  with scan have shake: "ws_processHandshake below base64Sha (filled ?n m bs) = Some (Inr (?s1, [Sent (bytes_of ?ans), OnOpen]))"
    by (simp add: ws_processHandshake_def)
  have "?n < 2 ^ 32" by (simp add: WS_BUFFER_SIZE_def)
  with assms(5-8) obtain s2 where
    s2: "ws_readFrames ?s1 = Some (Inr (s2, map FrameEvent (concat (map frame_events ws))))" "consumed s2"
      "ws_status s2 = Connected" "length (rb_bytes (ws_buffer s2)) = ?n"
    using ws_readFrames_stream [of ?s1 "bytes_of ?req" ws "replicate (?n - length bs) 0" m]
    by (auto simp: updateForDataRead_def)
  have "0 < ?n" by (simp add: WS_BUFFER_SIZE_def)
  with s2 shake compact_consumed [OF s2(2), of ?n "?n div 4"] assms(7,8) show ?thesis
    by (simp add: WebSocket_Receive_def WebSocket_def readDataSocket_def socket_on_bytes_new ws_readMessages_def
        createHandShakeRequest_def)
qed

section \<open>HBDataSocket and HBSocketClient\<close>

text \<open>Once it is connected, an HB socket with nothing left to read has nothing to do.\<close>

lemma hb_readConnected_idle:
  assumes "rb_leftToRead (ws_buffer s) = 0" "ws_status s \<in> {ConnectedAsTCP, ConnectedAsWebSocket}"
    and "ws_frame s = Frame m" "m < 2 ^ 63" "0 < headerSize"
    and "rb_readOffset (ws_buffer s) \<le> length (rb_bytes (ws_buffer s))" "length (rb_bytes (ws_buffer s)) < 2 ^ 32"
  shows "\<exists>s'. hb_readConnected readHeader readMessage headerSize s = Some (Inr (s', [])) \<and> consumed s'
     \<and> ws_status s' = ws_status s \<and> length (rb_bytes (ws_buffer s')) = length (rb_bytes (ws_buffer s))"
proof (cases "ws_status s = ConnectedAsTCP")
  case True
  then have "hb_readConnected readHeader readMessage headerSize s =
      Some (Inr (s\<lparr>ws_buffer := (ws_buffer s)\<lparr>rb_readOffset := rb_readOffset (ws_buffer s), rb_leftToRead := 0\<rparr>\<rparr>, []))"
    using assms by (simp add: hb_readConnected_def hb_readRawTCPMessages_def rb_readMessages_def readMessages.simps)
  with assms(1) show ?thesis by (simp add: consumed_def)
next
  case False
  let ?off = "rb_readOffset (ws_buffer s)"
  from ws_readFrames_stream [of s "take ?off (rb_bytes (ws_buffer s))" "[]" "drop ?off (rb_bytes (ws_buffer s))" m]
  obtain s' where "ws_readFrames s = Some (Inr (s', []))" "consumed s'" "ws_status s' = ws_status s"
    "length (rb_bytes (ws_buffer s')) = length (rb_bytes (ws_buffer s))"
    using assms by auto
  with False assms(2) show ?thesis by (auto simp: hb_readConnected_def)
qed

lemma hb_opens:
  assumes shake: "processHandshake (filled n m bs) = Some (Inr ((filled n m bs)\<lparr>
        ws_buffer := updateForDataRead (length bs) (ws_buffer (filled n m bs)), ws_headerOffset := 0, ws_status := st\<rparr>, es))"
    and "st \<in> {ConnectedAsTCP, ConnectedAsWebSocket}" "bs \<noteq> []" "length bs \<le> n" "n < 2 ^ 32" "m < 2 ^ 63" "0 < headerSize"
  shows "\<exists>s. receive readDataSocket
        (socket_on_bytes (hb_readMessages processHandshake (hb_readConnected readHeader readMessage headerSize)) n)
        [Received bs, RecvError EAGAIN] (web_socket_new n m) = Some (Inr (True, s, es))
     \<and> ws_status s = st \<and> rb_ok n (ws_buffer s) \<and> rb_pending (ws_buffer s) = []"
proof -
  let ?s1 = "(filled n m bs)\<lparr>ws_buffer := updateForDataRead (length bs) (ws_buffer (filled n m bs)),
      ws_headerOffset := 0, ws_status := st\<rparr>"
  obtain s2 where s2: "hb_readConnected readHeader readMessage headerSize ?s1 = Some (Inr (s2, []))" "consumed s2"
      "ws_status s2 = st" "length (rb_bytes (ws_buffer s2)) = n"
    using hb_readConnected_idle [of ?s1 m headerSize readHeader readMessage] assms
    by (auto simp: updateForDataRead_def)
  have "st \<noteq> Connecting" "0 < n" using assms(2-4) by (auto intro: Nat.gr0I)
  with s2 shake compact_consumed [OF s2(2), of n "n div 4"] assms(3,4) show ?thesis
    by (simp add: readDataSocket_def socket_on_bytes_new hb_readMessages_def)
qed

lemma status_for_connected: "status_for u \<in> {ConnectedAsTCP, ConnectedAsWebSocket}"
  by (simp add: status_for_def)

lemma requestUpgrade_sent:
  assumes "info_ok info supported" "text_ok key" "below ''1.1'' = Some False"
  shows "requestUpgrade below (createHandShakeRequest info key) (ri_resourceName info) = asked_upgrade info"
  using request_headers [of info supported key below] assms by (auto simp: requestUpgrade_def getUpgrade_def)

lemma float_round_small: "n < 2 ^ 24 \<Longrightarrow> float_round n = n"
  by (simp add: float_round_def float_exp.simps)

lemma float_exp_bits: "2 ^ 24 \<le> n \<Longrightarrow> 2 ^ 23 * 2 ^ float_exp n \<le> n"
proof (induction n rule: float_exp.induct)
  case (1 n)
  then have e: "float_exp n = Suc (float_exp (n div 2))" by (simp add: float_exp.simps [of n])
  show ?case
  proof (cases "n div 2 < 2 ^ 24")
    case True
    then have "float_exp (n div 2) = 0" by (simp add: float_exp.simps [of "n div 2"])
    with e 1 show ?thesis by simp
  next
    case False
    with 1 e show ?thesis by simp
  qed
qed

lemma float_round_bound: "2 ^ 23 * float_round n \<le> (2 ^ 23 + 1) * n"
proof (cases "n < 2 ^ 24")
  case False
  define u :: nat where "u = 2 ^ float_exp n"
  have "float_round n \<le> (n div u + 1) * u" by (simp add: float_round_def u_def Let_def)
  also have "\<dots> \<le> n + u" using div_mult_mod_eq [of n u] by (simp add: algebra_simps)
  finally have "2 ^ 23 * float_round n \<le> 2 ^ 23 * n + 2 ^ 23 * u" by (metis mult_le_mono2 distrib_left)
  also have "\<dots> \<le> 2 ^ 23 * n + n" using float_exp_bits [of n] False by (simp add: u_def)
  finally show ?thesis by simp
qed (simp add: float_round_small)

lemma HB_BUFFER_SIZE_bound:
  assumes "m < 2 ^ 31"
  shows "HB_BUFFER_SIZE m < 2 ^ 32 \<and> m < 2 ^ 63"
proof -
  have "2 ^ 23 * float_round m \<le> (2 ^ 23 + 1) * 2 ^ 31"
    using float_round_bound [of m] assms by simp
  then have "5 * float_round m \<le> 5 * (2 ^ 31 + 2 ^ 8)" by simp
  with float_round_bound [of "5 * float_round m"]
  have "2 ^ 23 * float_round (5 * float_round m) \<le> (2 ^ 23 + 1) * (5 * (2 ^ 31 + 2 ^ 8))" by simp
  then have "float_round (5 * float_round m) div 4 < 2 ^ 32" by simp
  with assms show ?thesis by (simp add: HB_BUFFER_SIZE_def)
qed

text \<open>Up to \<open>2^21\<close> the size is exactly five quarters; just above \<open>2^24\<close> it is not.\<close>

lemma HB_BUFFER_SIZE_exact: "m < 2 ^ 21 \<Longrightarrow> HB_BUFFER_SIZE m = max (5 * m div 4) 6000"
  by (simp add: HB_BUFFER_SIZE_def float_round_small)

lemma HB_BUFFER_SIZE_rounds: "HB_BUFFER_SIZE 16777217 = 20971520"
  by (simp add: HB_BUFFER_SIZE_def float_round_def float_exp.simps Let_def)

lemma hb_server_opens:
  assumes "info_ok info WS_PROTOCOL" "ri_resourceName info = WS_RESOURCE" "text_ok key" "below ''1.1'' = Some False"
    and "length (startHandshake info key) \<le> HB_BUFFER_SIZE m" "m < 2 ^ 31" "0 < headerSize"
  shows "\<exists>srv. HBDataSocket_Receive below base64Sha rh rm headerSize m [Received (startHandshake info key), RecvError EAGAIN]
       (HBDataSocket m) = Some (Inr (True, srv, [Sent (bytes_of (server_answer base64Sha info key WS_PROTOCOL)), OnOpen]))
     \<and> ws_status srv = status_for (asked_upgrade info) \<and> rb_pending (ws_buffer srv) = []"
proof -
  let ?n = "HB_BUFFER_SIZE m" and ?req = "createHandShakeRequest info key"
  have n: "?n < 2 ^ 32" "m < 2 ^ 63" using HB_BUFFER_SIZE_bound [OF assms(6)] by auto
  have scan: "scan_header (header_view (filled ?n m (bytes_of ?req))) 0 = (True, length ?req)"
      "mem_read (rb_bytes (ws_buffer (filled ?n m (bytes_of ?req)))) 0 (length ?req) = Some (bytes_of ?req)"
    using scan_filled [OF request_lines [OF assms(1,3)], of "bytes_of ?req" "[]"] by (simp_all add: createHandShakeRequest_block)
  have "getResponse below base64Sha ?req WS_RESOURCE WS_PROTOCOL [13] = Accepted (server_answer base64Sha info key WS_PROTOCOL)"
      "requestUpgrade below ?req WS_RESOURCE = asked_upgrade info"
    using server_answers [of info WS_PROTOCOL key below "[13]" base64Sha]
      requestUpgrade_sent [of info WS_PROTOCOL key below] assms(1-4) by simp_all
  with scan have shake: "hb_processHandshake below base64Sha (filled ?n m (bytes_of ?req)) =
      Some (Inr ((filled ?n m (bytes_of ?req))\<lparr>ws_buffer := updateForDataRead (length (bytes_of ?req)) (ws_buffer (filled ?n m (bytes_of ?req))),
        ws_headerOffset := 0, ws_status := status_for (asked_upgrade info)\<rparr>,
        [Sent (bytes_of (server_answer base64Sha info key WS_PROTOCOL)), OnOpen]))"
    by (simp add: hb_processHandshake_def)
  have "bytes_of ?req \<noteq> []" by (simp add: createHandShakeRequest_def)
  with hb_opens [where processHandshake = "hb_processHandshake below base64Sha" and readHeader = rh and readMessage = rm,
      OF shake status_for_connected _ _ n assms(7)] assms(5)
  show ?thesis by (auto simp: HBDataSocket_Receive_def HBDataSocket_def startHandshake_def)
qed

lemma hb_client_opens:
  assumes "info_ok info WS_PROTOCOL" "below ''1.1'' = Some False" "text_ok (getAcceptKey base64Sha key)"
    and "length (server_answer base64Sha info key WS_PROTOCOL) \<le> HB_BUFFER_SIZE m" "m < 2 ^ 31" "0 < headerSize"
  shows "\<exists>cli. HBSocketClient_Receive below base64Sha key rh rm headerSize m
       [Received (bytes_of (server_answer base64Sha info key WS_PROTOCOL)), RecvError EAGAIN] (HBSocketClient m)
         = Some (Inr (True, cli, [OnOpen]))
     \<and> ws_status cli = status_for (asked_upgrade info) \<and> rb_pending (ws_buffer cli) = []"
proof -
  let ?n = "HB_BUFFER_SIZE m" and ?ans = "server_answer base64Sha info key WS_PROTOCOL"
  have n: "?n < 2 ^ 32" "m < 2 ^ 63" using HB_BUFFER_SIZE_bound [OF assms(5)] by auto
  from server_answer_lines [OF assms(1,3)] obtain ls where ls: "?ans = block ls" "\<forall>l \<in> set ls. line_ok l" by blast
  have scan: "scan_header (header_view (filled ?n m (bytes_of ?ans))) 0 = (True, length ?ans)"
      "mem_read (rb_bytes (ws_buffer (filled ?n m (bytes_of ?ans)))) 0 (length ?ans) = Some (bytes_of ?ans)"
    using scan_filled [OF ls(2), of "bytes_of ?ans" "[]"] ls(1) by simp_all
  from client_accepts_answer [of info WS_PROTOCOL below base64Sha key] assms(1-3) obtain kv where
    "readServerResponse below base64Sha ?ans key = Accepted kv" "getUpgrade kv = asked_upgrade info" by blast
  with scan have shake: "hb_processServerReply below base64Sha key (filled ?n m (bytes_of ?ans)) =
      Some (Inr ((filled ?n m (bytes_of ?ans))\<lparr>ws_buffer := updateForDataRead (length (bytes_of ?ans)) (ws_buffer (filled ?n m (bytes_of ?ans))),
        ws_headerOffset := 0, ws_status := status_for (asked_upgrade info)\<rparr>, [OnOpen]))"
    by (simp add: hb_processServerReply_def)
  have "bytes_of ?ans \<noteq> []" using ls(1) by (simp add: block_def CRLF_def)
  with hb_opens [where processHandshake = "hb_processServerReply below base64Sha key" and readHeader = rh and readMessage = rm,
      OF shake status_for_connected _ _ n assms(6)] assms(4)
  show ?thesis by (auto simp: HBSocketClient_Receive_def HBSocketClient_def hbc_readMessages_same)
qed

text \<open>
  C25. A session opens, and both ends agree what it is: the server turns the request its first
  read holds into an answer and \<open>onOpen\<close>; the client, given that answer, opens too; and both are
  then in the mode the client asked for, WebSocket or plain TCP, with empty buffers.
\<close>

theorem hb_session_opens:
  assumes "info_ok info WS_PROTOCOL" "ri_resourceName info = WS_RESOURCE" "text_ok key"
    and "below ''1.1'' = Some False" "text_ok (getAcceptKey base64Sha key)"
    and "length (startHandshake info key) \<le> HB_BUFFER_SIZE m"
    and "length (server_answer base64Sha info key WS_PROTOCOL) \<le> HB_BUFFER_SIZE m'"
    and "m < 2 ^ 31" "m' < 2 ^ 31" "0 < headerSize" "0 < headerSize'"
  shows "\<exists>srv cli answer.
     HBDataSocket_Receive below base64Sha rh rm headerSize m [Received (startHandshake info key), RecvError EAGAIN]
       (HBDataSocket m) = Some (Inr (True, srv, [Sent answer, OnOpen]))
   \<and> HBSocketClient_Receive below base64Sha key rh' rm' headerSize' m' [Received answer, RecvError EAGAIN]
       (HBSocketClient m') = Some (Inr (True, cli, [OnOpen]))
   \<and> ws_status srv = status_for (asked_upgrade info) \<and> ws_status cli = ws_status srv
   \<and> rb_pending (ws_buffer srv) = [] \<and> rb_pending (ws_buffer cli) = []"
proof -
  from hb_server_opens [of info key below m headerSize base64Sha rh rm] assms obtain srv where
    "HBDataSocket_Receive below base64Sha rh rm headerSize m [Received (startHandshake info key), RecvError EAGAIN]
       (HBDataSocket m) = Some (Inr (True, srv, [Sent (bytes_of (server_answer base64Sha info key WS_PROTOCOL)), OnOpen]))"
      "ws_status srv = status_for (asked_upgrade info)" "rb_pending (ws_buffer srv) = []" by blast
  moreover from hb_client_opens [of info below base64Sha key m' headerSize' rh' rm'] assms obtain cli where
    "HBSocketClient_Receive below base64Sha key rh' rm' headerSize' m'
       [Received (bytes_of (server_answer base64Sha info key WS_PROTOCOL)), RecvError EAGAIN] (HBSocketClient m')
         = Some (Inr (True, cli, [OnOpen]))"
      "ws_status cli = status_for (asked_upgrade info)" "rb_pending (ws_buffer cli) = []" by blast
  ultimately show ?thesis by auto
qed

section \<open>Witnesses\<close>

definition sample_info :: "string \<Rightarrow> request_info" where
  "sample_info upgrade = \<lparr>ri_resourceName = ''/comms'', ri_host = ''h'', ri_upgrade = upgrade, ri_origin = [],
     ri_wsVersion = ''13'', ri_extensions = [], ri_protocols = [''LuBinary''], ri_headers = []\<rparr>"

lemma sample_info_ok:
  "upgrade \<in> {[], ''tcp''} \<Longrightarrow> info_ok (sample_info upgrade) WS_PROTOCOL \<and> ri_resourceName (sample_info upgrade) = WS_RESOURCE"
proof -
  have "clean '' '' ''/comms''" "clean '', '' ''LuBinary''" by code_simp+
  then show "upgrade \<in> {[], ''tcp''} \<Longrightarrow> ?thesis"
    by (auto simp: info_ok_def sample_info_def text_ok_def WS_PROTOCOL_def WS_RESOURCE_def)
qed

theorem WebSocket_serves_witness:
  "\<exists>s. WebSocket_Receive (\<lambda>_. Some False) id
        [Received (bytes_of (createHandShakeRequest (sample_info []) ''k'') @
           encode_frame \<lparr>wf_opCode = Text, wf_last = True, wf_key = 7, wf_payload = [72, 105]\<rparr>), RecvError EAGAIN]
        (WebSocket 10) =
      Some (Inr (True, s, [Sent (bytes_of (server_answer id (sample_info []) ''k'' WS_PROTOCOL)), OnOpen,
                           FrameEvent (ws_event.OnData [72, 105])])) \<and> ws_status s = Connected"
proof -
  let ?w = "\<lparr>wf_opCode = Text, wf_last = True, wf_key = 7, wf_payload = [72, 105]\<rparr>"
  let ?bs = "bytes_of (createHandShakeRequest (sample_info []) ''k'') @ concat (map encode_frame [?w])"
  have "\<forall>w \<in> set [?w]. deliverable 10 w"
    by (simp add: deliverable_def sendable_def isOpCodeReserved_def)
  moreover have "length ?bs \<le> WS_BUFFER_SIZE"
    by (simp add: encode_frame_def header_bytes_def createHandShakeRequest_def sample_info_def CRLF_def WS_BUFFER_SIZE_def)
  moreover have "frame_events ?w = [ws_event.OnData [72, 105]]" by (simp add: frame_events_def)
  ultimately show ?thesis
    using WebSocket_serves [of "sample_info []" "''k''" "\<lambda>_. Some False" "[?w]" 10 ?bs id] sample_info_ok [of "[]"]
    by (auto simp: text_ok_def)
qed

theorem hb_session_opens_witness:
  "\<exists>srv cli answer.
     HBDataSocket_Receive (\<lambda>_. Some False) id str_readHeader str_readMessage 4 100
       [Received (startHandshake (sample_info ''tcp'') ''k''), RecvError EAGAIN] (HBDataSocket 100) =
         Some (Inr (True, srv, [Sent answer, OnOpen]))
   \<and> HBSocketClient_Receive (\<lambda>_. Some False) id ''k'' str_readHeader str_readMessage 4 100
       [Received answer, RecvError EAGAIN] (HBSocketClient 100) = Some (Inr (True, cli, [OnOpen]))
   \<and> ws_status srv = ConnectedAsTCP \<and> ws_status cli = ConnectedAsTCP"
proof -
  have "length (startHandshake (sample_info ''tcp'') ''k'') \<le> HB_BUFFER_SIZE 100"
      "length (server_answer id (sample_info ''tcp'') ''k'' WS_PROTOCOL) \<le> HB_BUFFER_SIZE 100"
    by (simp_all add: startHandshake_def createHandShakeRequest_def sample_info_def CRLF_def HB_BUFFER_SIZE_def
        server_answer_def block_def)
  moreover have "text_ok ''k''" "text_ok (getAcceptKey id ''k'')" by (simp_all add: text_ok_def getAcceptKey_def)
  moreover have "status_for (asked_upgrade (sample_info ''tcp'')) = ConnectedAsTCP"
    by (simp add: status_for_def asked_upgrade_def sample_info_def)
  ultimately show ?thesis
    using hb_session_opens [of "sample_info ''tcp''" "''k''" "\<lambda>_. Some False" id 100 100 4 4
        str_readHeader str_readMessage str_readHeader str_readMessage] sample_info_ok [of "''tcp''"]
    by auto
qed

end
