(* ===== verification/Lu_Web_Socket_Split.thy ===== *)
theory Lu_Web_Socket_Split
  imports Lu_Web_Socket_Correct
begin

text \<open>
  What happens to a request that the kernel delivers in two reads: the offset of the header
  scan is applied to the view and again to the search, so the server never sees the end of
  the request where it is.
\<close>

section \<open>Reading a cut block\<close>

lemma find_crlf_cut:
  assumes "line_ok l" "drop n s = take j (l @ CRLF @ r)" "j < length l + 2"
  shows "find_sub CRLF s n = None"
proof (rule ccontr)
  assume "find_sub CRLF s n \<noteq> None"
  then obtain p where p: "find_from CRLF (drop n s) n = Some p"
    by (auto simp: find_sub_def split: if_splits)
  define i where "i = p - n"
  from find_from_Some [OF p] have at: "is_prefix_of CRLF (drop i (drop n s))" unfolding i_def by blast
  then obtain z where "drop i (drop n s) = CHR 0x0D # CHR 0x0A # z" by (auto simp: is_prefix_of_iff CRLF_def)
  then have cr: "drop n s ! i = CHR 0x0D" and i: "Suc i < length (drop n s)"
    by (metis Cons_nth_drop_Suc drop_all linorder_not_less list.discI list.inject)
       (metis \<open>drop i (drop n s) = CHR 0x0D # CHR 0x0A # z\<close> add.commute drop_drop drop_eq_Nil list.discI
          list.sel(3) not_less plus_1_eq_Suc tl_drop drop_Suc)
  have "length (drop n s) \<le> j" unfolding assms(2) by simp
  then have "i < length l" using i assms(3) by simp
  have "i < j" using i \<open>length (drop n s) \<le> j\<close> by simp
  then have "drop n s ! i = (l @ CRLF @ r) ! i" unfolding assms(2) by (rule nth_take)
  with cr \<open>i < length l\<close> have "l ! i = CHR 0x0D" by (simp add: nth_append)
  with \<open>i < length l\<close> assms(1) show False unfolding line_ok_def by (metis nth_mem)
qed

lemma block_Nil_cut: "drop n s = take j (block []) \<Longrightarrow> j < 2 \<Longrightarrow> find_sub CRLF s n = None"
proof (rule ccontr)
  assume cut: "drop n s = take j (block [])" "j < 2" and "find_sub CRLF s n \<noteq> None"
  then obtain p where "find_sub CRLF s n = Some p" by blast
  from find_sub_Some [OF this] have "2 \<le> length (drop n s)" by (auto simp: CRLF_def)
  with cut show False by simp
qed

text \<open>A line of a block that is cut behind it.\<close>

lemma take_block_Cons:
  "length l + 2 \<le> j \<Longrightarrow> take j (block (l # ls)) = l @ CRLF @ take (j - (length l + 2)) (block ls)"
  by (auto simp: block_Cons CRLF_def dest!: le_Suc_ex)

lemma readHeaders_cut:
  assumes "\<forall>l \<in> set ls. line_ok l" "drop n s = take j (block ls)" "j < length (block ls)" "n \<le> length s"
  shows "readHeaders first s n kv \<noteq> Accepted kv'"
  using assms
proof (induction ls arbitrary: n j kv)
  case Nil
  then have "find_sub CRLF s n = None" by (intro block_Nil_cut) (auto simp: block_def CRLF_def)
  then show ?case by (subst readHeaders.simps) simp
next
  case (Cons l ls)
  have l: "line_ok l" using Cons.prems(1) by simp
  show ?case
  proof (cases "j < length l + 2")
    case True
    with find_crlf_cut [OF l, of n s j "block ls"] Cons.prems(2) have "find_sub CRLF s n = None"
      by (simp add: block_Cons)
    then show ?thesis by (subst readHeaders.simps) simp
  next
    case False
    then have d: "drop n s = l @ CRLF @ take (j - (length l + 2)) (block ls)"
      using Cons.prems(2) take_block_Cons by simp
    note f = find_crlf [OF l d Cons.prems(4)] and nxt = drop_line [OF d Cons.prems(4)]
    have "j - (length l + 2) < length (block ls)"
      using Cons.prems(3) False by (simp add: block_Cons CRLF_def)
    with Cons.IH [OF _ nxt(1) _ nxt(2)] Cons.prems(1)
    have "readHeaders first s (n + length l + 2) kv1 \<noteq> Accepted kv'" for kv1 by simp
    moreover have "length l \<noteq> 0" using l by (simp add: line_ok_def)
    ultimately show ?thesis
      by (subst readHeaders.simps) (auto simp: f Let_def split: option.splits)
  qed
qed

lemma scan_header_cut:
  assumes "\<forall>l \<in> set ls. line_ok l" "drop n s = take j (block ls)" "j < length (block ls)" "n \<le> length s"
  shows "\<exists>off. scan_header s n = (False, off) \<and> n \<le> off \<and> (ls \<noteq> [] \<and> length (hd ls) + 2 \<le> j \<longrightarrow> n < off)"
  using assms
proof (induction ls arbitrary: n j)
  case Nil
  then have "find_sub CRLF s n = None" by (intro block_Nil_cut) (auto simp: block_def CRLF_def)
  then show ?case by (subst scan_header.simps) simp
next
  case (Cons l ls)
  have l: "line_ok l" using Cons.prems(1) by simp
  show ?case
  proof (cases "j < length l + 2")
    case True
    with find_crlf_cut [OF l, of n s j "block ls"] Cons.prems(2) have "find_sub CRLF s n = None"
      by (simp add: block_Cons)
    with True show ?thesis by (subst scan_header.simps) simp
  next
    case False
    then have d: "drop n s = l @ CRLF @ take (j - (length l + 2)) (block ls)"
      using Cons.prems(2) take_block_Cons by simp
    note f = find_crlf [OF l d Cons.prems(4)] and nxt = drop_line [OF d Cons.prems(4)]
    have "j - (length l + 2) < length (block ls)"
      using Cons.prems(3) False by (simp add: block_Cons CRLF_def)
    with Cons.IH [OF _ nxt(1) _ nxt(2)] Cons.prems(1) obtain off where
      "scan_header s (n + length l + 2) = (False, off)" "n + length l + 2 \<le> off" by auto
    moreover have "length l \<noteq> 0" using l by (simp add: line_ok_def)
    ultimately show ?thesis by (subst scan_header.simps) (auto simp: f)
  qed
qed

lemma scan_header_bound: "scan_header view off = (True, off') \<Longrightarrow> off' \<le> length view"
proof (induction view off rule: scan_header.induct)
  case (1 view off)
  then show ?case
    by (subst (asm) scan_header.simps) (auto simp: CRLF_def split: option.splits if_splits dest!: find_sub_Some)
qed

lemma getResponse_cut:
  assumes "\<forall>l \<in> set ls. line_ok l" "j < length (block ls)"
  shows "getResponse below base64Sha (take j (block ls)) res prot vs \<noteq> Accepted resp"
  using readHeaders_cut [OF assms(1), of 0 "take j (block ls)" j] assms(2)
  by (auto simp: getResponse_def split: outcome.splits)

section \<open>Two reads\<close>

text \<open>The socket after a first read that ends inside the header.\<close>

lemma hb_first_read:
  assumes "scan_header (text_of c1) 0 = (False, off)" "c1 \<noteq> []" "length c1 \<le> n"
  shows "\<exists>rb. socket_on_bytes (hb_readMessages (hb_processHandshake below base64Sha) rc) n c1 (web_socket_new n m) =
      Some (Inr ((filled n m c1)\<lparr>ws_buffer := rb, ws_headerOffset := off\<rparr>, []))
    \<and> rb_bytes rb = c1 @ replicate (n - length c1) 0 \<and> rb_readOffset rb = 0 \<and> rb_leftToRead rb = length c1"
proof -
  let ?rb = "rb_compact n (n div 4) (ws_buffer (filled n m c1))"
  have "rb_leftToRecv (ws_buffer (filled n m c1)) \<noteq> 0" using assms(2,3) by (cases c1) (auto simp: filled_def)
  with assms have "socket_on_bytes (hb_readMessages (hb_processHandshake below base64Sha) rc) n c1 (web_socket_new n m) =
      Some (Inr ((filled n m c1)\<lparr>ws_buffer := ?rb, ws_headerOffset := off\<rparr>, []))"
    by (simp add: socket_on_bytes_new hb_readMessages_def hb_processHandshake_def header_view_filled header_incomplete_def)
  moreover have "rb_bytes ?rb = c1 @ replicate (n - length c1) 0" "rb_readOffset ?rb = 0" "rb_leftToRead ?rb = length c1"
    by (auto simp: rb_compact_def overwrite_def slice_of_def)
  ultimately show ?thesis by blast
qed

lemma hb_second_read:
  assumes ls: "\<forall>l \<in> set ls. line_ok l" "c1 @ c2 = bytes_of (block ls)" and off: "0 < off"
    and s: "ws_status s = Connecting" "ws_headerOffset s = off" "rb_readOffset (ws_buffer s) = 0"
      "rb_leftToRead (ws_buffer s) = length c1" "rb_bytes (ws_buffer s) = c1 @ z"
    and run: "socket_on_bytes (hb_readMessages (hb_processHandshake below base64Sha) rc) n c2 s = Some (Inr (s', es))"
  shows "OnOpen \<notin> set es"
proof -
  have len: "length c1 + length c2 = length (block ls)" using arg_cong [OF ls(2), of length] by simp
  from run obtain rb where rb: "rb_fill c2 (ws_buffer s) = Some rb" by (auto simp: socket_on_bytes_def split: option.splits)
  then have "rb_bytes rb = c1 @ c2 @ drop (length c2) z" "rb_leftToRead rb = length c1 + length c2"
    using s(3-5) by (auto simp: rb_fill_def mem_write_def overwrite_def split: option.splits if_splits)
  with ls(2) len have bytes: "rb_bytes rb = bytes_of (block ls) @ drop (length c2) z" "rb_leftToRead rb = length (block ls)"
    by (simp_all flip: append_assoc)
  let ?s = "s\<lparr>ws_buffer := rb\<rparr>"
  have view: "length (header_view ?s) \<le> length (block ls) - off"
    using bytes s(2) by (simp add: header_view_def)
  have quiet: "ws_status s1 = Connecting \<and> OnOpen \<notin> set es1"
    if run1: "hb_processHandshake below base64Sha ?s = Some (Inr (s1, es1))" for s1 es1
  proof (cases "scan_header (header_view ?s) off")
    case (Pair found off')
    show ?thesis
    proof (cases found)
      case False
      with Pair run1 s(1,2) show ?thesis
        by (auto simp: hb_processHandshake_def header_incomplete_def)
    next
      case True
      with Pair scan_header_bound view have "off' \<le> length (block ls) - off" by fastforce
      moreover have "0 < length (block ls)" by (simp add: block_def CRLF_def)
      ultimately have short: "off' < length (block ls)" using off by linarith
      then have "mem_read (rb_bytes rb) 0 off' = Some (bytes_of (take off' (block ls)))"
        using bytes by (simp add: mem_read_def slice_of_def bytes_of_def take_map)
      with Pair True run1 s(1,2) getResponse_cut [OF ls(1) short] show ?thesis
        by (auto simp: hb_processHandshake_def split: outcome.splits)
    qed
  qed
  show ?thesis
    using run rb s(1) quiet
    by (auto simp: socket_on_bytes_def hb_readMessages_def split: option.splits sum.splits prod.splits if_splits)
qed

text \<open>
  A request in two reads never opens the session: if the first read holds the request's
  first line and the second the rest, then whatever the request asks, \<open>onOpen\<close> is not called.
  The view starts at the end of the lines already seen and the search skips that distance
  once more, so the server parses a truncated request or keeps waiting.
\<close>

theorem split_request_never_opens:
  assumes "\<forall>l \<in> set (line # ls). line_ok l" "c1 @ c2 = bytes_of (block (line # ls))" "c2 \<noteq> []"
    and "length line + 2 \<le> length c1" "length c1 \<le> HB_BUFFER_SIZE m"
  shows "\<nexists>alive s es. HBDataSocket_Receive below base64Sha rh rm headerSize m
           [Received c1, Received c2, RecvError EAGAIN] (HBDataSocket m) = Some (Inr (alive, s, es)) \<and> OnOpen \<in> set es"
proof (rule notI, elim exE conjE)
  fix alive s es
  let ?n = "HB_BUFFER_SIZE m"
  let ?step = "socket_on_bytes (hb_readMessages (hb_processHandshake below base64Sha) (hb_readConnected rh rm headerSize)) ?n"
  assume run: "HBDataSocket_Receive below base64Sha rh rm headerSize m
      [Received c1, Received c2, RecvError EAGAIN] (HBDataSocket m) = Some (Inr (alive, s, es))" and "OnOpen \<in> set es"
  have c1: "text_of c1 = take (length c1) (block (line # ls))"
    using arg_cong [OF assms(2), of "\<lambda>x. take (length c1) (text_of x)"] by simp
  have "length c1 + length c2 = length (block (line # ls))" "0 < length c2"
    using arg_cong [OF assms(2), of length] assms(3) by simp_all
  then have "length c1 < length (block (line # ls))" by linarith
  with scan_header_cut [OF assms(1), of 0 "text_of c1" "length c1"] c1 assms(4) obtain off where
    scan: "scan_header (text_of c1) 0 = (False, off)" "0 < off" by auto
  have ne: "c1 \<noteq> []" using assms(4) by auto
  from hb_first_read [OF scan(1) ne assms(5), of below base64Sha "hb_readConnected rh rm headerSize" m] obtain rb where
    one: "?step c1 (HBDataSocket m) = Some (Inr ((filled ?n m c1)\<lparr>ws_buffer := rb, ws_headerOffset := off\<rparr>, []))"
    and rb: "rb_bytes rb = c1 @ replicate (?n - length c1) 0" "rb_readOffset rb = 0" "rb_leftToRead rb = length c1"
    by (auto simp: HBDataSocket_def)
  let ?s1 = "(filled ?n m c1)\<lparr>ws_buffer := rb, ws_headerOffset := off\<rparr>"
  from run one ne assms(3) obtain s2 where two: "?step c2 ?s1 = Some (Inr (s2, es))"
    by (auto simp: HBDataSocket_Receive_def readDataSocket_def split: option.splits sum.splits prod.splits)
  from hb_second_read [OF assms(1,2) scan(2) _ _ _ _ _ two] rb have "OnOpen \<notin> set es" by simp
  with \<open>OnOpen \<in> set es\<close> show False by contradiction
qed

theorem split_request_never_opens_witness:
  "\<nexists>alive s es. HBDataSocket_Receive (\<lambda>_. Some False) id str_readHeader str_readMessage 4 100
      [Received (bytes_of (''GET /comms HTTP/1.1'' @ CRLF)), Received (bytes_of (''Upgrade: tcp'' @ CRLF @ CRLF)), RecvError EAGAIN]
      (HBDataSocket 100) = Some (Inr (alive, s, es)) \<and> OnOpen \<in> set es"
proof -
  let ?c1 = "bytes_of (''GET /comms HTTP/1.1'' @ CRLF)" and ?c2 = "bytes_of (''Upgrade: tcp'' @ CRLF @ CRLF)"
  have "?c1 @ ?c2 = bytes_of (block [''GET /comms HTTP/1.1'', ''Upgrade: tcp''])"
    by (simp add: bytes_of_def block_def)
  moreover have "\<forall>l \<in> set [''GET /comms HTTP/1.1'', ''Upgrade: tcp'']. line_ok l"
    by (simp add: line_ok_def)
  ultimately show ?thesis
    using split_request_never_opens [of "''GET /comms HTTP/1.1''" "[''Upgrade: tcp'']" ?c1 ?c2 100]
    by (simp add: CRLF_def HB_BUFFER_SIZE_def)
qed

end
