(* ===== verification/Lu_Event_Loop.thy ===== *)
theory Lu_Event_Loop
  imports Lu_Base_Socket Lu_Receive
begin

text \<open>
  \<open>FDEventLoop.cpp\<close> and \<open>FDTimer.h\<close>. The loop owns the data sockets added through a
  \<open>unique_ptr\<close> and only refers to the other handlers. Its state is the kernel's interest list
  (descriptor to the pointer registered with it), the live handler objects and the set of
  owned ones. What \<open>epoll_wait\<close> reports and what a handler's \<open>onEvent\<close> does (the handlers it
  adds, the value it returns) are arguments.
\<close>

section \<open>Handlers and the loop\<close>

type_synonym ptr = "64 word"

datatype handler_type = ServerSocketHandler | DataSocketHandler | TimerHandler | PipeHandler

record handler =
  h_fd :: int
  h_type :: handler_type

record event_loop =
  el_epollFD :: int
  el_stop :: bool
  el_handlers :: "ptr set"
  el_interest :: "int \<rightharpoonup> ptr"
  el_objects :: "ptr \<rightharpoonup> handler"

definition FDEventLoop :: event_loop where
  "FDEventLoop = \<lparr>el_epollFD = NULL_FD, el_stop = False, el_handlers = {}, el_interest = Map.empty, el_objects = Map.empty\<rparr>"

definition el_init :: "int \<Rightarrow> event_loop \<Rightarrow> bool \<times> event_loop" where
  "el_init fd el = (\<not> fd < 0, el\<lparr>el_epollFD := fd\<rparr>)"

text \<open>
  \<open>add(IFDEventHandler&)\<close>: \<open>nonblock\<close> and \<open>ctl\<close> say whether \<open>setToNonBlocking\<close> and
  \<open>EPOLL_CTL_ADD\<close> succeed; the latter fails with \<open>EEXIST\<close> for a registered descriptor. The
  assertion is that the handler has a descriptor.
\<close>

definition el_add :: "bool \<Rightarrow> bool \<Rightarrow> ptr \<Rightarrow> event_loop \<Rightarrow> fault + bool \<times> event_loop" where
  "el_add nonblock ctl p el =
     (case el_objects el p of
        None \<Rightarrow> Inl MemoryFault
      | Some h \<Rightarrow>
          if h_fd h = NULL_FD then Inl Aborted
          else if \<not> nonblock then Inr (False, el)
          else if \<not> ctl \<or> el_interest el (h_fd h) \<noteq> None then Inr (False, el)
          else Inr (True, el\<lparr>el_interest := (el_interest el)(h_fd h \<mapsto> p)\<rparr>))"

text \<open>
  Destroying a handler closes its descriptor, and the kernel drops a closed descriptor from
  the interest list.
\<close>

definition destroy_handler :: "ptr \<Rightarrow> event_loop \<Rightarrow> event_loop" where
  "destroy_handler p el =
     (case el_objects el p of
        None \<Rightarrow> el
      | Some h \<Rightarrow> el\<lparr>el_objects := (el_objects el)(p := None), el_interest := (el_interest el)(h_fd h := None)\<rparr>)"

text \<open>
  \<open>add(std::unique_ptr&&)\<close> of a new object: when it cannot be registered the pointer is not
  moved from, and the caller's \<open>unique_ptr\<close> destroys the object as it goes out of scope.
\<close>

definition el_add_owned :: "bool \<Rightarrow> bool \<Rightarrow> ptr \<Rightarrow> handler \<Rightarrow> event_loop \<Rightarrow> fault + bool \<times> event_loop" where
  "el_add_owned nonblock ctl p h el =
     (case el_add nonblock ctl p (el\<lparr>el_objects := (el_objects el)(p \<mapsto> h)\<rparr>) of
        Inl f \<Rightarrow> Inl f
      | Inr (ok, el) \<Rightarrow>
          if \<not> ok then Inr (False, destroy_handler p el)
          else Inr (p \<notin> el_handlers el, el\<lparr>el_handlers := insert p (el_handlers el)\<rparr>))"

definition el_remove :: "ptr \<Rightarrow> event_loop \<Rightarrow> fault + bool \<times> event_loop" where
  "el_remove p el =
     (case el_objects el p of
        None \<Rightarrow> Inl MemoryFault
      | Some h \<Rightarrow>
          if h_fd h = NULL_FD then Inl Aborted
          else Inr (el_interest el (h_fd h) \<noteq> None, el\<lparr>el_interest := (el_interest el)(h_fd h := None)\<rparr>))"

section \<open>One event\<close>

text \<open>
  What a handler does in \<open>onEvent\<close>: whether it closes its own descriptor and goes on (the listening
  socket, timers and pipes after \<open>EPOLLERR\<close>), the connections it adds (pointer, object, and
  whether the two system calls of \<open>add\<close> succeed), and the value it returns.
\<close>

record new_handler =
  nh_ptr :: ptr
  nh_object :: handler
  nh_nonblock :: bool
  nh_ctl :: bool

record reaction =
  re_closes :: bool
  re_adds :: "new_handler list"
  re_alive :: bool

fun add_all :: "new_handler list \<Rightarrow> event_loop \<Rightarrow> fault + event_loop" where
  "add_all [] el = Inr el"
| "add_all (n # ns) el =
     (case el_add_owned (nh_nonblock n) (nh_ctl n) (nh_ptr n) (nh_object n) el of
        Inl f \<Rightarrow> Inl f
      | Inr (_, el) \<Rightarrow> add_all ns el)"

text \<open>
  \<open>epoll_data\<close> is a union: \<open>events[i].data.fd\<close> is the low half of the pointer that was stored in
  \<open>data.ptr\<close>, so the descriptor passed to \<open>EPOLL_CTL_DEL\<close> is not the handler's.
\<close>

definition data_fd :: "ptr \<Rightarrow> int" where
  "data_fd p = sint (ucast p :: 32 word)"

definition close_own :: "ptr \<Rightarrow> handler \<Rightarrow> event_loop \<Rightarrow> event_loop" where
  "close_own p h el = el\<lparr>el_objects := (el_objects el)(p \<mapsto> h\<lparr>h_fd := NULL_FD\<rparr>), el_interest := (el_interest el)(h_fd h := None)\<rparr>"

definition handle_event :: "ptr \<Rightarrow> reaction \<Rightarrow> event_loop \<Rightarrow> fault + event_loop" where
  "handle_event p re el =
     (case el_objects el p of
        None \<Rightarrow> Inl MemoryFault
      | Some h \<Rightarrow>
          (case add_all (re_adds re) (if re_closes re then close_own p h el else el) of
             Inl f \<Rightarrow> Inl f
           | Inr el \<Rightarrow>
               if re_alive re then Inr el
               else let el = el\<lparr>el_interest := (el_interest el)(data_fd p := None)\<rparr> in
                 if h_type h = DataSocketHandler then
                   (if p \<notin> el_handlers el then Inl MemoryFault
                    else Inr (destroy_handler p (el\<lparr>el_handlers := el_handlers el - {p}\<rparr>)))
                 else Inr el))"

fun handle_batch :: "(ptr \<times> reaction) list \<Rightarrow> event_loop \<Rightarrow> fault + event_loop" where
  "handle_batch [] el = Inr el"
| "handle_batch ((p, re) # evs) el =
     (case handle_event p re el of Inl f \<Rightarrow> Inl f | Inr el \<Rightarrow> handle_batch evs el)"

section \<open>The loop\<close>

definition el_close :: "int \<Rightarrow> event_loop \<Rightarrow> event_loop" where
  "el_close ret el =
     (if el_epollFD el = - 1 then el else if ret = - 1 then el else el\<lparr>el_epollFD := NULL_FD\<rparr>)"

definition el_stop_request :: "event_loop \<Rightarrow> event_loop" where
  "el_stop_request el = el\<lparr>el_stop := True\<rparr>"

text \<open>
  \<open>start\<close>: a batch per \<open>epoll_wait\<close> (an error is an empty batch), and whether another thread has
  called \<open>stop\<close> by the time the batch has been handled. \<open>None\<close>: the loop is still waiting.
\<close>

fun el_start :: "((ptr \<times> reaction) list \<times> bool) list \<Rightarrow> int \<Rightarrow> event_loop \<Rightarrow> event_loop run" where
  "el_start [] ret el = None"
| "el_start ((evs, stop) # bs) ret el =
     (case handle_batch evs el of
        Inl f \<Rightarrow> Some (Inl f)
      | Inr el \<Rightarrow>
          let el = (if stop then el_stop_request el else el) in
          if el_stop el then Some (Inr (el_close ret el)) else el_start bs ret el)"

section \<open>FDTimer\<close>

record itimerspec =
  value_sec :: int
  value_nsec :: int
  interval_sec :: int
  interval_nsec :: int

definition timer_start :: "int \<Rightarrow> int \<Rightarrow> bool \<Rightarrow> itimerspec" where
  "timer_start intervalInSec interValInNonSec repeat =
     \<lparr>value_sec = intervalInSec, value_nsec = interValInNonSec,
      interval_sec = (if repeat then intervalInSec else 0), interval_nsec = (if repeat then interValInNonSec else 0)\<rparr>"

definition timer_stop :: itimerspec where
  "timer_stop = \<lparr>value_sec = 0, value_nsec = 0, interval_sec = 0, interval_nsec = 0\<rparr>"

text \<open>
  The kernel accepts a setting with its nanoseconds in range; one whose value is zero disarms
  the timer.
\<close>

definition timer_valid :: "itimerspec \<Rightarrow> bool" where
  "timer_valid t \<longleftrightarrow> 0 \<le> value_sec t \<and> 0 \<le> interval_sec t \<and> value_nsec t \<in> {0..<10 ^ 9} \<and> interval_nsec t \<in> {0..<10 ^ 9}"

definition timer_armed :: "itimerspec \<Rightarrow> bool" where
  "timer_armed t \<longleftrightarrow> value_sec t \<noteq> 0 \<or> value_nsec t \<noteq> 0"

text \<open>
  \<open>onEvent\<close>: whether the descriptor is kept, and whether \<open>onTimer\<close> is called; the handler is
  never dropped.
\<close>

definition timer_onEvent :: "32 word \<Rightarrow> bool \<Rightarrow> bool \<times> bool \<times> bool" where
  "timer_onEvent events read_ok =
     (if events AND EPOLLERR \<noteq> 0 then (True, False, False)
      else if events AND EPOLLIN = 0 then (True, True, False)
      else if \<not> read_ok then (True, True, False)
      else (True, True, True))"

section \<open>The loop refers to live objects only\<close>

text \<open>
  The invariant: every registered pointer is a live object that has that descriptor, and the
  owned handlers are live data sockets. It is what \<open>handle_event\<close> needs to be safe, if
  data sockets are owned.
\<close>

definition loop_ok :: "event_loop \<Rightarrow> bool" where
  "loop_ok el \<longleftrightarrow>
     (\<forall>fd p. el_interest el fd = Some p \<longrightarrow> (\<exists>h. el_objects el p = Some h \<and> h_fd h = fd))
   \<and> (\<forall>p h. el_objects el p = Some h \<longrightarrow> (h_type h = DataSocketHandler \<longleftrightarrow> p \<in> el_handlers el))
   \<and> el_handlers el \<subseteq> dom (el_objects el)"

lemma loop_okI:
  assumes "\<And>fd p. el_interest el fd = Some p \<Longrightarrow> \<exists>h. el_objects el p = Some h \<and> h_fd h = fd"
    and "\<And>p h. el_objects el p = Some h \<Longrightarrow> h_type h = DataSocketHandler \<longleftrightarrow> p \<in> el_handlers el"
    and "el_handlers el \<subseteq> dom (el_objects el)"
  shows "loop_ok el"
  using assms unfolding loop_ok_def by blast

text \<open>A new connection: its object is a data socket, at an address where nothing lives.\<close>

definition new_ok :: "event_loop \<Rightarrow> new_handler \<Rightarrow> bool" where
  "new_ok el n \<longleftrightarrow> h_type (nh_object n) = DataSocketHandler \<and> h_fd (nh_object n) \<noteq> NULL_FD
     \<and> el_objects el (nh_ptr n) = None \<and> (\<forall>h \<in> ran (el_objects el). h_fd h \<noteq> h_fd (nh_object n))"

lemma interest_live: "loop_ok el \<Longrightarrow> el_interest el fd = Some p \<Longrightarrow> \<exists>h. el_objects el p = Some h \<and> h_fd h = fd"
  by (auto simp: loop_ok_def)

lemma new_ok_unregistered:
  assumes "loop_ok el" "new_ok el n"
  shows "el_interest el (h_fd (nh_object n)) = None" "nh_ptr n \<notin> el_handlers el"
proof -
  show "el_interest el (h_fd (nh_object n)) = None"
  proof (rule ccontr)
    assume "el_interest el (h_fd (nh_object n)) \<noteq> None"
    with interest_live [OF assms(1)] obtain p h where "el_objects el p = Some h" "h_fd h = h_fd (nh_object n)" by blast
    with assms(2) show False by (auto simp: new_ok_def ran_def)
  qed
  show "nh_ptr n \<notin> el_handlers el" using assms by (auto simp: new_ok_def loop_ok_def)
qed

lemma el_add_owned_new:
  assumes "loop_ok el" "new_ok el n"
  shows "el_add_owned (nh_nonblock n) (nh_ctl n) (nh_ptr n) (nh_object n) el =
     Inr (if nh_nonblock n \<and> nh_ctl n
          then (True, el\<lparr>el_handlers := insert (nh_ptr n) (el_handlers el),
                         el_interest := (el_interest el)(h_fd (nh_object n) \<mapsto> nh_ptr n),
                         el_objects := (el_objects el)(nh_ptr n \<mapsto> nh_object n)\<rparr>)
          else (False, el))"
proof -
  have "(el_objects el)(nh_ptr n := None) = el_objects el"
    using assms(2) by (simp add: new_ok_def fun_upd_idem)
  moreover have "(el_interest el)(h_fd (nh_object n) := None) = el_interest el"
    using new_ok_unregistered(1) [OF assms] by (simp add: fun_upd_idem)
  ultimately show ?thesis
    using assms new_ok_unregistered [OF assms]
    by (simp add: el_add_owned_def el_add_def destroy_handler_def new_ok_def)
qed

lemma el_add_owned_ok:
  assumes "loop_ok el" "new_ok el n"
  obtains ok el' where "el_add_owned (nh_nonblock n) (nh_ctl n) (nh_ptr n) (nh_object n) el = Inr (ok, el')"
    "loop_ok el'" "el_objects el \<subseteq>\<^sub>m el_objects el'" "el_handlers el \<subseteq> el_handlers el'"
    "\<And>fd p. el_interest el fd = Some p \<Longrightarrow> el_interest el' fd = Some p" "el_stop el' = el_stop el"
proof (cases "nh_nonblock n \<and> nh_ctl n")
  case False
  then show thesis using assms el_add_owned_new [OF assms] that by auto
next
  case True
  let ?el = "el\<lparr>el_handlers := insert (nh_ptr n) (el_handlers el),
                 el_interest := (el_interest el)(h_fd (nh_object n) \<mapsto> nh_ptr n),
                 el_objects := (el_objects el)(nh_ptr n \<mapsto> nh_object n)\<rparr>"
  have fresh: "el_objects el (nh_ptr n) = None" "el_interest el (h_fd (nh_object n)) = None"
    using assms new_ok_unregistered [OF assms] by (auto simp: new_ok_def)
  have "loop_ok ?el"
  proof (rule loop_okI)
    fix fd p
    assume "el_interest ?el fd = Some p"
    then show "\<exists>h. el_objects ?el p = Some h \<and> h_fd h = fd"
      using interest_live [OF assms(1), of fd p] fresh by (auto split: if_splits)
  next
    fix p h
    assume "el_objects ?el p = Some h"
    then show "h_type h = DataSocketHandler \<longleftrightarrow> p \<in> el_handlers ?el"
      using assms by (cases "p = nh_ptr n") (auto simp: loop_ok_def new_ok_def)
  qed (use assms in \<open>auto simp: loop_ok_def\<close>)
  moreover have "el_objects el \<subseteq>\<^sub>m el_objects ?el" using fresh by (auto simp: map_le_def)
  moreover have "el_interest ?el fd = Some p" if "el_interest el fd = Some p" for fd p
    using that fresh by auto
  ultimately show thesis
    using that [of True ?el] True el_add_owned_new [OF assms] by auto
qed

text \<open>The connections one event adds are new one after the other.\<close>

fun news_ok :: "new_handler list \<Rightarrow> event_loop \<Rightarrow> bool" where
  "news_ok [] el = True"
| "news_ok (n # ns) el =
     (new_ok el n \<and>
      (case el_add_owned (nh_nonblock n) (nh_ctl n) (nh_ptr n) (nh_object n) el of
         Inl f \<Rightarrow> False | Inr (_, el) \<Rightarrow> news_ok ns el))"

lemma add_all_ok:
  assumes "loop_ok el" "news_ok ns el"
  shows "\<exists>el'. add_all ns el = Inr el' \<and> loop_ok el' \<and> el_objects el \<subseteq>\<^sub>m el_objects el' \<and> el_handlers el \<subseteq> el_handlers el'
    \<and> (\<forall>fd p. el_interest el fd = Some p \<longrightarrow> el_interest el' fd = Some p) \<and> el_stop el' = el_stop el"
  using assms
proof (induction ns arbitrary: el)
  case (Cons n ns)
  from Cons.prems have "new_ok el n" by simp
  from el_add_owned_ok [OF Cons.prems(1) this] obtain ok el1
    where one: "el_add_owned (nh_nonblock n) (nh_ctl n) (nh_ptr n) (nh_object n) el = Inr (ok, el1)"
      "loop_ok el1" "el_objects el \<subseteq>\<^sub>m el_objects el1" "el_handlers el \<subseteq> el_handlers el1"
      "\<And>fd p. el_interest el fd = Some p \<Longrightarrow> el_interest el1 fd = Some p" "el_stop el1 = el_stop el"
    by metis
  with Cons.IH [of el1] Cons.prems(2) obtain el' where rest: "add_all ns el1 = Inr el'" "loop_ok el'"
    "el_objects el1 \<subseteq>\<^sub>m el_objects el'" "el_handlers el1 \<subseteq> el_handlers el'"
    "\<forall>fd p. el_interest el1 fd = Some p \<longrightarrow> el_interest el' fd = Some p" "el_stop el' = el_stop el1" by auto
  from one rest show ?case
    by (intro exI [of _ el']) (auto intro: map_le_trans)
qed (auto simp: map_le_def)

definition event_ok :: "ptr \<Rightarrow> reaction \<Rightarrow> event_loop \<Rightarrow> bool" where
  "event_ok p re el \<longleftrightarrow>
     (case el_objects el p of
        None \<Rightarrow> False
      | Some h \<Rightarrow> news_ok (re_adds re) (if re_closes re then close_own p h el else el))"

lemma close_own_ok:
  assumes "loop_ok el" "el_objects el p = Some h"
  shows "loop_ok (close_own p h el)"
proof (rule loop_okI)
  fix fd q
  assume "el_interest (close_own p h el) fd = Some q"
  then show "\<exists>h'. el_objects (close_own p h el) q = Some h' \<and> h_fd h' = fd"
    using interest_live [OF assms(1), of fd q] assms(2) by (auto simp: close_own_def split: if_splits)
next
  fix q h'
  assume "el_objects (close_own p h el) q = Some h'"
  then show "h_type h' = DataSocketHandler \<longleftrightarrow> q \<in> el_handlers (close_own p h el)"
    using assms by (auto simp: close_own_def loop_ok_def split: if_splits)
qed (use assms in \<open>auto simp: close_own_def loop_ok_def\<close>)

lemma drop_interest_ok: "loop_ok el \<Longrightarrow> loop_ok (el\<lparr>el_interest := (el_interest el)(fd := None)\<rparr>)"
  by (auto simp: loop_ok_def)

lemma destroy_ok:
  assumes "loop_ok el" "el_objects el p = Some h"
  shows "loop_ok (destroy_handler p (el\<lparr>el_handlers := el_handlers el - {p}\<rparr>))"
proof (rule loop_okI)
  fix fd q
  assume "el_interest (destroy_handler p (el\<lparr>el_handlers := el_handlers el - {p}\<rparr>)) fd = Some q"
  then show "\<exists>h'. el_objects (destroy_handler p (el\<lparr>el_handlers := el_handlers el - {p}\<rparr>)) q = Some h' \<and> h_fd h' = fd"
    using interest_live [OF assms(1), of fd q] assms(2) by (auto simp: destroy_handler_def split: if_splits)
next
  fix q h'
  assume "el_objects (destroy_handler p (el\<lparr>el_handlers := el_handlers el - {p}\<rparr>)) q = Some h'"
  then show "h_type h' = DataSocketHandler \<longleftrightarrow> q \<in> el_handlers (destroy_handler p (el\<lparr>el_handlers := el_handlers el - {p}\<rparr>))"
    using assms by (auto simp: destroy_handler_def loop_ok_def split: if_splits)
qed (use assms in \<open>auto simp: destroy_handler_def loop_ok_def\<close>)

text \<open>One event: it is safe, keeps the invariant and every other object.\<close>

lemma handle_event_ok:
  assumes "loop_ok el" "event_ok p re el"
  obtains el' where "handle_event p re el = Inr el'" "loop_ok el'" "el_stop el' = el_stop el"
    "dom (el_objects el) - {p} \<subseteq> dom (el_objects el')"
    "\<And>h. el_objects el p = Some h \<Longrightarrow>
        p \<in> dom (el_objects el') \<longleftrightarrow> re_alive re \<or> h_type h \<noteq> DataSocketHandler"
proof -
  from assms(2) obtain h where h: "el_objects el p = Some h" by (auto simp: event_ok_def split: option.splits)
  let ?el = "if re_closes re then close_own p h el else el"
  have "loop_ok ?el" "news_ok (re_adds re) ?el"
    using assms h close_own_ok [OF assms(1) h] by (auto simp: event_ok_def)
  from add_all_ok [OF this] obtain el1 where el1: "add_all (re_adds re) ?el = Inr el1" "loop_ok el1"
    "el_objects ?el \<subseteq>\<^sub>m el_objects el1" "el_stop el1 = el_stop ?el" by blast
  have dom: "dom (el_objects el) \<subseteq> dom (el_objects el1)"
    using map_le_implies_dom_le [OF el1(3)] by (auto simp: close_own_def split: if_splits)
  obtain h1 where h1: "el_objects el1 p = Some h1" "h_type h1 = h_type h"
    using el1(3) h by (cases "re_closes re") (auto simp: map_le_def close_own_def dom_def)
  have stop: "el_stop el1 = el_stop el" using el1(4) by (simp add: close_own_def split: if_splits)
  let ?el2 = "el1\<lparr>el_interest := (el_interest el1)(data_fd p := None)\<rparr>"
  have ok2: "loop_ok ?el2" by (rule drop_interest_ok [OF el1(2)])
  show thesis
  proof (cases "re_alive re \<or> h_type h \<noteq> DataSocketHandler")
    case True
    let ?el' = "if re_alive re then el1 else ?el2"
    have he: "handle_event p re el = Inr ?el'"
      using True h el1(1) by (cases "re_alive re") (simp_all add: handle_event_def Let_def)
    have "loop_ok ?el'" "el_stop ?el' = el_stop el" "el_objects ?el' = el_objects el1"
      using el1(2) ok2 stop by simp_all
    with he True h h1(1) dom show thesis
      by (intro that [of ?el']) auto
  next
    case False
    then have own: "p \<in> el_handlers el1" using el1(2) h1 by (auto simp: loop_ok_def)
    let ?el' = "destroy_handler p (?el2\<lparr>el_handlers := el_handlers ?el2 - {p}\<rparr>)"
    have obj: "el_objects ?el' = (el_objects el1)(p := None)" "el_stop ?el' = el_stop el"
      using h1 stop by (auto simp: destroy_handler_def)
    moreover have "loop_ok ?el'" by (rule destroy_ok [OF ok2]) (use h1 in simp)
    moreover have "handle_event p re el = Inr ?el'"
      using False h own el1(1) by (simp add: handle_event_def Let_def)
    ultimately show thesis using that [of ?el'] dom False h by auto
  qed
qed

fun batch_ok :: "(ptr \<times> reaction) list \<Rightarrow> event_loop \<Rightarrow> bool" where
  "batch_ok [] el = True"
| "batch_ok ((p, re) # evs) el =
     ((el_objects el p \<noteq> None \<longrightarrow> event_ok p re el) \<and>
      (case handle_event p re el of Inl f \<Rightarrow> True | Inr el \<Rightarrow> batch_ok evs el))"

lemma handle_batch_ok:
  assumes "loop_ok el" "distinct (map fst evs)" "fst ` set evs \<subseteq> dom (el_objects el)" "batch_ok evs el"
  shows "\<exists>el'. handle_batch evs el = Inr el' \<and> loop_ok el' \<and> el_stop el' = el_stop el"
  using assms
proof (induction evs arbitrary: el)
  case (Cons ev evs)
  obtain p re where ev: "ev = (p, re)" by (cases ev)
  from Cons.prems ev have "event_ok p re el" by auto
  then obtain el1 where el1: "handle_event p re el = Inr el1" "loop_ok el1"
    "el_stop el1 = el_stop el" "dom (el_objects el) - {p} \<subseteq> dom (el_objects el1)"
    by (rule handle_event_ok [OF Cons.prems(1)])
  have "fst ` set evs \<subseteq> dom (el_objects el1)" using Cons.prems(2,3) el1(4) ev by force
  with Cons.IH [OF el1(2)] Cons.prems(2,4) el1 ev show ?case by auto
qed simp

lemma handle_batch_registered:
  assumes "loop_ok el" "distinct (map fst evs)" "fst ` set evs \<subseteq> ran (el_interest el)" "batch_ok evs el"
  shows "\<exists>el'. handle_batch evs el = Inr el' \<and> loop_ok el' \<and> el_stop el' = el_stop el"
proof (rule handle_batch_ok [OF assms(1,2) _ assms(4)])
  show "fst ` set evs \<subseteq> dom (el_objects el)"
    using assms(3) interest_live [OF assms(1)] by (fastforce simp: ran_def)
qed

text \<open>Batches that are well-behaved one after the other, each named by the kernel in that state.\<close>

fun batches_ok :: "((ptr \<times> reaction) list \<times> bool) list \<Rightarrow> event_loop \<Rightarrow> bool" where
  "batches_ok [] el = True"
| "batches_ok ((evs, stop) # bs) el =
     (distinct (map fst evs) \<and> fst ` set evs \<subseteq> ran (el_interest el) \<and> batch_ok evs el \<and>
      (case handle_batch evs el of Inl f \<Rightarrow> True | Inr el \<Rightarrow> batches_ok bs el))"

abbreviation "unstopped \<equiv> map (\<lambda>evs. (evs, False))"

lemma loop_ok_stopped: "loop_ok el \<Longrightarrow> loop_ok (el_close ret (el_stop_request el))"
  by (simp add: loop_ok_def el_close_def el_stop_request_def)

section \<open>Properties\<close>

text \<open>
  C20. The event loop calls live handlers only, and ends when asked to. A batch of \<open>epoll_wait\<close> names
  registered pointers, each once; whatever the handlers do, closing their descriptor, adding
  new connections or ending, every pointer is alive when its turn comes and every owned
  handler is there when it is erased. The loop returns after the first batch at whose end
  \<open>stop\<close> has been called, with the epoll descriptor closed, and not before.
\<close>

theorem event_loop_runs:
  assumes "loop_ok el" "\<not> el_stop el" "batches_ok (unstopped pre @ (evs, True) # bs) el" "ret \<noteq> - 1"
  shows "(\<exists>el'. el_start (unstopped pre @ (evs, True) # bs) ret el = Some (Inr el')
      \<and> el_epollFD el' = NULL_FD \<and> loop_ok el' \<and> el_stop el')
    \<and> el_start (unstopped pre) ret el = None"
  using assms
proof (induction pre arbitrary: el)
  case Nil
  then obtain el1 where el1: "handle_batch evs el = Inr el1" "loop_ok el1"
    using handle_batch_registered [of el evs] by auto
  let ?el = "el_close ret (el_stop_request el1)"
  have "el_epollFD ?el = NULL_FD" "el_stop ?el"
    using Nil.prems(4) by (simp_all add: el_close_def el_stop_request_def)
  with el1 loop_ok_stopped [OF el1(2)] show ?case by (simp add: Let_def el_stop_request_def)
next
  case (Cons e pre)
  then obtain el1 where "handle_batch e el = Inr el1" "loop_ok el1" "el_stop el1 = el_stop el"
    using handle_batch_registered [of el e] by auto
  with Cons.IH [of el1] Cons.prems show ?case by simp
qed

theorem event_loop_runs_witness:
  "\<exists>el'. el_start [([(64, \<lparr>re_closes = False, re_adds = [], re_alive = False\<rparr>)], True)] 0
      \<lparr>el_epollFD = 3, el_stop = False, el_handlers = {64}, el_interest = [7 \<mapsto> 64],
       el_objects = [64 \<mapsto> \<lparr>h_fd = 7, h_type = DataSocketHandler\<rparr>]\<rparr> = Some (Inr el') \<and> el_epollFD el' = NULL_FD"
proof -
  let ?h = "\<lparr>h_fd = 7, h_type = DataSocketHandler\<rparr>"
  let ?el = "\<lparr>el_epollFD = 3, el_stop = False, el_handlers = {64}, el_interest = [7 \<mapsto> 64], el_objects = [64 \<mapsto> ?h]\<rparr>"
  let ?re = "\<lparr>re_closes = False, re_adds = [], re_alive = False\<rparr>"
  have "loop_ok ?el" by (auto simp: loop_ok_def split: if_splits)
  moreover have "batches_ok [([(64, ?re)], True)] ?el"
    by (simp add: event_ok_def split: sum.splits)
  ultimately show ?thesis
    using event_loop_runs [of ?el "[]" "[(64, ?re)]" "[]" 0] by auto
qed

text \<open>
  A handler that fails stays registered, and another may be dropped: \<open>EPOLL_CTL_DEL\<close> is given
  the low half of the pointer as a descriptor. A pipe or listening socket whose \<open>onEvent\<close> returned
  false keeps its place in the interest list unless that half happens to be its descriptor;
  and the handler registered under that number, if there is one, is never called again.
\<close>

theorem failed_handler_stays:
  assumes "el_interest el fd = Some p" "el_objects el p = Some h" "h_type h \<noteq> DataSocketHandler"
    and "\<not> re_alive re" "\<not> re_closes re" "re_adds re = []"
  shows "\<exists>el'. handle_event p re el = Inr el'
    \<and> (fd \<noteq> data_fd p \<longrightarrow> el_interest el' fd = Some p)
    \<and> el_interest el' (data_fd p) = None"
  using assms by (auto simp: handle_event_def Let_def)

theorem failed_handler_stays_witness:
  "\<exists>el'. handle_event 4294967303 \<lparr>re_closes = False, re_adds = [], re_alive = False\<rparr>
      \<lparr>el_epollFD = 3, el_stop = False, el_handlers = {}, el_interest = [5 \<mapsto> 4294967303, 7 \<mapsto> 64],
       el_objects = [4294967303 \<mapsto> \<lparr>h_fd = 5, h_type = PipeHandler\<rparr>, 64 \<mapsto> \<lparr>h_fd = 7, h_type = TimerHandler\<rparr>]\<rparr> = Inr el'
    \<and> el_interest el' 5 = Some 4294967303 \<and> el_interest el' 7 = None"
proof -
  let ?el = "\<lparr>el_epollFD = 3, el_stop = False, el_handlers = {}, el_interest = [5 \<mapsto> 4294967303, 7 \<mapsto> 64],
       el_objects = [4294967303 \<mapsto> \<lparr>h_fd = 5, h_type = PipeHandler\<rparr>, 64 \<mapsto> \<lparr>h_fd = 7, h_type = TimerHandler\<rparr>]\<rparr>"
  have "data_fd 4294967303 = 7" by (simp add: data_fd_def)
  then show ?thesis
    using failed_handler_stays [of ?el 5 4294967303 "\<lparr>h_fd = 5, h_type = PipeHandler\<rparr>" "\<lparr>re_closes = False, re_adds = [], re_alive = False\<rparr>"]
    by auto
qed

end
