(* ===== verification/Lu_Event_Channel.thy ===== *)
theory Lu_Event_Channel
  imports Lu_Receive
begin

text \<open>
  \<open>EventChannel.h\<close>: threads hand pointers to an event loop through a pipe. An \<open>EventData\<close> is
  16 packed bytes; \<open>EventNotifier::notify\<close> writes one, the channel reads them back. The channel
  is an instance of the reader's contract, with a parser that accepts every stream.
\<close>

section \<open>EventData\<close>

abbreviation "EVENT_SIZE \<equiv> (16::nat)"
abbreviation "CHANNEL_BUFFER_SIZE \<equiv> (3200::nat)"
abbreviation "READ_BUFFER_SHIFT_SIZE \<equiv> (160::nat)"

record event_data =
  eventType :: "32 word"
  channelID :: "32 word"
  ed_data :: "64 word"

abbreviation "EventNone \<equiv> (0 :: 32 word)"
abbreviation "EventNewConnection \<equiv> (1 :: 32 word)"
abbreviation "EventAppMessage \<equiv> (2 :: 32 word)"

definition event_bytes :: "event_data \<Rightarrow> byte list" where
  "event_bytes ed =
     le_bytes 4 (unat (eventType ed)) @ le_bytes 4 (unat (channelID ed)) @ le_bytes 8 (unat (ed_data ed))"

definition event_of_bytes :: "byte list \<Rightarrow> event_data" where
  "event_of_bytes bs = \<lparr>eventType = word_of_nat (le_nat (take 4 bs)),
     channelID = word_of_nat (le_nat (take 4 (drop 4 bs))), ed_data = word_of_nat (le_nat (take 8 (drop 8 bs)))\<rparr>"

text \<open>
  \<open>notify\<close> turns the value of \<open>::write\<close> into a \<open>bool\<close>, so that the error \<open>-1\<close> is \<open>true\<close>. The
  second component is what went into the pipe.
\<close>

definition notify :: "int \<Rightarrow> event_data \<Rightarrow> bool \<times> byte list" where
  "notify ret ed = (ret \<noteq> 0, take (nat ret) (event_bytes ed))"

section \<open>EventChannel\<close>

datatype channel_event = OnNewConnection "64 word" | OnAppMsg "64 word" "32 word"

definition dispatch :: "event_data \<Rightarrow> channel_event list" where
  "dispatch ed =
     (if eventType ed = EventNewConnection then [OnNewConnection (ed_data ed)]
      else if eventType ed = EventAppMessage then [OnAppMsg (ed_data ed) (channelID ed)]
      else [])"

function ec_readMessages :: "byte list \<Rightarrow> nat \<Rightarrow> nat \<Rightarrow> (nat \<times> nat \<times> channel_event list) option" where
  "ec_readMessages mem off left =
     (if left < EVENT_SIZE then Some (off, left, [])
      else case mem_read mem off EVENT_SIZE of
        None \<Rightarrow> None
      | Some bs \<Rightarrow>
          map_option (\<lambda>(off', left', es). (off', left', dispatch (event_of_bytes bs) @ es))
            (ec_readMessages mem (off + EVENT_SIZE) (left - EVENT_SIZE)))"
  by auto
termination
  by (relation "measure (\<lambda>(mem, off, left). left)") auto

declare ec_readMessages.simps [simp del]

definition ec_on_bytes :: "byte list \<Rightarrow> recv_buffer \<Rightarrow> (recv_buffer \<times> channel_event list) run" where
  "ec_on_bytes bs rb =
     (case rb_fill bs rb of
        None \<Rightarrow> Some (Inl MemoryFault)
      | Some rb \<Rightarrow>
          (case ec_readMessages (rb_bytes rb) (rb_readOffset rb) (rb_leftToRead rb) of
             None \<Rightarrow> Some (Inl MemoryFault)
           | Some (off, left, es) \<Rightarrow>
               Some (Inr (rb_compact CHANNEL_BUFFER_SIZE READ_BUFFER_SHIFT_SIZE
                            (rb\<lparr>rb_readOffset := off, rb_leftToRead := left\<rparr>), es))))"

definition EventChannel :: recv_buffer where
  "EventChannel = rb_new CHANNEL_BUFFER_SIZE"

definition EventChannel_Receive ::
  "recv_result list \<Rightarrow> recv_buffer \<Rightarrow> (bool \<times> recv_buffer \<times> channel_event list) run" where
  "EventChannel_Receive = receive readDataFile ec_on_bytes"

text \<open>
  \<open>onEvent\<close>: \<open>EPOLLERR\<close> closes the read end (the second component) but keeps the handler; a
  failed \<open>Receive\<close> removes it.
\<close>

definition ec_onEvent ::
  "32 word \<Rightarrow> recv_result list \<Rightarrow> recv_buffer \<Rightarrow> (bool \<times> bool \<times> recv_buffer \<times> channel_event list) run" where
  "ec_onEvent events rs rb =
     (if events AND EPOLLERR \<noteq> 0 then Some (Inr (True, False, rb, []))
      else if events AND EPOLLIN = 0 then Some (Inr (True, True, rb, []))
      else case EventChannel_Receive rs rb of
        None \<Rightarrow> None
      | Some (Inl f) \<Rightarrow> Some (Inl f)
      | Some (Inr (alive, rb', es)) \<Rightarrow> Some (Inr (alive, True, rb', es)))"

section \<open>The pipe\<close>

text \<open>
  \<open>m_in\<close> and \<open>m_out\<close>; \<open>init\<close> is given the answer of \<open>::pipe\<close> and does not look at that of
  \<open>setToNonBlocking\<close>. A notifier is a reference to the write end: before \<open>init\<close> there is none.
\<close>

record pipe_ends =
  pe_in :: "int option"
  pe_out :: "int option"

definition ec_init :: "(int \<times> int) option \<Rightarrow> pipe_ends \<Rightarrow> bool \<times> pipe_ends" where
  "ec_init pipeFDs p =
     (case pipeFDs of
        None \<Rightarrow> (False, p)
      | Some (r, w) \<Rightarrow> (True, p\<lparr>pe_in := Some r, pe_out := Some w\<rparr>))"

definition getEventNotifier :: "pipe_ends \<Rightarrow> fault + int" where
  "getEventNotifier p = (case pe_out p of None \<Rightarrow> Inl MemoryFault | Some fd \<Rightarrow> Inr fd)"

definition ec_getFD :: "pipe_ends \<Rightarrow> int" where
  "ec_getFD p = (case pe_in p of None \<Rightarrow> NULL_FD | Some fd \<Rightarrow> fd)"

lemma ec_init_failed:
  "ec_init None \<lparr>pe_in = None, pe_out = None\<rparr> = (False, p) \<Longrightarrow> getEventNotifier p = Inl MemoryFault \<and> ec_getFD p = NULL_FD"
  by (auto simp: ec_init_def getEventNotifier_def ec_getFD_def)

section \<open>What the bytes stand for\<close>

function split_events :: "byte list \<Rightarrow> channel_event list \<times> byte list" where
  "split_events bs =
     (if length bs < EVENT_SIZE then ([], bs)
      else let (es, r) = split_events (drop EVENT_SIZE bs) in
        (dispatch (event_of_bytes (take EVENT_SIZE bs)) @ es, r))"
  by auto
termination
  by (relation "measure length") auto

declare split_events.simps [simp del]

lemma split_events_short: "length bs < EVENT_SIZE \<Longrightarrow> split_events bs = ([], bs)"
  by (simp add: split_events.simps)

lemma split_events_rest:
  "split_events bs = (es, r) \<Longrightarrow> length r < EVENT_SIZE \<and> (\<exists>p. bs = p @ r)"
proof (induction bs arbitrary: es rule: split_events.induct)
  case (1 bs)
  show ?case
  proof (cases "length bs < EVENT_SIZE")
    case True
    with "1.prems" show ?thesis by (simp add: split_events_short)
  next
    case False
    with "1.prems" obtain es' where "split_events (drop EVENT_SIZE bs) = (es', r)"
      by (auto simp: split_events.simps [of bs] split: prod.splits)
    from "1.IH" [OF False this] obtain p where "length r < EVENT_SIZE" "drop EVENT_SIZE bs = p @ r" by blast
    moreover from this(2) have "bs = (take EVENT_SIZE bs @ p) @ r"
      by (metis append.assoc append_take_drop_id)
    ultimately show ?thesis by blast
  qed
qed

lemma split_events_append:
  "split_events a = (es, r) \<Longrightarrow> split_events (a @ b) = (let (es', r') = split_events (r @ b) in (es @ es', r'))"
proof (induction a arbitrary: es rule: split_events.induct)
  case (1 a)
  show ?case
  proof (cases "length a < EVENT_SIZE")
    case True
    with "1.prems" show ?thesis by (auto simp: split_events_short)
  next
    case False
    with "1.prems" obtain es' where rec: "split_events (drop EVENT_SIZE a) = (es', r)"
      and es: "es = dispatch (event_of_bytes (take EVENT_SIZE a)) @ es'"
      by (auto simp: split_events.simps [of a] split: prod.splits)
    from "1.IH" [OF False rec] False es show ?thesis
      by (simp add: split_events.simps [of "a @ b"] case_prod_beta Let_def)
  qed
qed

lemma event_roundtrip: "event_of_bytes (event_bytes ed) = ed"
proof -
  have "unat w < 256 ^ 4" for w :: "32 word" using unsigned_less [of w] by simp
  then have "le_nat (le_bytes 4 (unat w)) = unat w" for w :: "32 word"
    by (metis le_nat_le_bytes mod_less)
  moreover have "unat w < 256 ^ 8" for w :: "64 word" using unsigned_less [of w] by simp
  then have "le_nat (le_bytes 8 (unat w)) = unat w" for w :: "64 word"
    by (metis le_nat_le_bytes mod_less)
  ultimately show ?thesis by (simp add: event_of_bytes_def event_bytes_def)
qed

lemma length_event_bytes [simp]: "length (event_bytes ed) = EVENT_SIZE"
  by (simp add: event_bytes_def)

lemma event_bytes_nonempty [simp]: "event_bytes ed \<noteq> []"
  by (metis length_event_bytes list.size(3) zero_neq_numeral)

lemma split_events_encoded:
  "length tail < EVENT_SIZE \<Longrightarrow>
     split_events (concat (map event_bytes eds) @ tail) = (concat (map dispatch eds), tail)"
proof (induction eds)
  case Nil
  then show ?case by (simp add: split_events_short)
next
  case (Cons ed eds)
  then show ?case by (simp add: split_events.simps [of "event_bytes ed @ _"] event_roundtrip)
qed

section \<open>The channel delivers them\<close>

lemma ec_readMessages_split:
  "off + left \<le> length mem \<Longrightarrow> split_events (slice_of off left mem) = (es, r) \<Longrightarrow>
     ec_readMessages mem off left = Some (off + (left - length r), length r, es)"
proof (induction left arbitrary: off es rule: less_induct)
  case (less left)
  let ?w = "slice_of off left mem"
  have lw: "length ?w = left" using less.prems by simp
  show ?case
  proof (cases "left < EVENT_SIZE")
    case True
    with less.prems lw show ?thesis by (auto simp: ec_readMessages.simps [of mem off left] split_events_short)
  next
    case False
    with less.prems lw obtain es' where rec: "split_events (drop EVENT_SIZE ?w) = (es', r)"
      and es: "es = dispatch (event_of_bytes (take EVENT_SIZE ?w)) @ es'"
      by (auto simp: split_events.simps [of ?w] split: prod.splits)
    have "drop EVENT_SIZE ?w = slice_of (off + EVENT_SIZE) (left - EVENT_SIZE) mem"
      by (simp add: slice_of_def drop_take add.commute)
    with less.IH [of "left - EVENT_SIZE" "off + EVENT_SIZE" es'] rec False less.prems(1)
    have "ec_readMessages mem (off + EVENT_SIZE) (left - EVENT_SIZE)
        = Some (off + EVENT_SIZE + (left - EVENT_SIZE - length r), length r, es')" by simp
    moreover have "length r \<le> left - EVENT_SIZE"
      using split_events_rest [OF rec] lw by (auto dest!: arg_cong [of _ _ length])
    ultimately show ?thesis
      using False less.prems(1) es
      by (simp add: ec_readMessages.simps [of mem off left] mem_read_def slice_of_def min_absorb1)
  qed
qed

definition ec_ok :: "recv_buffer \<Rightarrow> bool" where
  "ec_ok rb \<longleftrightarrow> rb_ok CHANNEL_BUFFER_SIZE rb \<and> rb_leftToRead rb < EVENT_SIZE
     \<and> rb_leftToRecv rb = CHANNEL_BUFFER_SIZE - rb_leftToRead rb"

lemma ec_on_bytes_ok:
  assumes "ec_ok rb" "length bs \<le> rb_leftToRecv rb" "split_events (rb_pending rb @ bs) = (es, r)"
  shows "\<exists>rb'. ec_on_bytes bs rb = Some (Inr (rb', es)) \<and> ec_ok rb' \<and> rb_pending rb' = r"
proof -
  from assms(1,2) obtain rb1 where fill: "rb_fill bs rb = Some rb1"
    and rb1: "rb_pending rb1 = rb_pending rb @ bs" "length (rb_bytes rb1) = CHANNEL_BUFFER_SIZE"
      "rb_readOffset rb1 + rb_leftToRead rb1 \<le> CHANNEL_BUFFER_SIZE"
    by (auto simp: ec_ok_def elim: rb_fill_ok)
  let ?off = "rb_readOffset rb1 + (rb_leftToRead rb1 - length r)"
  let ?rb2 = "rb1\<lparr>rb_readOffset := ?off, rb_leftToRead := length r\<rparr>"
  let ?rb3 = "rb_compact CHANNEL_BUFFER_SIZE READ_BUFFER_SHIFT_SIZE ?rb2"
  from split_events_rest [OF assms(3)] obtain p where
    r: "length r < EVENT_SIZE" "rb_pending rb @ bs = p @ r" by blast
  have msgs: "ec_readMessages (rb_bytes rb1) (rb_readOffset rb1) (rb_leftToRead rb1) = Some (?off, length r, es)"
    by (rule ec_readMessages_split) (use rb1 assms(3) in \<open>auto simp: rb_pending_def\<close>)
  have "length r \<le> rb_leftToRead rb1"
    using arg_cong [OF r(2), of length] rb1 by (metis le_add2 length_append length_slice_of min.cobounded1 order.trans rb_pending_def)
  then have "rb_ok CHANNEL_BUFFER_SIZE ?rb3" "rb_pending ?rb3 = rb_pending ?rb2"
    using rb_compact_ok [of ?rb2 CHANNEL_BUFFER_SIZE READ_BUFFER_SHIFT_SIZE] r(1) rb1(2,3) by simp_all
  moreover have "rb_pending ?rb2 = r"
    by (rule rb_pending_shrink) (use rb1 r in simp_all)
  moreover have "rb_leftToRead ?rb3 < EVENT_SIZE" "rb_leftToRecv ?rb3 = CHANNEL_BUFFER_SIZE - rb_leftToRead ?rb3"
    using r(1) by (auto simp: rb_compact_def)
  ultimately show ?thesis using fill msgs by (simp add: ec_on_bytes_def ec_ok_def)
qed

lemma ec_pending_short: "ec_ok rb \<Longrightarrow> split_events (rb_pending rb) = ([], rb_pending rb)"
  by (rule split_events_short) (auto simp: ec_ok_def rb_pending_def)

interpretation ec: message_reader readDataFile Received "RecvError EAGAIN" ec_on_bytes rb_leftToRecv ec_ok rb_pending "\<lambda>bs. Some (split_events bs)"
proof
  fix a b :: "byte list" and es r
  assume "Some (split_events a) = Some (es, r)"
  then show "Some (split_events (a @ b)) = map_option (\<lambda>(es', r'). (es @ es', r')) (Some (split_events (r @ b)))"
    using split_events_append [of a es r b] by (simp add: case_prod_beta Let_def)
next
  fix rb bs es r
  assume "ec_ok rb" "length bs \<le> rb_leftToRecv rb" "Some (split_events (rb_pending rb @ bs)) = Some (es, r)"
  then show "\<exists>rb'. ec_on_bytes bs rb = Some (Inr (rb', es)) \<and> ec_ok rb' \<and> rb_pending rb' = r \<and> 0 < rb_leftToRecv rb'"
    using ec_on_bytes_ok [of rb bs es r] by (auto simp: ec_ok_def rb_ok_def)
qed (auto simp: readDataFile_def ec_pending_short)

lemma ec_ok_new: "ec_ok EventChannel"
  using rb_ok_new [of CHANNEL_BUFFER_SIZE] by (simp add: ec_ok_def EventChannel_def) (simp add: rb_new_def)

lemma ec_room: "ec_ok rb \<Longrightarrow> 3184 \<le> rb_leftToRecv rb"
  by (auto simp add: ec_ok_def)

text \<open>
  C17. The event channel loses, invents and reorders nothing: if every \<open>notify\<close> wrote its whole
  record, then however the reads of the pipe cut the stream (even inside a record), the
  handler is called exactly for the events notified, in order and with the same pointer and
  channel, and an incomplete last record waits for the next read. The buffer is never
  overrun.
\<close>

theorem EventChannel_delivers:
  assumes "stream = concat (map (\<lambda>ed. snd (notify 16 ed)) eds) @ tail" "length tail < EVENT_SIZE"
    and "concat chunks = stream" "[] \<notin> set chunks"
    and "reads_within readDataFile ec_on_bytes rb_leftToRecv (map Received chunks @ [RecvError EAGAIN]) EventChannel"
  shows "\<exists>rb. EventChannel_Receive (map Received chunks @ [RecvError EAGAIN]) EventChannel =
           Some (Inr (True, rb, concat (map dispatch eds))) \<and> ec_ok rb \<and> rb_pending rb = tail"
proof -
  have "stream = concat (map event_bytes eds) @ tail"
    using assms(1) by (simp add: notify_def)
  then have "Some (split_events (rb_pending EventChannel @ concat chunks)) = Some (concat (map dispatch eds), tail)"
    using split_events_encoded [OF assms(2), of eds] assms(3) by (simp add: EventChannel_def)
  from ec.receive_delivers [OF ec_ok_new assms(4,5) this] show ?thesis
    by (simp add: EventChannel_Receive_def)
qed

theorem EventChannel_delivers_witness:
  "\<exists>rb. EventChannel_Receive [Received (take 7 (event_bytes \<lparr>eventType = 2, channelID = 5, ed_data = 9\<rparr>)),
            Received (drop 7 (event_bytes \<lparr>eventType = 2, channelID = 5, ed_data = 9\<rparr>)), RecvError EAGAIN] EventChannel =
          Some (Inr (True, rb, [OnAppMsg 9 5])) \<and> rb_pending rb = []"
proof -
  let ?ed = "\<lparr>eventType = 2, channelID = 5, ed_data = 9\<rparr>"
  let ?chunks = "[take 7 (event_bytes ?ed), drop 7 (event_bytes ?ed)]"
  have "reads_within readDataFile ec_on_bytes rb_leftToRecv (map Received ?chunks @ [RecvError EAGAIN]) EventChannel"
    by (rule ec.reads_within_bounded [OF ec_room ec_ok_new]) auto
  from EventChannel_delivers [OF _ _ _ _ this, of "event_bytes ?ed" "[?ed]" "[]"]
  show ?thesis by (auto simp: notify_def dispatch_def)
qed

end
