(* ===== verification/Lu_Threads.thy ===== *)
theory Lu_Threads
  imports Lu_Event_Loop Lu_Event_Channel
begin

text \<open>
  The threads of \<open>platform/thread\<close> and the channels between them: \<open>OutputChannel\<close> (a thread's
  routes to the input queues of others), \<open>LuThread\<close> (connecting threads and sending), and the
  timer of \<open>EventThread\<close>. Threads and the queues of their input channels are numbered, with the
  same numbers. A message to a worker is a call of \<open>push\<close> on such a queue, which is the result of
  the operation; what the queue and the worker do with it is in \<open>Lu_Worker\<close>. The id of the calling
  thread, a hash of \<open>std::thread::id\<close>, is an argument.
\<close>

section \<open>Channels\<close>

record channel_data =
  cd_channelID :: u32
  cd_data :: ptr

record output_channel =
  oc_queues :: "nat list"
  oc_index :: "string \<rightharpoonup> nat"

definition OutputChannel :: output_channel where
  "OutputChannel = \<lparr>oc_queues = [], oc_index = Map.empty\<rparr>"

text \<open>\<open>std::map::insert\<close> keeps an entry that is there; the assertion rules that out.\<close>

definition oc_add :: "string \<Rightarrow> nat \<Rightarrow> output_channel \<Rightarrow> fault + output_channel" where
  "oc_add threadName q oc =
     (let oc1 = oc\<lparr>oc_queues := oc_queues oc @ [q]\<rparr> in
      case oc_index oc threadName of
        Some _ \<Rightarrow> Inl Aborted
      | None \<Rightarrow> Inr (oc1\<lparr>oc_index := (oc_index oc)(threadName \<mapsto> length (oc_queues oc1) - 1)\<rparr>))"

definition getThreadIndx :: "string \<Rightarrow> output_channel \<Rightarrow> fault + nat" where
  "getThreadIndx threadName oc = (case oc_index oc threadName of None \<Rightarrow> Inl Aborted | Some i \<Rightarrow> Inr i)"

section \<open>LuThread\<close>

record lu_thread =
  lt_name :: string
  lt_isIO :: bool
  lt_channelID :: u32
  lt_output :: output_channel
  lt_notifiers :: "u32 \<rightharpoonup> nat"
  lt_senders :: "nat list"

record thread_sys =
  ts_thread :: "nat \<Rightarrow> lu_thread"
  ts_pipe :: "nat \<Rightarrow> byte list"

definition set_thread :: "nat \<Rightarrow> lu_thread \<Rightarrow> thread_sys \<Rightarrow> thread_sys" where
  "set_thread t th s = s\<lparr>ts_thread := (ts_thread s)(t := th)\<rparr>"

text \<open>\<open>threadRun\<close>: the thread stores the id of the thread it runs on.\<close>

definition threadRun :: "u32 \<Rightarrow> nat \<Rightarrow> thread_sys \<Rightarrow> thread_sys" where
  "threadRun cid t s = set_thread t ((ts_thread s t)\<lparr>lt_channelID := cid\<rparr>) s"

definition addToThreadSendingMsg :: "nat \<Rightarrow> nat \<Rightarrow> thread_sys \<Rightarrow> thread_sys" where
  "addToThreadSendingMsg sender reader s =
     set_thread reader ((ts_thread s reader)\<lparr>lt_senders := lt_senders (ts_thread s reader) @ [sender]\<rparr>) s"

definition connect :: "nat \<Rightarrow> nat \<Rightarrow> thread_sys \<Rightarrow> fault + thread_sys" where
  "connect t reader s =
     (if \<not> lt_isIO (ts_thread s reader) then
        (case oc_add (lt_name (ts_thread s reader)) reader (lt_output (ts_thread s t)) of
           Inl f \<Rightarrow> Inl f
         | Inr oc \<Rightarrow> Inr (addToThreadSendingMsg t reader (set_thread t ((ts_thread s t)\<lparr>lt_output := oc\<rparr>) s)))
      else Inr (addToThreadSendingMsg t reader s))"

text \<open>\<open>connectTo\<close>: \<open>insert\<close> again keeps an entry that is there.\<close>

definition connectTo :: "nat \<Rightarrow> u32 \<Rightarrow> nat \<Rightarrow> thread_sys \<Rightarrow> thread_sys" where
  "connectTo t cid pipe s =
     (case lt_notifiers (ts_thread s t) cid of
        Some _ \<Rightarrow> s
      | None \<Rightarrow> set_thread t ((ts_thread s t)\<lparr>lt_notifiers := (lt_notifiers (ts_thread s t))(cid \<mapsto> pipe)\<rparr>) s)"

text \<open>The call of \<open>push\<close> that sends a message: the queue and the element.\<close>

type_synonym push_call = "nat \<times> channel_data"

definition transferMsg_to :: "u32 \<Rightarrow> nat \<Rightarrow> nat \<Rightarrow> ptr \<Rightarrow> thread_sys \<Rightarrow> fault + push_call" where
  "transferMsg_to cid t threadIndex msg s =
     (let qs = oc_queues (lt_output (ts_thread s t)) in
      if threadIndex < length qs
      then Inr (qs ! threadIndex, \<lparr>cd_channelID = cid, cd_data = msg\<rparr>)
      else Inl MemoryFault)"

definition transferMsg :: "u32 \<Rightarrow> nat \<Rightarrow> string \<Rightarrow> ptr \<Rightarrow> thread_sys \<Rightarrow> fault + push_call" where
  "transferMsg cid t threadName msg s =
     (case getThreadIndx threadName (lt_output (ts_thread s t)) of
        Inl f \<Rightarrow> Inl f
      | Inr i \<Rightarrow> transferMsg_to cid t i msg s)"

text \<open>
  \<open>transferMsgToIOThread\<close>: \<open>operator[]\<close> makes an empty pointer for an unknown channel, which is
  then dereferenced.
\<close>

definition transferMsgToIOThread :: "int \<Rightarrow> nat \<Rightarrow> u32 \<Rightarrow> ptr \<Rightarrow> thread_sys \<Rightarrow> fault + thread_sys" where
  "transferMsgToIOThread ret t cid msg s =
     (case lt_notifiers (ts_thread s t) cid of
        None \<Rightarrow> Inl MemoryFault
      | Some pipe \<Rightarrow>
          let (_, bs) = notify ret \<lparr>eventType = EventAppMessage, channelID = lt_channelID (ts_thread s t), ed_data = msg\<rparr>
          in Inr (s\<lparr>ts_pipe := (ts_pipe s)(pipe := ts_pipe s pipe @ bs)\<rparr>))"

section \<open>EventThread\<close>

text \<open>
  \<open>init\<close> on the results of its steps; \<open>run\<close> and \<open>stop\<close> as far as they set the timer. \<open>REPEAT_TIMER\<close>
  of the configuration is not looked at.
\<close>

definition EventThread_init :: "bool \<Rightarrow> bool \<Rightarrow> bool \<Rightarrow> u32 \<Rightarrow> bool" where
  "EventThread_init loop_init timer_init onInit TIMER_IN_MSEC =
     (if \<not> loop_init then False
      else if TIMER_IN_MSEC \<noteq> 0 \<and> \<not> timer_init then False
      else onInit)"

definition EventThread_run_timer :: "u32 \<Rightarrow> itimerspec option" where
  "EventThread_run_timer TIMER_IN_MSEC =
     (if TIMER_IN_MSEC \<noteq> 0 then
        let sec = sint (TIMER_IN_MSEC div 1000); mSec = sint (TIMER_IN_MSEC mod 1000)
        in Some (timer_start sec (mSec * 1000000) True)
      else None)"

definition EventThread_stop_timer :: "u32 \<Rightarrow> itimerspec option" where
  "EventThread_stop_timer TIMER_IN_MSEC =
     (if TIMER_IN_MSEC = 0 then Some (timer_start 0 10001000 False) else None)"

section \<open>Routes\<close>

text \<open>
  What an output channel stands for: the list of its readers, each with a name of its own.
\<close>

definition oc_routes :: "(string \<times> nat) list \<Rightarrow> output_channel \<Rightarrow> bool" where
  "oc_routes rs oc \<longleftrightarrow> distinct (map fst rs) \<and> oc_queues oc = map snd rs
     \<and> (\<forall>name i. oc_index oc name = Some i \<longleftrightarrow> i < length rs \<and> fst (rs ! i) = name)"

lemma oc_routes_empty: "oc_routes [] OutputChannel"
  by (simp add: oc_routes_def OutputChannel_def)

lemma oc_routes_add:
  assumes "oc_routes rs oc" "name \<notin> fst ` set rs"
  shows "\<exists>oc'. oc_add name q oc = Inr oc' \<and> oc_routes (rs @ [(name, q)]) oc'"
proof -
  have len: "length (oc_queues oc) = length rs" using assms(1) by (simp add: oc_routes_def)
  have none: "oc_index oc name = None"
    using assms unfolding oc_routes_def by (metis image_eqI not_None_eq nth_mem)
  let ?oc = "oc\<lparr>oc_queues := oc_queues oc @ [q], oc_index := (oc_index oc)(name \<mapsto> length rs)\<rparr>"
  have "oc_index ?oc n = Some i \<longleftrightarrow> i < length (rs @ [(name, q)]) \<and> fst ((rs @ [(name, q)]) ! i) = n" for n i
  proof (cases "n = name")
    case True
    have "fst (rs ! i) \<noteq> name" if "i < length rs" using that assms(2) by (metis image_eqI nth_mem)
    with True show ?thesis by (auto simp: nth_append)
  next
    case False
    with assms(1) show ?thesis by (auto simp: oc_routes_def nth_append)
  qed
  with assms have "oc_routes (rs @ [(name, q)]) ?oc" by (auto simp: oc_routes_def)
  moreover have "oc_add name q oc = Inr ?oc" using none len by (simp add: oc_add_def Let_def)
  ultimately show ?thesis by blast
qed

lemma oc_add_duplicate: "oc_routes rs oc \<Longrightarrow> name \<in> fst ` set rs \<Longrightarrow> oc_add name q oc = Inl Aborted"
  by (fastforce simp: oc_routes_def oc_add_def Let_def in_set_conv_nth split: option.splits)

definition routes :: "(string \<times> nat) list \<Rightarrow> nat \<Rightarrow> thread_sys \<Rightarrow> bool" where
  "routes rs t s \<longleftrightarrow> oc_routes rs (lt_output (ts_thread s t))"

text \<open>\<open>connect\<close> to several readers, in order.\<close>

fun connect_all :: "nat \<Rightarrow> nat list \<Rightarrow> thread_sys \<Rightarrow> fault + thread_sys" where
  "connect_all t [] s = Inr s"
| "connect_all t (r # rs) s = (case connect t r s of Inl f \<Rightarrow> Inl f | Inr s \<Rightarrow> connect_all t rs s)"

lemma set_thread_simps [simp]:
  "ts_thread (set_thread t th s) = (ts_thread s)(t := th)"
  "ts_pipe (set_thread t th s) = ts_pipe s"
  by (simp_all add: set_thread_def)

lemma connect_routes:
  assumes "routes rs t s" "\<not> lt_isIO (ts_thread s r)" "lt_name (ts_thread s r) \<notin> fst ` set rs"
  shows "\<exists>s'. connect t r s = Inr s' \<and> routes (rs @ [(lt_name (ts_thread s r), r)]) t s'
    \<and> (\<forall>u. lt_name (ts_thread s' u) = lt_name (ts_thread s u) \<and> lt_isIO (ts_thread s' u) = lt_isIO (ts_thread s u)
         \<and> lt_channelID (ts_thread s' u) = lt_channelID (ts_thread s u))
    \<and> lt_senders (ts_thread s' r) = lt_senders (ts_thread s r) @ [t]"
proof -
  from assms oc_routes_add obtain oc where "oc_add (lt_name (ts_thread s r)) r (lt_output (ts_thread s t)) = Inr oc"
    "oc_routes (rs @ [(lt_name (ts_thread s r), r)]) oc" by (metis routes_def)
  with assms(2) show ?thesis
    by (auto simp: connect_def addToThreadSendingMsg_def routes_def)
qed

lemma connect_all_routes:
  assumes "routes rs t s" "\<forall>r \<in> set readers. \<not> lt_isIO (ts_thread s r)"
    and "distinct (map fst rs @ map (\<lambda>r. lt_name (ts_thread s r)) readers)"
  shows "\<exists>s'. connect_all t readers s = Inr s'
    \<and> routes (rs @ map (\<lambda>r. (lt_name (ts_thread s r), r)) readers) t s'
    \<and> (\<forall>u. lt_channelID (ts_thread s' u) = lt_channelID (ts_thread s u))"
  using assms
proof (induction readers arbitrary: rs s)
  case (Cons r readers)
  from Cons.prems have "lt_name (ts_thread s r) \<notin> fst ` set rs" "\<not> lt_isIO (ts_thread s r)" by auto
  from connect_routes [OF Cons.prems(1) this(2,1)] obtain s1 where s1: "connect t r s = Inr s1"
    "routes (rs @ [(lt_name (ts_thread s r), r)]) t s1"
    "\<forall>u. lt_name (ts_thread s1 u) = lt_name (ts_thread s u) \<and> lt_isIO (ts_thread s1 u) = lt_isIO (ts_thread s u)
      \<and> lt_channelID (ts_thread s1 u) = lt_channelID (ts_thread s u)" by blast
  from Cons.IH [OF s1(2)] Cons.prems s1 show ?case by auto
qed simp

text \<open>A message by name, or by the index that \<open>getThreadIndex\<close> returns, is a push on that reader's queue.\<close>

lemma transferMsg_routed:
  assumes "routes rs t s" "(name, q) \<in> set rs"
  shows "transferMsg cid t name msg s = Inr (q, \<lparr>cd_channelID = cid, cd_data = msg\<rparr>)"
proof -
  from assms(2) obtain i where i: "i < length rs" "rs ! i = (name, q)" by (auto simp: in_set_conv_nth)
  have idx: "oc_index (lt_output (ts_thread s t)) n = Some j \<longleftrightarrow> j < length rs \<and> fst (rs ! j) = n"
    and qs: "oc_queues (lt_output (ts_thread s t)) = map snd rs" for n j
    using assms(1) by (auto simp: routes_def oc_routes_def)
  have "oc_index (lt_output (ts_thread s t)) name = Some i" using i by (simp add: idx)
  with i qs show ?thesis by (simp add: transferMsg_def getThreadIndx_def transferMsg_to_def)
qed

text \<open>A run of sends by one thread, names and messages in order, and the pushes it makes.\<close>

fun send_all :: "u32 \<Rightarrow> nat \<Rightarrow> (string \<times> ptr) list \<Rightarrow> thread_sys \<Rightarrow> fault + push_call list" where
  "send_all cid t [] s = Inr []"
| "send_all cid t ((name, msg) # sends) s =
     (case transferMsg cid t name msg s of
        Inl f \<Rightarrow> Inl f
      | Inr p \<Rightarrow> (case send_all cid t sends s of Inl f \<Rightarrow> Inl f | Inr ps \<Rightarrow> Inr (p # ps)))"

definition pushes_on :: "nat \<Rightarrow> push_call list \<Rightarrow> channel_data list" where
  "pushes_on q ps = map snd (filter (\<lambda>(p, _). p = q) ps)"

definition sent_to :: "u32 \<Rightarrow> (string \<times> ptr) list \<Rightarrow> string \<Rightarrow> channel_data list" where
  "sent_to cid sends name = map (\<lambda>(_, msg). \<lparr>cd_channelID = cid, cd_data = msg\<rparr>) (filter (\<lambda>(n, _). n = name) sends)"

lemma send_all_routed:
  assumes "routes rs t s" "fst ` set sends \<subseteq> fst ` set rs" "inj_on snd (set rs)"
  shows "\<exists>ps. send_all cid t sends s = Inr ps \<and> (\<forall>(name, q) \<in> set rs. pushes_on q ps = sent_to cid sends name)"
  using assms(2)
proof (induction sends)
  case Nil
  then show ?case by (auto simp: sent_to_def pushes_on_def)
next
  case (Cons nm sends)
  obtain name msg where nm: "nm = (name, msg)" by (cases nm)
  with Cons.prems obtain q where q: "(name, q) \<in> set rs" by auto
  from Cons obtain ps where ps: "send_all cid t sends s = Inr ps"
    "\<forall>(name, q) \<in> set rs. pushes_on q ps = sent_to cid sends name" by auto
  let ?p = "(q, \<lparr>cd_channelID = cid, cd_data = msg\<rparr>)"
  have d: "distinct (map fst rs)" using assms(1) by (simp add: routes_def oc_routes_def)
  have "pushes_on q' (?p # ps) = sent_to cid (nm # sends) name'" if "(name', q') \<in> set rs" for name' q'
  proof -
    have "q' = q \<longleftrightarrow> name' = name"
      using inj_onD [OF assms(3), of "(name', q')" "(name, q)"] that q d by (auto dest: eq_key_imp_eq_value)
    with ps(2) that nm show ?thesis by (auto simp: sent_to_def pushes_on_def)
  qed
  with ps(1) nm transferMsg_routed [OF assms(1) q] show ?case by auto
qed

section \<open>Timers\<close>

lemma sint_small:
  fixes w :: u32
  assumes "unat w < 2 ^ 31"
  shows "sint w = int (unat w)"
proof -
  have "uint w < 2 ^ 31" using assms by (metis of_nat_less_iff of_nat_numeral of_nat_power uint_nat)
  then have "signed_take_bit 31 (uint w) = uint w" by (intro signed_take_bit_int_eq_self) (simp_all add: order_trans [OF _ uint_ge_0])
  moreover have "sint w = signed_take_bit 31 (uint w)" by (subst sint_uint) simp
  ultimately show ?thesis by (simp only: uint_nat)
qed

text \<open>
  The timer of an event thread fires every \<open>TIMER_IN_MSEC\<close> milliseconds: for every 32-bit value
  other than 0 the setting is one the kernel accepts and arms, first and repeated after that
  time, and no conversion to \<open>int\<close> overflows; for 0 there is no timer until \<open>stop\<close> arms one that
  fires once.
\<close>

theorem timer_period:
  "(TIMER_IN_MSEC \<noteq> 0 \<longrightarrow>
      (\<exists>t. EventThread_run_timer TIMER_IN_MSEC = Some t \<and> timer_valid t \<and> timer_armed t
         \<and> value_sec t * 10 ^ 9 + value_nsec t = int (unat TIMER_IN_MSEC) * 10 ^ 6
         \<and> interval_sec t = value_sec t \<and> interval_nsec t = value_nsec t
         \<and> value_sec t < 2 ^ 31 \<and> value_nsec t < 2 ^ 31)
      \<and> EventThread_stop_timer TIMER_IN_MSEC = None)
   \<and> (TIMER_IN_MSEC = 0 \<longrightarrow>
      EventThread_run_timer TIMER_IN_MSEC = None
      \<and> (\<exists>t. EventThread_stop_timer TIMER_IN_MSEC = Some t \<and> timer_valid t \<and> timer_armed t
           \<and> interval_sec t = 0 \<and> interval_nsec t = 0))"
proof -
  define n where "n = unat TIMER_IN_MSEC"
  have n: "n < 2 ^ 32" using unsigned_less [of TIMER_IN_MSEC] by (simp add: n_def)
  have u: "unat (TIMER_IN_MSEC div 1000) = n div 1000" "unat (TIMER_IN_MSEC mod 1000) = n mod 1000"
    by (simp_all add: unat_div unat_mod n_def)
  have s: "sint (TIMER_IN_MSEC div 1000) = int (n div 1000)" "sint (TIMER_IN_MSEC mod 1000) = int (n mod 1000)"
    using n by (subst sint_small; simp only: u; simp)+
  have zero: "TIMER_IN_MSEC = 0 \<longleftrightarrow> n = 0" by (simp add: n_def unat_eq_0)
  define q r where "q = int (n div 1000)" and "r = int (n mod 1000)"
  have qr: "int n = q * 1000 + r" "0 \<le> q" "0 \<le> r" "r \<le> 999" "q < 2 ^ 31"
    using n by (simp_all add: q_def r_def flip: of_nat_mult of_nat_add) (metis of_nat_add of_nat_mult of_nat_numeral div_mult_mod_eq)
  have run: "EventThread_run_timer TIMER_IN_MSEC = (if n \<noteq> 0 then Some (timer_start q (r * 1000000) True) else None)"
    by (simp add: EventThread_run_timer_def Let_def s zero q_def r_def)
  show ?thesis
    unfolding run zero n_def [symmetric] EventThread_stop_timer_def
    using qr by (auto simp: timer_start_def timer_valid_def timer_armed_def)
qed

theorem timer_period_witness:
  "\<exists>t. EventThread_run_timer 1500 = Some t \<and> timer_valid t \<and> value_sec t * 10 ^ 9 + value_nsec t = 1500 * 10 ^ 6"
  using timer_period [of 1500] by auto

end
