(* ===== verification/Lu_Server_Socket.thy ===== *)
theory Lu_Server_Socket
  imports Lu_Base_Socket Lu_Receive
begin

text \<open>
  \<open>ServerSocket.h\<close> and \<open>ConnectSocket.h\<close>: listening, accepting and connecting. The state that
  matters is which descriptors are open, because \<open>BaseSocket\<close> owns the descriptor it holds
  and closes it when it is destroyed or assigned to. The kernel's table is the set of open
  descriptors; its answers to the calls for one address are a record.
\<close>

section \<open>Descriptors and their owner\<close>

type_synonym fds = "int set"

text \<open>
  \<open>::close\<close> of a number that is not open fails and changes nothing, which is what removing it
  from the set does. \<open>BaseSocket::operator=\<close> resets \<open>m_fd\<close>, so the old \<open>FileDescriptor\<close> is
  destroyed and closes the number it holds.
\<close>

definition sys_close :: "int \<Rightarrow> fds \<Rightarrow> fds" where
  "sys_close fd open = open - {fd}"

definition fd_destroy :: "int \<Rightarrow> fds \<Rightarrow> fds" where
  "fd_destroy fd open = (if fd = NULL_FD then open else sys_close fd open)"

definition base_assign :: "int \<Rightarrow> int \<Rightarrow> fds \<Rightarrow> int \<times> fds" where
  "base_assign fd_new fd_old open = (fd_new, fd_destroy fd_old open)"

section \<open>ServerSocket\<close>

text \<open>
  The answers for one address of the list of \<open>getaddrinfo\<close>: the descriptor of \<open>::socket\<close>, and
  whether \<open>::bind\<close>, \<open>::listen\<close> and \<open>::getsockname\<close> succeed on an open socket.
\<close>

record listen_answer =
  la_fd :: int
  la_bind :: bool
  la_listen :: bool
  la_name :: bool

text \<open>
  The loop of \<open>setUpTCP\<close>. \<open>base\<close> is the descriptor \<open>m_baseSocket\<close> holds. The result is the
  function's value, the new \<open>base\<close> and the open descriptors.
\<close>

fun setUp_loop :: "listen_answer list \<Rightarrow> int \<Rightarrow> int \<Rightarrow> fds \<Rightarrow> bool \<times> int \<times> fds" where
  "setUp_loop [] fd base open = (fd \<noteq> NULL_FD, base, open)"
| "setUp_loop (a # as) fd base open =
     (if la_fd a < 0 then setUp_loop as (la_fd a) base open
      else let (base, open) = base_assign (la_fd a) base (insert (la_fd a) open) in
        if la_bind a \<and> la_fd a \<in> open \<and> la_listen a then
          (if la_name a then (True, base, open) else (False, base, open))
        else setUp_loop as NULL_FD base (sys_close (la_fd a) open))"

text \<open>\<open>None\<close> is a failed \<open>getaddrinfo\<close>.\<close>

definition setUpTCP :: "listen_answer list option \<Rightarrow> int \<Rightarrow> fds \<Rightarrow> bool \<times> int \<times> fds" where
  "setUpTCP addrs base open =
     (case addrs of None \<Rightarrow> (False, base, open) | Some as \<Rightarrow> setUp_loop as NULL_FD base open)"

text \<open>
  \<open>acceptDataSocket\<close> and \<open>onEvent\<close>. An answer of \<open>::accept\<close> is a descriptor or an error; the
  loop stops at the first one that is negative. The result is the value of \<open>onEvent\<close>, the
  descriptor of the listening socket, and the connections given to \<open>onNewConnection\<close>;
  \<open>None\<close> while the kernel still has connections.
\<close>

fun accept_loop :: "int list \<Rightarrow> int \<Rightarrow> int list option" where
  "accept_loop rs base =
     (if base = NULL_FD then Some []
      else case rs of
        [] \<Rightarrow> None
      | r # rs' \<Rightarrow> if r < 0 then Some [] else map_option ((#) r) (accept_loop rs' base))"

declare accept_loop.simps [simp del]

definition ServerSocket_onEvent ::
  "32 word \<Rightarrow> int list \<Rightarrow> int \<Rightarrow> fds \<Rightarrow> (bool \<times> int \<times> fds \<times> int list) option" where
  "ServerSocket_onEvent events rs base open =
     (if events AND EPOLLHUP \<noteq> 0 \<or> events AND EPOLLERR \<noteq> 0 then
        (let (base, open) = base_assign NULL_FD base open in
         map_option (\<lambda>acc. (True, base, open \<union> set acc, acc)) (accept_loop rs base))
      else if events AND EPOLLIN = 0 then Some (True, base, open, [])
      else map_option (\<lambda>acc. (True, base, open \<union> set acc, acc)) (accept_loop rs base))"

section \<open>ConnectSocket\<close>

record connect_answer =
  ca_fd :: int
  ca_connect :: bool

fun connect_loop :: "connect_answer list \<Rightarrow> int \<Rightarrow> fds \<Rightarrow> int \<times> fds" where
  "connect_loop [] fd open = (fd, open)"
| "connect_loop (a # as) fd open =
     (if ca_fd a < 0 then connect_loop as (ca_fd a) open
      else if ca_connect a then (ca_fd a, insert (ca_fd a) open)
      else connect_loop as NULL_FD (sys_close (ca_fd a) (insert (ca_fd a) open)))"

text \<open>
  The result of \<open>connectToTCP\<close>: its value, the descriptor of the data socket it made, the open
  descriptors, and whether the address list was freed. \<open>tls\<close> is \<open>None\<close> for a plain socket, else
  the answers of \<open>SSL_new\<close>, \<open>SSL_set_tlsext_host_name\<close> and \<open>SSL_connect\<close>.
\<close>

record tls_answer =
  ta_new :: bool
  ta_host :: bool
  ta_connect :: bool

record connect_result =
  cr_ok :: bool
  cr_socket :: "int option"
  cr_open :: fds
  cr_freed :: bool

definition connectToTCP ::
  "connect_answer list option \<Rightarrow> tls_answer option \<Rightarrow> fds \<Rightarrow> connect_result" where
  "connectToTCP addrs tls open =
     (case addrs of
        None \<Rightarrow> \<lparr>cr_ok = False, cr_socket = None, cr_open = open, cr_freed = True\<rparr>
      | Some as \<Rightarrow>
          let (fd, open) = connect_loop as NULL_FD open in
          if fd = NULL_FD then \<lparr>cr_ok = False, cr_socket = None, cr_open = open, cr_freed = True\<rparr>
          else case tls of
            None \<Rightarrow> \<lparr>cr_ok = True, cr_socket = Some fd, cr_open = open, cr_freed = True\<rparr>
          | Some t \<Rightarrow>
              if \<not> ta_new t then \<lparr>cr_ok = False, cr_socket = None, cr_open = sys_close fd open, cr_freed = False\<rparr>
              else if \<not> ta_host t then \<lparr>cr_ok = False, cr_socket = None, cr_open = sys_close fd open, cr_freed = False\<rparr>
              else if \<not> ta_connect t then \<lparr>cr_ok = False, cr_socket = None, cr_open = sys_close fd open, cr_freed = False\<rparr>
              else \<lparr>cr_ok = True, cr_socket = Some fd, cr_open = open, cr_freed = True\<rparr>)"

section \<open>Accepting\<close>

lemma accept_loop_null [simp]: "accept_loop rs NULL_FD = Some []"
  by (simp add: accept_loop.simps)

lemma accept_loop_until:
  "base \<noteq> NULL_FD \<Longrightarrow> \<forall>c \<in> set cs. 0 \<le> c \<Longrightarrow> r < 0 \<Longrightarrow> accept_loop (cs @ r # rs) base = Some cs"
  by (induction cs) (auto simp: accept_loop.simps)

lemma ServerSocket_accepts:
  assumes "events AND EPOLLHUP = 0" "events AND EPOLLERR = 0" "events AND EPOLLIN \<noteq> 0"
    and "base \<noteq> NULL_FD" "\<forall>c \<in> set cs. 0 \<le> c" "r < 0"
  shows "ServerSocket_onEvent events (cs @ r # rs) base open = Some (True, base, open \<union> set cs, cs)"
  using assms by (simp add: ServerSocket_onEvent_def accept_loop_until)

section \<open>Connecting\<close>

text \<open>A descriptor the kernel hands out is not open; \<open>-1\<close> is its only negative answer.\<close>

definition fresh_fd :: "fds \<Rightarrow> int \<Rightarrow> bool" where
  "fresh_fd open fd \<longleftrightarrow> fd = NULL_FD \<or> 0 \<le> fd \<and> fd \<notin> open"

lemma fresh_fd_cases: "fresh_fd open fd \<Longrightarrow> fd = NULL_FD \<or> \<not> fd < 0 \<and> fd \<noteq> NULL_FD \<and> fd \<notin> open"
  by (auto simp: fresh_fd_def)

lemma sys_close_insert: "fd \<notin> open \<Longrightarrow> sys_close fd (insert fd open) = open"
  by (simp add: sys_close_def)

definition first_connected :: "connect_answer list \<Rightarrow> int option" where
  "first_connected as = map_option ca_fd (find (\<lambda>a. 0 \<le> ca_fd a \<and> ca_connect a) as)"

lemma connect_loop_first:
  "\<forall>a \<in> set as. fresh_fd open (ca_fd a) \<Longrightarrow>
     connect_loop as NULL_FD open =
       (case first_connected as of None \<Rightarrow> (NULL_FD, open) | Some fd \<Rightarrow> (fd, insert fd open))"
proof (induction as)
  case (Cons a as)
  then have IH: "connect_loop as NULL_FD open =
       (case first_connected as of None \<Rightarrow> (NULL_FD, open) | Some fd \<Rightarrow> (fd, insert fd open))" by simp
  from Cons.prems consider "ca_fd a = NULL_FD" | "\<not> ca_fd a < 0" "ca_fd a \<notin> open"
    using fresh_fd_cases [of "open" "ca_fd a"] by auto
  then show ?case
    by cases (use IH in \<open>simp_all add: first_connected_def sys_close_insert\<close>)
qed (simp add: first_connected_def)

lemma first_connected_fresh:
  "\<forall>a \<in> set as. fresh_fd open (ca_fd a) \<Longrightarrow> first_connected as = Some fd \<Longrightarrow> fd \<noteq> NULL_FD \<and> fd \<notin> open"
  by (induction as) (auto simp: first_connected_def fresh_fd_def split: if_splits)

definition tls_ok :: "tls_answer option \<Rightarrow> bool" where
  "tls_ok tls \<longleftrightarrow> (case tls of None \<Rightarrow> True | Some t \<Rightarrow> ta_new t \<and> ta_host t \<and> ta_connect t)"

text \<open>
  C29. \<open>connectToTCP\<close> leaks no descriptor and keeps the right one: it succeeds exactly when some
  address accepts the connection and the TLS handshake, if there is one, succeeds; the data
  socket then holds the descriptor of the first address that accepted; and the descriptors
  open afterwards are those open before and that one.
\<close>

theorem connectToTCP_no_leak:
  assumes "\<forall>a \<in> set as. fresh_fd open (ca_fd a)" "r = connectToTCP (Some as) tls open"
  shows "cr_socket r = (if tls_ok tls then first_connected as else None)
    \<and> (cr_ok r \<longleftrightarrow> cr_socket r \<noteq> None)
    \<and> cr_open r = open \<union> set_option (cr_socket r)"
proof (cases "first_connected as")
  case None
  with assms show ?thesis by (simp add: connectToTCP_def connect_loop_first)
next
  case (Some fd)
  with first_connected_fresh [OF assms(1)] have "fd \<noteq> NULL_FD" "fd \<notin> open" by auto
  with Some assms show ?thesis
    by (cases tls) (auto simp: connectToTCP_def connect_loop_first sys_close_insert tls_ok_def)
qed

theorem connectToTCP_no_leak_witness:
  "cr_open (connectToTCP (Some [\<lparr>ca_fd = 5, ca_connect = False\<rparr>, \<lparr>ca_fd = 5, ca_connect = True\<rparr>]) None {0, 1}) = {0, 1, 5}"
  using connectToTCP_no_leak [of "[\<lparr>ca_fd = 5, ca_connect = False\<rparr>, \<lparr>ca_fd = 5, ca_connect = True\<rparr>]" "{0, 1}", OF _ refl, of None]
  by (auto simp: fresh_fd_def first_connected_def tls_ok_def)

lemma connectToTCP_addresses_leak:
  "first_connected as = Some fd \<Longrightarrow> \<forall>a \<in> set as. fresh_fd open (ca_fd a) \<Longrightarrow> \<not> tls_ok tls \<Longrightarrow>
     \<not> cr_freed (connectToTCP (Some as) tls open)"
  using first_connected_fresh [of as "open" fd]
  by (cases tls) (auto simp: connectToTCP_def connect_loop_first tls_ok_def)

section \<open>Listening\<close>

text \<open>The kernel hands out the lowest number that is free.\<close>

definition lowest_fd :: "fds \<Rightarrow> int \<Rightarrow> bool" where
  "lowest_fd open fd \<longleftrightarrow> 0 \<le> fd \<and> fd \<notin> open \<and> {0..<fd} \<subseteq> open"

lemma lowest_fd_unique: "lowest_fd open fd \<Longrightarrow> lowest_fd open fd' \<Longrightarrow> fd' = fd"
  unfolding lowest_fd_def by (metis atLeastLessThan_iff linorder_neqE subsetD)

definition la_good :: "listen_answer \<Rightarrow> bool" where
  "la_good a \<longleftrightarrow> la_bind a \<and> la_listen a"

lemma setUp_loop_poisoned:
  "\<forall>a \<in> set as. la_fd a = NULL_FD \<or> la_fd a = fd \<Longrightarrow> 0 \<le> fd \<Longrightarrow> fd \<notin> open \<Longrightarrow>
     setUp_loop as NULL_FD fd open = (False, fd, open)"
proof (induction as)
  case (Cons a as)
  then show ?case
    by (cases "la_fd a = NULL_FD") (auto simp: base_assign_def fd_destroy_def sys_close_def)
qed simp

lemma setUp_loop_first:
  assumes "\<forall>a \<in> set as. la_fd a = NULL_FD \<or> lowest_fd open (la_fd a)"
  shows "setUp_loop as NULL_FD NULL_FD open =
     (case find (\<lambda>a. la_fd a \<noteq> NULL_FD) as of
        None \<Rightarrow> (False, NULL_FD, open)
      | Some a \<Rightarrow> (la_good a \<and> la_name a, la_fd a, if la_good a then insert (la_fd a) open else open))"
  using assms
proof (induction as)
  case (Cons a as)
  show ?case
  proof (cases "la_fd a = NULL_FD")
    case True
    with Cons show ?thesis by simp
  next
    case False
    with Cons.prems have low: "lowest_fd open (la_fd a)" by simp
    then have fd: "0 \<le> la_fd a" "la_fd a \<notin> open" by (auto simp: lowest_fd_def)
    have "\<forall>b \<in> set as. la_fd b = NULL_FD \<or> la_fd b = la_fd a"
      using Cons.prems lowest_fd_unique [OF low] by auto
    from setUp_loop_poisoned [OF this fd] False fd show ?thesis
      by (auto simp: la_good_def base_assign_def fd_destroy_def sys_close_insert)
  qed
qed simp

text \<open>
  \<open>setUpTCP\<close> never gets past the first socket it opens: since the kernel hands out the lowest
  free descriptor, a second \<open>::socket\<close> returns the number just closed, which \<open>m_baseSocket\<close>
  still holds and closes when it is assigned to. So the result is that of the first address
  whose socket could be opened: it listens, or the set-up fails whatever the other
  addresses would have answered, with \<open>m_baseSocket\<close> holding a descriptor that is closed.
\<close>

theorem setUpTCP_first_only:
  assumes "\<forall>a \<in> set as. la_fd a = NULL_FD \<or> lowest_fd open (la_fd a)"
  shows "setUpTCP (Some as) NULL_FD open =
     (case find (\<lambda>a. la_fd a \<noteq> NULL_FD) as of
        None \<Rightarrow> (False, NULL_FD, open)
      | Some a \<Rightarrow> (la_good a \<and> la_name a, la_fd a, if la_good a then insert (la_fd a) open else open))"
  using setUp_loop_first [OF assms] by (simp add: setUpTCP_def)

theorem setUpTCP_first_only_witness:
  "setUpTCP (Some [\<lparr>la_fd = 2, la_bind = False, la_listen = True, la_name = True\<rparr>,
                   \<lparr>la_fd = 2, la_bind = True, la_listen = True, la_name = True\<rparr>]) NULL_FD {0, 1} = (False, 2, {0, 1})"
proof -
  have "lowest_fd {0, 1} 2" by (auto simp: lowest_fd_def)
  then show ?thesis
    using setUpTCP_first_only [of "[\<lparr>la_fd = 2, la_bind = False, la_listen = True, la_name = True\<rparr>,
      \<lparr>la_fd = 2, la_bind = True, la_listen = True, la_name = True\<rparr>]" "{0, 1}"] by (simp add: la_good_def)
qed

end
