(* ===== verification/Lu_Server_Thread.thy ===== *)
theory Lu_Server_Thread
  imports Lu_Threads Lu_Server_Socket Lu_Locks
begin

text \<open>
  \<open>ServerThread.h\<close>, \<open>ServerSingleThread.h\<close> and \<open>ClientThread.h\<close>: a listening thread hands its
  connections to client threads in turn, through their event channels; each client thread
  owns the sockets it gets. Also how the threads wait for each other at the start
  (\<open>WaitForCount\<close>).
\<close>

section \<open>Configuration and construction\<close>

record server_config =
  CREATE_NEW_THREAD :: bool
  NUMBER_OF_CLIENT_HANDLE_THREADS :: u32
  TIMER_NAME :: string

record client_thread =
  cl_name :: string
  cl_timerName :: string

text \<open>
  The loop of the constructor: \<open>eventThreadConfig\<close> is one object, so every turn appends to the
  timer name of the turn before.
\<close>

fun make_clients :: "string \<Rightarrow> string \<Rightarrow> nat \<Rightarrow> nat \<Rightarrow> client_thread list" where
  "make_clients name timerName i 0 = []"
| "make_clients name timerName i (Suc k) =
     (let timerName = timerName @ to_string (i + 1) in
      \<lparr>cl_name = name @ ''_'' @ to_string (i + 1), cl_timerName = timerName\<rparr> # make_clients name timerName (i + 1) k)"

text \<open>
  The thread: the counter of the round robin, the client threads, what has been written to
  the pipe of each, the start-up counter, and the sockets it has deleted.
  \<open>hw\<close> is \<open>std::thread::hardware_concurrency\<close>, which may be 0.
\<close>

record server_thread =
  st_current :: u32
  st_clients :: "client_thread list"
  st_pipes :: "byte list list"
  st_sync :: wait_for_count
  st_deleted :: "ptr list"

definition ServerThread :: "u32 \<Rightarrow> string \<Rightarrow> server_config \<Rightarrow> server_thread" where
  "ServerThread hw name cfg =
     (let n0 = NUMBER_OF_CLIENT_HANDLE_THREADS cfg; sync = WaitForCount n0;
          (n, sync) = (if n0 \<ge> hw then (hw, wc_update hw sync) else (n0, sync));
          sync = (if CREATE_NEW_THREAD cfg then wc_update (n + 1) sync else sync)
      in \<lparr>st_current = 0, st_clients = make_clients name (TIMER_NAME cfg) 0 (unat n),
          st_pipes = replicate (unat n) [], st_sync = sync, st_deleted = []\<rparr>)"

section \<open>New connections\<close>

definition new_connection :: "ptr \<Rightarrow> event_data" where
  "new_connection p = \<lparr>eventType = EventNewConnection, channelID = 0, ed_data = p\<rparr>"

text \<open>
  \<open>ret\<close> is the answer of \<open>::write\<close>. The remainder is computed in \<open>size_t\<close>, so no thread at all is a
  division by zero.
\<close>

definition hand_over :: "int \<Rightarrow> ptr \<Rightarrow> server_thread \<Rightarrow> fault + server_thread" where
  "hand_over ret p s =
     (if st_pipes s = [] then Inl DividedByZero
      else let i = unat (st_current s) mod length (st_pipes s);
               (_, bs) = notify ret (new_connection p)
           in Inr (s\<lparr>st_current := word_of_nat i + 1, st_pipes := (st_pipes s)[i := st_pipes s ! i @ bs]\<rparr>))"

definition onNewConnection :: "int \<Rightarrow> ptr \<Rightarrow> server_thread \<Rightarrow> fault + server_thread" where
  "onNewConnection ret baseSocket s = hand_over ret baseSocket s"

text \<open>With TLS: what \<open>SSL_new\<close> and \<open>SSL_accept\<close> answer, and the address of the new \<open>SSLSocket\<close>.\<close>

datatype tls_accept = SSLNull | SSLRefused | SSLAccepted ptr

definition delete_socket :: "ptr \<Rightarrow> server_thread \<Rightarrow> server_thread" where
  "delete_socket p s = s\<lparr>st_deleted := st_deleted s @ [p]\<rparr>"

definition onNewConnection_ssl :: "int \<Rightarrow> tls_accept \<Rightarrow> ptr \<Rightarrow> server_thread \<Rightarrow> fault + server_thread" where
  "onNewConnection_ssl ret tls baseSocket s =
     (case tls of
        SSLNull \<Rightarrow> Inr (delete_socket baseSocket s)
      | SSLRefused \<Rightarrow> Inr (delete_socket baseSocket s)
      | SSLAccepted sslSocket \<Rightarrow>
          (case hand_over ret sslSocket s of
             Inl f \<Rightarrow> Inl f
           | Inr s \<Rightarrow> Inr (delete_socket baseSocket s)))"

fun serve :: "ptr list \<Rightarrow> server_thread \<Rightarrow> fault + server_thread" where
  "serve [] s = Inr s"
| "serve (p # ps) s = (case onNewConnection (int EVENT_SIZE) p s of Inl f \<Rightarrow> Inl f | Inr s \<Rightarrow> serve ps s)"

text \<open>
  \<open>ClientThread::onNewConnection\<close>: a data socket at \<open>p\<close> takes over the descriptor, the callback is
  told, and the event loop becomes its owner; if that fails, the socket is destroyed. The
  first component lists the callbacks.
\<close>

datatype client_event = ClientNewConnection ptr

definition ClientThread_onNewConnection ::
  "bool \<Rightarrow> bool \<Rightarrow> ptr \<Rightarrow> int \<Rightarrow> event_loop \<Rightarrow> fault + client_event list \<times> event_loop" where
  "ClientThread_onNewConnection nonblock ctl p fd el =
     (case el_add_owned nonblock ctl p \<lparr>h_fd = fd, h_type = DataSocketHandler\<rparr> el of
        Inl f \<Rightarrow> Inl f
      | Inr (_, el) \<Rightarrow> Inr ([ClientNewConnection p], el))"

text \<open>\<open>ServerSingleThread\<close> does the same on its own loop, without a channel; with TLS only when the handshake succeeds.\<close>

definition ServerSingleThread_onNewConnection ::
  "tls_accept option \<Rightarrow> bool \<Rightarrow> bool \<Rightarrow> ptr \<Rightarrow> int \<Rightarrow> event_loop \<Rightarrow> fault + client_event list \<times> event_loop" where
  "ServerSingleThread_onNewConnection tls nonblock ctl p fd el =
     (case tls of
        Some SSLNull \<Rightarrow> Inr ([], el)
      | Some SSLRefused \<Rightarrow> Inr ([], el)
      | _ \<Rightarrow>
          (case el_add_owned nonblock ctl p \<lparr>h_fd = fd, h_type = DataSocketHandler\<rparr> el of
             Inl f \<Rightarrow> Inl f
           | Inr (_, el) \<Rightarrow> Inr ([ClientNewConnection p], el)))"

section \<open>Starting\<close>

text \<open>
  \<open>ClientThread::run\<close> increments the counter once its channels are in its loop. \<open>ServerThread::run\<close>
  returns when the socket cannot be set up; else it increments or, on the caller's thread,
  waits. The result is whether the thread went on to its event loop; \<open>None\<close> while it waits.
\<close>

definition ClientThread_run_sync :: "wait_for_count \<Rightarrow> wait_for_count" where
  "ClientThread_run_sync w = snd (wc_increment w)"

definition ServerThread_run_sync :: "bool \<Rightarrow> bool \<Rightarrow> wait_for_count \<Rightarrow> (bool \<times> wait_for_count) option" where
  "ServerThread_run_sync createNewThread setUp w =
     (if \<not> setUp then Some (False, w)
      else if createNewThread then Some (True, snd (wc_increment w))
      else if wc_may_return w then Some (True, w)
      else None)"

text \<open>
  \<open>start\<close>, when \<open>k\<close> client threads have got to their increment: \<open>None\<close> while it waits, else
  whether the server listens.
\<close>

definition ServerThread_start :: "bool \<Rightarrow> bool \<Rightarrow> nat \<Rightarrow> wait_for_count \<Rightarrow> bool option" where
  "ServerThread_start createNewThread setUp k w =
     (let w = (ClientThread_run_sync ^^ k) w in
      case ServerThread_run_sync createNewThread setUp w of
        None \<Rightarrow> None
      | Some (listening, w) \<Rightarrow>
          if createNewThread then (if wc_may_return w then Some listening else None) else Some listening)"

section \<open>Taking turns\<close>

text \<open>The connections client thread \<open>j\<close> of \<open>n\<close> gets, when the first one has number \<open>k\<close>.\<close>

definition share :: "nat \<Rightarrow> nat \<Rightarrow> nat \<Rightarrow> 'a list \<Rightarrow> 'a list" where
  "share k n j ps = map snd (filter (\<lambda>(i, _). i mod n = j) (enumerate k ps))"

lemma share_simps [simp]:
  "share k n j [] = []"
  "share k n j (p # ps) = (if k mod n = j then p # share (Suc k) n j ps else share (Suc k) n j ps)"
  by (simp_all add: share_def)

lemma share_append: "share k n j (ps @ qs) = share k n j ps @ share (k + length ps) n j qs"
  by (induction ps arbitrary: k) auto

lemma length_share:
  "0 < n \<Longrightarrow> j < n \<Longrightarrow> length (share 0 n j ps) = length ps div n + (if j < length ps mod n then 1 else 0)"
proof (induction ps rule: rev_induct)
  case (snoc p ps)
  let ?m = "length ps"
  have "Suc ?m div n + (if j < Suc ?m mod n then 1 else 0) =
      ?m div n + (if j < ?m mod n then 1 else 0) + (if ?m mod n = j then 1 else 0)"
    using snoc.prems by (auto simp: div_Suc mod_Suc)
  with snoc show ?case by (simp add: share_append)
qed simp

definition turn_ok :: "nat \<Rightarrow> nat \<Rightarrow> server_thread \<Rightarrow> bool" where
  "turn_ok n k s \<longleftrightarrow> length (st_pipes s) = n \<and> unat (st_current s) mod n = k mod n"

lemma notify_whole: "snd (notify (int EVENT_SIZE) ed) = event_bytes ed"
  by (simp add: notify_def)

lemma onNewConnection_turn:
  assumes "turn_ok n k s" "0 < n" "n < 2 ^ 32"
  shows "\<exists>s'. onNewConnection (int EVENT_SIZE) p s = Inr s' \<and> turn_ok n (Suc k) s' \<and> st_deleted s' = st_deleted s
    \<and> st_pipes s' = (st_pipes s)[k mod n := st_pipes s ! (k mod n) @ event_bytes (new_connection p)]"
proof -
  let ?i = "k mod n"
  have i: "?i < n" "unat (st_current s) mod length (st_pipes s) = ?i" "st_pipes s \<noteq> []"
    using assms by (auto simp: turn_ok_def)
  have "unat (word_of_nat ?i + 1 :: u32) = Suc ?i"
  proof -
    have "(word_of_nat ?i + 1 :: u32) = word_of_nat (Suc ?i)" by simp
    moreover have "Suc ?i < 2 ^ 32" using i(1) assms(3) by simp
    ultimately show ?thesis by (simp only: unsigned_of_nat) (simp add: take_bit_nat_eq_self)
  qed
  moreover have "Suc ?i mod n = Suc k mod n" by (simp add: mod_Suc_eq)
  ultimately show ?thesis
    using i assms(1) by (simp add: onNewConnection_def hand_over_def Let_def case_prod_beta notify_def turn_ok_def)
qed

lemma serve_turns:
  assumes "turn_ok n k s" "0 < n" "n < 2 ^ 32"
  shows "\<exists>s'. serve ps s = Inr s' \<and> turn_ok n (k + length ps) s' \<and> st_deleted s' = st_deleted s
    \<and> (\<forall>j < n. st_pipes s' ! j = st_pipes s ! j @ concat (map (event_bytes \<circ> new_connection) (share k n j ps)))"
  using assms(1)
proof (induction ps arbitrary: k s)
  case (Cons p ps)
  from onNewConnection_turn [OF Cons.prems assms(2,3), of p] obtain s1 where s1:
    "onNewConnection (int EVENT_SIZE) p s = Inr s1" "turn_ok n (Suc k) s1" "st_deleted s1 = st_deleted s"
    "st_pipes s1 = (st_pipes s)[k mod n := st_pipes s ! (k mod n) @ event_bytes (new_connection p)]" by blast
  have "st_pipes s1 ! j = st_pipes s ! j @ (if k mod n = j then event_bytes (new_connection p) else [])" if "j < n" for j
    using that s1(4) Cons.prems by (auto simp: turn_ok_def nth_list_update)
  with Cons.IH [OF s1(2)] s1 show ?case by fastforce
qed simp

lemma dispatch_new_connections:
  "concat (map (\<lambda>p. dispatch (new_connection p)) ps) = map OnNewConnection ps"
  by (induction ps) (auto simp: dispatch_def new_connection_def)

lemma length_make_clients [simp]: "length (make_clients name timerName i k) = k"
  by (induction k arbitrary: timerName i) (auto simp: Let_def)

lemma ServerThread_fields:
  "st_current (ServerThread hw name cfg) = 0"
  "length (st_clients (ServerThread hw name cfg)) = unat (min (NUMBER_OF_CLIENT_HANDLE_THREADS cfg) hw)"
  "st_pipes (ServerThread hw name cfg) = replicate (unat (min (NUMBER_OF_CLIENT_HANDLE_THREADS cfg) hw)) []"
  "st_deleted (ServerThread hw name cfg) = []"
  "st_sync (ServerThread hw name cfg) =
     WaitForCount (min (NUMBER_OF_CLIENT_HANDLE_THREADS cfg) hw + (if CREATE_NEW_THREAD cfg then 1 else 0))"
  by (auto simp: ServerThread_def Let_def min_def WaitForCount_def wc_update_def)

section \<open>Properties\<close>

text \<open>
  C21. Connections are spread evenly and none is lost: the server serves every connection; client
  thread \<open>j\<close> of \<open>n\<close> gets just those whose number leaves remainder \<open>j\<close>, and however the reads of
  its pipe cut the stream, its handler is called for these, in order; no two threads' shares
  differ by more than one, and this also when the counter of the round robin is about to
  wrap around.
\<close>

theorem connections_in_turn:
  assumes "n = length (st_clients (ServerThread hw name cfg))" "j < n"
    and "serve ps (ServerThread hw name cfg) = r"
  shows "\<exists>s. r = Inr s
    \<and> (\<forall>chunks. concat chunks = st_pipes s ! j \<and> [] \<notin> set chunks
         \<and> reads_within readDataFile ec_on_bytes rb_leftToRecv (map Received chunks @ [RecvError EAGAIN]) EventChannel \<longrightarrow>
       (\<exists>rb. EventChannel_Receive (map Received chunks @ [RecvError EAGAIN]) EventChannel =
          Some (Inr (True, rb, map OnNewConnection (share 0 n j ps))) \<and> rb_pending rb = []))
    \<and> length (share 0 n j ps) = length ps div n + (if j < length ps mod n then 1 else 0)"
proof -
  let ?s = "ServerThread hw name cfg"
  have "n < 2 ^ 32" using unsigned_less [of "min (NUMBER_OF_CLIENT_HANDLE_THREADS cfg) hw"] assms(1)
    by (simp add: ServerThread_fields)
  moreover have "turn_ok n 0 ?s" using assms(1) by (simp add: turn_ok_def ServerThread_fields)
  ultimately obtain s where s: "r = Inr s"
    "\<forall>j < n. st_pipes s ! j = st_pipes ?s ! j @ concat (map (event_bytes \<circ> new_connection) (share 0 n j ps))"
    using serve_turns [of n 0 ?s ps] assms(2,3) by auto
  have pipe: "st_pipes s ! j = concat (map event_bytes (map new_connection (share 0 n j ps))) @ []"
    using s(2) assms(1,2) by (simp add: ServerThread_fields)
  have events: "split_events (st_pipes s ! j) = (map OnNewConnection (share 0 n j ps), [])"
    unfolding pipe by (subst split_events_encoded) (use dispatch_new_connections in \<open>simp_all add: comp_def\<close>)
  have "\<exists>rb. EventChannel_Receive (map Received chunks @ [RecvError EAGAIN]) EventChannel =
          Some (Inr (True, rb, map OnNewConnection (share 0 n j ps))) \<and> rb_pending rb = []"
    if "concat chunks = st_pipes s ! j" "[] \<notin> set chunks"
      "reads_within readDataFile ec_on_bytes rb_leftToRecv (map Received chunks @ [RecvError EAGAIN]) EventChannel" for chunks
    using ec.receive_delivers [OF ec_ok_new that(2,3)] that(1) events
    by (auto simp: EventChannel_Receive_def EventChannel_def)
  then show ?thesis using s(1) length_share [of n j ps] assms(2) by auto
qed

theorem connections_in_turn_witness:
  "\<exists>rb. EventChannel_Receive [Received (event_bytes (new_connection 100) @ event_bytes (new_connection 300)), RecvError EAGAIN] EventChannel =
      Some (Inr (True, rb, [OnNewConnection 100, OnNewConnection 300])) \<and> rb_pending rb = []"
proof -
  let ?cfg = "\<lparr>CREATE_NEW_THREAD = True, NUMBER_OF_CLIENT_HANDLE_THREADS = 2, TIMER_NAME = ''T''\<rparr>"
  let ?ps = "[100, 200, 300]" and ?s = "ServerThread 8 ''S'' ?cfg"
  let ?bytes = "event_bytes (new_connection 100) @ event_bytes (new_connection 300)"
  have n: "2 = length (st_clients ?s)" by (simp add: ServerThread_fields)
  from connections_in_turn [OF n _ refl, of 0 ?ps] obtain s where s: "serve ?ps ?s = Inr s"
    "\<And>chunks. concat chunks = st_pipes s ! 0 \<Longrightarrow> [] \<notin> set chunks \<Longrightarrow>
       reads_within readDataFile ec_on_bytes rb_leftToRecv (map Received chunks @ [RecvError EAGAIN]) EventChannel \<Longrightarrow>
       \<exists>rb. EventChannel_Receive (map Received chunks @ [RecvError EAGAIN]) EventChannel =
          Some (Inr (True, rb, map OnNewConnection (share 0 2 0 ?ps))) \<and> rb_pending rb = []"
    by auto
  have "turn_ok 2 0 ?s" by (simp add: turn_ok_def ServerThread_fields)
  from serve_turns [OF this, of ?ps] s(1) have "st_pipes s ! 0 = ?bytes" by (simp add: ServerThread_fields)
  moreover have "reads_within readDataFile ec_on_bytes rb_leftToRecv (map Received [?bytes] @ [RecvError EAGAIN]) EventChannel"
    by (rule ec.reads_within_bounded [OF ec_room ec_ok_new]) auto
  ultimately show ?thesis using s(2) [of "[?bytes]"] by simp
qed

text \<open>
  C30. The start is synchronised, and hangs when the socket cannot be set up: with a thread of its own,
  \<open>start\<close> returns exactly when every client thread has reached its loop and the server
  listens; so if \<open>setUpTCP\<close> fails it never returns. On the caller's thread it goes on exactly
  when all client threads are there, and a failed set-up returns at once.
\<close>

theorem server_start_sync:
  assumes "s = ServerThread hw name cfg" "k \<le> length (st_clients s)" "length (st_clients s) + 1 < 2 ^ 32"
  shows "ServerThread_start (CREATE_NEW_THREAD cfg) setUp k (st_sync s) =
     (if CREATE_NEW_THREAD cfg then (if setUp \<and> k = length (st_clients s) then Some True else None)
      else if \<not> setUp then Some False
      else if k = length (st_clients s) then Some True else None)"
proof -
  let ?m = "min (NUMBER_OF_CLIENT_HANDLE_THREADS cfg) hw"
  let ?c = "if CREATE_NEW_THREAD cfg then 1 else 0 :: u32"
  have n: "length (st_clients s) = unat ?m" "st_sync s = WaitForCount (?m + ?c)"
    using assms(1) by (simp_all add: ServerThread_fields)
  have funs: "ClientThread_run_sync = snd \<circ> wc_increment" by (simp add: fun_eq_iff ClientThread_run_sync_def)
  have w: "(ClientThread_run_sync ^^ k) (st_sync s) = \<lparr>m_numberOfCountWaiting = ?m + ?c, m_count = word_of_nat k\<rparr>"
    unfolding funs n(2) by (rule wc_count)
  have m: "?m = word_of_nat (unat ?m)" by simp
  have inj: "(word_of_nat a :: u32) = word_of_nat b \<longleftrightarrow> a = b" if "a < 2 ^ 32" "b < 2 ^ 32" for a b
    using that by (simp add: word_of_nat_eq_iff take_bit_nat_eq_self)
  have eq: "(word_of_nat k :: u32) = ?m \<longleftrightarrow> k = unat ?m" "(word_of_nat k :: u32) = ?m + 1 \<longleftrightarrow> k = Suc (unat ?m)"
    using inj [of k "unat ?m"] inj [of k "Suc (unat ?m)"] assms(2,3) n(1) by (simp_all add: add.commute)
  show ?thesis
    using eq n(1) assms(2)
    by (auto simp: ServerThread_start_def ServerThread_run_sync_def wc_may_return_def wc_increment_def w Let_def add.commute)
qed

theorem server_start_sync_witness:
  "ServerThread_start True False 2 (st_sync (ServerThread 8 ''S'' \<lparr>CREATE_NEW_THREAD = True,
     NUMBER_OF_CLIENT_HANDLE_THREADS = 2, TIMER_NAME = ''T''\<rparr>)) = None"
  using server_start_sync [OF refl, of 2 8 "''S''" "\<lparr>CREATE_NEW_THREAD = True, NUMBER_OF_CLIENT_HANDLE_THREADS = 2, TIMER_NAME = ''T''\<rparr>" False]
  by (simp add: ServerThread_fields)

lemma no_client_threads:
  "hw = 0 \<or> NUMBER_OF_CLIENT_HANDLE_THREADS cfg = 0 \<Longrightarrow>
     onNewConnection ret p (ServerThread hw name cfg) = Inl DividedByZero"
  by (auto simp: onNewConnection_def hand_over_def ServerThread_fields)

lemma tls_refused:
  "tls \<in> {SSLNull, SSLRefused} \<Longrightarrow> onNewConnection_ssl ret tls p s = Inr (delete_socket p s)"
  by (auto simp: onNewConnection_ssl_def)

text \<open>The timers of the client threads are named after all the threads before them.\<close>

lemma timer_names:
  "j < k \<Longrightarrow> cl_timerName (make_clients name timerName i k ! j) = timerName @ concat (map (\<lambda>m. to_string (m + 1)) [i..<Suc (i + j)])"
proof (induction k arbitrary: timerName i j)
  case (Suc k)
  show ?case
  proof (cases j)
    case (Suc j')
    with Suc.IH [of j' "timerName @ to_string (i + 1)" "Suc i"] Suc.prems show ?thesis
      by (simp add: Let_def upt_rec [of i])
  qed (simp add: Let_def)
qed simp

lemma client_socket_owned:
  assumes "loop_ok el" "new_ok el \<lparr>nh_ptr = p, nh_object = \<lparr>h_fd = fd, h_type = DataSocketHandler\<rparr>, nh_nonblock = a, nh_ctl = b\<rparr>"
  shows "\<exists>el'. ClientThread_onNewConnection a b p fd el = Inr ([ClientNewConnection p], el') \<and> loop_ok el'
    \<and> (a \<and> b \<longrightarrow> p \<in> el_handlers el' \<and> el_interest el' fd = Some p) \<and> (\<not> (a \<and> b) \<longrightarrow> el' = el)"
proof -
  let ?n = "\<lparr>nh_ptr = p, nh_object = \<lparr>h_fd = fd, h_type = DataSocketHandler\<rparr>, nh_nonblock = a, nh_ctl = b\<rparr>"
  obtain ok el' where "el_add_owned (nh_nonblock ?n) (nh_ctl ?n) (nh_ptr ?n) (nh_object ?n) el = Inr (ok, el')" "loop_ok el'"
    by (rule el_add_owned_ok [OF assms])
  with el_add_owned_new [OF assms] show ?thesis by (auto simp: ClientThread_onNewConnection_def split: if_splits)
qed

end
