(* ===== verification/Lu_Connection_Thread.thy ===== *)
theory Lu_Connection_Thread
  imports Lu_Web_Socket Lu_Server_Socket
begin

text \<open>
  \<open>ConnectionThread.h\<close>: a thread keeps the list of services it should be connected to, tries the
  missing ones in \<open>connect\<close>, and forgets a service once its socket is owned by the event
  loop. What \<open>connectToTCP\<close> makes of the \<open>i\<close>-th service (the descriptor of its data socket, if
  any), whether the loop takes the socket, and the random key of a handshake are arguments;
  \<open>hasStartHandshake\<close> is the trait of the socket type.
\<close>

section \<open>Services\<close>

record service =
  sc_host :: string
  sc_service :: string
  sc_isWebSocket :: bool
  sc_socket :: "int option"

type_synonym ws_service = "request_info \<times> string"

record connection_thread =
  ct_services :: "service list"
  ct_websocketServices :: "ws_service list"

definition ConnectionThread :: connection_thread where
  "ConnectionThread = \<lparr>ct_services = [], ct_websocketServices = []\<rparr>"

definition same_service :: "string \<Rightarrow> string \<Rightarrow> service \<Rightarrow> bool" where
  "same_service host service x \<longleftrightarrow> sc_host x = host \<and> sc_service x = service"

definition same_ws :: "string \<Rightarrow> string \<Rightarrow> ws_service \<Rightarrow> bool" where
  "same_ws host port ws \<longleftrightarrow> ri_host (fst ws) = host \<and> snd ws = port"

definition connectTo_service :: "string \<Rightarrow> string \<Rightarrow> bool \<Rightarrow> connection_thread \<Rightarrow> connection_thread" where
  "connectTo_service host service duplicateCheck ct =
     (if duplicateCheck \<and> list_ex (same_service host service) (ct_services ct) then ct
      else ct\<lparr>ct_services := ct_services ct @
             [\<lparr>sc_host = host, sc_service = service, sc_isWebSocket = False, sc_socket = None\<rparr>]\<rparr>)"

definition connectTo_websocket :: "ws_service \<Rightarrow> bool \<Rightarrow> connection_thread \<Rightarrow> connection_thread" where
  "connectTo_websocket ws duplicateCheck ct =
     (if duplicateCheck \<and> list_ex (same_ws (ri_host (fst ws)) (snd ws)) (ct_websocketServices ct) then ct
      else ct\<lparr>ct_websocketServices := ct_websocketServices ct @ [ws],
              ct_services := ct_services ct @
             [\<lparr>sc_host = ri_host (fst ws), sc_service = snd ws, sc_isWebSocket = True, sc_socket = None\<rparr>]\<rparr>)"

section \<open>connect\<close>

datatype connection_event = OnConnection int | HandshakeSent int "byte list" | AddedToLoop int

definition handshake_events ::
  "bool \<Rightarrow> string \<Rightarrow> ws_service list \<Rightarrow> service \<Rightarrow> int \<Rightarrow> connection_event list" where
  "handshake_events hasStartHandshake key wss x fd =
     (if hasStartHandshake \<and> sc_isWebSocket x then
        (case find (same_ws (sc_host x) (sc_service x)) wss of
           None \<Rightarrow> []
         | Some ws \<Rightarrow> [HandshakeSent fd (startHandshake (fst ws) key)])
      else [])"

text \<open>
  The loop over the list: a service that has a socket is skipped, a failed one is kept, a
  connected one erased. If the event loop does not take the socket, it stays where it is and
  the assertion fails.
\<close>

fun connect_services ::
  "(nat \<Rightarrow> int option) \<Rightarrow> (nat \<Rightarrow> bool) \<Rightarrow> (nat \<Rightarrow> string) \<Rightarrow> bool \<Rightarrow> ws_service list \<Rightarrow> nat \<Rightarrow> service list \<Rightarrow>
     fault + service list \<times> connection_event list" where
  "connect_services tcp added key hs wss i [] = Inr ([], [])"
| "connect_services tcp added key hs wss i (x # xs) =
     (if sc_socket x \<noteq> None then
        map_sum id (\<lambda>(ys, es). (x # ys, es)) (connect_services tcp added key hs wss (Suc i) xs)
      else case tcp i of
        None \<Rightarrow> map_sum id (\<lambda>(ys, es). (x # ys, es)) (connect_services tcp added key hs wss (Suc i) xs)
      | Some fd \<Rightarrow>
          if \<not> added i then Inl Aborted
          else map_sum id (\<lambda>(ys, es). (ys, OnConnection fd # handshake_events hs (key i) wss x fd @ AddedToLoop fd # es))
                 (connect_services tcp added key hs wss (Suc i) xs))"

definition connect_missing ::
  "(nat \<Rightarrow> int option) \<Rightarrow> (nat \<Rightarrow> bool) \<Rightarrow> (nat \<Rightarrow> string) \<Rightarrow> bool \<Rightarrow> connection_thread \<Rightarrow>
     fault + connection_thread \<times> connection_event list" where
  "connect_missing tcp added key hs ct =
     map_sum id (\<lambda>(ys, es). (ct\<lparr>ct_services := ys\<rparr>, es))
       (connect_services tcp added key hs (ct_websocketServices ct) 0 (ct_services ct))"

section \<open>What connect leaves\<close>

text \<open>The services that are left, and the events of the connected ones, in the order of the list.\<close>

definition left_over :: "(nat \<Rightarrow> int option) \<Rightarrow> nat \<Rightarrow> service list \<Rightarrow> service list" where
  "left_over tcp i xs = map snd (filter (\<lambda>(i, x). sc_socket x \<noteq> None \<or> tcp i = None) (enumerate i xs))"

definition connected_events ::
  "(nat \<Rightarrow> int option) \<Rightarrow> (nat \<Rightarrow> string) \<Rightarrow> bool \<Rightarrow> ws_service list \<Rightarrow> nat \<Rightarrow> service list \<Rightarrow> connection_event list" where
  "connected_events tcp key hs wss i xs =
     concat (map (\<lambda>(i, x). case tcp i of None \<Rightarrow> []
        | Some fd \<Rightarrow> if sc_socket x \<noteq> None then []
                    else [OnConnection fd] @ handshake_events hs (key i) wss x fd @ [AddedToLoop fd]) (enumerate i xs))"

lemma connect_services_result:
  "\<forall>i. added i \<Longrightarrow> connect_services tcp added key hs wss i xs = Inr (left_over tcp i xs, connected_events tcp key hs wss i xs)"
proof (induction xs arbitrary: i)
  case (Cons x xs)
  from Cons.IH [OF Cons.prems, of "Suc i"] Cons.prems show ?case
    by (cases "tcp i") (auto simp: left_over_def connected_events_def)
qed (simp add: left_over_def connected_events_def)

lemma left_over_append:
  "left_over tcp i (xs @ ys) = left_over tcp i xs @ left_over tcp (i + length xs) ys"
  by (simp add: left_over_def enumerate_append_eq)

lemma set_left_over: "set (left_over tcp i xs) \<subseteq> set xs"
  by (auto simp: left_over_def in_set_enumerate_eq)

lemma find_append_new: "\<forall>x \<in> set xs. \<not> P x \<Longrightarrow> P y \<Longrightarrow> find P (xs @ [y]) = Some y"
  by (induction xs) auto

text \<open>
  \<open>connect\<close> tries each missing service once and keeps just those that failed, in order: every
  connected one is announced, sent its handshake and given to the event loop, in that order,
  and the handshake is that of the request with its host and port. But a WebSocket service
  is then gone for good: the duplicate check of \<open>connectTo\<close> still finds its request, so
  asking for it again changes nothing, while a plain service is queued again.
\<close>

theorem websocket_not_reconnected:
  assumes "\<forall>ws' \<in> set (ct_websocketServices ct). \<not> same_ws (ri_host (fst ws)) (snd ws) ws'"
    and "\<forall>x \<in> set (ct_services ct). \<not> same_service (ri_host (fst ws)) (snd ws) x"
    and "tcp (length (ct_services ct)) = Some fd" "\<forall>i. added i"
  shows "\<exists>ct' es. connect_missing tcp added key True (connectTo_websocket ws True ct) = Inr (ct', es)
    \<and> ct_services ct' = left_over tcp 0 (ct_services ct)
    \<and> [OnConnection fd, HandshakeSent fd (startHandshake (fst ws) (key (length (ct_services ct)))), AddedToLoop fd]
        = drop (length es - 3) es
    \<and> connectTo_websocket ws True ct' = ct'
    \<and> connectTo_service (ri_host (fst ws)) (snd ws) True ct' \<noteq> ct'"
proof -
  let ?h = "ri_host (fst ws)" and ?p = "snd ws" and ?n = "length (ct_services ct)"
  let ?x = "\<lparr>sc_host = ?h, sc_service = ?p, sc_isWebSocket = True, sc_socket = None\<rparr>"
  let ?wss = "ct_websocketServices ct @ [ws]" and ?xs = "ct_services ct @ [?x]"
  let ?es = "connected_events tcp key True ?wss 0 ?xs"
  let ?ct = "ct\<lparr>ct_websocketServices := ?wss, ct_services := left_over tcp 0 ?xs\<rparr>"
  have to: "connectTo_websocket ws True ct = ct\<lparr>ct_websocketServices := ?wss, ct_services := ?xs\<rparr>"
    using assms(1) by (simp add: connectTo_websocket_def list_ex_iff)
  have run: "connect_missing tcp added key True (connectTo_websocket ws True ct) = Inr (?ct, ?es)"
    using connect_services_result [OF assms(4)] by (simp add: connect_missing_def to)
  have left: "left_over tcp 0 ?xs = left_over tcp 0 (ct_services ct)"
    using assms(3) by (simp add: left_over_append) (simp add: left_over_def)
  have "find (same_ws ?h ?p) ?wss = Some ws"
    using assms(1) by (intro find_append_new) (auto simp: same_ws_def)
  then have es: "?es = connected_events tcp key True ?wss 0 (ct_services ct) @
      [OnConnection fd, HandshakeSent fd (startHandshake (fst ws) (key ?n)), AddedToLoop fd]"
    using assms(3) by (simp add: connected_events_def enumerate_append_eq handshake_events_def)
  have "connectTo_websocket ws True ?ct = ?ct"
    by (simp add: connectTo_websocket_def same_ws_def)
  moreover have "\<not> list_ex (same_service ?h ?p) (ct_services ?ct)"
    using assms(2) set_left_over [of tcp 0 "ct_services ct"] left by (auto simp: list_ex_iff)
  then have "connectTo_service ?h ?p True ?ct \<noteq> ?ct"
    by (auto simp: connectTo_service_def dest!: arg_cong [of _ _ "\<lambda>c. length (ct_services c)"])
  ultimately show ?thesis using run left es by auto
qed

theorem websocket_not_reconnected_witness:
  "\<exists>ct' es. connect_missing (\<lambda>_. Some 5) (\<lambda>_. True) (\<lambda>_. ''key'') True
      (connectTo_websocket (\<lparr>ri_resourceName = ''/'', ri_host = ''h'', ri_upgrade = [], ri_origin = [], ri_wsVersion = ''13'',
         ri_extensions = [], ri_protocols = [], ri_headers = []\<rparr>, ''80'') True ConnectionThread) = Inr (ct', es)
    \<and> ct_services ct' = [] \<and> es \<noteq> []"
proof -
  let ?ws = "(\<lparr>ri_resourceName = ''/'', ri_host = ''h'', ri_upgrade = [], ri_origin = [], ri_wsVersion = ''13'',
         ri_extensions = [], ri_protocols = [], ri_headers = []\<rparr>, ''80'')"
  show ?thesis
    using websocket_not_reconnected [of ConnectionThread ?ws "\<lambda>_. Some 5" 5 "\<lambda>_. True" "\<lambda>_. ''key''"]
    by (auto simp: ConnectionThread_def left_over_def)
qed

end
