(* ===== verification/Lu_Config.thy ===== *)
theory Lu_Config
  imports Lu_Text
begin

text \<open>
  \<open>Configurations\<close> (\<open>src/common/Config.cpp\<close>, \<open>include/common/Config.h\<close>): a file of lines
  \<open>group,name,type,value\<close>. The lines \<open>std::getline\<close> returns are an argument, and so are the
  conversions to \<open>float\<close>, \<open>double\<close> and \<open>time_t\<close>.
\<close>

section \<open>Values\<close>

datatype ('f, 'd) config_value =
    VBool bool | VChar char | VInt int | VUInt nat | VLongLong int | VULongLong nat
  | VFloat 'f | VDouble 'd | VString string | VTime int

record ('f, 'd) conversions =
  cv_stof :: "string \<Rightarrow> 'f option"
  cv_zerof :: 'f
  cv_stod :: "string \<Rightarrow> 'd option"
  cv_zerod :: 'd
  cv_time :: "string \<Rightarrow> int"

definition map_parsed :: "('a \<Rightarrow> 'b) \<Rightarrow> 'a parsed \<Rightarrow> 'b parsed" where
  "map_parsed f r = (case r of Inl e \<Rightarrow> Inl e | Inr (v, p) \<Rightarrow> Inr (f v, p))"

text \<open>The \<open>switch\<close> on the type: \<open>None\<close> is the default branch, which reads nothing.\<close>

definition read_value :: "('f, 'd) conversions \<Rightarrow> int \<Rightarrow> text_parser \<Rightarrow> ('f, 'd) config_value option parsed" where
  "read_value cv t p =
     (if t = 1 then map_parsed (Some \<circ> VBool) (nextBool p)
      else if t = 2 then map_parsed (Some \<circ> VChar) (nextChar p)
      else if t = 3 then map_parsed (Some \<circ> VInt) (nextInt p)
      else if t = 4 then map_parsed (Some \<circ> VUInt) (nextUInt p)
      else if t = 5 then map_parsed (Some \<circ> VLongLong) (nextLongLong p)
      else if t = 6 then map_parsed (Some \<circ> VULongLong) (nextULongLong p)
      else if t = 7 then map_parsed (Some \<circ> VFloat) (nextFloat (cv_stof cv) (cv_zerof cv) p)
      else if t = 8 then map_parsed (Some \<circ> VDouble) (nextFloat (cv_stod cv) (cv_zerod cv) p)
      else if t = 9 then map_parsed (Some \<circ> VString) (next_item p)
      else if t = 10 then map_parsed (Some \<circ> VTime) (nextDateTime (cv_time cv) p)
      else Inr (None, p))"

section \<open>Configurations\<close>

type_synonym ('f, 'd) configurations = "string \<rightharpoonup> string \<rightharpoonup> ('f, 'd) config_value"

text \<open>\<open>emplace\<close> of a map and of a set keeps the element that is there.\<close>

definition emplace_group :: "string \<Rightarrow> ('f, 'd) configurations \<Rightarrow> ('f, 'd) configurations" where
  "emplace_group g cs = (case cs g of Some _ \<Rightarrow> cs | None \<Rightarrow> cs(g \<mapsto> Map.empty))"

definition emplace_config ::
  "string \<Rightarrow> string \<Rightarrow> ('f, 'd) config_value \<Rightarrow> ('f, 'd) configurations \<Rightarrow> ('f, 'd) configurations" where
  "emplace_config g n v cs =
     (case cs g of
        None \<Rightarrow> cs
      | Some m \<Rightarrow> (case m n of Some _ \<Rightarrow> cs | None \<Rightarrow> cs(g \<mapsto> m(n \<mapsto> v))))"

text \<open>
  One line. An exception leaves what the earlier lines have stored, and the group of this one if
  its names could be read.
\<close>

definition load_line ::
  "('f, 'd) conversions \<Rightarrow> string \<Rightarrow> text_parser \<Rightarrow> ('f, 'd) configurations \<Rightarrow>
     (text_error + text_parser) \<times> ('f, 'd) configurations" where
  "load_line cv line p cs =
     (case next_item (nextLine line p) of
        Inl e \<Rightarrow> (Inl e, cs)
      | Inr (groupName, p) \<Rightarrow>
      (case next_item p of
        Inl e \<Rightarrow> (Inl e, cs)
      | Inr (configName, p) \<Rightarrow>
        let cs = emplace_group groupName cs in
        (case nextInt p of
           Inl e \<Rightarrow> (Inl e, cs)
         | Inr (t, p) \<Rightarrow>
         (case read_value cv t p of
            Inl e \<Rightarrow> (Inl e, cs)
          | Inr (None, p) \<Rightarrow> (Inr p, cs)
          | Inr (Some v, p) \<Rightarrow> (Inr p, emplace_config groupName configName v cs)))))"

fun load_lines ::
  "('f, 'd) conversions \<Rightarrow> string list \<Rightarrow> text_parser \<Rightarrow> ('f, 'd) configurations \<Rightarrow>
     (text_error + bool) \<times> ('f, 'd) configurations" where
  "load_lines cv [] p cs = (Inr True, cs)"
| "load_lines cv (line # ls) p cs =
     (case load_line cv line p cs of
        (Inl e, cs) \<Rightarrow> (Inl e, cs)
      | (Inr p, cs) \<Rightarrow> load_lines cv ls p cs)"

text \<open>\<open>loadFile\<close>: \<open>None\<close> is a file that cannot be opened.\<close>

definition loadFile ::
  "('f, 'd) conversions \<Rightarrow> string list option \<Rightarrow> ('f, 'd) configurations \<Rightarrow>
     (text_error + bool) \<times> ('f, 'd) configurations" where
  "loadFile cv file cs =
     (case file of
        None \<Rightarrow> (Inr False, cs)
      | Some ls \<Rightarrow> load_lines cv ls (DelimiterTextParser [] '','' 0) cs)"

text \<open>
  \<open>get<T>\<close>: \<open>sel\<close> reads the alternative \<open>T\<close> of the variant; a value of another type is an exception
  (\<open>Inl\<close>), a missing one the default \<open>T{}\<close>.
\<close>

datatype config_error = BadVariantAccess

definition get_config ::
  "(('f, 'd) config_value \<Rightarrow> 't option) \<Rightarrow> 't \<Rightarrow> ('f, 'd) configurations \<Rightarrow> string \<Rightarrow> string \<Rightarrow> config_error + 't" where
  "get_config sel dflt cs grp configName =
     (case cs grp of
        None \<Rightarrow> Inr dflt
      | Some m \<Rightarrow>
          (case m configName of
             None \<Rightarrow> Inr dflt
           | Some v \<Rightarrow> (case sel v of None \<Rightarrow> Inl BadVariantAccess | Some x \<Rightarrow> Inr x)))"

section \<open>A line that is well-formed\<close>

text \<open>What the four fields of a line stand for: the value its text converts to.\<close>

record config_entry =
  ce_group :: string
  ce_name :: string
  ce_type :: string
  ce_text :: string

definition value_of :: "('f, 'd) conversions \<Rightarrow> int \<Rightarrow> string \<Rightarrow> ('f, 'd) config_value option" where
  "value_of cv t s =
     (if t = 1 then map_option (\<lambda>v. VBool (v = 1)) (sto_signed 32 s)
      else if t = 2 then Some (VChar (hd s))
      else if t = 3 then map_option VInt (sto_signed 32 s)
      else if t = 4 then map_option (\<lambda>n. VUInt (n mod 2 ^ 32)) (sto_unsigned s)
      else if t = 5 then map_option VLongLong (sto_signed 64 s)
      else if t = 6 then map_option VULongLong (sto_unsigned s)
      else if t = 7 then map_option VFloat (cv_stof cv s)
      else if t = 8 then map_option VDouble (cv_stod cv s)
      else if t = 9 then Some (VString s)
      else if t = 10 then (if cv_time cv s = - 1 then None else Some (VTime (cv_time cv s)))
      else None)"

lemma read_value_item:
  assumes "next_item p = Inr (s, p')" "s \<noteq> []" "value_of cv t s = Some v"
  shows "read_value cv t p = Inr (Some v, p')"
  using assms(3)
  by (auto simp: value_of_def read_value_def map_parsed_def nextBool_def nextChar_def nextInt_def nextUInt_def
      nextLongLong_def nextULongLong_def nextFloat_def nextDateTime_def next_with_def assms(1,2) split: if_splits)

definition entry_line :: "config_entry \<Rightarrow> string" where
  "entry_line e = join_with '','' [ce_group e, ce_name e, ce_type e, ce_text e]"

definition entry_value :: "('f, 'd) conversions \<Rightarrow> config_entry \<Rightarrow> ('f, 'd) config_value option" where
  "entry_value cv e = Option.bind (sto_signed 32 (ce_type e)) (\<lambda>t. value_of cv t (ce_text e))"

definition entry_ok :: "('f, 'd) conversions \<Rightarrow> config_entry \<Rightarrow> bool" where
  "entry_ok cv e \<longleftrightarrow>
     (\<forall>t \<in> {ce_group e, ce_name e, ce_type e, ce_text e}. clean '','' t \<and> CHR 0x00 \<notin> set t)
   \<and> entry_value cv e \<noteq> None"

definition store_entry :: "('f, 'd) conversions \<Rightarrow> config_entry \<Rightarrow> ('f, 'd) configurations \<Rightarrow> ('f, 'd) configurations" where
  "store_entry cv e cs = emplace_config (ce_group e) (ce_name e) (the (entry_value cv e)) (emplace_group (ce_group e) cs)"

lemma c_str_no_nul: "CHR 0x00 \<notin> set s \<Longrightarrow> c_str s = s"
  by (induction s) (auto simp: c_str_def)

lemma load_line_entry:
  assumes "entry_ok cv e" "tp_delimeter p = '',''"
  shows "\<exists>p'. load_line cv (entry_line e) p cs = (Inr p', store_entry cv e cs) \<and> tp_delimeter p' = '',''"
proof -
  let ?g = "ce_group e" and ?n = "ce_name e" and ?t = "ce_type e" and ?v = "ce_text e" and ?d = "'',''"
  have ok: "clean ?d ?g" "clean ?d ?n" "clean ?d ?t" "clean ?d ?v" "c_str (entry_line e) = entry_line e"
    using assms(1) by (auto simp: entry_ok_def entry_line_def c_str_no_nul)
  obtain t v where t: "sto_signed 32 ?t = Some t" and v: "value_of cv t ?v = Some v"
    using assms(1) by (auto simp: entry_ok_def entry_value_def bind_eq_Some_conv)
  let ?p0 = "nextLine (entry_line e) p"
  let ?p1 = "?p0\<lparr>tp_startPos := length ?g + 1, tp_currentIndex := tp_currentIndex ?p0 + 1\<rparr>"
  let ?p2 = "?p1\<lparr>tp_startPos := length ?g + 1 + length ?n + 1, tp_currentIndex := tp_currentIndex ?p1 + 1\<rparr>"
  let ?p3 = "?p2\<lparr>tp_startPos := length ?g + 1 + length ?n + 1 + length ?t + 1, tp_currentIndex := tp_currentIndex ?p2 + 1\<rparr>"
  have line: "tp_line ?p0 = ?g @ ?d @ ?n @ ?d @ ?t @ ?d @ ?v" "tp_startPos ?p0 = 0" "tp_delimeter ?p0 = ?d"
    using ok(5) assms(2) by (simp_all add: nextLine_def entry_line_def)
  have n1: "next_item ?p0 = Inr (?g, ?p1)"
    using next_token [OF ok(1) _ line(3,2), of "?n @ ?d @ ?t @ ?d @ ?v"] line by simp
  have n2: "next_item ?p1 = Inr (?n, ?p2)"
    using next_token [OF ok(2), of ?p1 "length ?g + 1" "?t @ ?d @ ?v"] line by simp
  have n3: "next_item ?p2 = Inr (?t, ?p3)"
    using next_token [OF ok(3), of ?p2 "length ?g + 1 + length ?n + 1" ?v] line by simp
  have "drop (length (?g @ ?d @ ?n @ ?d @ ?t @ ?d)) ((?g @ ?d @ ?n @ ?d @ ?t @ ?d) @ ?v) = ?v"
    by (simp only: append_eq_conv_conj [symmetric] drop_append drop_all le_refl) simp
  moreover have "length (?g @ ?d @ ?n @ ?d @ ?t @ ?d) = tp_startPos ?p3" "(?g @ ?d @ ?n @ ?d @ ?t @ ?d) @ ?v = tp_line ?p3"
    using line(1) by simp_all
  ultimately have "drop (tp_startPos ?p3) (tp_line ?p3) = ?v" by metis
  from next_last_token [OF ok(4) _ _ refl this] line(3)
  obtain p4 where n4: "next_item ?p3 = Inr (?v, p4)" "tp_delimeter p4 = ?d" by simp
  have i: "nextInt ?p2 = Inr (t, ?p3)"
    using ok(3) t unfolding nextInt_def next_with_def n3 by (auto simp: clean_def)
  have r: "read_value cv t ?p3 = Inr (Some v, p4)"
    by (rule read_value_item [OF n4(1) _ v]) (use ok(4) in \<open>simp add: clean_def\<close>)
  have "entry_value cv e = Some v" using t v by (simp add: entry_value_def)
  moreover have "load_line cv (entry_line e) p cs = (Inr p4, emplace_config ?g ?n v (emplace_group ?g cs))"
    unfolding load_line_def n1 sum.case prod.case n2 Let_def i r option.case ..
  ultimately show ?thesis using n4(2) by (simp add: store_entry_def)
qed

lemma load_lines_entries:
  "\<forall>e \<in> set es. entry_ok cv e \<Longrightarrow> tp_delimeter p = '','' \<Longrightarrow>
     load_lines cv (map entry_line es) p cs = (Inr True, fold (store_entry cv) es cs)"
proof (induction es arbitrary: p cs)
  case (Cons e es)
  with load_line_entry [of cv e p cs] show ?case by fastforce
qed simp

definition lookup :: "('f, 'd) configurations \<Rightarrow> string \<Rightarrow> string \<Rightarrow> ('f, 'd) config_value option" where
  "lookup cs g n = Option.bind (cs g) (\<lambda>m. m n)"

lemma lookup_store:
  "lookup (store_entry cv e cs) g n =
     (case lookup cs g n of Some v \<Rightarrow> Some v
      | None \<Rightarrow> if ce_group e = g \<and> ce_name e = n then Some (the (entry_value cv e)) else None)"
  by (auto simp: lookup_def store_entry_def emplace_config_def emplace_group_def split: option.splits)

definition sets_name :: "string \<Rightarrow> string \<Rightarrow> config_entry \<Rightarrow> bool" where
  "sets_name g n e \<longleftrightarrow> ce_group e = g \<and> ce_name e = n"

lemma lookup_fold:
  "lookup (fold (store_entry cv) es cs) g n =
     (case lookup cs g n of Some v \<Rightarrow> Some v
      | None \<Rightarrow> map_option (\<lambda>e. the (entry_value cv e)) (find (sets_name g n) es))"
  by (induction es arbitrary: cs) (auto simp: lookup_store sets_name_def split: option.splits)

lemma get_config_lookup:
  "get_config sel dflt cs g n =
     (case lookup cs g n of None \<Rightarrow> Inr dflt
      | Some v \<Rightarrow> (case sel v of None \<Rightarrow> Inl BadVariantAccess | Some x \<Rightarrow> Inr x))"
  by (auto simp: get_config_def lookup_def split: option.splits)

text \<open>
  C36. Loading a file of well-formed lines and reading it back: \<open>loadFile\<close> succeeds, and \<open>get\<close> returns
  what the first line for that group and name says, converted to the type the line names,
  throws when the caller asks for another type, and returns the default for a name that no
  line defines. Later lines for the same name change nothing.
\<close>

theorem config_roundtrip:
  assumes "\<forall>e \<in> set es. entry_ok cv e"
  shows "\<exists>cs. loadFile cv (Some (map entry_line es)) Map.empty = (Inr True, cs)
    \<and> get_config sel dflt cs g n =
        (case find (sets_name g n) es of
           None \<Rightarrow> Inr dflt
         | Some e \<Rightarrow> (case sel (the (entry_value cv e)) of None \<Rightarrow> Inl BadVariantAccess | Some x \<Rightarrow> Inr x))"
proof -
  let ?cs = "fold (store_entry cv) es Map.empty"
  have "loadFile cv (Some (map entry_line es)) Map.empty = (Inr True, ?cs)"
    using load_lines_entries [OF assms] by (simp add: loadFile_def DelimiterTextParser_def)
  moreover have "lookup ?cs g n = map_option (\<lambda>e. the (entry_value cv e)) (find (sets_name g n) es)"
    by (simp add: lookup_fold) (simp add: lookup_def)
  ultimately show ?thesis by (auto simp: get_config_lookup split: option.splits)
qed

theorem config_roundtrip_witness:
  "\<exists>cs. loadFile \<lparr>cv_stof = (\<lambda>_. None :: unit option), cv_zerof = (), cv_stod = (\<lambda>_. None :: unit option), cv_zerod = (), cv_time = (\<lambda>_. 0)\<rparr>
      (Some [''net,port,3,80'', ''net,port,3,81'']) Map.empty = (Inr True, cs)
    \<and> get_config (\<lambda>v. case v of VInt i \<Rightarrow> Some i | _ \<Rightarrow> None) 0 cs ''net'' ''port'' = Inr 80"
proof -
  let ?cv = "\<lparr>cv_stof = (\<lambda>_. None :: unit option), cv_zerof = (), cv_stod = (\<lambda>_. None :: unit option), cv_zerod = (), cv_time = (\<lambda>_. 0)\<rparr>"
  let ?e = "\<lambda>v. \<lparr>ce_group = ''net'', ce_name = ''port'', ce_type = ''3'', ce_text = v\<rparr>"
  let ?sel = "\<lambda>v. case v of VInt i \<Rightarrow> Some i | _ \<Rightarrow> None"
  have num: "sto_signed 32 ''3'' = Some 3" "sto_signed 32 ''80'' = Some 80" "sto_signed 32 ''81'' = Some 81" by code_simp+
  have cl: "\<forall>t \<in> {''net'', ''port'', ''3'', ''80'', ''81''}. clean '','' t \<and> CHR 0x00 \<notin> set t" by code_simp
  have val: "entry_value ?cv (?e ''80'') = Some (VInt 80)" "entry_value ?cv (?e ''81'') = Some (VInt 81)"
    by (simp_all add: entry_value_def num value_of_def)
  have "\<forall>e \<in> set [?e ''80'', ?e ''81'']. entry_ok ?cv e" using cl val by (simp add: entry_ok_def)
  from config_roundtrip [OF this, of ?sel 0 "''net''" "''port''"] val
  show ?thesis by (simp add: entry_line_def sets_name_def)
qed

end
