(* ===== verification/Lu_Fixed_String.thy ===== *)
theory Lu_Fixed_String
  imports Lu_Text
begin

text \<open>
  \<open>common/FixedString.h\<close>: a string in an array of \<open>N + 1\<close> characters. The array is a list; an
  access outside of it, or a failed assertion, makes the operation \<open>None\<close>. The texts the
  operations take as \<open>const char*\<close> are given without their terminating NUL.
\<close>

section \<open>Standard library\<close>

abbreviation "NUL \<equiv> CHR 0x00"

text \<open>\<open>str.copy(data, n)\<close> copies at most \<open>n\<close> characters; \<open>strncpy\<close> also pads with NULs up to \<open>n\<close>.\<close>

definition copy_to :: "string \<Rightarrow> nat \<Rightarrow> string \<Rightarrow> string option" where
  "copy_to str n buf = mem_write buf 0 (take n str)"

definition strncpy :: "string \<Rightarrow> nat \<Rightarrow> nat \<Rightarrow> string \<Rightarrow> string option" where
  "strncpy src n off buf = mem_write buf off (take n (c_str src) @ replicate (n - length (c_str src)) NUL)"

definition set_char :: "nat \<Rightarrow> char \<Rightarrow> string \<Rightarrow> string option" where
  "set_char i c buf = mem_write buf i [c]"

section \<open>FixedString\<close>

definition FixedString :: "nat \<Rightarrow> string" where
  "FixedString N = replicate (N + 1) NUL"

definition FixedString_string :: "nat \<Rightarrow> string \<Rightarrow> string option" where
  "FixedString_string N str = Option.bind (copy_to str N (FixedString N)) (set_char N NUL)"

definition FixedString_char :: "nat \<Rightarrow> char \<Rightarrow> string option" where
  "FixedString_char N c = Option.bind (set_char 0 c (FixedString N)) (set_char 1 NUL)"

definition FixedString_cstr :: "nat \<Rightarrow> string \<Rightarrow> string option" where
  "FixedString_cstr N str = Option.bind (strncpy str N 0 (FixedString N)) (set_char N NUL)"

definition FixedString_sized :: "nat \<Rightarrow> string \<Rightarrow> nat \<Rightarrow> string option" where
  "FixedString_sized N str len =
     (if len \<le> N then Option.bind (strncpy str len 0 (FixedString N)) (set_char len NUL) else None)"

definition assign_string :: "nat \<Rightarrow> string \<Rightarrow> string \<Rightarrow> string option" where
  "assign_string N str buf = copy_to str N buf"

definition assign_cstr :: "nat \<Rightarrow> string \<Rightarrow> string \<Rightarrow> string option" where
  "assign_cstr N str buf = strncpy str N 0 buf"

definition append_char :: "nat \<Rightarrow> char \<Rightarrow> nat \<Rightarrow> string \<Rightarrow> string option" where
  "append_char N c position buf =
     (if position \<le> N then Option.bind (set_char position c buf) (set_char (position + 1) NUL) else None)"

definition append_cstr :: "nat \<Rightarrow> string \<Rightarrow> nat \<Rightarrow> nat \<Rightarrow> string \<Rightarrow> string option" where
  "append_cstr N src startOffset len buf =
     (if startOffset < N \<and> startOffset + len \<le> N
      then Option.bind (strncpy src len startOffset buf) (set_char (startOffset + len) NUL) else None)"

text \<open>
  Conversion to \<open>std::string\<close>, and the comparisons: with another \<open>FixedString\<close>, the whole arrays; with a
  \<open>std::string\<close> and with a C string, the text.
\<close>

definition fs_string :: "string \<Rightarrow> string" where
  "fs_string buf = c_str buf"

definition fs_eq :: "string \<Rightarrow> string \<Rightarrow> bool" where
  "fs_eq buf other \<longleftrightarrow> buf = other"

definition fs_eq_string :: "nat \<Rightarrow> string \<Rightarrow> string \<Rightarrow> bool" where
  "fs_eq_string N buf other \<longleftrightarrow> length other \<le> N \<and> take N other = c_str buf"

definition fs_eq_cstr :: "nat \<Rightarrow> string \<Rightarrow> string \<Rightarrow> bool" where
  "fs_eq_cstr N buf other \<longleftrightarrow> take (N + 1) (c_str other) = take (N + 1) (c_str buf)"

definition fs_empty :: "string \<Rightarrow> bool" where
  "fs_empty buf \<longleftrightarrow> buf ! 0 = NUL"

section \<open>The array stays terminated\<close>

definition fs_ok :: "nat \<Rightarrow> string \<Rightarrow> bool" where
  "fs_ok N buf \<longleftrightarrow> length buf = N + 1 \<and> last buf = NUL"

lemma fs_ok_nth: "fs_ok N buf \<longleftrightarrow> length buf = N + 1 \<and> buf ! N = NUL"
  by (cases "buf = []") (auto simp: fs_ok_def last_conv_nth)

lemma nth_overwrite:
  "off + length ys \<le> length xs \<Longrightarrow> i < length xs \<Longrightarrow>
     overwrite xs off ys ! i = (if i < off then xs ! i else if i < off + length ys then ys ! (i - off) else xs ! i)"
  by (auto simp: overwrite_def nth_append min_def)

lemma length_take_pad [simp]: "length (take n xs @ replicate (n - length xs) c) = n"
  by simp

lemma copy_to_ok:
  "fs_ok N buf \<Longrightarrow> \<exists>buf'. copy_to str N buf = Some buf' \<and> fs_ok N buf'"
  by (auto simp: copy_to_def fs_ok_nth mem_write_def nth_overwrite)

lemma strncpy_ok:
  "fs_ok N buf \<Longrightarrow> off + n \<le> N \<Longrightarrow> \<exists>buf'. strncpy src n off buf = Some buf' \<and> fs_ok N buf'"
  by (auto simp: strncpy_def fs_ok_nth mem_write_def nth_overwrite)

lemma set_char_ok:
  "fs_ok N buf \<Longrightarrow> i \<le> N \<Longrightarrow> i < N \<or> c = NUL \<Longrightarrow> \<exists>buf'. set_char i c buf = Some buf' \<and> fs_ok N buf'"
  by (auto simp: set_char_def fs_ok_nth mem_write_def nth_overwrite)

lemma FixedString_ok: "fs_ok N (FixedString N)"
  by (simp add: fs_ok_def FixedString_def)

lemma bind_ok:
  "\<exists>b. x = Some b \<and> P b \<Longrightarrow> (\<And>b. P b \<Longrightarrow> \<exists>b'. f b = Some b' \<and> Q b') \<Longrightarrow> \<exists>b'. Option.bind x f = Some b' \<and> Q b'"
  by auto

lemmas fs_step = copy_to_ok strncpy_ok set_char_ok FixedString_ok

text \<open>
  C37. A \<open>FixedString\<close> is always terminated: every constructor, assignment and append that its
  assertions admit stays inside the array and leaves its last character NUL, whatever the
  length of the text, so that reading the text never leaves the array; the one exception is
  \<open>append(c, N)\<close>, which its assertion admits and which writes past the end.
\<close>

theorem fixed_string_terminated:
  "(\<exists>b. FixedString_string N str = Some b \<and> fs_ok N b)
   \<and> (0 < N \<longrightarrow> (\<exists>b. FixedString_char N c = Some b \<and> fs_ok N b))
   \<and> (\<exists>b. FixedString_cstr N str = Some b \<and> fs_ok N b)
   \<and> (len \<le> N \<longrightarrow> (\<exists>b. FixedString_sized N str len = Some b \<and> fs_ok N b))
   \<and> (fs_ok N buf \<longrightarrow>
        (\<exists>b. assign_string N str buf = Some b \<and> fs_ok N b) \<and> (\<exists>b. assign_cstr N str buf = Some b \<and> fs_ok N b)
        \<and> (pos < N \<longrightarrow> (\<exists>b. append_char N c pos buf = Some b \<and> fs_ok N b)) \<and> append_char N c N buf = None
        \<and> (pos < N \<and> pos + len \<le> N \<longrightarrow> (\<exists>b. append_cstr N str pos len buf = Some b \<and> fs_ok N b))
        \<and> length (fs_string buf) \<le> N)"
proof (intro conjI impI)
  show "\<exists>b. FixedString_string N str = Some b \<and> fs_ok N b"
    unfolding FixedString_string_def by (rule bind_ok [OF copy_to_ok set_char_ok]) (auto intro: FixedString_ok)
  show "\<exists>b. FixedString_char N c = Some b \<and> fs_ok N b" if "0 < N"
    unfolding FixedString_char_def by (rule bind_ok [OF set_char_ok set_char_ok]) (use that in \<open>auto intro: FixedString_ok\<close>)
  show "\<exists>b. FixedString_cstr N str = Some b \<and> fs_ok N b"
    unfolding FixedString_cstr_def by (rule bind_ok [OF strncpy_ok set_char_ok]) (auto intro: FixedString_ok)
  show "\<exists>b. FixedString_sized N str len = Some b \<and> fs_ok N b" if "len \<le> N"
  proof -
    have "\<exists>b. Option.bind (strncpy str len 0 (FixedString N)) (set_char len NUL) = Some b \<and> fs_ok N b"
      by (rule bind_ok [OF strncpy_ok set_char_ok]) (use that in \<open>auto intro: FixedString_ok\<close>)
    with that show ?thesis by (simp add: FixedString_sized_def)
  qed
  assume buf: "fs_ok N buf"
  show "\<exists>b. assign_string N str buf = Some b \<and> fs_ok N b" "\<exists>b. assign_cstr N str buf = Some b \<and> fs_ok N b"
    unfolding assign_string_def assign_cstr_def using buf copy_to_ok strncpy_ok [of N buf 0 N] by auto
  show "\<exists>b. append_char N c pos buf = Some b \<and> fs_ok N b" if "pos < N"
  proof -
    have "\<exists>b. Option.bind (set_char pos c buf) (set_char (pos + 1) NUL) = Some b \<and> fs_ok N b"
      by (rule bind_ok [OF set_char_ok set_char_ok]) (use that buf in auto)
    with that show ?thesis by (simp add: append_char_def)
  qed
  show "append_char N c N buf = None"
    using buf by (auto simp: append_char_def set_char_def mem_write_def fs_ok_def bind_eq_None_conv)
  show "\<exists>b. append_cstr N str pos len buf = Some b \<and> fs_ok N b" if "pos < N \<and> pos + len \<le> N"
  proof -
    have "\<exists>b. Option.bind (strncpy str len pos buf) (set_char (pos + len) NUL) = Some b \<and> fs_ok N b"
      by (rule bind_ok [OF strncpy_ok set_char_ok]) (use that buf in auto)
    with that show ?thesis by (simp add: append_cstr_def)
  qed
  have "buf ! N \<notin> {c. c \<noteq> NUL}" "N < length buf" using buf by (auto simp: fs_ok_nth)
  then show "length (fs_string buf) \<le> N"
    unfolding fs_string_def c_str_def
    by (metis (mono_tags, lifting) linorder_not_le mem_Collect_eq nth_mem set_takeWhileD takeWhile_nth)
qed

theorem fixed_string_terminated_witness:
  "(\<exists>b. append_char 3 CHR ''x'' 1 (FixedString 3) = Some b \<and> fs_ok 3 b) \<and> append_char 3 CHR ''x'' 3 (FixedString 3) = None"
  using fixed_string_terminated [of 3 "''ab''" "CHR ''x''" 2 "FixedString 3" 1] FixedString_ok [of 3] by simp

section \<open>The text\<close>

lemma c_str_append: "NUL \<notin> set s \<Longrightarrow> c_str (s @ NUL # r) = s"
  by (induction s) (auto simp: c_str_def)

lemma c_str_id: "NUL \<notin> set s \<Longrightarrow> c_str s = s"
  by (induction s) (auto simp: c_str_def)

lemma FixedString_string_text:
  assumes "NUL \<notin> set str"
  obtains b where "FixedString_string N str = Some b" "fs_string b = take N str"
    "b = take N str @ replicate (N + 1 - length (take N str)) NUL"
proof -
  let ?t = "take N str" and ?k = "N - min N (length str)"
  have "copy_to str N (FixedString N) = Some (?t @ replicate (Suc ?k) NUL)"
    by (simp add: copy_to_def FixedString_def mem_write_def overwrite_def min.commute flip: Suc_diff_le del: replicate_Suc)
  moreover have "set_char N NUL (?t @ replicate (Suc ?k) NUL) = Some (?t @ replicate (Suc ?k) NUL)"
  proof -
    have "(?t @ replicate (Suc ?k) NUL) ! N = NUL"
      by (auto simp: nth_append simp del: replicate_Suc)
    then have "(?t @ replicate (Suc ?k) NUL)[N := NUL] = ?t @ replicate (Suc ?k) NUL"
      by (metis list_update_id)
    then show ?thesis
      by (simp add: set_char_def mem_write_def overwrite_def upd_conv_take_nth_drop del: replicate_Suc)
  qed
  moreover have "fs_string (?t @ replicate (Suc ?k) NUL) = ?t"
    using c_str_append [of ?t] assms by (auto simp: fs_string_def dest: in_set_takeD)
  ultimately show thesis
    by (intro that [of "?t @ replicate (Suc ?k) NUL"]) (simp_all add: FixedString_string_def Suc_diff_le)
qed

lemma FixedString_equality:
  assumes "NUL \<notin> set s" "NUL \<notin> set t" "length s \<le> N" "length t \<le> N"
    and "FixedString_string N s = Some b" "FixedString_string N t = Some c"
  shows "fs_eq b c \<longleftrightarrow> s = t" "fs_eq_string N b t \<longleftrightarrow> s = t" "fs_eq_cstr N b t \<longleftrightarrow> s = t"
proof -
  have same: "c_str x = u" if "NUL \<notin> set u" "length u \<le> N" "FixedString_string N u = Some x" for u x
  proof -
    note u = that
    obtain y where "FixedString_string N u = Some y" "fs_string y = take N u"
      by (rule FixedString_string_text [OF u(1)])
    with u(2,3) show ?thesis by (simp add: fs_string_def)
  qed
  note b = same [OF assms(1,3,5)] and c = same [OF assms(2,4,6)]
  show "fs_eq b c \<longleftrightarrow> s = t" unfolding fs_eq_def using assms(5,6) b c by (metis option.inject)
  show "fs_eq_string N b t \<longleftrightarrow> s = t" using assms(4) unfolding fs_eq_string_def b by auto
  show "fs_eq_cstr N b t \<longleftrightarrow> s = t" using assms(2-4) unfolding fs_eq_cstr_def b by (auto simp: c_str_id)
qed

text \<open>
  Assigning a shorter \<open>std::string\<close> leaves the end of the old text: \<open>str.copy\<close> writes no NUL. The
  assignment from a C string pads and is right.
\<close>

lemma assign_string_keeps_tail:
  assumes "fs_ok N buf" "NUL \<notin> set str" "length str \<le> N"
  shows "map_option fs_string (assign_string N str buf) = Some (str @ c_str (drop (length str) buf))"
proof -
  have "c_str (str @ r) = str @ c_str r" for r
    using assms(2) by (auto simp: c_str_def takeWhile_append)
  with assms show ?thesis
    by (simp add: assign_string_def copy_to_def mem_write_def overwrite_def fs_ok_def fs_string_def)
qed

lemma assign_cstr_text:
  assumes "fs_ok N buf" "NUL \<notin> set str" "length str \<le> N"
  shows "map_option fs_string (assign_cstr N str buf) = Some str"
proof -
  have "c_str (str @ replicate k NUL @ [NUL]) = str" for k
    using c_str_append [OF assms(2)] by (cases k) auto
  moreover have "drop N buf = [NUL]"
    using assms(1) by (metis Cons_nth_drop_Suc Suc_eq_plus1 drop_all fs_ok_nth le_refl lessI)
  ultimately show ?thesis
    using assms by (simp add: assign_cstr_def strncpy_def mem_write_def overwrite_def fs_ok_def fs_string_def c_str_id)
qed

end
