(* ===== verification/Lu_Archive.thy ===== *)
theory Lu_Archive
  imports Lu_Prelude
begin

text \<open>
  The archives of the serializer (\<open>BitSerializer.h\<close>, \<open>Reflection.h\<close>): the options an archive
  is declared with, the output archive's buffer and position, \<open>enlarge_for\<close>, and the write of
  a block of bytes that every item ends in. Arithmetic on \<open>std::size_t\<close> is modulo
  \<open>2 ^ 64\<close>. The buffer of a resizable archive is a vector that the archive grows; the buffer
  of any other one is a span of fixed size.
\<close>

section \<open>Error codes and options\<close>

text \<open>
  The values of \<open>std::errc\<close> the serializer returns; \<open>Success\<close> is \<open>errc{}\<close>. \<open>LengthError\<close>
  is no error code: it stands for the \<open>std::length_error\<close> that a container's \<open>resize\<close> throws
  beyond \<open>max_size()\<close>, which leaves every function here as an error does. Within that bound
  memory is taken to be available.
\<close>

datatype errc = Success | ResultOutOfRange | NoBufferSpace | MessageSize | InvalidArgument
  | BadMessage | ValueTooLarge | LengthError

definition max_object_size :: nat where
  "max_object_size = 2 ^ 63 - 1"

definition failure :: "errc \<Rightarrow> bool" where
  "failure e = (e \<noteq> Success)"

text \<open>
  The type of a container's size field: an unsigned integer of some bytes, or a varint of an
  integer of some bytes. \<open>None\<close> stands for \<open>void\<close>, no size field.
\<close>

datatype size_type = SizeFixed nat | SizeVarint nat

datatype opt = OptAppend | OptReserve nat | OptResize nat | OptAllocLimit nat
  | OptEnlarger nat nat | OptEndianSwapped | OptEndianNative | OptNoFitSize
  | OptNoEnlargeOverflow | OptEnlargeOverflow | OptSize "size_type option"

definition size_max :: nat where
  "size_max = 2 ^ 64 - 1"

text \<open>The first option that sets a default wins; without one the size is a \<open>uint32_t\<close>.\<close>

fun get_default_size_type :: "opt list \<Rightarrow> size_type option" where
  "get_default_size_type [] = Some (SizeFixed 4)"
| "get_default_size_type (OptSize s # os) = s"
| "get_default_size_type (_ # os) = get_default_size_type os"

fun alloc_limit :: "opt list \<Rightarrow> nat" where
  "alloc_limit [] = size_max"
| "alloc_limit (OptAllocLimit n # os) = n"
| "alloc_limit (_ # os) = alloc_limit os"

fun enlarger :: "opt list \<Rightarrow> nat \<times> nat" where
  "enlarger [] = (3, 2)"
| "enlarger (OptEnlarger m d # os) = (m, d)"
| "enlarger (_ # os) = enlarger os"

text \<open>
  What the class template fixes: whether the view can be resized, and the options.
\<close>

record archive_class =
  resizable :: bool
  options :: "opt list"

definition endian_aware :: "archive_class \<Rightarrow> bool" where
  "endian_aware c = (OptEndianSwapped \<in> set (options c))"

definition no_enlarge_overflow :: "archive_class \<Rightarrow> bool" where
  "no_enlarge_overflow c = (OptNoEnlargeOverflow \<in> set (options c))"

definition no_fit_size :: "archive_class \<Rightarrow> bool" where
  "no_fit_size c = (OptNoFitSize \<in> set (options c))"

section \<open>The output archive\<close>

record archive =
  ar_data :: "byte list"
  ar_position :: nat

definition resize :: "nat \<Rightarrow> byte list \<Rightarrow> byte list" where
  "resize n d = take n d @ replicate (n - length d) 0"

definition size_add :: "nat \<Rightarrow> nat \<Rightarrow> nat" where
  "size_add a b = (a + b) mod 2 ^ 64"

definition size_mul :: "nat \<Rightarrow> nat \<Rightarrow> nat" where
  "size_mul a b = (a * b) mod 2 ^ 64"

definition size_sub :: "nat \<Rightarrow> nat \<Rightarrow> nat" where
  "size_sub a b = (a + 2 ^ 64 - b) mod 2 ^ 64"

text \<open>\<open>reserve\<close> changes the vector's capacity, which nothing here can observe.\<close>

fun apply_option :: "opt \<Rightarrow> archive \<Rightarrow> archive" where
  "apply_option OptAppend ar = ar\<lparr>ar_position := length (ar_data ar)\<rparr>"
| "apply_option (OptReserve n) ar = ar"
| "apply_option (OptResize n) ar =
     ar\<lparr>ar_data := resize n (ar_data ar),
        ar_position := (if ar_position ar > n then n else ar_position ar)\<rparr>"
| "apply_option _ ar = ar"

definition construct :: "archive_class \<Rightarrow> byte list \<Rightarrow> archive" where
  "construct c d = fold apply_option (options c) \<lparr>ar_data = d, ar_position = 0\<rparr>"

definition reset :: "nat \<Rightarrow> archive \<Rightarrow> archive" where
  "reset p ar = ar\<lparr>ar_position := p\<rparr>"

definition processed_data :: "archive \<Rightarrow> byte list option" where
  "processed_data ar = mem_read (ar_data ar) 0 (ar_position ar)"

definition remaining_size :: "archive \<Rightarrow> nat" where
  "remaining_size ar = size_sub (length (ar_data ar)) (ar_position ar)"

definition remaining_data :: "archive \<Rightarrow> byte list option" where
  "remaining_data ar = mem_read (ar_data ar) (ar_position ar) (remaining_size ar)"

definition enlarge_for :: "archive_class \<Rightarrow> nat \<Rightarrow> archive \<Rightarrow> errc \<times> archive" where
  "enlarge_for c additional_size ar =
     (let sz = length (ar_data ar) in
      if additional_size > size_sub sz (ar_position ar) then
        let (multiplier, divisor) = enlarger (options c);
            required_size = size_add sz additional_size in
        if \<not> no_enlarge_overflow c \<and> required_size < sz then (NoBufferSpace, ar)
        else
          let new_size = (if multiplier \<noteq> 1 then size_mul required_size multiplier
                          else required_size) in
          if multiplier \<noteq> 1 \<and> \<not> no_enlarge_overflow c
             \<and> new_size div multiplier \<noteq> required_size then (NoBufferSpace, ar)
          else
            let new_size = (if divisor \<noteq> 1 then new_size div divisor else new_size) in
            if alloc_limit (options c) \<noteq> size_max \<and> new_size > alloc_limit (options c)
            then (NoBufferSpace, ar)
            else if new_size > max_object_size then (LengthError, ar)
            else (Success, ar\<lparr>ar_data := resize new_size (ar_data ar)\<rparr>)
      else (Success, ar))"

text \<open>
  The room for an item: a resizable archive grows, any other one checks what is left. Then
  the bytes are copied to the position. A copy outside the buffer is \<open>None\<close>.
\<close>

type_synonym out_op = "archive \<Rightarrow> (errc \<times> archive) option"

definition ensure_room :: "archive_class \<Rightarrow> nat \<Rightarrow> archive \<Rightarrow> errc \<times> archive" where
  "ensure_room c n ar =
     (if resizable c then enlarge_for c n ar
      else if n > size_sub (length (ar_data ar)) (ar_position ar) then (ResultOutOfRange, ar)
      else (Success, ar))"

definition copy_bytes :: "byte list \<Rightarrow> out_op" where
  "copy_bytes bs ar =
     map_option (\<lambda>d. (Success, ar\<lparr>ar_data := d, ar_position := ar_position ar + length bs\<rparr>))
       (mem_write (ar_data ar) (ar_position ar) bs)"

definition after_room :: "(archive \<Rightarrow> errc \<times> archive) \<Rightarrow> out_op \<Rightarrow> out_op" where
  "after_room rm w ar =
     (case rm ar of (e, ar1) \<Rightarrow> if failure e then Some (e, ar1) else w ar1)"

definition put_bytes :: "archive_class \<Rightarrow> byte list \<Rightarrow> out_op" where
  "put_bytes c bs = after_room (ensure_room c (length bs)) (copy_bytes bs)"

text \<open>\<open>serialize_many\<close>: the first item that fails ends it.\<close>

definition then_out :: "out_op \<Rightarrow> out_op \<Rightarrow> out_op" where
  "then_out f g ar =
     (case f ar of
        None \<Rightarrow> None
      | Some (e, ar1) \<Rightarrow> if failure e then Some (e, ar1) else g ar1)"

primrec serialize_many :: "out_op list \<Rightarrow> out_op" where
  "serialize_many [] = (\<lambda>ar. Some (Success, ar))"
| "serialize_many (f # fs) = then_out f (serialize_many fs)"

text \<open>
  \<open>out::operator()\<close> trims the vector to the position afterwards when the write reached the
  old end, unless the options keep the size or the enlarger is exact.
\<close>

definition out_call :: "archive_class \<Rightarrow> out_op \<Rightarrow> out_op" where
  "out_call c f ar =
     (if resizable c \<and> \<not> no_fit_size c \<and> enlarger (options c) \<noteq> (1, 1) then
        let end = length (ar_data ar) in
        (case f ar of
           None \<Rightarrow> None
         | Some (e, ar1) \<Rightarrow>
             Some (e, if e \<noteq> LengthError \<and> ar_position ar1 \<ge> end
                      then ar1\<lparr>ar_data := resize (ar_position ar1) (ar_data ar1)\<rparr> else ar1))
      else f ar)"

section \<open>What an operation emits\<close>

text \<open>
  An archive is in range when its position is inside its buffer. \<open>growing c\<close> says the options
  keep \<open>enlarge_for\<close> honest: it checks overflow and does not shrink what is required.
\<close>

definition in_range :: "archive \<Rightarrow> bool" where
  "in_range ar \<longleftrightarrow> ar_position ar \<le> length (ar_data ar) \<and> length (ar_data ar) < 2 ^ 64"

definition growing :: "archive_class \<Rightarrow> bool" where
  "growing c \<longleftrightarrow> \<not> no_enlarge_overflow c
     \<and> 0 < snd (enlarger (options c)) \<and> snd (enlarger (options c)) \<le> fst (enlarger (options c))"

text \<open>
  Room for \<open>n\<close> more bytes: in a fixed buffer they fit; a resizable one can take them and the
  ten bytes a varint reserves without reaching the allocation limit or the end of \<open>size_t\<close>.
\<close>

definition roomy :: "archive_class \<Rightarrow> nat \<Rightarrow> archive \<Rightarrow> bool" where
  "roomy c n ar \<longleftrightarrow>
     (if resizable c
      then 2 * fst (enlarger (options c)) * (ar_position ar + n + 10)
             \<le> min max_object_size (alloc_limit (options c))
      else ar_position ar + n \<le> length (ar_data ar))"

text \<open>The bytes at and after the position are zero.\<close>

definition clean :: "archive \<Rightarrow> bool" where
  "clean ar \<longleftrightarrow> (\<forall>b \<in> set (drop (ar_position ar) (ar_data ar)). b = 0)"

text \<open>
  \<open>emits c z ok bs f\<close>: from an archive in range (and clean, when \<open>z\<close>) the operation stays
  inside the buffer and keeps everything before its position; when it succeeds it has
  appended exactly \<open>bs\<close>, and it does succeed when \<open>ok\<close> holds and there is room.
\<close>

definition keeps :: "archive_class \<Rightarrow> bool \<Rightarrow> archive \<Rightarrow> archive \<Rightarrow> bool" where
  "keeps c z ar ar' \<longleftrightarrow>
     in_range ar' \<and> (z \<longrightarrow> clean ar') \<and> ar_position ar \<le> ar_position ar'
     \<and> length (ar_data ar) \<le> length (ar_data ar')
     \<and> take (ar_position ar) (ar_data ar') = take (ar_position ar) (ar_data ar)
     \<and> (\<not> resizable c \<longrightarrow> length (ar_data ar') = length (ar_data ar)
          \<and> drop (ar_position ar') (ar_data ar') = drop (ar_position ar') (ar_data ar))"

definition appended :: "byte list \<Rightarrow> archive \<Rightarrow> archive \<Rightarrow> bool" where
  "appended bs ar ar' \<longleftrightarrow>
     ar_position ar' = ar_position ar + length bs
     \<and> take (ar_position ar') (ar_data ar') = take (ar_position ar) (ar_data ar) @ bs"

definition out_result :: "archive_class \<Rightarrow> errc \<Rightarrow> bool" where
  "out_result c e \<longleftrightarrow>
     (if resizable c then e \<in> {Success, NoBufferSpace, LengthError} else e \<in> {Success, ResultOutOfRange})"

lemma out_result_Success [simp]: "out_result c Success"
  by (simp add: out_result_def)

definition emits :: "archive_class \<Rightarrow> bool \<Rightarrow> bool \<Rightarrow> byte list \<Rightarrow> out_op \<Rightarrow> bool" where
  "emits c z ok bs f \<longleftrightarrow>
     (\<forall>ar. in_range ar \<longrightarrow> (z \<longrightarrow> clean ar) \<longrightarrow> length bs < 2 ^ 64 \<longrightarrow>
        (\<exists>e ar'. f ar = Some (e, ar') \<and> keeps c z ar ar'
           \<and> (e = Success \<longrightarrow> ok \<and> appended bs ar ar')
           \<and> (ok \<longrightarrow> roomy c (length bs) ar \<longrightarrow> e = Success)
           \<and> (ok \<longrightarrow> out_result c e)))"


lemma size_sub_in_range: "in_range ar \<Longrightarrow>
    size_sub (length (ar_data ar)) (ar_position ar) = length (ar_data ar) - ar_position ar"
proof -
  assume r: "in_range ar"
  then have "length (ar_data ar) + 2 ^ 64 - ar_position ar
      = (length (ar_data ar) - ar_position ar) + 2 ^ 64"
    by (simp add: in_range_def)
  moreover have "length (ar_data ar) - ar_position ar < 2 ^ 64"
    using r unfolding in_range_def by linarith
  ultimately show ?thesis unfolding size_sub_def by (simp only: mod_add_self2 mod_less)
qed

lemma size_add_checked: "a < 2 ^ 64 \<Longrightarrow> b < 2 ^ 64 \<Longrightarrow> \<not> size_add a b < a \<Longrightarrow> size_add a b = a + b"
proof -
  assume a: "a < 2 ^ 64" and b: "b < 2 ^ 64" and n: "\<not> size_add a b < a"
  show ?thesis
  proof (cases "a + b < 2 ^ 64")
    case False
    then have "size_add a b = a + b - 2 ^ 64"
      unfolding size_add_def using a b by (simp add: mod_if)
    with n b False show ?thesis by simp
  qed (simp add: size_add_def)
qed

lemma size_mul_checked:
  "0 < m \<Longrightarrow> size_mul r m div m = r \<Longrightarrow> size_mul r m = r * m"
proof -
  assume m: "0 < m" and e: "size_mul r m div m = r"
  have "r * m \<le> size_mul r m" using e by (metis div_times_less_eq_dividend)
  moreover have "size_mul r m \<le> r * m" by (simp add: size_mul_def)
  ultimately show ?thesis by simp
qed

lemma size_mul_small: "r * m < 2 ^ 64 \<Longrightarrow> size_mul r m = r * m"
  by (simp add: size_mul_def)

lemma length_resize [simp]: "length (resize n d) = n"
  by (simp add: resize_def)

lemma take_resize: "k \<le> length d \<Longrightarrow> k \<le> n \<Longrightarrow> take k (resize n d) = take k d"
  by (simp add: resize_def min_absorb1)

lemma resize_longer: "length d \<le> n \<Longrightarrow> resize n d = d @ replicate (n - length d) 0"
  by (simp add: resize_def)

lemma drop_overwrite_at: "off + length ys \<le> length xs
    \<Longrightarrow> drop (off + length ys) (overwrite xs off ys) = drop (off + length ys) xs"
  by (simp add: drop_overwrite)

lemma take_overwrite_at: "off + length ys \<le> length xs
    \<Longrightarrow> take (off + length ys) (overwrite xs off ys) = take off xs @ ys"
  by (simp add: overwrite_def)

section \<open>Enlarging\<close>

lemma growing_new_size:
  assumes "growing c" "enlarger (options c) = (m, d)" "size_mul r m div m = r \<or> m = 1"
  shows "r \<le> (if m \<noteq> 1 then size_mul r m else r) div d"
proof -
  have d: "0 < d" "d \<le> m" using assms by (auto simp: growing_def)
  show ?thesis
  proof (cases "m = 1")
    case True
    with d have "d = 1" by simp
    with True show ?thesis by simp
  next
    case False
    then have "size_mul r m = r * m" using assms(3) d by (intro size_mul_checked) auto
    moreover have "r \<le> r * m div d" using d by (simp add: less_eq_div_iff_mult_less_eq)
    ultimately show ?thesis using False by simp
  qed
qed

lemma enlarge_for_cases:
  assumes r: "in_range ar" and g: "growing c" and n: "n < 2 ^ 64"
    and e: "enlarge_for c n ar = (e, ar')"
  shows "(e = NoBufferSpace \<or> e = LengthError) \<and> ar' = ar
    \<or> e = Success \<and> ar_position ar' = ar_position ar \<and> ar_position ar + n \<le> length (ar_data ar')
      \<and> length (ar_data ar') < 2 ^ 64
      \<and> (\<exists>k. ar_data ar' = ar_data ar @ replicate k 0)"
proof -
  obtain m d where md: "enlarger (options c) = (m, d)" by (cases "enlarger (options c)")
  have d: "0 < d" "d \<le> m" "\<not> no_enlarge_overflow c" using g md by (auto simp: growing_def)
  let ?sz = "length (ar_data ar)"
  let ?req = "size_add ?sz n"
  let ?mul = "if m \<noteq> 1 then size_mul ?req m else ?req"
  let ?new = "if d \<noteq> 1 then ?mul div d else ?mul"
  have new: "?new = ?mul div d" by simp
  show ?thesis
  proof (cases "n > size_sub ?sz (ar_position ar) \<and> \<not> ?req < ?sz
      \<and> (m = 1 \<or> size_mul ?req m div m = ?req)
      \<and> \<not> (alloc_limit (options c) \<noteq> size_max \<and> ?new > alloc_limit (options c))
      \<and> ?new \<le> max_object_size")
    case True
    then have req: "?req = ?sz + n" using r n by (intro size_add_checked) (auto simp: in_range_def)
    have ge: "?req \<le> ?new" using growing_new_size [OF g md, of ?req] True new by auto
    have lt: "?new < 2 ^ 64"
    proof -
      have "?mul < 2 ^ 64" by (auto simp: size_mul_def size_add_def)
      moreover have "?mul div d \<le> ?mul" by (rule div_le_dividend)
      ultimately show ?thesis using new by linarith
    qed
    have ar': "e = Success" "ar' = ar\<lparr>ar_data := resize ?new (ar_data ar)\<rparr>"
      using e True md d unfolding enlarge_for_def Let_def by (auto split: if_splits)
    have "ar_data ar' = ar_data ar @ replicate (?new - ?sz) 0"
      using ar' ge req by (simp add: resize_longer)
    moreover have "length (ar_data ar') = ?new" using ar' by simp
    ultimately show ?thesis using ar' ge req lt r by (auto simp: in_range_def)
  next
    case False
    then show ?thesis
      using e md d r size_sub_in_range [OF r] unfolding enlarge_for_def Let_def in_range_def
      by (auto split: if_splits intro: exI [of _ 0])
  qed
qed

lemma enlarge_for_roomy:
  assumes r: "in_range ar" and g: "growing c"
    and room: "2 * fst (enlarger (options c)) * (ar_position ar + n)
                 \<le> min max_object_size (alloc_limit (options c))"
  shows "fst (enlarge_for c n ar) = Success"
proof -
  obtain m d where md: "enlarger (options c) = (m, d)" by (cases "enlarger (options c)")
  have d: "0 < d" "d \<le> m" using g md by (auto simp: growing_def)
  let ?sz = "length (ar_data ar)"
  show ?thesis
  proof (cases "n > size_sub ?sz (ar_position ar)")
    case True
    then have "?sz < ar_position ar + n" using size_sub_in_range [OF r] by simp
    then have "?sz + n \<le> 2 * (ar_position ar + n)" by simp
    then have "(?sz + n) * m \<le> 2 * (ar_position ar + n) * m" by (rule mult_le_mono1)
    then have b: "(?sz + n) * m \<le> min max_object_size (alloc_limit (options c))"
      using room md by (simp add: algebra_simps)
    then have lt: "(?sz + n) * m < 2 ^ 64" by (simp add: max_object_size_def)
    have "(?sz + n) * 1 \<le> (?sz + n) * m" by (rule mult_le_mono2) (use d in simp)
    then have "?sz + n < 2 ^ 64" using le_less_trans lt mult_1_right by metis
    then have req: "size_add ?sz n = ?sz + n" unfolding size_add_def by (rule mod_less)
    have mul: "size_mul (?sz + n) m = (?sz + n) * m" using lt by (rule size_mul_small)
    have "(?sz + n) * m div d \<le> alloc_limit (options c)"
      using b div_le_dividend [of "(?sz + n) * m" d] by linarith
    moreover have "(?sz + n) div d \<le> alloc_limit (options c)" if "m = 1"
      using that b le_trans [OF div_le_dividend [of "?sz + n" d]] by simp
    moreover have "(?sz + n) * m div d \<le> max_object_size"
      using b le_trans [OF div_le_dividend [of "(?sz + n) * m" d]] by simp
    moreover have "(?sz + n) div d \<le> max_object_size"
    proof (rule le_trans [OF div_le_dividend])
      show "?sz + n \<le> max_object_size"
        using b le_trans [OF \<open>(?sz + n) * 1 \<le> (?sz + n) * m\<close>] by simp
    qed
    ultimately show ?thesis
      using True md d b g by (auto simp: enlarge_for_def Let_def req mul growing_def)
  qed (simp add: enlarge_for_def Let_def)
qed

section \<open>Writing bytes\<close>

lemma keeps_refl: "in_range ar \<Longrightarrow> (z \<longrightarrow> clean ar) \<Longrightarrow> keeps c z ar ar"
  by (simp add: keeps_def)

lemma keeps_trans:
  assumes a: "keeps c z ar ar1" and b: "keeps c z ar1 ar2"
  shows "keeps c z ar ar2"
proof -
  have "take (ar_position ar) (ar_data ar2)
      = take (ar_position ar) (take (ar_position ar1) (ar_data ar2))"
    using a by (simp add: keeps_def min_absorb1)
  also have "\<dots> = take (ar_position ar) (ar_data ar1)"
    using a b by (simp add: keeps_def min_absorb1)
  finally have "take (ar_position ar) (ar_data ar2) = take (ar_position ar) (ar_data ar)"
    using a by (simp add: keeps_def)
  moreover have "drop (ar_position ar2) (ar_data ar1) = drop (ar_position ar2) (ar_data ar)"
    if "\<not> resizable c"
  proof -
    have p: "ar_position ar2 = (ar_position ar2 - ar_position ar1) + ar_position ar1"
      using b by (simp add: keeps_def)
    have "drop (ar_position ar1) (ar_data ar1) = drop (ar_position ar1) (ar_data ar)"
      using a that by (simp add: keeps_def)
    then show ?thesis by (subst (1 2) p) (simp only: drop_drop [symmetric])
  qed
  ultimately show ?thesis using a b by (simp add: keeps_def)
qed

text \<open>After \<open>ensure_room\<close> the position is unchanged and, on success, the bytes fit.\<close>

lemma ensure_room_spec:
  assumes r: "in_range ar" and z: "z \<longrightarrow> clean ar" and g: "growing c" and n: "n < 2 ^ 64"
    and e: "ensure_room c n ar = (e, ar1)"
  shows "keeps c z ar ar1" "ar_position ar1 = ar_position ar"
    "take (ar_position ar) (ar_data ar1) = take (ar_position ar) (ar_data ar)"
    "e = Success \<longrightarrow> ar_position ar + n \<le> length (ar_data ar1)"
    "out_result c e"
proof -
  have "keeps c z ar ar1 \<and> ar_position ar1 = ar_position ar
    \<and> (e = Success \<longrightarrow> ar_position ar + n \<le> length (ar_data ar1))
    \<and> out_result c e"
  proof (cases "resizable c")
    case True
    then have "enlarge_for c n ar = (e, ar1)" using e by (simp add: ensure_room_def)
    from enlarge_for_cases [OF r g n this] show ?thesis
    proof
      assume "(e = NoBufferSpace \<or> e = LengthError) \<and> ar1 = ar"
      then show ?thesis using keeps_refl [OF r z] True by (auto simp: out_result_def)
    next
      assume s: "e = Success \<and> ar_position ar1 = ar_position ar
        \<and> ar_position ar + n \<le> length (ar_data ar1) \<and> length (ar_data ar1) < 2 ^ 64
        \<and> (\<exists>k. ar_data ar1 = ar_data ar @ replicate k 0)"
      then obtain k where "ar_data ar1 = ar_data ar @ replicate k 0" by auto
      then show ?thesis using s r z True
        by (auto simp: keeps_def in_range_def clean_def out_result_def)
    qed
  next
    case False
    then show ?thesis
      using e r z keeps_refl [OF r z] size_sub_in_range [OF r]
      by (auto simp: ensure_room_def in_range_def out_result_def split: if_splits)
  qed
  then show "keeps c z ar ar1" "ar_position ar1 = ar_position ar"
    "take (ar_position ar) (ar_data ar1) = take (ar_position ar) (ar_data ar)"
    "e = Success \<longrightarrow> ar_position ar + n \<le> length (ar_data ar1)"
    "out_result c e"
    by (auto simp: keeps_def)
qed

lemma ensure_room_roomy:
  assumes r: "in_range ar" and g: "growing c" and room: "roomy c n ar"
  shows "fst (ensure_room c n ar) = Success"
proof (cases "resizable c")
  case True
  have "2 * fst (enlarger (options c)) * (ar_position ar + n)
      \<le> 2 * fst (enlarger (options c)) * (ar_position ar + n + 10)"
    by (rule mult_le_mono2) simp
  also have "\<dots> \<le> min max_object_size (alloc_limit (options c))"
    using room True by (simp add: roomy_def)
  finally show ?thesis using enlarge_for_roomy [OF r g] True by (simp add: ensure_room_def)
next
  case False
  then show ?thesis using room size_sub_in_range [OF r] by (simp add: ensure_room_def roomy_def)
qed

lemma copy_bytes_spec:
  assumes r: "in_range ar" and z: "z \<longrightarrow> clean ar"
    and n: "ar_position ar + length bs \<le> length (ar_data ar)"
  shows "\<exists>ar'. copy_bytes bs ar = Some (Success, ar') \<and> keeps c z ar ar' \<and> appended bs ar ar'"
proof -
  let ?ar = "ar\<lparr>ar_data := overwrite (ar_data ar) (ar_position ar) bs,
                ar_position := ar_position ar + length bs\<rparr>"
  have "copy_bytes bs ar = Some (Success, ?ar)" using n by (simp add: copy_bytes_def mem_write_def)
  moreover have "appended bs ar ?ar" using n by (simp add: appended_def take_overwrite_at)
  moreover have "keeps c z ar ?ar"
  proof -
    have d: "drop (ar_position ar + length bs) (overwrite (ar_data ar) (ar_position ar) bs)
      = drop (ar_position ar + length bs) (ar_data ar)" using n by (rule drop_overwrite_at)
    have "set (drop (ar_position ar + length bs) (ar_data ar)) \<subseteq> set (drop (ar_position ar) (ar_data ar))"
      by (rule set_drop_subset_set_drop) simp
    then have "z \<longrightarrow> clean ?ar" using z d by (auto simp: clean_def)
    then show ?thesis using r n d by (auto simp: keeps_def in_range_def take_overwrite)
  qed
  ultimately show ?thesis by blast
qed

text \<open>Room is made for a block as a whole, then the block is written.\<close>

lemma emits_after_room:
  assumes rm: "\<And>ar e ar1. in_range ar \<Longrightarrow> z \<longrightarrow> clean ar \<Longrightarrow> length bs < 2 ^ 64 \<Longrightarrow> rm ar = (e, ar1) \<Longrightarrow>
               keeps c z ar ar1 \<and> ar_position ar1 = ar_position ar
               \<and> (e = Success \<longrightarrow> ar_position ar + length bs \<le> length (ar_data ar1))
               \<and> out_result c e"
    and room: "\<And>ar. in_range ar \<Longrightarrow> roomy c (length bs) ar \<Longrightarrow> fst (rm ar) = Success"
    and w: "\<And>ar. in_range ar \<Longrightarrow> z \<longrightarrow> clean ar
               \<Longrightarrow> ar_position ar + length bs \<le> length (ar_data ar) \<Longrightarrow>
               \<exists>ar'. w ar = Some (Success, ar') \<and> keeps c z ar ar' \<and> appended bs ar ar'"
  shows "emits c z True bs (after_room rm w)"
  unfolding emits_def
proof (intro allI impI)
  fix ar assume r: "in_range ar" and z: "z \<longrightarrow> clean ar" and n: "length bs < 2 ^ 64"
  obtain e ar1 where e: "rm ar = (e, ar1)" by (cases "rm ar")
  note sp = rm [OF r z n e]
  show "\<exists>e ar'. after_room rm w ar = Some (e, ar') \<and> keeps c z ar ar'
      \<and> (e = Success \<longrightarrow> True \<and> appended bs ar ar')
      \<and> (True \<longrightarrow> roomy c (length bs) ar \<longrightarrow> e = Success)
      \<and> (True \<longrightarrow> out_result c e)"
  proof (cases "failure e")
    case True
    then show ?thesis using sp e room [OF r] by (auto simp: failure_def after_room_def)
  next
    case False
    then have s: "e = Success" by (simp add: failure_def)
    have "in_range ar1" "z \<longrightarrow> clean ar1" using sp by (auto simp: keeps_def)
    from w [OF this] obtain ar' where w': "w ar1 = Some (Success, ar')" "keeps c z ar1 ar'"
      "appended bs ar1 ar'" using sp s by auto
    have "appended bs ar ar'" using w'(3) sp by (auto simp: appended_def keeps_def)
    moreover have "keeps c z ar ar'" using sp w'(2) keeps_trans by blast
    ultimately show ?thesis using w'(1) e False by (simp add: after_room_def)
  qed
qed

lemma ensure_room_reserves:
  "growing c \<Longrightarrow> in_range ar \<Longrightarrow> z \<longrightarrow> clean ar \<Longrightarrow> n < 2 ^ 64 \<Longrightarrow> ensure_room c n ar = (e, ar1) \<Longrightarrow>
     keeps c z ar ar1 \<and> ar_position ar1 = ar_position ar
     \<and> (e = Success \<longrightarrow> ar_position ar + n \<le> length (ar_data ar1))
     \<and> out_result c e"
  using ensure_room_spec [of ar z c n e ar1] by blast

lemma emits_put_bytes: "growing c \<Longrightarrow> emits c z True bs (put_bytes c bs)"
proof -
  assume g: "growing c"
  show ?thesis
    unfolding put_bytes_def
  proof (rule emits_after_room)
    show "fst (ensure_room c (length bs) ar) = Success"
      if "in_range ar" "roomy c (length bs) ar" for ar
      using that g by (intro ensure_room_roomy)
  qed (rule ensure_room_reserves [OF g] copy_bytes_spec; assumption)+
qed

section \<open>Sequences\<close>

lemma emits_done: "emits c z True [] (\<lambda>ar. Some (Success, ar))"
  by (auto simp: emits_def appended_def keeps_refl)

lemma emits_error: "e \<noteq> Success \<Longrightarrow> emits c z False bs (\<lambda>ar. Some (e, ar))"
  by (auto simp: emits_def keeps_refl)

lemma appended_trans:
  "appended b1 ar ar1 \<Longrightarrow> appended b2 ar1 ar2 \<Longrightarrow> appended (b1 @ b2) ar ar2"
  unfolding appended_def by (metis append.assoc length_append add.assoc)

lemma roomy_left: "roomy c (m + n) ar \<Longrightarrow> roomy c m ar"
proof (cases "resizable c")
  case True
  assume a: "roomy c (m + n) ar"
  have "2 * fst (enlarger (options c)) * (ar_position ar + m + 10)
      \<le> 2 * fst (enlarger (options c)) * (ar_position ar + (m + n) + 10)"
    by (rule mult_le_mono2) simp
  also have "\<dots> \<le> min max_object_size (alloc_limit (options c))" using a True by (simp add: roomy_def)
  finally show ?thesis using True by (simp add: roomy_def)
qed (simp add: roomy_def)

lemma roomy_right:
  "roomy c (length b1 + n) ar \<Longrightarrow> appended b1 ar ar1 \<Longrightarrow> keeps c z ar ar1 \<Longrightarrow> roomy c n ar1"
  by (auto simp: roomy_def appended_def keeps_def add.assoc)

lemma emits_then:
  assumes f: "emits c z p b1 f" and g: "emits c z q b2 g"
  shows "emits c z (p \<and> q) (b1 @ b2) (then_out f g)"
  unfolding emits_def
proof (intro allI impI)
  fix ar assume r: "in_range ar" and z: "z \<longrightarrow> clean ar" and n: "length (b1 @ b2) < 2 ^ 64"
  obtain e ar1 where a: "f ar = Some (e, ar1)" "keeps c z ar ar1"
    "e = Success \<longrightarrow> p \<and> appended b1 ar ar1" "p \<longrightarrow> roomy c (length b1) ar \<longrightarrow> e = Success"
    "p \<longrightarrow> out_result c e"
    using f r z n unfolding emits_def by fastforce
  let ?goal = "\<exists>e ar'. then_out f g ar = Some (e, ar') \<and> keeps c z ar ar'
      \<and> (e = Success \<longrightarrow> (p \<and> q) \<and> appended (b1 @ b2) ar ar')
      \<and> (p \<and> q \<longrightarrow> roomy c (length (b1 @ b2)) ar \<longrightarrow> e = Success)
      \<and> (p \<and> q \<longrightarrow> out_result c e)"
  show ?goal
  proof (cases "failure e")
    case True
    then show ?thesis using a roomy_left by (auto simp: then_out_def failure_def)
  next
    case False
    then have s: "e = Success" by (simp add: failure_def)
    have "in_range ar1" "z \<longrightarrow> clean ar1" using a(2) by (auto simp: keeps_def)
    then obtain e2 ar2 where b: "g ar1 = Some (e2, ar2)" "keeps c z ar1 ar2"
      "e2 = Success \<longrightarrow> q \<and> appended b2 ar1 ar2" "q \<longrightarrow> roomy c (length b2) ar1 \<longrightarrow> e2 = Success"
      "q \<longrightarrow> out_result c e2"
      using g n unfolding emits_def by fastforce
    have "then_out f g ar = Some (e2, ar2)" using a(1) b(1) False by (simp add: then_out_def)
    moreover have "keeps c z ar ar2" using a(2) b(2) by (rule keeps_trans)
    ultimately show ?thesis
      using a(2,3) b s appended_trans roomy_right [of c b1 "length b2" ar ar1 z] by auto
  qed
qed

lemma emits_many:
  "list_all2 (\<lambda>(p, bs) f. emits c z p bs f) xs fs
     \<Longrightarrow> emits c z (list_all fst xs) (concat (map snd xs)) (serialize_many fs)"
proof (induction rule: list_all2_induct)
  case Nil
  then show ?case using emits_done by simp
next
  case (Cons x xs f fs)
  then show ?case using emits_then [of c z "fst x" "snd x" f] by (auto split: prod.splits)
qed

section \<open>The input archive\<close>

text \<open>
  An input archive never changes its data, so an operation takes the data and the position
  and returns the error with the position it stopped at, or what it read with the position
  behind it. A read outside the data is \<open>None\<close>.
\<close>

type_synonym 'a in_op = "byte list \<Rightarrow> nat \<Rightarrow> ((errc \<times> nat) + ('a \<times> nat)) option"

definition return_in :: "'a \<Rightarrow> 'a in_op" where
  "return_in x d p = Some (Inr (x, p))"

definition fail_in :: "errc \<Rightarrow> 'a in_op" where
  "fail_in e d p = Some (Inl (e, p))"

definition bind_in :: "'a in_op \<Rightarrow> ('a \<Rightarrow> 'b in_op) \<Rightarrow> 'b in_op" where
  "bind_in f g d p =
     (case f d p of
        None \<Rightarrow> None
      | Some (Inl e) \<Rightarrow> Some (Inl e)
      | Some (Inr (x, q)) \<Rightarrow> g x d q)"

definition get_bytes :: "nat \<Rightarrow> byte list in_op" where
  "get_bytes n d p =
     (if n > size_sub (length d) p then Some (Inl (ResultOutOfRange, p))
      else map_option (\<lambda>bs. Inr (bs, p + n)) (mem_read d p n))"

text \<open>The items of \<open>serialize_many\<close> in order; the first that fails ends it.\<close>

primrec load_many :: "'a in_op list \<Rightarrow> 'a list in_op" where
  "load_many [] = return_in []"
| "load_many (f # fs) = bind_in f (\<lambda>x. bind_in (load_many fs) (\<lambda>xs. return_in (x # xs)))"

text \<open>
  \<open>loads f bs x\<close>: wherever the bytes \<open>bs\<close> are in the data, reading there gives \<open>x\<close> and
  takes exactly them. \<open>load_safe P f\<close>: whatever the data are, the operation reads inside
  them, ends with an error or a value that satisfies \<open>P\<close>, and never moves backwards.
\<close>

definition loads :: "'a in_op \<Rightarrow> byte list \<Rightarrow> 'a \<Rightarrow> bool" where
  "loads f bs x \<longleftrightarrow>
     (\<forall>p r. length (p @ bs @ r) < 2 ^ 64 \<longrightarrow>
        f (p @ bs @ r) (length p) = Some (Inr (x, length p + length bs)))"

definition load_safe :: "('a \<Rightarrow> bool) \<Rightarrow> 'a in_op \<Rightarrow> bool" where
  "load_safe P f \<longleftrightarrow>
     (\<forall>d p. p \<le> length d \<longrightarrow> length d < 2 ^ 64 \<longrightarrow>
        (\<exists>e q. f d p = Some (Inl (e, q)) \<and> e \<noteq> Success \<and> p \<le> q \<and> q \<le> length d)
        \<or> (\<exists>x q. f d p = Some (Inr (x, q)) \<and> P x \<and> p \<le> q \<and> q \<le> length d))"

lemma loads_return: "loads (return_in x) [] x"
  by (simp add: loads_def return_in_def)

lemma loads_bind: "loads f b1 x \<Longrightarrow> loads (g x) b2 y \<Longrightarrow> loads (bind_in f g) (b1 @ b2) y"
proof -
  assume f: "loads f b1 x" and g: "loads (g x) b2 y"
  show ?thesis
    unfolding loads_def
  proof (intro allI impI)
    fix p r :: "byte list" assume n: "length (p @ (b1 @ b2) @ r) < 2 ^ 64"
    have "f (p @ b1 @ b2 @ r) (length p) = Some (Inr (x, length p + length b1))"
      using f n unfolding loads_def by simp
    moreover have "length ((p @ b1) @ b2 @ r) < 2 ^ 64" using n by simp
    then have "g x ((p @ b1) @ b2 @ r) (length (p @ b1))
        = Some (Inr (y, length (p @ b1) + length b2))"
      using g unfolding loads_def by blast
    ultimately show "bind_in f g (p @ (b1 @ b2) @ r) (length p)
        = Some (Inr (y, length p + length (b1 @ b2)))"
      by (simp add: bind_in_def)
  qed
qed

lemma loads_map: "loads f bs x \<Longrightarrow> loads (bind_in f (\<lambda>x. return_in (h x))) bs (h x)"
  using loads_bind [of f bs x "\<lambda>x. return_in (h x)" "[]" "h x"] by (simp add: loads_return)

lemma loads_get_bytes: "loads (get_bytes (length bs)) bs bs"
  unfolding loads_def
proof (intro allI impI)
  fix p r :: "byte list" assume n: "length (p @ bs @ r) < 2 ^ 64"
  have "in_range \<lparr>ar_data = p @ bs @ r, ar_position = length p\<rparr>" using n by (simp add: in_range_def)
  from size_sub_in_range [OF this]
  have "size_sub (length (p @ bs @ r)) (length p) = length bs + length r" by simp
  then show "get_bytes (length bs) (p @ bs @ r) (length p) = Some (Inr (bs, length p + length bs))"
    by (simp add: get_bytes_def mem_read_def slice_of_def)
qed

lemma loads_many: "list_all2 (\<lambda>f (bs, x). loads f bs x) fs ys
    \<Longrightarrow> loads (load_many fs) (concat (map fst ys)) (map snd ys)"
proof (induction rule: list_all2_induct)
  case Nil
  then show ?case by (simp add: loads_return)
next
  case (Cons f fs y ys)
  have "loads (bind_in (load_many fs) (\<lambda>xs. return_in (snd y # xs))) (concat (map fst ys))
      (snd y # map snd ys)"
    by (rule loads_map [OF Cons.IH])
  with Cons.hyps show ?case
    using loads_bind [of f "fst y" "snd y" _ "concat (map fst ys)"] by (auto split: prod.splits)
qed

lemma load_safe_return: "P x \<Longrightarrow> load_safe P (return_in x)"
  by (auto simp: load_safe_def return_in_def)

lemma load_safe_fail: "e \<noteq> Success \<Longrightarrow> load_safe P (fail_in e)"
  by (auto simp: load_safe_def fail_in_def)

lemma load_safe_bind:
  assumes f: "load_safe P f" and g: "\<And>x. P x \<Longrightarrow> load_safe Q (g x)"
  shows "load_safe Q (bind_in f g)"
  unfolding load_safe_def
proof (intro allI impI)
  fix d :: "byte list" and p assume p: "p \<le> length d" and n: "length d < 2 ^ 64"
  let ?goal = "(\<exists>e q. bind_in f g d p = Some (Inl (e, q)) \<and> e \<noteq> Success \<and> p \<le> q \<and> q \<le> length d)
        \<or> (\<exists>x q. bind_in f g d p = Some (Inr (x, q)) \<and> Q x \<and> p \<le> q \<and> q \<le> length d)"
  from f p n consider
    (err) e q where "f d p = Some (Inl (e, q))" "e \<noteq> Success" "p \<le> q" "q \<le> length d"
  | (ok) x q where "f d p = Some (Inr (x, q))" "P x" "p \<le> q" "q \<le> length d"
    unfolding load_safe_def by blast
  then show ?goal
  proof cases
    case err
    then show ?thesis by (simp add: bind_in_def)
  next
    case ok
    have "(\<exists>e q'. g x d q = Some (Inl (e, q')) \<and> e \<noteq> Success \<and> q \<le> q' \<and> q' \<le> length d)
        \<or> (\<exists>y q'. g x d q = Some (Inr (y, q')) \<and> Q y \<and> q \<le> q' \<and> q' \<le> length d)"
      using g [OF ok(2)] ok(4) n unfolding load_safe_def by blast
    then show ?thesis using ok by (auto simp: bind_in_def)
  qed
qed

lemma load_safe_get_bytes: "load_safe (\<lambda>bs. length bs = n) (get_bytes n)"
  unfolding load_safe_def
proof (intro allI impI)
  fix d :: "byte list" and p assume p: "p \<le> length d" and l: "length d < 2 ^ 64"
  have "in_range \<lparr>ar_data = d, ar_position = p\<rparr>" using p l by (simp add: in_range_def)
  from size_sub_in_range [OF this] have "size_sub (length d) p = length d - p" by simp
  then show "(\<exists>e q. get_bytes n d p = Some (Inl (e, q)) \<and> e \<noteq> Success \<and> p \<le> q \<and> q \<le> length d)
        \<or> (\<exists>x q. get_bytes n d p = Some (Inr (x, q)) \<and> length x = n \<and> p \<le> q \<and> q \<le> length d)"
    using p by (cases "n > length d - p") (auto simp: get_bytes_def mem_read_def)
qed

lemma load_safe_many: "list_all2 (\<lambda>f P. load_safe P f) fs Ps
    \<Longrightarrow> load_safe (\<lambda>xs. list_all2 (\<lambda>x P. P x) xs Ps) (load_many fs)"
proof (induction rule: list_all2_induct)
  case Nil
  then show ?case by (simp add: load_safe_return)
next
  case (Cons f fs P Ps)
  show ?case
    unfolding load_many.simps
    by (intro load_safe_bind [where P = P] load_safe_bind [OF Cons.IH] load_safe_return Cons) simp
qed

end
