(* ===== verification/Lu_Varint.thy ===== *)
theory Lu_Varint
  imports Lu_Archive
begin

text \<open>
  Variable-length integers (\<open>varint\<close> in \<open>Reflection.h\<close>): seven bits a byte, least
  significant group first, the top bit of a byte set when more follow; a signed type with
  the zig-zag encoding first folds the sign into bit 0. An integer of \<open>k\<close> bytes is its bit
  pattern, a natural number below \<open>2 ^ (8 * k)\<close>.
\<close>

section \<open>The code\<close>

definition varint_max_size :: "nat \<Rightarrow> nat" where
  "varint_max_size k = k * 8 div 7 + 1"

text \<open>The number of bits up to the highest one; \<open>std::countl_zero\<close> counts the rest of the width.\<close>

fun bit_length :: "nat \<Rightarrow> nat" where
  "bit_length v = (if v = 0 then 0 else Suc (bit_length (v div 2)))"

declare bit_length.simps [simp del]

definition countl_zero :: "nat \<Rightarrow> nat \<Rightarrow> nat" where
  "countl_zero w v = w - bit_length v"

definition varint_size :: "nat \<Rightarrow> nat \<Rightarrow> nat" where
  "varint_size k v = ((k * 8 - countl_zero (k * 8) (v OR 1)) + 6) div 7"

text \<open>\<open>(value << 1) ^ (orig_value >> (w - 1))\<close>: the shift copies the sign of a signed type.\<close>

definition sign_fill :: "nat \<Rightarrow> bool \<Rightarrow> nat \<Rightarrow> nat" where
  "sign_fill w sg v =
     (if sg then (if v \<ge> 2 ^ (w - 1) then 2 ^ w - 1 else 0) else v div 2 ^ (w - 1))"

definition zig_zag :: "nat \<Rightarrow> bool \<Rightarrow> nat \<Rightarrow> nat" where
  "zig_zag w sg v = (2 * v) mod 2 ^ w XOR sign_fill w sg v"

text \<open>\<open>(value >> 1) ^ -(value & 0x1)\<close> on the unsigned type.\<close>

definition un_zig_zag :: "nat \<Rightarrow> nat \<Rightarrow> nat" where
  "un_zig_zag w x = (x div 2) XOR (if x mod 2 = 1 then 2 ^ w - 1 else 0)"

text \<open>The writing loop stores byte after byte at the archive's position.\<close>

function varint_loop :: "nat \<Rightarrow> nat \<Rightarrow> byte list \<Rightarrow> (nat \<times> byte list) option" where
  "varint_loop v p d =
     (if v \<ge> 128
      then (case mem_write d p [word_of_nat ((v AND 127) OR 128)] of
              None \<Rightarrow> None
            | Some d1 \<Rightarrow> varint_loop (drop_bit 7 v) (Suc p) d1)
      else map_option (\<lambda>d1. (Suc p, d1)) (mem_write d p [word_of_nat v]))"
  by pat_completeness auto

termination varint_loop
  by (relation "measure fst") (auto simp: drop_bit_eq_div)

declare varint_loop.simps [simp del]

definition varint_value :: "nat \<Rightarrow> bool \<Rightarrow> bool \<Rightarrow> nat \<Rightarrow> nat" where
  "varint_value k sg zz v = (if zz then zig_zag (8 * k) sg v else v)"

definition varint_room :: "archive_class \<Rightarrow> nat \<Rightarrow> nat \<Rightarrow> archive \<Rightarrow> errc \<times> archive" where
  "varint_room c k value ar =
     (if resizable c then enlarge_for c (varint_max_size k) ar
      else if remaining_size ar < varint_max_size k \<and> remaining_size ar < varint_size k value
      then (ResultOutOfRange, ar)
      else (Success, ar))"

definition varint_copy :: "nat \<Rightarrow> out_op" where
  "varint_copy value ar =
     map_option (\<lambda>(p, d). (Success, ar\<lparr>ar_data := d, ar_position := p\<rparr>))
       (varint_loop value (ar_position ar) (ar_data ar))"

definition serialize_varint_out :: "archive_class \<Rightarrow> nat \<Rightarrow> bool \<Rightarrow> bool \<Rightarrow> nat \<Rightarrow> out_op" where
  "serialize_varint_out c k sg zz v =
     after_room (varint_room c k (varint_value k sg zz v)) (varint_copy (varint_value k sg zz v))"

text \<open>
  \<open>decode_varint\<close> gives the error, the value and the number of bytes taken. With less data
  than the longest encoding it goes byte by byte to the end; otherwise it is unrolled, up to
  the longest encoding, whose tenth byte has one bit.
\<close>

fun decode_short :: "nat \<Rightarrow> byte list \<Rightarrow> nat \<Rightarrow> nat \<Rightarrow> nat \<Rightarrow> errc \<times> nat \<times> nat" where
  "decode_short w [] value shift i = (ResultOutOfRange, value, i)"
| "decode_short w (b # bs) value shift i =
     (let value = value OR take_bit w (push_bit shift (unat b AND 127)) in
      if unat b \<ge> 128 then decode_short w bs value (shift + 7) (Suc i)
      else (Success, value, Suc i))"

fun decode_long :: "nat \<Rightarrow> nat \<Rightarrow> byte list \<Rightarrow> nat \<Rightarrow> nat \<Rightarrow> (errc \<times> nat \<times> nat) option" where
  "decode_long w m [] value i = (if i < m then None else Some (ValueTooLarge, value, i))"
| "decode_long w m (b # bs) value i =
     (if i < m then
        let value = value OR take_bit w (push_bit (7 * i) (unat b AND (if i = 9 then 1 else 127))) in
        if unat b < 128 then Some (Success, value, Suc i)
        else decode_long w m bs value (Suc i)
      else Some (ValueTooLarge, value, i))"

definition decode_varint :: "nat \<Rightarrow> byte list \<Rightarrow> (errc \<times> nat \<times> nat) option" where
  "decode_varint k data =
     (if length data < varint_max_size k then Some (decode_short (8 * k) data 0 0 0)
      else decode_long (8 * k) (varint_max_size k) data 0 0)"

definition serialize_varint_in :: "nat \<Rightarrow> bool \<Rightarrow> nat in_op" where
  "serialize_varint_in k zz d p =
     (case mem_read d p (size_sub (length d) p) of
        None \<Rightarrow> None
      | Some data \<Rightarrow>
          let result =
            (if data \<noteq> [] \<and> unat (hd data) AND 128 = 0 then Some (Success, unat (hd data), 1)
             else decode_varint k data) in
          (case result of
             None \<Rightarrow> None
           | Some (e, value, n) \<Rightarrow>
               if failure e then Some (Inl (e, p))
               else Some (Inr (if zz then un_zig_zag (8 * k) value else value, p + n))))"

section \<open>The encoding\<close>

fun varint_bytes :: "nat \<Rightarrow> byte list" where
  "varint_bytes v =
     (if v \<ge> 128 then word_of_nat (v mod 128 + 128) # varint_bytes (v div 128)
      else [word_of_nat v])"

declare varint_bytes.simps [simp del]

lemma or_push_bit: "(v::nat) < 2 ^ s \<Longrightarrow> v OR push_bit s b = v + b * 2 ^ s"
proof -
  assume "v < 2 ^ s"
  then have t: "take_bit s v = v" by (simp add: take_bit_nat_eq_self)
  have "v + push_bit s b = v OR push_bit s b"
  proof (rule disjunctive_add)
    fix n
    have "bit v n \<longrightarrow> n < s" by (subst t [symmetric]) (simp add: bit_take_bit_iff)
    then show "\<not> bit v n \<or> \<not> bit (push_bit s b) n" by (auto simp: bit_push_bit_iff)
  qed
  then show ?thesis by (simp add: push_bit_eq_mult)
qed

lemma and_127: "(v::nat) AND 127 = v mod 128"
  using and_exp_eq_0_iff_not_bit take_bit_eq_mask [of 7 v]
  by (simp add: take_bit_eq_mod mask_eq_exp_minus_1)

lemma low_bits_or_128: "((v::nat) AND 127) OR 128 = v mod 128 + 128"
  using or_push_bit [of "v mod 128" 7 1] by (simp add: and_127 push_bit_eq_mult)

lemma bit_length_half: "0 < v \<Longrightarrow> bit_length v = Suc (bit_length (v div 2))"
  by (simp add: bit_length.simps)

lemma bit_length_zero [simp]: "bit_length 0 = 0"
  by (simp add: bit_length.simps)

lemma bit_length_bound: "v < 2 ^ w \<Longrightarrow> bit_length v \<le> w"
proof (induction w arbitrary: v)
  case (Suc w)
  then show ?case by (cases "v = 0") (auto simp: bit_length_half)
qed simp

lemma bit_length_or_one: "bit_length (v OR 1) = (if v = 0 then 1 else bit_length v)"
proof (cases "v = 0")
  case True
  then show ?thesis by (simp add: bit_length.simps)
next
  case False
  have e: "v OR 1 = v + of_bool (even v)" by (rule or_one_eq)
  have "(v OR 1) div 2 = v div 2" unfolding e by (cases "even v") (auto elim: evenE)
  moreover have "0 < (v OR 1)" unfolding e using False by simp
  ultimately show ?thesis using False by (simp add: bit_length_half)
qed

lemma bit_length_drop_7: "128 \<le> v \<Longrightarrow> bit_length v = bit_length (v div 128) + 7"
proof -
  assume v: "128 \<le> v"
  have h: "bit_length (v div n) = Suc (bit_length (v div (n * 2)))" if "0 < n" "n \<le> 128" for n
  proof -
    have "0 < v div n" using that v by (simp add: div_greater_zero_iff)
    then show ?thesis by (simp add: bit_length_half div_mult2_eq)
  qed
  show ?thesis using h [of 1] h [of 2] h [of 4] h [of 8] h [of 16] h [of 32] h [of 64] by simp
qed

lemma length_varint_bytes: "length (varint_bytes v) = (max 1 (bit_length v) + 6) div 7"
proof (induction v rule: varint_bytes.induct)
  case (1 v)
  show ?case
  proof (cases "128 \<le> v")
    case True
    then have "0 < v div 128" by (simp add: div_greater_zero_iff)
    then have "1 \<le> bit_length (v div 128)" by (simp add: bit_length_half)
    then show ?thesis
      using 1 True bit_length_drop_7 [OF True] by (simp add: varint_bytes.simps [of v] max_absorb2)
  next
    case False
    then have "bit_length v \<le> 7" by (intro bit_length_bound) simp
    then have "(max 1 (bit_length v) + 6) div 7 = 1" by (cases "bit_length v = 0") auto
    then show ?thesis using False by (simp add: varint_bytes.simps [of v])
  qed
qed

text \<open>\<open>varint_size\<close> is the number of bytes the loop writes, at most \<open>varint_max_size\<close>.\<close>

lemma varint_size_length: "v < 2 ^ (k * 8) \<Longrightarrow> 0 < k \<Longrightarrow> varint_size k v = length (varint_bytes v)"
proof -
  assume v: "v < 2 ^ (k * 8)" and k: "0 < k"
  have "bit_length v \<le> k * 8" using v by (rule bit_length_bound)
  then have "bit_length (v OR 1) \<le> k * 8" unfolding bit_length_or_one using k by simp
  then have "varint_size k v = (bit_length (v OR 1) + 6) div 7"
    by (simp add: varint_size_def countl_zero_def)
  also have "bit_length (v OR 1) = max 1 (bit_length v)"
    unfolding bit_length_or_one by (simp add: max_def bit_length_half)
  finally show ?thesis by (simp add: length_varint_bytes)
qed

lemma length_varint_bytes_bound:
  "v < 2 ^ (k * 8) \<Longrightarrow> 0 < k \<Longrightarrow> length (varint_bytes v) \<le> varint_max_size k"
proof -
  assume v: "v < 2 ^ (k * 8)" and k: "0 < k"
  have "max 1 (bit_length v) \<le> k * 8" using bit_length_bound [OF v] k by simp
  then have "(max 1 (bit_length v) + 6) div 7 \<le> (k * 8 + 7) div 7" by (intro div_le_mono) simp
  then show ?thesis by (simp add: length_varint_bytes varint_max_size_def)
qed

lemma varint_loop_writes:
  "p + length (varint_bytes v) \<le> length d
     \<Longrightarrow> varint_loop v p d = Some (p + length (varint_bytes v), overwrite d p (varint_bytes v))"
proof (induction v arbitrary: p d rule: varint_bytes.induct)
  case (1 v)
  show ?case
  proof (cases "128 \<le> v")
    case True
    let ?b = "word_of_nat (v mod 128 + 128) :: byte"
    have bs: "varint_bytes v = ?b # varint_bytes (v div 128)"
      using True by (simp add: varint_bytes.simps [of v])
    have d: "drop_bit 7 v = v div 128" by (simp add: drop_bit_eq_div)
    have w: "mem_write d p [?b] = Some (overwrite d p [?b])"
      using "1.prems" bs by (simp add: mem_write_def)
    have "varint_loop v p d = varint_loop (v div 128) (Suc p) (overwrite d p [?b])"
      using True w d by (simp add: varint_loop.simps [of v] low_bits_or_128)
    also have "\<dots> = Some (Suc p + length (varint_bytes (v div 128)),
        overwrite (overwrite d p [?b]) (Suc p) (varint_bytes (v div 128)))"
      using "1.IH" [OF True, of "Suc p" "overwrite d p [?b]"] "1.prems" bs by simp
    also have "overwrite (overwrite d p [?b]) (Suc p) (varint_bytes (v div 128))
        = overwrite d p (varint_bytes v)"
      using "1.prems" bs by (simp add: overwrite_def add.commute)
    finally show ?thesis using bs by simp
  next
    case False
    then have "varint_bytes v = [word_of_nat v]" by (simp add: varint_bytes.simps [of v])
    then show ?thesis using "1.prems" False by (simp add: varint_loop.simps [of v] mem_write_def)
  qed
qed

lemma emits_varint:
  assumes g: "growing c" and k: "0 < k" "k \<le> 8"
    and v: "varint_value k sg zz v < 2 ^ (8 * k)"
  shows "emits c z True (varint_bytes (varint_value k sg zz v)) (serialize_varint_out c k sg zz v)"
proof -
  let ?v = "varint_value k sg zz v" and ?n = "length (varint_bytes (varint_value k sg zz v))"
  have sz: "varint_size k ?v = ?n" using v k by (intro varint_size_length) (simp_all add: mult.commute)
  have le: "?n \<le> varint_max_size k"
    using v k by (intro length_varint_bytes_bound) (simp_all add: mult.commute)
  have "k * 8 div 7 \<le> 64 div 7" using k by (intro div_le_mono) simp
  then have mx: "varint_max_size k \<le> 10" by (simp add: varint_max_size_def)
  show ?thesis
    unfolding serialize_varint_out_def
  proof (rule emits_after_room)
    fix ar e ar1
    assume r: "in_range ar" and z: "z \<longrightarrow> clean ar" and e: "varint_room c k ?v ar = (e, ar1)"
    have "remaining_size ar = length (ar_data ar) - ar_position ar"
      using size_sub_in_range [OF r] by (simp add: remaining_size_def)
    moreover have "ensure_room c (varint_max_size k) ar = (e, ar1)" if "resizable c"
      using e that by (simp add: varint_room_def ensure_room_def)
    ultimately show "keeps c z ar ar1 \<and> ar_position ar1 = ar_position ar
        \<and> (e = Success \<longrightarrow> ar_position ar + ?n \<le> length (ar_data ar1))
        \<and> out_result c e"
      using ensure_room_reserves [OF g r z, of "varint_max_size k" e ar1] e r z le mx sz
        keeps_refl [OF r z]
      by (cases "resizable c") (auto simp: varint_room_def in_range_def out_result_def split: if_splits)
  next
    fix ar assume r: "in_range ar" and room: "roomy c ?n ar"
    show "fst (varint_room c k ?v ar) = Success"
    proof (cases "resizable c")
      case True
      have "2 * fst (enlarger (options c)) * (ar_position ar + varint_max_size k)
          \<le> 2 * fst (enlarger (options c)) * (ar_position ar + ?n + 10)"
        by (rule mult_le_mono2) (use mx in simp)
      also have "\<dots> \<le> min max_object_size (alloc_limit (options c))"
        using room True by (simp add: roomy_def)
      finally show ?thesis using True enlarge_for_roomy [OF r g] by (simp add: varint_room_def)
    next
      case False
      then show ?thesis
        using room sz size_sub_in_range [OF r]
        by (auto simp: varint_room_def roomy_def remaining_size_def)
    qed
  next
    fix ar assume r: "in_range ar" and z: "z \<longrightarrow> clean ar"
      and n: "ar_position ar + ?n \<le> length (ar_data ar)"
    have "varint_copy ?v ar = copy_bytes (varint_bytes ?v) ar"
      using n by (simp add: varint_copy_def copy_bytes_def varint_loop_writes mem_write_def)
    then show "\<exists>ar'. varint_copy ?v ar = Some (Success, ar') \<and> keeps c z ar ar'
        \<and> appended (varint_bytes ?v) ar ar'"
      using copy_bytes_spec [OF r z n] by simp
  qed
qed

section \<open>Decoding\<close>

lemma unat_low_bits: "v < 256 \<Longrightarrow> unat (word_of_nat v :: byte) = v"
  by (simp add: unat_byte_of_nat)

lemma decode_step_value:
  assumes "acc < 2 ^ s" "acc + v * 2 ^ s < (2::nat) ^ w"
  shows "acc OR take_bit w (push_bit s (v mod 128)) = acc + v mod 128 * (2::nat) ^ s"
proof -
  have "v mod 128 * 2 ^ s \<le> v * 2 ^ s" by (intro mult_le_mono1) simp
  then have "v mod 128 * 2 ^ s < 2 ^ w" using assms(2) by linarith
  then have "take_bit w (push_bit s (v mod 128)) = push_bit s (v mod 128)"
    by (simp add: push_bit_eq_mult take_bit_nat_eq_self)
  then show ?thesis using or_push_bit [OF assms(1)] by simp
qed

lemma next_group: "acc + v mod 128 * 2 ^ s + v div 128 * 2 ^ (s + 7) = acc + v * (2::nat) ^ s"
proof -
  have "v mod 128 * 2 ^ s + v div 128 * 2 ^ (s + 7) = (v div 128 * 128 + v mod 128) * 2 ^ s"
    by (simp only: power_add distrib_right mult.assoc) (simp only: ac_simps; simp)
  also have "\<dots> = v * 2 ^ s" by (simp only: div_mult_mod_eq)
  finally show ?thesis by simp
qed

lemma next_group_bound: "acc < 2 ^ s \<Longrightarrow> acc + v mod 128 * 2 ^ s < (2::nat) ^ (s + 7)"
proof -
  assume "acc < 2 ^ s"
  then have "acc + v mod 128 * 2 ^ s < 2 ^ s + v mod 128 * 2 ^ s" by simp
  also have "\<dots> = (1 + v mod 128) * 2 ^ s" by (simp add: algebra_simps)
  also have "\<dots> \<le> 128 * 2 ^ s"
  proof (intro mult_le_mono1)
    have "v mod 128 < 128" by simp
    then show "1 + v mod 128 \<le> 128" by linarith
  qed
  finally show ?thesis by (simp add: power_add algebra_simps)
qed

lemma decode_short_varint_bytes:
  "acc < 2 ^ s \<Longrightarrow> acc + v * 2 ^ s < 2 ^ w
     \<Longrightarrow> decode_short w (varint_bytes v @ r) acc s i
           = (Success, acc + v * 2 ^ s, i + length (varint_bytes v))"
proof (induction v arbitrary: acc s i rule: varint_bytes.induct)
  case (1 v)
  note dv = decode_step_value [OF "1.prems"]
  show ?case
  proof (cases "128 \<le> v")
    case True
    have u: "unat (word_of_nat (v mod 128 + 128) :: byte) = v mod 128 + 128"
    proof (rule unat_low_bits)
      have "v mod 128 < 128" by simp
      then show "v mod 128 + 128 < 256" by linarith
    qed
    have a: "(v mod 128 + 128) AND 127 = v mod 128" by (simp add: and_127)
    have "acc + v mod 128 * 2 ^ s < 2 ^ (s + 7)" using "1.prems"(1) by (rule next_group_bound)
    moreover have "acc + v mod 128 * 2 ^ s + v div 128 * 2 ^ (s + 7) < 2 ^ w"
      using "1.prems"(2) by (simp only: next_group)
    ultimately have "decode_short w (varint_bytes (v div 128) @ r) (acc + v mod 128 * 2 ^ s) (s + 7)
        (Suc i) = (Success, acc + v * 2 ^ s, Suc i + length (varint_bytes (v div 128)))"
      using "1.IH" [OF True] by (simp only: next_group)
    then show ?thesis
      using True u a dv by (simp add: varint_bytes.simps [of v] Let_def)
  next
    case False
    then have "unat (word_of_nat v :: byte) = v" "v AND 127 = v" "v mod 128 = v"
      by (simp_all add: unat_low_bits and_127)
    then show ?thesis using False dv by (simp add: varint_bytes.simps [of v] Let_def)
  qed
qed

lemma decode_long_varint_bytes:
  assumes k: "k \<le> 8"
  shows "i \<le> 8 * k div 7 \<Longrightarrow> acc < 2 ^ (7 * i) \<Longrightarrow> acc + v * 2 ^ (7 * i) < 2 ^ (8 * k)
     \<Longrightarrow> decode_long (8 * k) (varint_max_size k) (varint_bytes v @ r) acc i
           = Some (Success, acc + v * 2 ^ (7 * i), i + length (varint_bytes v))"
proof (induction v arbitrary: acc i rule: varint_bytes.induct)
  case (1 v)
  note dv = decode_step_value [OF "1.prems"(2,3)]
  have i: "i < varint_max_size k" using "1.prems"(1) by (simp add: varint_max_size_def mult.commute)
  have v_lt: "v * 2 ^ (7 * i) < 2 ^ (8 * k)" using "1.prems"(3) by linarith
  have low: "v < 2" if "i = 9"
  proof -
    have "(2::nat) ^ (8 * k) \<le> 2 ^ 64" using k by (intro power_increasing) auto
    then have "v * 2 ^ 63 < 2 * 2 ^ 63" using v_lt that by simp
    then show ?thesis by (simp only: mult_less_cancel2)
  qed
  have i': "Suc i \<le> 8 * k div 7" if "128 \<le> v"
  proof -
    have "128 * 2 ^ (7 * i) \<le> v * 2 ^ (7 * i)" using that by (rule mult_le_mono1)
    then have "128 * (2::nat) ^ (7 * i) < 2 ^ (8 * k)" using v_lt by linarith
    then have "(2::nat) ^ (7 * i + 7) < 2 ^ (8 * k)" by (simp add: power_add mult.commute)
    then have "7 * i + 7 < 8 * k" by (rule power_less_imp_less_exp [rotated]) simp
    then have "Suc i * 7 \<le> 8 * k" by simp
    then show ?thesis by (simp add: less_eq_div_iff_mult_less_eq)
  qed
  show ?case
  proof (cases "128 \<le> v")
    case True
    have u: "unat (word_of_nat (v mod 128 + 128) :: byte) = v mod 128 + 128"
    proof (rule unat_low_bits)
      have "v mod 128 < 128" by simp
      then show "v mod 128 + 128 < 256" by linarith
    qed
    have a: "(v mod 128 + 128) AND 127 = v mod 128" by (simp add: and_127)
    have n9: "i \<noteq> 9" using low True by auto
    have s: "7 * Suc i = 7 * i + 7" by simp
    have "acc + v mod 128 * 2 ^ (7 * i) < 2 ^ (7 * Suc i)"
      unfolding s using "1.prems"(2) by (rule next_group_bound)
    moreover have g: "acc + v mod 128 * 2 ^ (7 * i) + v div 128 * 2 ^ (7 * Suc i)
        = acc + v * 2 ^ (7 * i)"
      unfolding s by (rule next_group)
    ultimately have "decode_long (8 * k) (varint_max_size k) (varint_bytes (v div 128) @ r)
        (acc + v mod 128 * 2 ^ (7 * i)) (Suc i)
        = Some (Success, acc + v * 2 ^ (7 * i), Suc i + length (varint_bytes (v div 128)))"
      using "1.IH" [OF True i' [OF True]] "1.prems"(3) by (simp only: g)
    then show ?thesis
      using True u a dv i n9 by (simp add: varint_bytes.simps [of v] Let_def)
  next
    case False
    then have u: "unat (word_of_nat v :: byte) = v" "v AND 127 = v" "v mod 128 = v"
      by (simp_all add: unat_low_bits and_127)
    have "v AND (if i = 9 then 1 else 127) = v"
      using u low by (auto simp: less_2_cases_iff)
    then show ?thesis using False dv i u by (simp add: varint_bytes.simps [of v] Let_def)
  qed
qed

lemma decode_varint_bytes:
  assumes k: "0 < k" "k \<le> 8" and v: "v < 2 ^ (8 * k)"
  shows "decode_varint k (varint_bytes v @ r) = Some (Success, v, length (varint_bytes v))"
  using decode_short_varint_bytes [of 0 0 v "8 * k" r 0]
    decode_long_varint_bytes [OF k(2), of 0 0 v r] v
  by (simp add: decode_varint_def)

lemma and_128_eq_0: "(v::nat) < 256 \<Longrightarrow> v AND 128 = 0 \<longleftrightarrow> v < 128"
proof -
  assume v: "v < 256"
  have "v AND 128 = 0 \<longleftrightarrow> \<not> bit v 7"
    using and_exp_eq_0_iff_not_bit [of v 7] by simp
  also have "\<dots> \<longleftrightarrow> v < 128" using v by (auto simp: bit_nat_def odd_iff_mod_2_eq_one)
  finally show ?thesis .
qed

section \<open>Zig-zag\<close>

lemma xor_mask: "x < 2 ^ w \<Longrightarrow> (x::nat) XOR (2 ^ w - 1) = 2 ^ w - 1 - x"
proof -
  assume x: "x < 2 ^ w"
  have m: "(2 ^ w - 1 :: nat) = mask w" by (simp add: mask_eq_exp_minus_1)
  have t: "take_bit w x = x" using x by (simp add: take_bit_nat_eq_self)
  have b: "bit x n \<longrightarrow> n < w" for n by (subst t [symmetric]) (simp add: bit_take_bit_iff)
  have "x + (x XOR mask w) = x OR (x XOR mask w)"
    by (rule disjunctive_add) (use b in \<open>auto simp: bit_simps\<close>)
  also have "\<dots> = mask w" by (rule bit_eqI) (use b in \<open>auto simp: bit_simps\<close>)
  finally have "x XOR mask w = mask w - x" by linarith
  then show ?thesis by (simp only: m)
qed

lemma half_range: "0 < w \<Longrightarrow> (2::nat) ^ w = 2 * 2 ^ (w - 1)"
  by (cases w) auto

lemma zig_zag_bound: "v < 2 ^ w \<Longrightarrow> 0 < w \<Longrightarrow> zig_zag w True v < 2 ^ w"
proof -
  assume v: "v < 2 ^ w" and w: "0 < w"
  have m: "(2 * v) mod 2 ^ w < 2 ^ w" by simp
  then have "(2 * v) mod 2 ^ w XOR (2 ^ w - 1) < 2 ^ w" by (simp only: xor_mask)
  with m show ?thesis by (simp only: zig_zag_def sign_fill_def if_True xor.right_neutral simp_thms split: if_split)
qed

lemma un_zig_zag_zig_zag: "v < 2 ^ w \<Longrightarrow> 0 < w \<Longrightarrow> un_zig_zag w (zig_zag w True v) = v"
proof (cases "v < 2 ^ (w - 1)")
  case True
  assume "v < 2 ^ w" and w: "0 < w"
  then show ?thesis using True half_range [OF w] by (simp add: un_zig_zag_def zig_zag_def sign_fill_def)
next
  case False
  assume v: "v < 2 ^ w" and w: "0 < w"
  define h u where "h = (2::nat) ^ (w - 1)" and "u = v - h"
  have h: "(2::nat) ^ w = 2 * h" "v = h + u" "u < h"
    using half_range [OF w] v False by (auto simp: h_def u_def)
  have "(2 * v) mod 2 ^ w = 2 * u" using h by (simp add: mod_if)
  then have "zig_zag w True v = 2 ^ w - 1 - 2 * u"
    using False xor_mask [of "2 * u" w] h by (simp add: zig_zag_def sign_fill_def)
  then have z: "zig_zag w True v = 2 * (h - 1 - u) + 1" using h by simp
  then have "un_zig_zag w (zig_zag w True v) = (h - 1 - u) XOR (2 ^ w - 1)"
    by (simp add: un_zig_zag_def)
  also have "\<dots> = 2 ^ w - 1 - (h - 1 - u)" by (rule xor_mask) (use h in simp)
  finally show ?thesis using h by simp
qed

section \<open>Reading\<close>

lemma varint_value_bound:
  "v < 2 ^ (8 * k) \<Longrightarrow> 0 < k \<Longrightarrow> (zz \<longrightarrow> sg) \<Longrightarrow> varint_value k sg zz v < 2 ^ (8 * k)"
  by (cases zz) (simp_all add: varint_value_def zig_zag_bound)

lemma loads_varint:
  assumes k: "0 < k" "k \<le> 8" and v: "v < 2 ^ (8 * k)" and zz: "zz \<longrightarrow> sg"
  shows "loads (serialize_varint_in k zz) (varint_bytes (varint_value k sg zz v)) v"
  unfolding loads_def
proof (intro allI impI)
  let ?v = "varint_value k sg zz v"
  fix p r :: "byte list" assume n: "length (p @ varint_bytes ?v @ r) < 2 ^ 64"
  have lt: "?v < 2 ^ (8 * k)" using v k zz by (intro varint_value_bound)
  have "in_range \<lparr>ar_data = p @ varint_bytes ?v @ r, ar_position = length p\<rparr>"
    using n by (simp add: in_range_def)
  from size_sub_in_range [OF this]
  have "mem_read (p @ varint_bytes ?v @ r) (length p)
      (size_sub (length (p @ varint_bytes ?v @ r)) (length p)) = Some (varint_bytes ?v @ r)"
    by (simp add: mem_read_def slice_of_def)
  moreover have "varint_bytes ?v \<noteq> []" by (simp add: varint_bytes.simps [of ?v])
  moreover have "unat (hd (varint_bytes ?v)) = ?v \<and> length (varint_bytes ?v) = 1"
    if "unat (hd (varint_bytes ?v)) AND 128 = 0"
  proof (cases "128 \<le> ?v")
    case True
    have "?v mod 128 < 128" by simp
    then have "?v mod 128 + 128 < 256" by linarith
    then have "unat (hd (varint_bytes ?v)) = ?v mod 128 + 128"
      using True unat_low_bits [of "?v mod 128 + 128"] by (simp add: varint_bytes.simps [of ?v])
    then show ?thesis using that and_128_eq_0 [of "?v mod 128 + 128"] \<open>?v mod 128 + 128 < 256\<close> by simp
  next
    case False
    then show ?thesis by (simp add: varint_bytes.simps [of ?v] unat_low_bits)
  qed
  moreover have "(if zz then un_zig_zag (8 * k) ?v else ?v) = v"
    using v k zz by (auto simp: varint_value_def un_zig_zag_zig_zag)
  ultimately show "serialize_varint_in k zz (p @ varint_bytes ?v @ r) (length p)
      = Some (Inr (v, length p + length (varint_bytes ?v)))"
    using decode_varint_bytes [OF k lt, of r]
    by (auto simp: serialize_varint_in_def failure_def Let_def)
qed

text \<open>Whatever the bytes, decoding stays inside them and its value fits the type.\<close>

lemma or_bound: "a < 2 ^ w \<Longrightarrow> b < 2 ^ w \<Longrightarrow> a OR b < (2::nat) ^ w"
  by (metis take_bit_nat_eq_self_iff take_bit_or)

lemma xor_bound: "a < 2 ^ w \<Longrightarrow> b < 2 ^ w \<Longrightarrow> a XOR b < (2::nat) ^ w"
  by (metis take_bit_nat_eq_self_iff take_bit_xor)

lemma decode_short_safe:
  "acc < 2 ^ w \<Longrightarrow> decode_short w bs acc s i = (e, x, n)
     \<Longrightarrow> x < 2 ^ w \<and> n \<le> i + length bs \<and> (e = Success \<or> e = ResultOutOfRange)"
proof (induction w bs acc s i rule: decode_short.induct)
  case (2 w b bs acc s i)
  have "acc OR take_bit w (push_bit s (unat b AND 127)) < 2 ^ w"
    by (rule or_bound [OF "2.prems"(1) take_bit_nat_less_exp])
  then show ?case using 2 by (fastforce simp: Let_def split: if_splits)
qed auto

lemma decode_long_safe:
  "acc < 2 ^ w \<Longrightarrow> m \<le> i + length bs \<Longrightarrow>
     \<exists>e x n. decode_long w m bs acc i = Some (e, x, n) \<and> x < 2 ^ w
       \<and> (e = Success \<longrightarrow> n \<le> i + length bs) \<and> (e = Success \<or> e = ValueTooLarge)"
proof (induction w m bs acc i rule: decode_long.induct)
  case (2 w m b bs acc i)
  let ?acc = "acc OR take_bit w (push_bit (7 * i) (unat b AND (if i = 9 then 1 else 127)))"
  have "?acc < 2 ^ w" by (rule or_bound [OF "2.prems"(1) take_bit_nat_less_exp])
  then show ?case using 2 by (fastforce simp: Let_def)
qed auto

lemma decode_varint_safe:
  "\<exists>e x n. decode_varint k data = Some (e, x, n) \<and> x < 2 ^ (8 * k)
     \<and> (e = Success \<longrightarrow> n \<le> length data)"
proof (cases "length data < varint_max_size k")
  case True
  obtain e x n where d: "decode_short (8 * k) data 0 0 0 = (e, x, n)"
    by (cases "decode_short (8 * k) data 0 0 0")
  show ?thesis using decode_short_safe [OF _ d] True d by (simp add: decode_varint_def)
next
  case False
  then show ?thesis
    using decode_long_safe [of 0 "8 * k" "varint_max_size k" 0 data]
    by (auto simp: decode_varint_def)
qed

lemma un_zig_zag_bound: "x < 2 ^ w \<Longrightarrow> un_zig_zag w x < 2 ^ w"
proof -
  assume x: "x < 2 ^ w"
  have "x div 2 < 2 ^ w" using x by (rule le_less_trans [OF div_le_dividend])
  then show ?thesis using xor_bound [of "x div 2" w "2 ^ w - 1"] by (simp add: un_zig_zag_def)
qed

lemma load_safe_varint:
  assumes k: "0 < k"
  shows "load_safe (\<lambda>v. v < 2 ^ (8 * k)) (serialize_varint_in k zz)"
  unfolding load_safe_def
proof (intro allI impI)
  fix d :: "byte list" and p assume p: "p \<le> length d" and l: "length d < 2 ^ 64"
  let ?data = "drop p d"
  have "in_range \<lparr>ar_data = d, ar_position = p\<rparr>" using p l by (simp add: in_range_def)
  from size_sub_in_range [OF this]
  have data: "mem_read d p (size_sub (length d) p) = Some ?data"
    using p by (simp add: mem_read_def slice_of_def)
  have "2 ^ 8 \<le> (2::nat) ^ (8 * k)" using k by (intro power_increasing) auto
  moreover have "unat b < 2 ^ 8" for b :: byte using unsigned_less [of b] by simp
  ultimately have "unat b < 2 ^ (8 * k)" for b :: byte by (rule order_less_le_trans [rotated])
  then obtain e x n where r: "(if ?data \<noteq> [] \<and> unat (hd ?data) AND 128 = 0
        then Some (Success, unat (hd ?data), 1) else decode_varint k ?data) = Some (e, x, n)"
      and x: "x < 2 ^ (8 * k)" and n: "e = Success \<longrightarrow> n \<le> length ?data"
  proof (cases "?data \<noteq> [] \<and> unat (hd ?data) AND 128 = 0")
    case True
    then show ?thesis using that [of Success "unat (hd ?data)" 1]
      \<open>\<And>b. unat b < 2 ^ (8 * k)\<close> by (cases ?data) auto
  next
    case False
    then show ?thesis using that decode_varint_safe [of k ?data] by (simp only: if_False) blast
  qed
  show "(\<exists>e q. serialize_varint_in k zz d p = Some (Inl (e, q)) \<and> e \<noteq> Success \<and> p \<le> q \<and> q \<le> length d)
      \<or> (\<exists>v q. serialize_varint_in k zz d p = Some (Inr (v, q)) \<and> v < 2 ^ (8 * k) \<and> p \<le> q \<and> q \<le> length d)"
    unfolding serialize_varint_in_def data option.case Let_def r
    using x n p un_zig_zag_bound [OF x] by (cases "failure e") (auto simp: failure_def)
qed

end
