(* ===== verification/Lu_Serializer.thy ===== *)
theory Lu_Serializer
  imports Lu_Varint
begin

text \<open>
  The serializer (\<open>basic_out\<close> and \<open>in\<close> in \<open>BitSerializer.h\<close>). The overloads of
  \<open>serialize_one\<close> are chosen by the item's C++ type; here the type is a descriptor \<open>ty\<close> and
  the overloads are the cases of one function over it, for the output archive and for the
  input archive. A value of a type is a \<open>val\<close>; integers, enumerations and floating point
  numbers are their bit patterns. The host is little endian.
\<close>

section \<open>Types and values\<close>

datatype val = VInt nat | VList "val list" | VOpt "val option"
  | VVariant "(nat \<times> val) option" | VBits "bool list"

text \<open>
  The size field of a container is the archive's default or, in a \<open>sized_item\<close> or
  \<open>unsized\<close>, its own.
\<close>

datatype size_spec = DefaultSize | OwnSize "size_type option"

text \<open>\<open>Growable\<close> containers have \<open>resize\<close>; a \<open>Spanned\<close> one can only shrink over its elements.\<close>

datatype container_kind = Growable | Spanned

text \<open>
  \<open>TByte\<close> is \<open>char\<close>, \<open>unsigned char\<close> or \<open>std::byte\<close>, \<open>TInt k\<close> any other fundamental type or
  enumeration of \<open>k\<close> bytes, \<open>TVarint k sg zz\<close> a varint of a (signed) integer, zig-zag or not.
  \<open>TSeq kind spec contig cur t\<close> is a container, contiguous or not, with \<open>cur\<close> elements before
  it is read into; \<open>TView\<close> a view of constant bytes; \<open>TAssoc spec unique mapped t\<close> a set or map,
  whose elements with a mapped value are key-value tuples. A \<open>TStruct p ts\<close> is an aggregate, and
  \<open>p\<close> says it is trivially copyable, has no padding, no empty member and no \<open>serialize\<close> of
  its own. \<open>TVariant t ids ts\<close> has the identifiers \<open>ids\<close>, of type \<open>t\<close>, for its alternatives \<open>ts\<close>.
\<close>

datatype ty = TByte | TInt nat | TVarint nat bool bool | TArray nat ty
  | TSeq container_kind size_spec bool nat ty | TView size_spec
  | TAssoc size_spec bool bool ty | TTuple "ty list" | TStruct bool "ty list"
  | TOptional ty | TVariant ty "val list" "ty list" | TPointer ty | TOptionalPtr ty | TBitset nat

definition size_type_of :: "archive_class \<Rightarrow> size_spec \<Rightarrow> size_type option" where
  "size_type_of c spec =
     (case spec of DefaultSize \<Rightarrow> get_default_size_type (options c) | OwnSize s \<Rightarrow> s)"

text \<open>Which types are copied as they are in memory: none with a reversed byte order but bytes.\<close>

primrec byte_serializable :: "ty \<Rightarrow> bool" where
  "byte_serializable TByte = True"
| "byte_serializable (TInt k) = True"
| "byte_serializable (TVarint k sg zz) = False"
| "byte_serializable (TArray n t) = byte_serializable t"
| "byte_serializable (TSeq kind spec contig cur t) = False"
| "byte_serializable (TView spec) = False"
| "byte_serializable (TAssoc spec unique mapped t) = False"
| "byte_serializable (TTuple ts) = False"
| "byte_serializable (TStruct p ts) = (p \<and> ts \<noteq> [] \<and> list_all id (map byte_serializable ts))"
| "byte_serializable (TOptional t) = False"
| "byte_serializable (TVariant t ids ts) = False"
| "byte_serializable (TPointer t) = False"
| "byte_serializable (TOptionalPtr t) = False"
| "byte_serializable (TBitset n) = False"

fun endian_independent :: "ty \<Rightarrow> bool" where
  "endian_independent TByte = True"
| "endian_independent (TArray n t) = endian_independent t"
| "endian_independent _ = False"

definition serialize_as_bytes :: "archive_class \<Rightarrow> ty \<Rightarrow> bool" where
  "serialize_as_bytes c t =
     (endian_independent t \<or> \<not> endian_aware c \<and> byte_serializable t)"

section \<open>Memory of byte-serializable objects\<close>

definition ints_of :: "val \<Rightarrow> nat" where
  "ints_of v = (case v of VInt n \<Rightarrow> n | _ \<Rightarrow> 0)"

definition elems_of :: "val \<Rightarrow> val list" where
  "elems_of v = (case v of VList vs \<Rightarrow> vs | _ \<Rightarrow> [])"

definition apply_each :: "('a \<Rightarrow> 'b) list \<Rightarrow> 'a list \<Rightarrow> 'b list" where
  "apply_each fs xs = map2 (\<lambda>f x. f x) fs xs"

primrec raw_size :: "ty \<Rightarrow> nat" where
  "raw_size TByte = 1"
| "raw_size (TInt k) = k"
| "raw_size (TVarint k sg zz) = 0"
| "raw_size (TArray n t) = n * raw_size t"
| "raw_size (TSeq kind spec contig cur t) = 0"
| "raw_size (TView spec) = 0"
| "raw_size (TAssoc spec unique mapped t) = 0"
| "raw_size (TTuple ts) = 0"
| "raw_size (TStruct p ts) = sum_list (map raw_size ts)"
| "raw_size (TOptional t) = 0"
| "raw_size (TVariant t ids ts) = 0"
| "raw_size (TPointer t) = 0"
| "raw_size (TOptionalPtr t) = 0"
| "raw_size (TBitset n) = 0"

primrec raw_bytes :: "ty \<Rightarrow> val \<Rightarrow> byte list" where
  "raw_bytes TByte v = le_bytes 1 (ints_of v)"
| "raw_bytes (TInt k) v = le_bytes k (ints_of v)"
| "raw_bytes (TVarint k sg zz) v = []"
| "raw_bytes (TArray n t) v = concat (map (raw_bytes t) (elems_of v))"
| "raw_bytes (TSeq kind spec contig cur t) v = []"
| "raw_bytes (TView spec) v = []"
| "raw_bytes (TAssoc spec unique mapped t) v = []"
| "raw_bytes (TTuple ts) v = []"
| "raw_bytes (TStruct p ts) v = concat (apply_each (map raw_bytes ts) (elems_of v))"
| "raw_bytes (TOptional t) v = []"
| "raw_bytes (TVariant t ids ts) v = []"
| "raw_bytes (TPointer t) v = []"
| "raw_bytes (TOptionalPtr t) v = []"
| "raw_bytes (TBitset n) v = []"

fun split_sizes :: "nat list \<Rightarrow> 'a list \<Rightarrow> 'a list list" where
  "split_sizes [] bs = []"
| "split_sizes (n # ns) bs = take n bs # split_sizes ns (drop n bs)"

primrec from_raw :: "ty \<Rightarrow> byte list \<Rightarrow> val" where
  "from_raw TByte bs = VInt (le_nat bs)"
| "from_raw (TInt k) bs = VInt (le_nat bs)"
| "from_raw (TVarint k sg zz) bs = VInt 0"
| "from_raw (TArray n t) bs =
     VList (map (from_raw t) (split_sizes (replicate n (raw_size t)) bs))"
| "from_raw (TSeq kind spec contig cur t) bs = VInt 0"
| "from_raw (TView spec) bs = VInt 0"
| "from_raw (TAssoc spec unique mapped t) bs = VInt 0"
| "from_raw (TTuple ts) bs = VInt 0"
| "from_raw (TStruct p ts) bs =
     VList (apply_each (map from_raw ts) (split_sizes (map raw_size ts) bs))"
| "from_raw (TOptional t) bs = VInt 0"
| "from_raw (TVariant t ids ts) bs = VInt 0"
| "from_raw (TPointer t) bs = VInt 0"
| "from_raw (TOptionalPtr t) bs = VInt 0"
| "from_raw (TBitset n) bs = VInt 0"

section \<open>Writing\<close>

definition number_bytes :: "archive_class \<Rightarrow> nat \<Rightarrow> nat \<Rightarrow> byte list" where
  "number_bytes c k n = (if endian_aware c then rev (le_bytes k n) else le_bytes k n)"

definition put_number :: "archive_class \<Rightarrow> nat \<Rightarrow> nat \<Rightarrow> out_op" where
  "put_number c k n = put_bytes c (number_bytes c k n)"

definition done_out :: out_op where
  "done_out ar = Some (Success, ar)"

definition fail_out :: "errc \<Rightarrow> out_op" where
  "fail_out e ar = Some (e, ar)"

text \<open>A block of no bytes is skipped before the room is checked.\<close>

definition put_block :: "archive_class \<Rightarrow> byte list \<Rightarrow> out_op" where
  "put_block c bs = (if bs = [] then done_out else put_bytes c bs)"

text \<open>\<open>static_cast<SizeType>(container.size())\<close> keeps the low bits.\<close>

definition put_size :: "archive_class \<Rightarrow> size_type \<Rightarrow> nat \<Rightarrow> out_op" where
  "put_size c s n =
     (case s of
        SizeFixed k \<Rightarrow> put_number c k (n mod 2 ^ (8 * k))
      | SizeVarint k \<Rightarrow> serialize_varint_out c k False False (n mod 2 ^ (8 * k)))"

text \<open>The bits of a \<open>bitset\<close> are or-ed into the bytes that are there.\<close>

primrec or_bits :: "bool list \<Rightarrow> nat \<Rightarrow> nat \<Rightarrow> byte list \<Rightarrow> byte list option" where
  "or_bits [] i p d = Some d"
| "or_bits (b # bs) i p d =
     (case mem_read d (p + i div 8) 1 of
        None \<Rightarrow> None
      | Some x \<Rightarrow>
          (case mem_write d (p + i div 8) [hd x OR push_bit (i mod 8) (of_bool b)] of
             None \<Rightarrow> None
           | Some d1 \<Rightarrow> or_bits bs (Suc i) p d1))"

definition copy_bits :: "bool list \<Rightarrow> out_op" where
  "copy_bits bits ar =
     map_option (\<lambda>d. (Success, ar\<lparr>ar_data := d,
         ar_position := ar_position ar + (length bits + 7) div 8\<rparr>))
       (or_bits bits 0 (ar_position ar) (ar_data ar))"

definition put_bits :: "archive_class \<Rightarrow> bool list \<Rightarrow> out_op" where
  "put_bits c bits = after_room (ensure_room c ((length bits + 7) div 8)) (copy_bits bits)"

text \<open>A value that is not of the type is no program.\<close>

definition no_program :: out_op where
  "no_program ar = None"

text \<open>
  One definition for each overload of \<open>basic_out::serialize_one\<close>, over the operations that
  write the parts.
\<close>

definition out_aggregate ::
  "archive_class \<Rightarrow> bool \<Rightarrow> ty list \<Rightarrow> (val \<Rightarrow> byte list) list \<Rightarrow> (val \<Rightarrow> out_op) list \<Rightarrow> val list \<Rightarrow> out_op" where
  "out_aggregate c p ts raws outs vs =
     (if ts = [] then done_out
      else if serialize_as_bytes c (TStruct p ts) then put_block c (concat (apply_each raws vs))
      else serialize_many (apply_each outs vs))"

definition out_array :: "archive_class \<Rightarrow> ty \<Rightarrow> (val \<Rightarrow> out_op) \<Rightarrow> val list \<Rightarrow> out_op" where
  "out_array c t out vs =
     (if serialize_as_bytes c t then put_block c (concat (map (raw_bytes t) vs))
      else serialize_many (map out vs))"

definition out_container ::
  "archive_class \<Rightarrow> size_spec \<Rightarrow> bool \<Rightarrow> ty \<Rightarrow> (val \<Rightarrow> out_op) \<Rightarrow> val list \<Rightarrow> out_op" where
  "out_container c spec contig t out vs =
     (let elems = (if serialize_as_bytes c t \<and> contig
                   then put_block c (concat (map (raw_bytes t) vs))
                   else serialize_many (map out vs)) in
      case size_type_of c spec of
        None \<Rightarrow> elems
      | Some s \<Rightarrow> then_out (put_size c s (length vs)) elems)"

definition out_tuple :: "(val \<Rightarrow> out_op) list \<Rightarrow> val list \<Rightarrow> out_op" where
  "out_tuple outs vs = serialize_many (apply_each outs vs)"

definition out_optional :: "archive_class \<Rightarrow> (val \<Rightarrow> out_op) \<Rightarrow> val option \<Rightarrow> out_op" where
  "out_optional c out v =
     (case v of
        None \<Rightarrow> put_number c 1 0
      | Some x \<Rightarrow> then_out (put_number c 1 1) (out x))"

definition out_variant ::
  "val list \<Rightarrow> (val \<Rightarrow> out_op) \<Rightarrow> (val \<Rightarrow> out_op) list \<Rightarrow> (nat \<times> val) option \<Rightarrow> out_op" where
  "out_variant ids out_id outs v =
     (case v of
        None \<Rightarrow> fail_out InvalidArgument
      | Some (i, x) \<Rightarrow> then_out (out_id (ids ! i)) ((outs ! i) x))"

definition out_pointer :: "(val \<Rightarrow> out_op) \<Rightarrow> val option \<Rightarrow> out_op" where
  "out_pointer out v = (case v of None \<Rightarrow> fail_out InvalidArgument | Some x \<Rightarrow> out x)"

definition out_optional_ptr :: "archive_class \<Rightarrow> (val \<Rightarrow> out_op) \<Rightarrow> val option \<Rightarrow> out_op" where
  "out_optional_ptr c out v =
     (case v of
        None \<Rightarrow> put_number c 1 0
      | Some x \<Rightarrow> then_out (put_number c 1 1) (out x))"

primrec serialize_out :: "archive_class \<Rightarrow> ty \<Rightarrow> val \<Rightarrow> out_op" where
  "serialize_out c TByte v = (case v of VInt n \<Rightarrow> put_number c 1 n | _ \<Rightarrow> no_program)"
| "serialize_out c (TInt k) v = (case v of VInt n \<Rightarrow> put_number c k n | _ \<Rightarrow> no_program)"
| "serialize_out c (TVarint k sg zz) v =
     (case v of VInt n \<Rightarrow> serialize_varint_out c k sg zz n | _ \<Rightarrow> no_program)"
| "serialize_out c (TArray n t) v =
     (case v of VList vs \<Rightarrow> out_array c t (serialize_out c t) vs | _ \<Rightarrow> no_program)"
| "serialize_out c (TSeq kind spec contig cur t) v =
     (case v of VList vs \<Rightarrow> out_container c spec contig t (serialize_out c t) vs | _ \<Rightarrow> no_program)"
| "serialize_out c (TView spec) v =
     (case v of VList vs \<Rightarrow> out_container c spec True TByte (\<lambda>_. no_program) vs | _ \<Rightarrow> no_program)"
| "serialize_out c (TAssoc spec unique mapped t) v =
     (case v of VList vs \<Rightarrow> out_container c spec False t (serialize_out c t) vs | _ \<Rightarrow> no_program)"
| "serialize_out c (TTuple ts) v =
     (case v of VList vs \<Rightarrow> out_tuple (map (serialize_out c) ts) vs | _ \<Rightarrow> no_program)"
| "serialize_out c (TStruct p ts) v =
     (case v of
        VList vs \<Rightarrow> out_aggregate c p ts (map raw_bytes ts) (map (serialize_out c) ts) vs
      | _ \<Rightarrow> no_program)"
| "serialize_out c (TOptional t) v =
     (case v of VOpt x \<Rightarrow> out_optional c (serialize_out c t) x | _ \<Rightarrow> no_program)"
| "serialize_out c (TVariant t ids ts) v =
     (case v of
        VVariant x \<Rightarrow> out_variant ids (serialize_out c t) (map (serialize_out c) ts) x
      | _ \<Rightarrow> no_program)"
| "serialize_out c (TPointer t) v =
     (case v of VOpt x \<Rightarrow> out_pointer (serialize_out c t) x | _ \<Rightarrow> no_program)"
| "serialize_out c (TOptionalPtr t) v =
     (case v of VOpt x \<Rightarrow> out_optional_ptr c (serialize_out c t) x | _ \<Rightarrow> no_program)"
| "serialize_out c (TBitset n) v = (case v of VBits bits \<Rightarrow> put_bits c bits | _ \<Rightarrow> no_program)"

section \<open>Reading\<close>

definition get_number :: "archive_class \<Rightarrow> nat \<Rightarrow> nat in_op" where
  "get_number c k =
     bind_in (get_bytes k) (\<lambda>bs. return_in (le_nat (if endian_aware c then rev bs else bs)))"

definition get_size :: "archive_class \<Rightarrow> size_type \<Rightarrow> nat in_op" where
  "get_size c s =
     (case s of SizeFixed k \<Rightarrow> get_number c k | SizeVarint k \<Rightarrow> serialize_varint_in k False)"

definition get_block :: "nat \<Rightarrow> byte list in_op" where
  "get_block n = (if n = 0 then return_in [] else get_bytes n)"

definition get_bits :: "nat \<Rightarrow> bool list in_op" where
  "get_bits n = bind_in (get_bytes ((n + 7) div 8))
     (\<lambda>bs. return_in (map (\<lambda>i. (drop_bit (i mod 8) (bs ! (i div 8)) AND 1) = 1) [0..<n]))"

text \<open>All that is left, for a view with no size field.\<close>

definition get_rest :: "byte list in_op" where
  "get_rest d p = (case mem_read d p (size_sub (length d) p) of
     None \<Rightarrow> None | Some bs \<Rightarrow> Some (Inr (bs, length d)))"

text \<open>\<open>so\<close> is the compiler's \<open>sizeof\<close> for types that are not copied as bytes.\<close>

definition size_of :: "(ty \<Rightarrow> nat) \<Rightarrow> ty \<Rightarrow> nat" where
  "size_of so t = (if byte_serializable t then raw_size t else so t)"

definition resize_to :: "archive_class \<Rightarrow> nat \<Rightarrow> nat \<Rightarrow> unit in_op" where
  "resize_to c sz n =
     (if alloc_limit (options c) \<noteq> size_max \<and> n > alloc_limit (options c) div sz
      then fail_in MessageSize
      else if n * sz > max_object_size then fail_in LengthError
      else return_in ())"

definition shrink_to :: "nat \<Rightarrow> nat \<Rightarrow> unit in_op" where
  "shrink_to cur n = (if n > cur then fail_in ResultOutOfRange else return_in ())"

text \<open>\<open>insert\<close> of a map or set with unique keys does nothing when the key is there.\<close>

definition key_of :: "bool \<Rightarrow> val \<Rightarrow> val" where
  "key_of mapped v = (if mapped then hd (elems_of v) else v)"

definition insert_elem :: "bool \<Rightarrow> bool \<Rightarrow> val list \<Rightarrow> val \<Rightarrow> val list" where
  "insert_elem unique mapped acc v =
     (if unique \<and> key_of mapped v \<in> set (map (key_of mapped) acc) then acc else acc @ [v])"

definition byte_vals :: "byte list \<Rightarrow> val list" where
  "byte_vals bs = map (\<lambda>b. VInt (unat b)) bs"

fun variant_index :: "val list \<Rightarrow> val \<Rightarrow> nat \<Rightarrow> nat option" where
  "variant_index [] x i = None"
| "variant_index (y # ys) x i = (if y = x then Some i else variant_index ys x (Suc i))"

definition does_not_compile :: "'a in_op" where
  "does_not_compile d p = None"

text \<open>The overloads of \<open>in::serialize_one\<close>.\<close>

definition in_aggregate ::
  "archive_class \<Rightarrow> bool \<Rightarrow> ty list \<Rightarrow> val in_op list \<Rightarrow> val in_op" where
  "in_aggregate c p ts ins =
     (if ts = [] then return_in (VList [])
      else if serialize_as_bytes c (TStruct p ts)
      then bind_in (get_block (raw_size (TStruct p ts))) (\<lambda>bs. return_in (from_raw (TStruct p ts) bs))
      else bind_in (load_many ins) (\<lambda>vs. return_in (VList vs)))"

definition in_elements :: "archive_class \<Rightarrow> ty \<Rightarrow> bool \<Rightarrow> val in_op \<Rightarrow> nat \<Rightarrow> val in_op" where
  "in_elements c t contig elem n =
     (if serialize_as_bytes c t \<and> contig
      then bind_in (get_block (n * raw_size t)) (\<lambda>bs. return_in
             (VList (map (from_raw t) (split_sizes (replicate n (raw_size t)) bs))))
      else bind_in (load_many (replicate n elem)) (\<lambda>vs. return_in (VList vs)))"

definition in_array :: "archive_class \<Rightarrow> ty \<Rightarrow> val in_op \<Rightarrow> nat \<Rightarrow> val in_op" where
  "in_array c t elem n = in_elements c t True elem n"

definition in_container ::
  "archive_class \<Rightarrow> (ty \<Rightarrow> nat) \<Rightarrow> container_kind \<Rightarrow> size_spec \<Rightarrow> bool \<Rightarrow> nat \<Rightarrow> ty \<Rightarrow> val in_op \<Rightarrow> val in_op" where
  "in_container c so kind spec contig cur t elem =
     (case size_type_of c spec of
        None \<Rightarrow> in_elements c t contig elem cur
      | Some s \<Rightarrow> bind_in (get_size c s) (\<lambda>n.
          bind_in (case kind of Growable \<Rightarrow> resize_to c (size_of so t) n
                              | Spanned \<Rightarrow> shrink_to cur n) (\<lambda>_. in_elements c t contig elem n)))"

definition in_view :: "archive_class \<Rightarrow> size_spec \<Rightarrow> val in_op" where
  "in_view c spec =
     bind_in (case size_type_of c spec of
                None \<Rightarrow> get_rest
              | Some s \<Rightarrow> bind_in (get_size c s) get_bytes) (\<lambda>bs. return_in (VList (byte_vals bs)))"

definition in_associative ::
  "archive_class \<Rightarrow> size_spec \<Rightarrow> bool \<Rightarrow> bool \<Rightarrow> val in_op \<Rightarrow> val in_op" where
  "in_associative c spec unique mapped elem =
     (case size_type_of c spec of
        None \<Rightarrow> does_not_compile
      | Some s \<Rightarrow> bind_in (get_size c s) (\<lambda>n.
          bind_in (load_many (replicate n elem)) (\<lambda>vs.
            return_in (VList (foldl (insert_elem unique mapped) [] vs)))))"

definition in_tuple :: "val in_op list \<Rightarrow> val in_op" where
  "in_tuple ins = bind_in (load_many ins) (\<lambda>vs. return_in (VList vs))"

definition in_optional :: "archive_class \<Rightarrow> val in_op \<Rightarrow> val in_op" where
  "in_optional c f =
     bind_in (get_number c 1) (\<lambda>b. if b = 0 then return_in (VOpt None)
       else bind_in f (\<lambda>v. return_in (VOpt (Some v))))"

definition in_variant :: "val list \<Rightarrow> val in_op \<Rightarrow> val in_op list \<Rightarrow> val in_op" where
  "in_variant ids in_id ins =
     bind_in in_id (\<lambda>x.
       case variant_index ids x 0 of
         None \<Rightarrow> fail_in BadMessage
       | Some i \<Rightarrow> bind_in (ins ! i) (\<lambda>v. return_in (VVariant (Some (i, v)))))"

definition in_pointer :: "val in_op \<Rightarrow> val in_op" where
  "in_pointer f = bind_in f (\<lambda>v. return_in (VOpt (Some v)))"

definition in_optional_ptr :: "archive_class \<Rightarrow> val in_op \<Rightarrow> val in_op" where
  "in_optional_ptr c f =
     bind_in (get_number c 1) (\<lambda>b. if b = 0 then return_in (VOpt None) else in_pointer f)"

primrec serialize_in :: "archive_class \<Rightarrow> (ty \<Rightarrow> nat) \<Rightarrow> ty \<Rightarrow> val in_op" where
  "serialize_in c so TByte = bind_in (get_number c 1) (\<lambda>n. return_in (VInt n))"
| "serialize_in c so (TInt k) = bind_in (get_number c k) (\<lambda>n. return_in (VInt n))"
| "serialize_in c so (TVarint k sg zz) =
     bind_in (serialize_varint_in k zz) (\<lambda>n. return_in (VInt n))"
| "serialize_in c so (TArray n t) = in_array c t (serialize_in c so t) n"
| "serialize_in c so (TSeq kind spec contig cur t) =
     in_container c so kind spec contig cur t (serialize_in c so t)"
| "serialize_in c so (TView spec) = in_view c spec"
| "serialize_in c so (TAssoc spec unique mapped t) =
     in_associative c spec unique mapped (serialize_in c so t)"
| "serialize_in c so (TTuple ts) = in_tuple (map (serialize_in c so) ts)"
| "serialize_in c so (TStruct p ts) = in_aggregate c p ts (map (serialize_in c so) ts)"
| "serialize_in c so (TOptional t) = in_optional c (serialize_in c so t)"
| "serialize_in c so (TVariant t ids ts) =
     in_variant ids (serialize_in c so t) (map (serialize_in c so) ts)"
| "serialize_in c so (TPointer t) = in_pointer (serialize_in c so t)"
| "serialize_in c so (TOptionalPtr t) = in_optional_ptr c (serialize_in c so t)"
| "serialize_in c so (TBitset n) = bind_in (get_bits n) (\<lambda>bs. return_in (VBits bs))"

lemma in_optional_ptr_eq: "in_optional_ptr c f = in_optional c f"
  by (simp only: in_optional_ptr_def in_optional_def in_pointer_def)

lemmas overload_defs =
  out_aggregate_def out_array_def out_container_def out_tuple_def out_optional_def out_variant_def
  out_pointer_def out_optional_ptr_def in_aggregate_def in_array_def
  in_container_def in_view_def in_associative_def in_tuple_def in_optional_def in_variant_def
  in_pointer_def in_optional_ptr_eq

end
