(* ===== verification/Lu_Serializer_Correct.thy ===== *)
theory Lu_Serializer_Correct
  imports Lu_Serializer
begin

text \<open>
  The serializer is correct: a reference encoding of every type, the output archive appends
  exactly that encoding, the input archive reads it back, and on arbitrary bytes the input
  archive stays inside them and produces only values of the type.
\<close>

declare overload_defs [simp]

section \<open>Well-formed types and typed values\<close>

definition wf_size :: "archive_class \<Rightarrow> size_spec \<Rightarrow> bool" where
  "wf_size c spec =
     (case size_type_of c spec of
        None \<Rightarrow> True | Some (SizeFixed k) \<Rightarrow> 0 < k | Some (SizeVarint k) \<Rightarrow> 0 < k \<and> k \<le> 8)"

definition all_fields :: "('a \<Rightarrow> bool) list \<Rightarrow> 'a list \<Rightarrow> bool" where
  "all_fields ps xs = list_all2 (\<lambda>p x. p x) ps xs"

primrec has_type :: "archive_class \<Rightarrow> ty \<Rightarrow> val \<Rightarrow> bool" where
  "has_type c TByte v = (case v of VInt n \<Rightarrow> n < 256 | _ \<Rightarrow> False)"
| "has_type c (TInt k) v = (case v of VInt n \<Rightarrow> n < 256 ^ k | _ \<Rightarrow> False)"
| "has_type c (TVarint k sg zz) v = (case v of VInt n \<Rightarrow> n < 2 ^ (8 * k) | _ \<Rightarrow> False)"
| "has_type c (TArray n t) v =
     (case v of VList vs \<Rightarrow> length vs = n \<and> list_all (has_type c t) vs | _ \<Rightarrow> False)"
| "has_type c (TSeq kind spec contig cur t) v =
     (case v of
        VList vs \<Rightarrow> list_all (has_type c t) vs
          \<and> (size_type_of c spec = None \<longrightarrow> length vs = cur) \<and> (kind = Spanned \<longrightarrow> length vs \<le> cur)
      | _ \<Rightarrow> False)"
| "has_type c (TView spec) v =
     (case v of VList vs \<Rightarrow> list_all (\<lambda>b. \<exists>n < 256. b = VInt n) vs | _ \<Rightarrow> False)"
| "has_type c (TAssoc spec unique mapped t) v =
     (case v of
        VList vs \<Rightarrow> list_all (has_type c t) vs \<and> (unique \<longrightarrow> distinct (map (key_of mapped) vs))
      | _ \<Rightarrow> False)"
| "has_type c (TTuple ts) v =
     (case v of VList vs \<Rightarrow> all_fields (map (has_type c) ts) vs | _ \<Rightarrow> False)"
| "has_type c (TStruct p ts) v =
     (case v of VList vs \<Rightarrow> all_fields (map (has_type c) ts) vs | _ \<Rightarrow> False)"
| "has_type c (TOptional t) v =
     (case v of VOpt None \<Rightarrow> True | VOpt (Some x) \<Rightarrow> has_type c t x | _ \<Rightarrow> False)"
| "has_type c (TVariant t ids ts) v =
     (case v of
        VVariant None \<Rightarrow> True
      | VVariant (Some (i, x)) \<Rightarrow> i < length ts \<and> (map (has_type c) ts ! i) x
      | _ \<Rightarrow> False)"
| "has_type c (TPointer t) v =
     (case v of VOpt None \<Rightarrow> True | VOpt (Some x) \<Rightarrow> has_type c t x | _ \<Rightarrow> False)"
| "has_type c (TOptionalPtr t) v =
     (case v of VOpt None \<Rightarrow> True | VOpt (Some x) \<Rightarrow> has_type c t x | _ \<Rightarrow> False)"
| "has_type c (TBitset n) v = (case v of VBits bits \<Rightarrow> length bits = n | _ \<Rightarrow> False)"

text \<open>Null owning pointers and valueless variants cannot be sent.\<close>

primrec sendable :: "ty \<Rightarrow> val \<Rightarrow> bool" where
  "sendable TByte v = True"
| "sendable (TInt k) v = True"
| "sendable (TVarint k sg zz) v = True"
| "sendable (TArray n t) v = list_all (sendable t) (elems_of v)"
| "sendable (TSeq kind spec contig cur t) v = list_all (sendable t) (elems_of v)"
| "sendable (TView spec) v = True"
| "sendable (TAssoc spec unique mapped t) v = list_all (sendable t) (elems_of v)"
| "sendable (TTuple ts) v = all_fields (map sendable ts) (elems_of v)"
| "sendable (TStruct p ts) v = all_fields (map sendable ts) (elems_of v)"
| "sendable (TOptional t) v = (case v of VOpt (Some x) \<Rightarrow> sendable t x | _ \<Rightarrow> True)"
| "sendable (TVariant t ids ts) v =
     (case v of
        VVariant (Some (i, x)) \<Rightarrow> sendable t (ids ! i) \<and> (map sendable ts ! i) x
      | _ \<Rightarrow> False)"
| "sendable (TPointer t) v = (case v of VOpt (Some x) \<Rightarrow> sendable t x | _ \<Rightarrow> False)"
| "sendable (TOptionalPtr t) v = (case v of VOpt (Some x) \<Rightarrow> sendable t x | _ \<Rightarrow> True)"
| "sendable (TBitset n) v = True"

text \<open>
  The C++ types that compile: a zig-zag varint is of a signed type, the identifiers of a
  variant are distinct values of one type, one for each alternative, and an associative
  container has a size field.
\<close>

primrec wf_type :: "archive_class \<Rightarrow> ty \<Rightarrow> bool" where
  "wf_type c TByte = True"
| "wf_type c (TInt k) = (0 < k)"
| "wf_type c (TVarint k sg zz) = (0 < k \<and> k \<le> 8 \<and> (zz \<longrightarrow> sg))"
| "wf_type c (TArray n t) = wf_type c t"
| "wf_type c (TSeq kind spec contig cur t) = (wf_size c spec \<and> wf_type c t)"
| "wf_type c (TView spec) = wf_size c spec"
| "wf_type c (TAssoc spec unique mapped t) =
     (wf_size c spec \<and> size_type_of c spec \<noteq> None \<and> wf_type c t)"
| "wf_type c (TTuple ts) = list_all id (map (wf_type c) ts)"
| "wf_type c (TStruct p ts) = list_all id (map (wf_type c) ts)"
| "wf_type c (TOptional t) = wf_type c t"
| "wf_type c (TVariant t ids ts) =
     (wf_type c t \<and> list_all (\<lambda>x. has_type c t x \<and> sendable t x) ids \<and> distinct ids
      \<and> length ids = length ts \<and> list_all id (map (wf_type c) ts))"
| "wf_type c (TPointer t) = wf_type c t"
| "wf_type c (TOptionalPtr t) = wf_type c t"
| "wf_type c (TBitset n) = True"

section \<open>The reference encoding\<close>

definition size_bytes :: "archive_class \<Rightarrow> size_type \<Rightarrow> nat \<Rightarrow> byte list" where
  "size_bytes c s n =
     (case s of SizeFixed k \<Rightarrow> number_bytes c k (n mod 2 ^ (8 * k))
              | SizeVarint k \<Rightarrow> varint_bytes (n mod 2 ^ (8 * k)))"

definition size_prefix :: "archive_class \<Rightarrow> size_spec \<Rightarrow> nat \<Rightarrow> byte list" where
  "size_prefix c spec n =
     (case size_type_of c spec of None \<Rightarrow> [] | Some s \<Rightarrow> size_bytes c s n)"

definition nth_bit :: "bool list \<Rightarrow> nat \<Rightarrow> bool" where
  "nth_bit bits k = (k < length bits \<and> bits ! k)"

definition pack_bits :: "bool list \<Rightarrow> byte list" where
  "pack_bits bits =
     map (\<lambda>j. horner_sum of_bool 2 (map (\<lambda>m. nth_bit bits (8 * j + m)) [0..<8]))
       [0..<(length bits + 7) div 8]"

primrec encode :: "archive_class \<Rightarrow> ty \<Rightarrow> val \<Rightarrow> byte list" where
  "encode c TByte v = number_bytes c 1 (ints_of v)"
| "encode c (TInt k) v = number_bytes c k (ints_of v)"
| "encode c (TVarint k sg zz) v = varint_bytes (varint_value k sg zz (ints_of v))"
| "encode c (TArray n t) v = concat (map (encode c t) (elems_of v))"
| "encode c (TSeq kind spec contig cur t) v =
     size_prefix c spec (length (elems_of v)) @ concat (map (encode c t) (elems_of v))"
| "encode c (TView spec) v =
     size_prefix c spec (length (elems_of v)) @ map (\<lambda>b. word_of_nat (ints_of b)) (elems_of v)"
| "encode c (TAssoc spec unique mapped t) v =
     size_prefix c spec (length (elems_of v)) @ concat (map (encode c t) (elems_of v))"
| "encode c (TTuple ts) v = concat (apply_each (map (encode c) ts) (elems_of v))"
| "encode c (TStruct p ts) v = concat (apply_each (map (encode c) ts) (elems_of v))"
| "encode c (TOptional t) v =
     (case v of VOpt (Some x) \<Rightarrow> number_bytes c 1 1 @ encode c t x | _ \<Rightarrow> number_bytes c 1 0)"
| "encode c (TVariant t ids ts) v =
     (case v of VVariant (Some (i, x)) \<Rightarrow> encode c t (ids ! i) @ (map (encode c) ts ! i) x | _ \<Rightarrow> [])"
| "encode c (TPointer t) v = (case v of VOpt (Some x) \<Rightarrow> encode c t x | _ \<Rightarrow> [])"
| "encode c (TOptionalPtr t) v =
     (case v of VOpt (Some x) \<Rightarrow> number_bytes c 1 1 @ encode c t x | _ \<Rightarrow> number_bytes c 1 0)"
| "encode c (TBitset n) v = (case v of VBits bits \<Rightarrow> pack_bits bits | _ \<Rightarrow> [])"

primrec has_bitset :: "ty \<Rightarrow> bool" where
  "has_bitset TByte = False"
| "has_bitset (TInt k) = False"
| "has_bitset (TVarint k sg zz) = False"
| "has_bitset (TArray n t) = has_bitset t"
| "has_bitset (TSeq kind spec contig cur t) = has_bitset t"
| "has_bitset (TView spec) = False"
| "has_bitset (TAssoc spec unique mapped t) = has_bitset t"
| "has_bitset (TTuple ts) = list_ex id (map has_bitset ts)"
| "has_bitset (TStruct p ts) = list_ex id (map has_bitset ts)"
| "has_bitset (TOptional t) = has_bitset t"
| "has_bitset (TVariant t ids ts) = (has_bitset t \<or> list_ex id (map has_bitset ts))"
| "has_bitset (TPointer t) = has_bitset t"
| "has_bitset (TOptionalPtr t) = has_bitset t"
| "has_bitset (TBitset n) = True"

text \<open>
  What a receiver with the same options accepts: the sizes fit their field, the allocation
  limit and \<open>max_size()\<close>.
\<close>

definition size_fits :: "archive_class \<Rightarrow> size_spec \<Rightarrow> nat \<Rightarrow> bool" where
  "size_fits c spec n =
     (case size_type_of c spec of
        None \<Rightarrow> True | Some (SizeFixed k) \<Rightarrow> n < 2 ^ (8 * k) | Some (SizeVarint k) \<Rightarrow> n < 2 ^ (8 * k))"

primrec fits :: "archive_class \<Rightarrow> (ty \<Rightarrow> nat) \<Rightarrow> ty \<Rightarrow> val \<Rightarrow> bool" where
  "fits c so TByte v = True"
| "fits c so (TInt k) v = True"
| "fits c so (TVarint k sg zz) v = True"
| "fits c so (TArray n t) v = list_all (fits c so t) (elems_of v)"
| "fits c so (TSeq kind spec contig cur t) v =
     (size_fits c spec (length (elems_of v))
      \<and> (kind = Growable \<and> size_type_of c spec \<noteq> None \<longrightarrow>
           length (elems_of v) * size_of so t \<le> max_object_size
           \<and> (alloc_limit (options c) \<noteq> size_max \<longrightarrow>
                length (elems_of v) \<le> alloc_limit (options c) div size_of so t))
      \<and> list_all (fits c so t) (elems_of v))"
| "fits c so (TView spec) v =
     (size_type_of c spec \<noteq> None \<and> size_fits c spec (length (elems_of v)))"
| "fits c so (TAssoc spec unique mapped t) v =
     (size_fits c spec (length (elems_of v)) \<and> list_all (fits c so t) (elems_of v))"
| "fits c so (TTuple ts) v = all_fields (map (fits c so) ts) (elems_of v)"
| "fits c so (TStruct p ts) v = all_fields (map (fits c so) ts) (elems_of v)"
| "fits c so (TOptional t) v = (case v of VOpt (Some x) \<Rightarrow> fits c so t x | _ \<Rightarrow> True)"
| "fits c so (TVariant t ids ts) v =
     (case v of VVariant (Some (i, x)) \<Rightarrow> fits c so t (ids ! i) \<and> (map (fits c so) ts ! i) x | _ \<Rightarrow> True)"
| "fits c so (TPointer t) v = (case v of VOpt (Some x) \<Rightarrow> fits c so t x | _ \<Rightarrow> True)"
| "fits c so (TOptionalPtr t) v = (case v of VOpt (Some x) \<Rightarrow> fits c so t x | _ \<Rightarrow> True)"
| "fits c so (TBitset n) v = True"

section \<open>Fields and elements\<close>

lemma all_fields_map [simp]: "all_fields (map P ts) vs = list_all2 P ts vs"
  by (simp add: all_fields_def list_all2_map1)

lemma all_fields_Nil [simp]: "all_fields [] vs \<longleftrightarrow> vs = []"
  by (simp add: all_fields_def)

lemma apply_each_Nil [simp]: "apply_each [] vs = []" "apply_each fs [] = []"
  by (simp_all add: apply_each_def)

lemma apply_each_Cons [simp]: "apply_each (f # fs) (x # xs) = f x # apply_each fs xs"
  by (simp add: apply_each_def)

lemma fields_induct [consumes 1, case_names Nil Cons]:
  assumes "list_all2 P ts vs" "R [] []"
    and "\<And>t ts v vs. P t v \<Longrightarrow> list_all2 P ts vs \<Longrightarrow> R ts vs \<Longrightarrow> R (t # ts) (v # vs)"
  shows "R ts vs"
  using assms by (induction rule: list_all2_induct) auto

lemma list_all2_lists: "list_all2 P (t # ts) ws \<longleftrightarrow> (\<exists>w us. ws = w # us \<and> P t w \<and> list_all2 P ts us)"
  by (cases ws) auto

section \<open>Objects in memory\<close>

lemma power_256: "(256::nat) ^ k = 2 ^ (8 * k)"
  by (simp add: power_mult)

lemma endian_independent_byte_serializable: "endian_independent t \<Longrightarrow> byte_serializable t"
  by (induction t rule: endian_independent.induct) auto

lemma as_bytes_byte_serializable: "serialize_as_bytes c t \<Longrightarrow> byte_serializable t"
  by (auto simp: serialize_as_bytes_def endian_independent_byte_serializable)

lemma rev_le_bytes_1 [simp]: "rev (le_bytes 1 n) = le_bytes 1 n"
  by (simp add: le_bytes_def)

lemma number_bytes_1 [simp]: "number_bytes c 1 n = le_bytes 1 n" "number_bytes c (Suc 0) n = le_bytes 1 n"
  using rev_le_bytes_1 [of n] by (simp_all add: number_bytes_def)

lemma length_number_bytes [simp]: "length (number_bytes c k n) = k"
  by (simp add: number_bytes_def)

lemma fields_concat_eq:
  assumes "list_all2 (\<lambda>t v. f t v = g t v) ts vs"
  shows "concat (apply_each (map f ts) vs) = concat (apply_each (map g ts) vs)"
  using assms by (induction rule: fields_induct) auto

lemma raw_bytes_native:
  "has_type c t v \<Longrightarrow> byte_serializable t \<Longrightarrow> \<not> endian_aware c \<Longrightarrow> raw_bytes t v = encode c t v"
proof (induction t arbitrary: v)
  case (TArray n t)
  then show ?case
    by (auto simp: elems_of_def list_all_iff split: val.splits intro!: arg_cong [where f = concat] map_cong)
next
  case (TStruct p ts)
  from TStruct.prems obtain vs where v: "v = VList vs" "list_all2 (has_type c) ts vs"
    by (auto split: val.splits)
  have "list_all2 (\<lambda>t v. raw_bytes t v = encode c t v) ts vs"
    using v(2) by (rule list.rel_mono_strong) (use TStruct in \<open>auto simp: list_all_iff\<close>)
  then show ?case by (simp add: v elems_of_def fields_concat_eq)
qed (auto simp: number_bytes_def)

lemma raw_bytes_independent:
  "has_type c t v \<Longrightarrow> endian_independent t \<Longrightarrow> raw_bytes t v = encode c t v"
proof (induction t arbitrary: v rule: endian_independent.induct)
  case (2 n t)
  then show ?case
    by (auto simp: elems_of_def list_all_iff split: val.splits intro!: arg_cong [where f = concat] map_cong)
qed auto

lemma raw_bytes_encode:
  "has_type c t v \<Longrightarrow> serialize_as_bytes c t \<Longrightarrow> raw_bytes t v = encode c t v"
  using raw_bytes_native raw_bytes_independent by (auto simp: serialize_as_bytes_def)

lemma length_concat_const: "\<forall>x \<in> set xs. length (f x) = k \<Longrightarrow> length (concat (map f xs)) = length xs * k"
  by (induction xs) auto

lemma length_raw_bytes:
  "has_type c t v \<Longrightarrow> byte_serializable t \<Longrightarrow> length (raw_bytes t v) = raw_size t"
proof (induction t arbitrary: v)
  case (TArray n t)
  then show ?case
    using length_concat_const [of "elems_of v" "raw_bytes t" "raw_size t"]
    by (auto simp: elems_of_def list_all_iff split: val.splits)
next
  case (TStruct p ts)
  from TStruct.prems obtain vs where v: "v = VList vs" "list_all2 (has_type c) ts vs"
    by (auto split: val.splits)
  have "list_all2 (\<lambda>t v. length (raw_bytes t v) = raw_size t) ts vs"
    using v(2) by (rule list.rel_mono_strong) (use TStruct in \<open>auto simp: list_all_iff\<close>)
  then have "length (concat (apply_each (map raw_bytes ts) vs)) = sum_list (map raw_size ts)"
    by (induction rule: fields_induct) auto
  then show ?case by (simp add: v elems_of_def)
qed auto

lemma split_sizes_concat: "map length bss = ns \<Longrightarrow> split_sizes ns (concat bss @ r) = bss"
  by (induction bss arbitrary: ns) auto

lemma split_sizes_concat_map:
  "\<forall>x \<in> set xs. length (f x) = k
     \<Longrightarrow> split_sizes (replicate (length xs) k) (concat (map f xs)) = map f xs"
proof (induction xs)
  case (Cons x xs)
  then show ?case by simp
qed simp

lemma map_from_raw: "\<forall>x \<in> set xs. g (f x) = x \<Longrightarrow> map g (map f xs) = xs"
  by (induction xs) auto

lemma from_raw_raw_bytes:
  "has_type c t v \<Longrightarrow> byte_serializable t \<Longrightarrow> from_raw t (raw_bytes t v) = v"
proof (induction t arbitrary: v)
  case (TArray n t)
  then obtain vs where v: "v = VList vs" "length vs = n" "\<forall>x \<in> set vs. has_type c t x"
    by (auto simp: list_all_iff split: val.splits)
  have "split_sizes (replicate (length vs) (raw_size t)) (concat (map (raw_bytes t) vs))
      = map (raw_bytes t) vs"
    using TArray.prems v by (intro split_sizes_concat_map) (auto simp: length_raw_bytes)
  then show ?case
    using TArray v map_from_raw [of vs "from_raw t" "raw_bytes t"] by (simp add: elems_of_def)
next
  case (TStruct p ts)
  from TStruct.prems obtain vs where v: "v = VList vs" "list_all2 (has_type c) ts vs"
    by (auto split: val.splits)
  have "list_all2 (\<lambda>t v. from_raw t (raw_bytes t v) = v \<and> length (raw_bytes t v) = raw_size t) ts vs"
    using v(2)
    by (rule list.rel_mono_strong) (use TStruct in \<open>auto simp: list_all_iff length_raw_bytes\<close>)
  then have "apply_each (map from_raw ts)
      (split_sizes (map raw_size ts) (concat (apply_each (map raw_bytes ts) vs))) = vs"
    by (induction rule: fields_induct) auto
  then show ?case by (simp add: v elems_of_def)
qed (auto simp: ints_of_def le_nat_le_bytes split: val.splits)

lemma split_sizes_lengths:
  "sum_list ns = length bs \<Longrightarrow> map length (split_sizes ns bs) = ns"
  by (induction ns arbitrary: bs) auto

lemma sum_list_replicate_nat: "sum_list (replicate n (k::nat)) = n * k"
  by (simp add: sum_list_replicate)

lemma split_sizes_replicate:
  assumes "length bs = n * k"
  shows "length (split_sizes (replicate n k) bs) = n"
    "\<forall>b \<in> set (split_sizes (replicate n k) bs). length b = k"
proof -
  have m: "map length (split_sizes (replicate n k) bs) = replicate n k"
    using assms by (intro split_sizes_lengths) (simp add: sum_list_replicate)
  show "length (split_sizes (replicate n k) bs) = n"
    using arg_cong [OF m, of length] by simp
  show "\<forall>b \<in> set (split_sizes (replicate n k) bs). length b = k"
  proof
    fix b assume "b \<in> set (split_sizes (replicate n k) bs)"
    then have "length b \<in> set (replicate n k)" using m by (metis image_eqI set_map)
    then show "length b = k" by simp
  qed
qed

lemma has_type_from_raw:
  "byte_serializable t \<Longrightarrow> length bs = raw_size t \<Longrightarrow> has_type c t (from_raw t bs)"
proof (induction t arbitrary: bs)
  case (TArray n t)
  then show ?case using split_sizes_replicate [of bs n "raw_size t"] by (auto simp: list_all_iff)
next
  case (TStruct p ts)
  have "list_all byte_serializable ts" using TStruct.prems by (auto simp: list_all_iff)
  moreover have "sum_list (map raw_size ts) = length bs" using TStruct.prems by simp
  ultimately have "list_all2 (has_type c) ts
      (apply_each (map from_raw ts) (split_sizes (map raw_size ts) bs))"
    using TStruct.IH
  proof (induction ts arbitrary: bs)
    case (Cons t ts)
    then show ?case by (auto simp: min_absorb2)
  qed simp
  then show ?case by simp
next
  case TByte
  then show ?case using le_nat_bound [of bs] by simp
next
  case (TInt k)
  then show ?case using le_nat_bound [of bs] by simp
qed auto

section \<open>Bits\<close>

lemma mem_write_1: "q < length d \<Longrightarrow> mem_write d q [x] = Some (d[q := x])"
  by (simp add: mem_write_def overwrite_def upd_conv_take_nth_drop)

lemma mem_read_1: "q < length d \<Longrightarrow> mem_read d q 1 = Some [d ! q]"
  by (simp add: mem_read_def slice_of_def take_Suc_conv_app_nth hd_drop_conv_nth Cons_nth_drop_Suc [symmetric])

lemma bit_or_push: "m < 8 \<Longrightarrow> k < 8 \<Longrightarrow>
    bit ((x::byte) OR push_bit k (of_bool b)) m \<longleftrightarrow> bit x m \<or> (m = k \<and> b)"
  by (auto simp: bit_simps)

lemma or_bits_spec:
  "p + (i + length bs + 7) div 8 \<le> length d \<Longrightarrow>
     \<exists>d'. or_bits bs i p d = Some d' \<and> length d' = length d
       \<and> (\<forall>q < length d. \<forall>m < 8. bit (d' ! q) m \<longleftrightarrow>
            bit (d ! q) m \<or> (\<exists>k < length bs. q = p + (i + k) div 8 \<and> m = (i + k) mod 8 \<and> bs ! k))"
proof (induction bs arbitrary: i d)
  case (Cons b bs)
  let ?q = "p + i div 8"
  let ?d = "d[?q := d ! ?q OR push_bit (i mod 8) (of_bool b)]"
  have q: "?q < length d" using Cons.prems by simp
  have "p + (Suc i + length bs + 7) div 8 \<le> length ?d" using Cons.prems by simp
  from Cons.IH [OF this] obtain d' where d': "or_bits bs (Suc i) p ?d = Some d'"
    "length d' = length d"
    "\<forall>r < length d. \<forall>m < 8. bit (d' ! r) m \<longleftrightarrow>
            bit (?d ! r) m \<or> (\<exists>k < length bs. r = p + (Suc i + k) div 8 \<and> m = (Suc i + k) mod 8 \<and> bs ! k)"
    by auto
  have "bit (d' ! r) m \<longleftrightarrow> bit (d ! r) m \<or> (\<exists>k < length (b # bs).
      r = p + (i + k) div 8 \<and> m = (i + k) mod 8 \<and> (b # bs) ! k)" if r: "r < length d" and m: "m < 8" for r m
  proof -
    have "bit (?d ! r) m \<longleftrightarrow> bit (d ! r) m \<or> (r = ?q \<and> m = i mod 8 \<and> b)"
      using q m by (cases "r = ?q") (auto simp: bit_or_push)
    moreover have "(\<exists>k < length (b # bs). r = p + (i + k) div 8 \<and> m = (i + k) mod 8 \<and> (b # bs) ! k)
      \<longleftrightarrow> (r = ?q \<and> m = i mod 8 \<and> b)
        \<or> (\<exists>k < length bs. r = p + (Suc i + k) div 8 \<and> m = (Suc i + k) mod 8 \<and> bs ! k)"
      by (simp only: list.size(4) add_Suc_right add_0_right One_nat_def Ex_less_Suc2) auto
    ultimately show ?thesis using d'(3) r m by blast
  qed
  then show ?case using q d' by (simp add: mem_read_1 [simplified] mem_write_1)
qed simp

lemma bit_byte_in_range: "k < n \<Longrightarrow> k div 8 < (n + 7) div (8::nat)"
  using div_le_mono [of "k + 8" "n + 7" 8] by simp

lemma length_pack_bits [simp]: "length (pack_bits bits) = (length bits + 7) div 8"
  by (simp add: pack_bits_def)

lemma bit_pack_bits:
  "j < (length bits + 7) div 8 \<Longrightarrow> m < 8 \<Longrightarrow> bit (pack_bits bits ! j) m \<longleftrightarrow> nth_bit bits (8 * j + m)"
  by (simp add: pack_bits_def bit_horner_sum_bit_iff)

lemma or_bits_clean:
  assumes n: "p + (length bits + 7) div 8 \<le> length d" and z: "\<forall>b \<in> set (drop p d). b = 0"
  shows "or_bits bits 0 p d = Some (overwrite d p (pack_bits bits))"
proof -
  from or_bits_spec [of p 0 bits d] n obtain d' where d': "or_bits bits 0 p d = Some d'"
    "length d' = length d"
    "\<forall>q < length d. \<forall>m < 8. bit (d' ! q) m \<longleftrightarrow>
            bit (d ! q) m \<or> (\<exists>k < length bits. q = p + k div 8 \<and> m = k mod 8 \<and> bits ! k)"
    by auto
  let ?n = "(length bits + 7) div 8"
  have "d' = overwrite d p (pack_bits bits)"
  proof (rule nth_equalityI)
    show "length d' = length (overwrite d p (pack_bits bits))" using d'(2) n by simp
    fix q assume "q < length d'"
    then have q: "q < length d" using d'(2) by simp
    show "d' ! q = overwrite d p (pack_bits bits) ! q"
    proof (rule bit_word_eqI)
      fix m assume "m < LENGTH(8)"
      then have m: "m < 8" by simp
      have o: "overwrite d p (pack_bits bits) ! q =
          (if p \<le> q \<and> q < p + ?n then pack_bits bits ! (q - p) else d ! q)"
        using q n by (auto simp: overwrite_def nth_append min_def)
      have k: "(\<exists>k < length bits. q = p + k div 8 \<and> m = k mod 8 \<and> bits ! k)
          \<longleftrightarrow> p \<le> q \<and> q < p + ?n \<and> nth_bit bits (8 * (q - p) + m)"
      proof
        assume "\<exists>k < length bits. q = p + k div 8 \<and> m = k mod 8 \<and> bits ! k"
        then obtain k where k: "k < length bits" "q = p + k div 8" "m = k mod 8" "bits ! k" by auto
        have "8 * (q - p) + m = k" using k by simp
        moreover have "k div 8 < ?n" using k(1) by (rule bit_byte_in_range)
        ultimately show "p \<le> q \<and> q < p + ?n \<and> nth_bit bits (8 * (q - p) + m)"
          using k by (simp add: nth_bit_def)
      next
        assume a: "p \<le> q \<and> q < p + ?n \<and> nth_bit bits (8 * (q - p) + m)"
        then show "\<exists>k < length bits. q = p + k div 8 \<and> m = k mod 8 \<and> bits ! k"
          using m by (intro exI [of _ "8 * (q - p) + m"]) (auto simp: nth_bit_def)
      qed
      have z0: "d ! q = 0" if "p \<le> q"
      proof -
        have "d ! q \<in> set (drop p d)" using that q
          by (auto simp: in_set_conv_nth intro!: exI [of _ "q - p"])
        then show ?thesis using z by blast
      qed
      show "bit (d' ! q) m = bit (overwrite d p (pack_bits bits) ! q) m"
      proof (cases "p \<le> q \<and> q < p + ?n")
        case True
        then have "q - p < ?n" by linarith
        then have "bit (pack_bits bits ! (q - p)) m \<longleftrightarrow> nth_bit bits (8 * (q - p) + m)"
          using m by (rule bit_pack_bits)
        then show ?thesis using d'(3) q m k z0 True by (simp add: o)
      next
        case False
        then have "overwrite d p (pack_bits bits) ! q = d ! q" using o by (simp only: if_False)
        then show ?thesis using d'(3) q m k False by (simp only:) blast
      qed
    qed
  qed
  then show ?thesis using d'(1) by simp
qed

lemma loads_get_bits: "loads (get_bits (length bits)) (pack_bits bits) bits"
proof -
  have u: "map (\<lambda>i. (drop_bit (i mod 8) (pack_bits bits ! (i div 8)) AND 1) = 1) [0..<length bits] = bits"
  proof (rule nth_equalityI)
    fix i assume "i < length (map (\<lambda>i. (drop_bit (i mod 8) (pack_bits bits ! (i div 8)) AND 1) = 1)
        [0..<length bits])"
    then have i: "i < length bits" by simp
    have "i div 8 < (length bits + 7) div 8" using i by (rule bit_byte_in_range)
    then have "bit (pack_bits bits ! (i div 8)) (i mod 8) = bits ! i"
      using i bit_pack_bits [of "i div 8" bits "i mod 8"] by (simp add: nth_bit_def)
    then show "map (\<lambda>i. (drop_bit (i mod 8) (pack_bits bits ! (i div 8)) AND 1) = 1)
        [0..<length bits] ! i = bits ! i"
      using i by (simp add: bit_iff_and_drop_bit_eq_1)
  qed simp
  have "loads (get_bytes (length (pack_bits bits))) (pack_bits bits) (pack_bits bits)"
    by (rule loads_get_bytes)
  then show ?thesis
    unfolding get_bits_def
    using loads_map [of _ "pack_bits bits" "pack_bits bits"
      "\<lambda>bs. map (\<lambda>i. (drop_bit (i mod 8) (bs ! (i div 8)) AND 1) = 1) [0..<length bits]"] u by simp
qed

lemma emits_bits:
  assumes g: "growing c"
  shows "emits c True True (pack_bits bits) (put_bits c bits)"
  unfolding put_bits_def
proof (rule emits_after_room)
  fix ar assume r: "in_range ar" and z: "True \<longrightarrow> clean ar"
    and n: "ar_position ar + length (pack_bits bits) \<le> length (ar_data ar)"
  have "copy_bits bits ar = copy_bytes (pack_bits bits) ar"
    using or_bits_clean [of "ar_position ar" bits "ar_data ar"] n z
    by (simp add: copy_bits_def copy_bytes_def mem_write_def clean_def)
  then show "\<exists>ar'. copy_bits bits ar = Some (Success, ar') \<and> keeps c True ar ar'
      \<and> appended (pack_bits bits) ar ar'"
    using copy_bytes_spec [OF r z n] by simp
next
  fix ar assume "in_range ar" "roomy c (length (pack_bits bits)) ar"
  then show "fst (ensure_room c ((length bits + 7) div 8) ar) = Success"
    using ensure_room_roomy [OF _ g] by simp
next
  fix ar e ar1
  assume "in_range ar" "True \<longrightarrow> clean ar" "length (pack_bits bits) < 2 ^ 64"
    "ensure_room c ((length bits + 7) div 8) ar = (e, ar1)"
  then show "keeps c True ar ar1 \<and> ar_position ar1 = ar_position ar
      \<and> (e = Success \<longrightarrow> ar_position ar + length (pack_bits bits) \<le> length (ar_data ar1))
      \<and> out_result c e"
    using ensure_room_reserves [OF g] by simp
qed

section \<open>The output archive appends the encoding\<close>

lemma emits_done_out: "emits c z True [] done_out"
  using emits_done [of c z] by (simp add: done_out_def [abs_def])

lemma emits_fail_out: "e \<noteq> Success \<Longrightarrow> emits c z False bs (fail_out e)"
  using emits_error [of e c z bs] by (simp add: fail_out_def [abs_def])

lemma emits_put_block: "growing c \<Longrightarrow> emits c z True bs (put_block c bs)"
  by (simp add: put_block_def emits_done_out emits_put_bytes)

lemma emits_put_number: "growing c \<Longrightarrow> emits c z True (number_bytes c k n) (put_number c k n)"
  unfolding put_number_def by (rule emits_put_bytes)

lemma emits_put_size:
  "growing c \<Longrightarrow> (case s of SizeFixed k \<Rightarrow> 0 < k | SizeVarint k \<Rightarrow> 0 < k \<and> k \<le> 8)
     \<Longrightarrow> emits c z True (size_bytes c s n) (put_size c s n)"
  using emits_varint [where zz = False and sg = False]
  by (auto simp: put_size_def size_bytes_def emits_put_number varint_value_def split: size_type.split)

lemma emits_size_prefix:
  assumes g: "growing c" and s: "wf_size c spec" and f: "emits c z ok bs f"
  shows "emits c z ok (size_prefix c spec n @ bs)
    (case size_type_of c spec of None \<Rightarrow> f | Some s \<Rightarrow> then_out (put_size c s n) f)"
proof (cases "size_type_of c spec")
  case None
  then show ?thesis using f by (simp add: size_prefix_def)
next
  case (Some st)
  have "emits c z True (size_bytes c st n) (put_size c st n)"
    using s Some by (intro emits_put_size [OF g]) (auto simp: wf_size_def split: size_type.splits)
  from emits_then [OF this f] show ?thesis using Some by (simp add: size_prefix_def)
qed

lemma emits_ok_mono: "emits c z True bs f \<Longrightarrow> p \<Longrightarrow> emits c z p bs f"
  by simp

lemma emits_elems:
  assumes "\<And>x. x \<in> set xs \<Longrightarrow> emits c z (s x) (e x) (f x)"
  shows "emits c z (list_all s xs) (concat (map e xs)) (serialize_many (map f xs))"
proof -
  have "list_all2 (\<lambda>(p, bs) f. emits c z p bs f) (map (\<lambda>x. (s x, e x)) xs) (map f xs)"
    using assms by (simp add: list_all2_conv_all_nth)
  from emits_many [OF this] show ?thesis by (simp add: list_all_length comp_def)
qed

lemma emits_fields:
  assumes "list_all2 (\<lambda>t v. emits c z (s t v) (e t v) (f t v)) ts vs"
  shows "emits c z (list_all2 s ts vs) (concat (apply_each (map e ts) vs))
    (serialize_many (apply_each (map f ts) vs))"
  using assms
proof (induction rule: fields_induct)
  case Nil
  then show ?case using emits_done by simp
next
  case (Cons t ts v vs)
  from emits_then [OF Cons.hyps(1) Cons.IH] show ?case by simp
qed

lemma sendable_byte_serializable: "has_type c t v \<Longrightarrow> byte_serializable t \<Longrightarrow> sendable t v"
proof (induction t arbitrary: v)
  case (TArray n t)
  then show ?case by (auto simp: list_all_iff elems_of_def split: val.splits)
next
  case (TStruct p ts)
  from TStruct.prems obtain vs where v: "v = VList vs" "list_all2 (has_type c) ts vs"
    by (auto split: val.splits)
  have "list_all2 sendable ts vs"
    using v(2) by (rule list.rel_mono_strong) (use TStruct in \<open>auto simp: list_all_iff\<close>)
  then show ?case by (simp add: v elems_of_def)
qed auto

lemma raw_elems_encode:
  assumes t: "list_all (has_type c t) vs" "serialize_as_bytes c t"
  shows "concat (map (raw_bytes t) vs) = concat (map (encode c t) vs)" "list_all (sendable t) vs"
proof -
  have "map (raw_bytes t) vs = map (encode c t) vs"
    using t raw_bytes_encode by (auto simp: list_all_iff)
  then show "concat (map (raw_bytes t) vs) = concat (map (encode c t) vs)"
    by (rule arg_cong)
  show "list_all (sendable t) vs"
    using t sendable_byte_serializable as_bytes_byte_serializable by (auto simp: list_all_iff)
qed

lemma emits_elements:
  assumes g: "growing c" and t: "list_all (has_type c t) vs"
    and IH: "\<And>v. v \<in> set vs \<Longrightarrow> emits c z (sendable t v) (encode c t v) (serialize_out c t v)"
  shows "emits c z (list_all (sendable t) vs) (concat (map (encode c t) vs))
    (if serialize_as_bytes c t \<and> contig then put_block c (concat (map (raw_bytes t) vs))
     else serialize_many (map (serialize_out c t) vs))"
proof (cases "serialize_as_bytes c t \<and> contig")
  case True
  then show ?thesis using raw_elems_encode [OF t] emits_put_block [OF g] by simp
next
  case False
  then show ?thesis using emits_elems [OF IH] by (simp only: if_False)
qed

lemma emits_serialize_out:
  "growing c \<Longrightarrow> wf_type c t \<Longrightarrow> has_type c t v \<Longrightarrow> (has_bitset t \<longrightarrow> z)
     \<Longrightarrow> emits c z (sendable t v) (encode c t v) (serialize_out c t v)"
proof (induction t arbitrary: v)
  case TByte
  then show ?case using emits_put_number [of c z 1] by (auto simp: ints_of_def split: val.splits)
next
  case (TInt k)
  then show ?case using emits_put_number by (auto simp: ints_of_def split: val.splits)
next
  case (TVarint k sg zz)
  then obtain n where v: "v = VInt n" "n < 2 ^ (8 * k)" by (auto split: val.splits)
  then have "varint_value k sg zz n < 2 ^ (8 * k)" using TVarint.prems by (intro varint_value_bound) auto
  then show ?case using TVarint.prems v by (simp add: ints_of_def emits_varint)
next
  case (TArray n t)
  then obtain vs where v: "v = VList vs" "list_all (has_type c t) vs" by (auto split: val.splits)
  have "emits c z (sendable t x) (encode c t x) (serialize_out c t x)" if "x \<in> set vs" for x
    using TArray that v by (auto simp: list_all_iff)
  from emits_elements [OF TArray.prems(1) v(2) this, of True]
  show ?case using v by (simp add: elems_of_def cong: if_cong)
next
  case (TSeq kind spec contig cur t)
  then obtain vs where v: "v = VList vs" "list_all (has_type c t) vs" by (auto split: val.splits)
  have "emits c z (sendable t x) (encode c t x) (serialize_out c t x)" if "x \<in> set vs" for x
    using TSeq that v by (auto simp: list_all_iff)
  from emits_size_prefix [OF TSeq.prems(1) _ emits_elements [OF TSeq.prems(1) v(2) this, of contig]]
  show ?case using TSeq.prems v by (simp add: elems_of_def Let_def)
next
  case (TView spec)
  then obtain vs where v: "v = VList vs" by (auto split: val.splits)
  have "concat (map (raw_bytes TByte) vs) = map (\<lambda>b. word_of_nat (ints_of b)) vs" for vs
    by (induction vs) (auto simp: le_bytes_def)
  moreover have "serialize_as_bytes c TByte" by (simp add: serialize_as_bytes_def)
  ultimately show ?case
    using emits_size_prefix [OF TView.prems(1) _ emits_put_block [OF TView.prems(1)]] TView.prems v
    by (simp add: elems_of_def Let_def)
next
  case (TAssoc spec unique mapped t)
  then obtain vs where v: "v = VList vs" "list_all (has_type c t) vs" by (auto split: val.splits)
  have e: "emits c z (sendable t x) (encode c t x) (serialize_out c t x)" if "x \<in> set vs" for x
    using TAssoc that v by (auto simp: list_all_iff)
  have "emits c z (list_all (sendable t) vs) (concat (map (encode c t) vs))
      (serialize_many (map (serialize_out c t) vs))"
    by (rule emits_elems) (rule e)
  from emits_size_prefix [OF TAssoc.prems(1) _ this]
  show ?case using TAssoc.prems v by (simp add: elems_of_def Let_def)
next
  case (TTuple ts)
  then obtain vs where v: "v = VList vs" "list_all2 (has_type c) ts vs" by (auto split: val.splits)
  have "list_all2 (\<lambda>t v. emits c z (sendable t v) (encode c t v) (serialize_out c t v)) ts vs"
    using v(2) by (rule list.rel_mono_strong) (use TTuple in \<open>auto simp: list_all_iff list_ex_iff\<close>)
  from emits_fields [OF this] show ?case using v by (simp add: elems_of_def)
next
  case (TStruct p ts)
  then obtain vs where v: "v = VList vs" "list_all2 (has_type c) ts vs" by (auto split: val.splits)
  have "list_all2 (\<lambda>t v. emits c z (sendable t v) (encode c t v) (serialize_out c t v)) ts vs"
    using v(2) by (rule list.rel_mono_strong) (use TStruct in \<open>auto simp: list_all_iff list_ex_iff\<close>)
  note fields = emits_fields [OF this]
  consider (empty) "ts = []" | (bytes) "ts \<noteq> []" "serialize_as_bytes c (TStruct p ts)"
    | (each) "ts \<noteq> []" "\<not> serialize_as_bytes c (TStruct p ts)" by blast
  then show ?case
  proof cases
    case empty
    then show ?thesis using v emits_done_out by (simp add: elems_of_def)
  next
    case bytes
    have "sendable (TStruct p ts) v"
      using TStruct.prems bytes by (intro sendable_byte_serializable as_bytes_byte_serializable) auto
    moreover have "concat (apply_each (map raw_bytes ts) vs) = encode c (TStruct p ts) v"
      using raw_bytes_encode [OF TStruct.prems(3) bytes(2)] v by (simp add: elems_of_def)
    ultimately show ?thesis
      using bytes v emits_put_block [OF TStruct.prems(1), of z "encode c (TStruct p ts) v"] by simp
  next
    case each
    then show ?thesis using fields v by (simp add: elems_of_def)
  qed
next
  case (TOptional t)
  show ?case
  proof (cases "v = VOpt None")
    case True
    then show ?thesis using emits_put_number [OF TOptional.prems(1), of z 1 0] by simp
  next
    case False
    then obtain x where v: "v = VOpt (Some x)" "has_type c t x"
      using TOptional.prems by (auto split: val.splits option.splits)
    from emits_then [OF emits_put_number [OF TOptional.prems(1), of z 1 1] TOptional.IH [OF _ _ v(2)]]
    show ?thesis using TOptional.prems v by simp
  qed
next
  case (TVariant t ids ts)
  show ?case
  proof (cases "v = VVariant None")
    case True
    then show ?thesis using emits_fail_out [of InvalidArgument c z] by simp
  next
    case False
    then obtain i x where v: "v = VVariant (Some (i, x))" "i < length ts" "has_type c (ts ! i) x"
      using TVariant.prems by (auto split: val.splits option.splits)
    have id: "has_type c t (ids ! i)" using TVariant.prems v by (auto simp: list_all_length)
    have i: "ts ! i \<in> set ts" using v(2) by simp
    have "emits c z (sendable t (ids ! i)) (encode c t (ids ! i)) (serialize_out c t (ids ! i))"
      using TVariant.prems id by (intro TVariant.IH(1)) auto
    moreover have "emits c z (sendable (ts ! i) x) (encode c (ts ! i) x) (serialize_out c (ts ! i) x)"
      using TVariant.prems v(2,3) i
      by (intro TVariant.IH(2)) (auto simp: list_all_length list_ex_length)
    ultimately show ?thesis using emits_then v by simp
  qed
next
  case (TPointer t)
  show ?case
  proof (cases "v = VOpt None")
    case True
    then show ?thesis using emits_fail_out [of InvalidArgument c z] by simp
  next
    case False
    then obtain x where "v = VOpt (Some x)" "has_type c t x"
      using TPointer.prems by (auto split: val.splits option.splits)
    then show ?thesis using TPointer by simp
  qed
next
  case (TOptionalPtr t)
  show ?case
  proof (cases "v = VOpt None")
    case True
    then show ?thesis using emits_put_number [OF TOptionalPtr.prems(1), of z 1 0] by simp
  next
    case False
    then obtain x where v: "v = VOpt (Some x)" "has_type c t x"
      using TOptionalPtr.prems by (auto split: val.splits option.splits)
    from emits_then [OF emits_put_number [OF TOptionalPtr.prems(1), of z 1 1] TOptionalPtr.IH [OF _ _ v(2)]]
    show ?thesis using TOptionalPtr.prems v by simp
  qed
next
  case (TBitset n)
  then obtain bits where "v = VBits bits" by (auto split: val.splits)
  then show ?case using TBitset.prems emits_bits by simp
qed

section \<open>The input archive reads the encoding back\<close>

lemma loads_get_number: "n < 256 ^ k \<Longrightarrow> loads (get_number c k) (number_bytes c k n) n"
proof -
  assume n: "n < 256 ^ k"
  have "loads (get_bytes k) (number_bytes c k n) (number_bytes c k n)"
    using loads_get_bytes [of "number_bytes c k n"] by simp
  from loads_map [OF this, of "\<lambda>bs. le_nat (if endian_aware c then rev bs else bs)"]
  show ?thesis using n by (auto simp: get_number_def number_bytes_def le_nat_le_bytes)
qed

lemma loads_get_block: "loads (get_block (length bs)) bs bs"
  by (cases "bs = []") (simp_all add: get_block_def loads_return loads_get_bytes)

lemma loads_get_size:
  assumes "(case s of SizeFixed k \<Rightarrow> 0 < k | SizeVarint k \<Rightarrow> 0 < k \<and> k \<le> 8)"
    and "(case s of SizeFixed k \<Rightarrow> n < 2 ^ (8 * k) | SizeVarint k \<Rightarrow> n < 2 ^ (8 * k))"
  shows "loads (get_size c s) (size_bytes c s n) n"
proof (cases s)
  case (SizeFixed k)
  then show ?thesis using assms loads_get_number by (simp add: get_size_def size_bytes_def power_256)
next
  case (SizeVarint k)
  then show ?thesis
    using assms loads_varint [of k n False False]
    by (simp add: get_size_def size_bytes_def varint_value_def)
qed

lemma loads_size:
  assumes "size_type_of c spec = Some s" "wf_size c spec" "size_fits c spec n"
  shows "loads (get_size c s) (size_prefix c spec n) n"
  using assms by (auto simp: wf_size_def size_fits_def size_prefix_def split: size_type.splits
      intro!: loads_get_size)

lemma loads_elems:
  assumes "\<And>x. x \<in> set xs \<Longrightarrow> loads f (e x) x"
  shows "loads (load_many (replicate (length xs) f)) (concat (map e xs)) xs"
proof -
  have "list_all2 (\<lambda>f (bs, x). loads f bs x) (replicate (length xs) f) (map (\<lambda>x. (e x, x)) xs)"
    using assms by (simp add: list_all2_conv_all_nth)
  from loads_many [OF this] show ?thesis by (simp add: comp_def)
qed

lemma loads_fields:
  assumes "list_all2 (\<lambda>t v. loads (f t) (e t v) v) ts vs"
  shows "loads (load_many (map f ts)) (concat (apply_each (map e ts) vs)) vs"
  using assms
proof (induction rule: fields_induct)
  case Nil
  then show ?case by (simp add: loads_return)
next
  case (Cons t ts v vs)
  have "loads (bind_in (load_many (map f ts)) (\<lambda>xs. return_in (v # xs)))
      (concat (apply_each (map e ts) vs)) (v # vs)"
    by (rule loads_map [OF Cons.IH])
  then show ?case using loads_bind [OF Cons.hyps(1)] by simp
qed

lemma loads_elements:
  assumes t: "list_all (has_type c t) vs"
    and IH: "\<And>v. v \<in> set vs \<Longrightarrow> loads (serialize_in c so t) (encode c t v) v"
  shows "loads (in_elements c t contig (serialize_in c so t) (length vs)) (concat (map (encode c t) vs)) (VList vs)"
proof (cases "serialize_as_bytes c t \<and> contig")
  case True
  let ?k = "raw_size t" and ?bs = "concat (map (raw_bytes t) vs)"
  have b: "byte_serializable t" using True by (blast intro: as_bytes_byte_serializable)
  have k: "\<forall>x \<in> set vs. length (raw_bytes t x) = ?k"
    using t b length_raw_bytes by (auto simp: list_all_iff)
  have "map (from_raw t) (split_sizes (replicate (length vs) ?k) ?bs) = vs"
    unfolding split_sizes_concat_map [OF k]
    by (rule map_from_raw) (use t b from_raw_raw_bytes in \<open>auto simp: list_all_iff\<close>)
  moreover have "loads (get_block (length vs * ?k)) ?bs ?bs"
    using loads_get_block [of ?bs] length_concat_const [OF k] by simp
  ultimately have "loads (bind_in (get_block (length vs * ?k)) (\<lambda>bs. return_in
      (VList (map (from_raw t) (split_sizes (replicate (length vs) ?k) bs))))) ?bs (VList vs)"
    using loads_map [of "get_block (length vs * ?k)" ?bs ?bs
        "\<lambda>bs. VList (map (from_raw t) (split_sizes (replicate (length vs) ?k) bs))"] by simp
  then show ?thesis
    using True raw_elems_encode(1) [OF t] by (simp add: in_elements_def)
next
  case False
  then have e: "in_elements c t contig (serialize_in c so t) (length vs)
      = bind_in (load_many (replicate (length vs) (serialize_in c so t))) (\<lambda>vs. return_in (VList vs))"
    by (simp only: in_elements_def if_False)
  show ?thesis unfolding e by (rule loads_map, rule loads_elems) (rule IH)
qed

lemma loads_checked:
  "loads f bs n \<Longrightarrow> (\<And>d p. chk d p = Some (Inr ((), p))) \<Longrightarrow> loads (g n) b2 y
     \<Longrightarrow> loads (bind_in f (\<lambda>n. bind_in chk (\<lambda>_. g n))) (bs @ b2) y"
proof (rule loads_bind)
  assume c: "\<And>d p. chk d p = Some (Inr ((), p))" and g: "loads (g n) b2 y"
  show "loads (bind_in chk (\<lambda>_. g n)) b2 y"
    using g by (simp add: loads_def bind_in_def c)
qed

lemma insert_distinct:
  "distinct (map (key_of mapped) (acc @ vs)) \<or> \<not> unique
     \<Longrightarrow> foldl (insert_elem unique mapped) acc vs = acc @ vs"
proof (induction vs arbitrary: acc)
  case (Cons v vs)
  have "insert_elem unique mapped acc v = acc @ [v]"
    using Cons.prems by (auto simp: insert_elem_def)
  then show ?case using Cons.IH [of "acc @ [v]"] Cons.prems by simp
qed simp

lemma variant_index_nth:
  "distinct ids \<Longrightarrow> i < length ids \<Longrightarrow> variant_index ids (ids ! i) k = Some (k + i)"
proof (induction ids arbitrary: i k)
  case (Cons y ys)
  then show ?case by (cases i) (auto simp: nth_mem)
qed simp

lemma byte_vals_words:
  "list_all (\<lambda>b. \<exists>n < 256. b = VInt n) vs
     \<Longrightarrow> byte_vals (map (\<lambda>b. word_of_nat (ints_of b)) vs) = vs"
  by (induction vs) (auto simp: byte_vals_def ints_of_def unat_byte_of_nat)

lemma loads_optional:
  assumes t: "v = VOpt None \<or> (\<exists>x. v = VOpt (Some x) \<and> loads f (e x) x)"
  shows "loads (bind_in (get_number c 1) (\<lambda>b. if b = 0 then return_in (VOpt None)
       else bind_in f (\<lambda>v. return_in (VOpt (Some v)))))
    (case v of VOpt (Some x) \<Rightarrow> number_bytes c 1 1 @ e x | _ \<Rightarrow> number_bytes c 1 0) v"
  using t
proof
  assume v: "v = VOpt None"
  have "loads (get_number c 1) (number_bytes c 1 0) 0" by (rule loads_get_number) simp
  from loads_bind [OF this, of _ "[]" "VOpt None"] show ?thesis
    using v by (simp add: loads_return)
next
  assume "\<exists>x. v = VOpt (Some x) \<and> loads f (e x) x"
  then obtain x where v: "v = VOpt (Some x)" and x: "loads f (e x) x" by blast
  have "loads (get_number c 1) (number_bytes c 1 1) 1" by (rule loads_get_number) simp
  from loads_bind [OF this, of _ "e x" v] show ?thesis
    using v loads_map [OF x, of "\<lambda>v. VOpt (Some v)"] by simp
qed

lemma loads_serialize_in:
  "wf_type c t \<Longrightarrow> has_type c t v \<Longrightarrow> sendable t v \<Longrightarrow> fits c so t v
     \<Longrightarrow> loads (serialize_in c so t) (encode c t v) v"
proof (induction t arbitrary: v)
  case TByte
  then obtain n where "v = VInt n" "n < 256" by (auto split: val.splits)
  then show ?case using loads_map [OF loads_get_number [of n 1 c], of VInt] by (simp add: ints_of_def)
next
  case (TInt k)
  then obtain n where "v = VInt n" "n < 256 ^ k" by (auto split: val.splits)
  then show ?case using loads_map [OF loads_get_number [of n k c], of VInt] by (simp add: ints_of_def)
next
  case (TVarint k sg zz)
  then obtain n where "v = VInt n" "n < 2 ^ (8 * k)" by (auto split: val.splits)
  then show ?case
    using loads_map [OF loads_varint [of k n zz sg], of VInt] TVarint.prems by (simp add: ints_of_def)
next
  case (TArray n t)
  then obtain vs where v: "v = VList vs" "list_all (has_type c t) vs" "length vs = n"
    by (auto split: val.splits)
  have "loads (serialize_in c so t) (encode c t x) x" if "x \<in> set vs" for x
    using TArray that v by (auto simp: list_all_iff elems_of_def)
  from loads_elements [OF v(2) this, where contig = True] show ?case
    using v unfolding serialize_in.simps overload_defs by (simp add: elems_of_def)
next
  case (TSeq kind spec contig cur t)
  then obtain vs where v: "v = VList vs" "list_all (has_type c t) vs"
      "size_type_of c spec = None \<longrightarrow> length vs = cur" "kind = Spanned \<longrightarrow> length vs \<le> cur"
    by (auto split: val.splits)
  have "loads (serialize_in c so t) (encode c t x) x" if "x \<in> set vs" for x
    using TSeq that v by (auto simp: list_all_iff elems_of_def)
  from loads_elements [OF v(2) this]
  have e: "loads (in_elements c t contig (serialize_in c so t) (length vs)) (concat (map (encode c t) vs)) (VList vs)" .
  show ?case
  proof (cases "size_type_of c spec")
    case None
    then show ?thesis using v e unfolding serialize_in.simps overload_defs by (simp add: elems_of_def size_prefix_def)
  next
    case (Some s)
    have "loads (get_size c s) (size_prefix c spec (length vs)) (length vs)"
      using TSeq.prems v by (intro loads_size [OF Some]) (auto simp: elems_of_def)
    moreover have "(case kind of Growable \<Rightarrow> resize_to c (size_of so t) (length vs)
        | Spanned \<Rightarrow> shrink_to cur (length vs)) d p = Some (Inr ((), p))" for d p
      using TSeq.prems v Some
      by (auto simp: resize_to_def shrink_to_def return_in_def elems_of_def split: container_kind.split)
    ultimately have "loads (bind_in (get_size c s) (\<lambda>n.
        bind_in (case kind of Growable \<Rightarrow> resize_to c (size_of so t) n | Spanned \<Rightarrow> shrink_to cur n)
          (\<lambda>_. in_elements c t contig (serialize_in c so t) n)))
        (size_prefix c spec (length vs) @ concat (map (encode c t) vs)) (VList vs)"
      by (intro loads_bind) (auto simp: loads_def bind_in_def e [unfolded loads_def])
    then show ?thesis using v Some unfolding serialize_in.simps overload_defs by (simp add: elems_of_def)
  qed
next
  case (TView spec)
  then obtain vs where v: "v = VList vs" "list_all (\<lambda>b. \<exists>n < 256. b = VInt n) vs"
    by (auto split: val.splits)
  obtain s where s: "size_type_of c spec = Some s" using TView.prems by auto
  let ?bs = "map (\<lambda>b. word_of_nat (ints_of b)) vs :: byte list"
  have "loads (get_size c s) (size_prefix c spec (length vs)) (length vs)"
    using TView.prems v by (intro loads_size [OF s]) (auto simp: elems_of_def)
  moreover have "loads (get_bytes (length vs)) ?bs ?bs" using loads_get_bytes [of ?bs] by simp
  ultimately have "loads (bind_in (get_size c s) get_bytes) (size_prefix c spec (length vs) @ ?bs) ?bs"
    by (rule loads_bind)
  from loads_map [OF this, of "\<lambda>bs. VList (byte_vals bs)"] show ?case
    using v s byte_vals_words [OF v(2)] by (simp add: elems_of_def)
next
  case (TAssoc spec unique mapped t)
  then obtain vs where v: "v = VList vs" "list_all (has_type c t) vs"
      "unique \<longrightarrow> distinct (map (key_of mapped) vs)"
    by (auto split: val.splits)
  obtain s where s: "size_type_of c spec = Some s" using TAssoc.prems by auto
  have e: "loads (serialize_in c so t) (encode c t x) x" if "x \<in> set vs" for x
    using TAssoc that v by (auto simp: list_all_iff elems_of_def)
  have "loads (load_many (replicate (length vs) (serialize_in c so t)))
      (concat (map (encode c t) vs)) vs"
    by (rule loads_elems) (rule e)
  from loads_map [OF this, of "\<lambda>vs. VList (foldl (insert_elem unique mapped) [] vs)"]
  have m: "loads (bind_in (load_many (replicate (length vs) (serialize_in c so t)))
      (\<lambda>vs. return_in (VList (foldl (insert_elem unique mapped) [] vs))))
      (concat (map (encode c t) vs)) (VList vs)"
    using insert_distinct [of mapped "[]" vs unique] v(3) by (cases unique) simp_all
  have "loads (get_size c s) (size_prefix c spec (length vs)) (length vs)"
    using TAssoc.prems v by (intro loads_size [OF s]) (auto simp: elems_of_def)
  from loads_bind [OF this, of "\<lambda>n. bind_in (load_many (replicate n (serialize_in c so t)))
      (\<lambda>vs. return_in (VList (foldl (insert_elem unique mapped) [] vs)))", OF m]
  show ?case using v s by (simp add: elems_of_def)
next
  case (TTuple ts)
  then obtain vs where v: "v = VList vs" "list_all2 (has_type c) ts vs" by (auto split: val.splits)
  have "list_all2 (\<lambda>t v. has_type c t v \<and> sendable t v \<and> fits c so t v) ts vs"
    using TTuple.prems v by (auto simp: elems_of_def list_all2_conv_all_nth)
  then have "list_all2 (\<lambda>t v. loads (serialize_in c so t) (encode c t v) v) ts vs"
    by (rule list.rel_mono_strong) (use TTuple in \<open>auto simp: list_all_iff\<close>)
  from loads_map [OF loads_fields [OF this], of VList] show ?case using v by (simp add: elems_of_def)
next
  case (TStruct p ts)
  then obtain vs where v: "v = VList vs" "list_all2 (has_type c) ts vs" by (auto split: val.splits)
  have "list_all2 (\<lambda>t v. has_type c t v \<and> sendable t v \<and> fits c so t v) ts vs"
    using TStruct.prems v by (auto simp: elems_of_def list_all2_conv_all_nth)
  then have fields: "list_all2 (\<lambda>t v. loads (serialize_in c so t) (encode c t v) v) ts vs"
    by (rule list.rel_mono_strong) (use TStruct in \<open>auto simp: list_all_iff\<close>)
  consider (empty) "ts = []" | (bytes) "ts \<noteq> []" "serialize_as_bytes c (TStruct p ts)"
    | (each) "ts \<noteq> []" "\<not> serialize_as_bytes c (TStruct p ts)" by blast
  then show ?case
  proof cases
    case empty
    then show ?thesis using v by (simp add: elems_of_def loads_return)
  next
    case bytes
    have b: "byte_serializable (TStruct p ts)" using bytes(2) by (rule as_bytes_byte_serializable)
    have "loads (get_block (length (raw_bytes (TStruct p ts) v))) (encode c (TStruct p ts) v)
        (raw_bytes (TStruct p ts) v)"
      using loads_get_block raw_bytes_encode [OF TStruct.prems(2) bytes(2)] by metis
    from loads_map [OF this, of "from_raw (TStruct p ts)"] show ?thesis
      unfolding length_raw_bytes [OF TStruct.prems(2) b] from_raw_raw_bytes [OF TStruct.prems(2) b]
      using bytes by (simp only: serialize_in.simps overload_defs if_False if_True)
  next
    case each
    from loads_map [OF loads_fields [OF fields], of VList] show ?thesis
      using each v by (simp add: elems_of_def)
  qed
next
  case (TOptional t)
  have "v = VOpt None \<or> (\<exists>x. v = VOpt (Some x) \<and> loads (serialize_in c so t) (encode c t x) x)"
    using TOptional by (auto split: val.splits option.splits)
  from loads_optional [OF this, of c] show ?case by simp
next
  case (TOptionalPtr t)
  have "v = VOpt None \<or> (\<exists>x. v = VOpt (Some x) \<and> loads (serialize_in c so t) (encode c t x) x)"
    using TOptionalPtr by (auto split: val.splits option.splits)
  from loads_optional [OF this, of c] show ?case by simp
next
  case (TPointer t)
  then obtain x where v: "v = VOpt (Some x)" "has_type c t x" by (auto split: val.splits option.splits)
  then have "loads (serialize_in c so t) (encode c t x) x" using TPointer by simp
  from loads_map [OF this, of "\<lambda>v. VOpt (Some v)"] show ?case using v by simp
next
  case (TVariant t ids ts)
  then obtain i x where v: "v = VVariant (Some (i, x))" "i < length ts" "has_type c (ts ! i) x"
    by (auto split: val.splits option.splits)
  have id: "has_type c t (ids ! i)" "sendable t (ids ! i)"
    using TVariant.prems v by (auto simp: list_all_length)
  have "loads (serialize_in c so t) (encode c t (ids ! i)) (ids ! i)"
    using TVariant.prems v id by (intro TVariant.IH(1)) auto
  moreover have "loads (serialize_in c so (ts ! i)) (encode c (ts ! i) x) x"
    using TVariant.prems v by (intro TVariant.IH(2)) (auto simp: list_all_length)
  then have "loads (bind_in (map (serialize_in c so) ts ! i) (\<lambda>v. return_in (VVariant (Some (i, v)))))
      (encode c (ts ! i) x) (VVariant (Some (i, x)))"
    using loads_map [of "serialize_in c so (ts ! i)" _ x "\<lambda>v. VVariant (Some (i, v))"] v(2) by simp
  ultimately show ?case
    using loads_bind [of "serialize_in c so t" "encode c t (ids ! i)" "ids ! i" _
        "encode c (ts ! i) x" "VVariant (Some (i, x))"]
      variant_index_nth [of ids i 0] TVariant.prems v by simp
next
  case (TBitset n)
  then obtain bits where "v = VBits bits" "length bits = n" by (auto split: val.splits)
  then show ?case using loads_map [OF loads_get_bits [of bits], of VBits] by auto
qed

section \<open>The input archive on arbitrary bytes\<close>

lemma load_safe_mono: "load_safe P f \<Longrightarrow> (\<And>x. P x \<Longrightarrow> Q x) \<Longrightarrow> load_safe Q f"
  unfolding load_safe_def by blast

lemma load_safe_map: "load_safe P f \<Longrightarrow> (\<And>x. P x \<Longrightarrow> Q (h x)) \<Longrightarrow> load_safe Q (bind_in f (\<lambda>x. return_in (h x)))"
  by (rule load_safe_bind [where P = P]) (auto intro: load_safe_return)

lemma load_safe_get_number: "load_safe (\<lambda>n. n < 256 ^ k) (get_number c k)"
  unfolding get_number_def
proof (rule load_safe_map [OF load_safe_get_bytes])
  fix bs :: "byte list" assume "length bs = k"
  then show "le_nat (if endian_aware c then rev bs else bs) < 256 ^ k"
    using le_nat_bound [of bs] le_nat_bound [of "rev bs"] by auto
qed

lemma load_safe_get_block: "load_safe (\<lambda>bs. length bs = n) (get_block n)"
  by (simp add: get_block_def load_safe_return load_safe_get_bytes)

lemma load_safe_get_size:
  "wf_size c spec \<Longrightarrow> size_type_of c spec = Some s \<Longrightarrow> load_safe (\<lambda>_. True) (get_size c s)"
  by (auto simp: get_size_def wf_size_def split: size_type.splits
      intro: load_safe_mono [OF load_safe_get_number] load_safe_mono [OF load_safe_varint])

lemma load_safe_resize: "load_safe (\<lambda>_. True) (resize_to c sz n)"
  by (simp add: resize_to_def load_safe_fail load_safe_return)

lemma load_safe_shrink: "load_safe (\<lambda>_. n \<le> cur) (shrink_to cur n)"
  by (simp add: shrink_to_def load_safe_fail load_safe_return)

lemma load_safe_elems:
  assumes "load_safe P f"
  shows "load_safe (\<lambda>xs. length xs = n \<and> list_all P xs) (load_many (replicate n f))"
proof -
  have "list_all2 (\<lambda>f P. load_safe P f) (replicate n f) (replicate n P)"
    using assms by (simp add: list_all2_conv_all_nth)
  from load_safe_many [OF this] show ?thesis
    by (rule load_safe_mono) (auto simp: list_all2_conv_all_nth list_all_length)
qed

lemma load_safe_fields:
  assumes "\<And>t. t \<in> set ts \<Longrightarrow> load_safe (P t) (f t)"
  shows "load_safe (\<lambda>vs. list_all2 P ts vs) (load_many (map f ts))"
proof -
  have "list_all2 (\<lambda>f P. load_safe P f) (map f ts) (map P ts)"
    using assms by (simp add: list_all2_conv_all_nth)
  from load_safe_many [OF this] show ?thesis
    by (rule load_safe_mono) (auto simp: list_all2_conv_all_nth)
qed

lemma load_safe_elements:
  assumes IH: "load_safe (has_type c t) (serialize_in c so t)"
  shows "load_safe (\<lambda>v. \<exists>vs. v = VList vs \<and> length vs = n \<and> list_all (has_type c t) vs)
    (in_elements c t contig (serialize_in c so t) n)"
proof (cases "serialize_as_bytes c t \<and> contig")
  case True
  then have b: "byte_serializable t" by (blast intro: as_bytes_byte_serializable)
  have "list_all (has_type c t) (map (from_raw t) (split_sizes (replicate n (raw_size t)) bs))"
    "length (split_sizes (replicate n (raw_size t)) bs) = n" if "length bs = n * raw_size t" for bs
    using split_sizes_replicate [OF that] has_type_from_raw [OF b] by (auto simp: list_all_iff)
  then show ?thesis
    using True by (auto simp: in_elements_def intro!: load_safe_map [OF load_safe_get_block])
next
  case False
  then have e: "in_elements c t contig (serialize_in c so t) n
      = bind_in (load_many (replicate n (serialize_in c so t))) (\<lambda>vs. return_in (VList vs))"
    by (simp only: in_elements_def if_False)
  show ?thesis unfolding e by (rule load_safe_map [OF load_safe_elems [OF IH]]) auto
qed

lemma load_safe_get_rest: "load_safe (\<lambda>_. True) get_rest"
  unfolding load_safe_def
proof (intro allI impI)
  fix d :: "byte list" and p assume p: "p \<le> length d" and l: "length d < 2 ^ 64"
  have "in_range \<lparr>ar_data = d, ar_position = p\<rparr>" using p l by (simp add: in_range_def)
  from size_sub_in_range [OF this] have "size_sub (length d) p = length d - p" by simp
  then show "(\<exists>e q. get_rest d p = Some (Inl (e, q)) \<and> e \<noteq> Success \<and> p \<le> q \<and> q \<le> length d)
        \<or> (\<exists>x q. get_rest d p = Some (Inr (x, q)) \<and> True \<and> p \<le> q \<and> q \<le> length d)"
    using p by (simp add: get_rest_def mem_read_def)
qed

lemma load_safe_get_bits: "load_safe (\<lambda>bs. length bs = n) (get_bits n)"
  unfolding get_bits_def by (rule load_safe_map [OF load_safe_get_bytes]) simp

lemma insert_elems_typed:
  "list_all P vs \<Longrightarrow> list_all P acc \<Longrightarrow> (unique \<longrightarrow> distinct (map (key_of mapped) acc)) \<Longrightarrow>
     list_all P (foldl (insert_elem unique mapped) acc vs)
     \<and> (unique \<longrightarrow> distinct (map (key_of mapped) (foldl (insert_elem unique mapped) acc vs)))"
proof (induction vs arbitrary: acc)
  case (Cons v vs)
  have "list_all P (insert_elem unique mapped acc v)"
    "unique \<longrightarrow> distinct (map (key_of mapped) (insert_elem unique mapped acc v))"
    using Cons.prems by (auto simp: insert_elem_def)
  then show ?case using Cons.IH Cons.prems(1) unfolding foldl_Cons list.pred_inject(2) by blast
qed simp

lemma byte_vals_typed: "list_all (\<lambda>b. \<exists>n < 256. b = VInt n) (byte_vals bs)"
proof -
  have "\<exists>n < 256. VInt (unat b) = VInt n" for b :: byte using unsigned_less [of b] by auto
  then show ?thesis by (auto simp: byte_vals_def list_all_iff)
qed

lemma variant_index_bound: "variant_index ids x k = Some i \<Longrightarrow> k \<le> i \<and> i < k + length ids"
  by (induction ids x k rule: variant_index.induct) (auto split: if_splits)

lemma load_safe_optional:
  assumes "load_safe P f"
  shows "load_safe (\<lambda>v. v = VOpt None \<or> (\<exists>x. v = VOpt (Some x) \<and> P x))
    (bind_in (get_number c 1) (\<lambda>b. if b = 0 then return_in (VOpt None)
       else bind_in f (\<lambda>v. return_in (VOpt (Some v)))))"
  by (rule load_safe_bind [OF load_safe_get_number])
    (auto intro!: load_safe_return load_safe_map [OF assms])

lemma load_safe_serialize_in: "wf_type c t \<Longrightarrow> load_safe (has_type c t) (serialize_in c so t)"
proof (induction t)
  case TByte
  show ?case unfolding serialize_in.simps overload_defs by (rule load_safe_map [OF load_safe_get_number]) simp
next
  case (TInt k)
  show ?case unfolding serialize_in.simps overload_defs by (rule load_safe_map [OF load_safe_get_number]) simp
next
  case (TVarint k sg zz)
  then show ?case
    unfolding serialize_in.simps overload_defs by (intro load_safe_map [OF load_safe_varint]) auto
next
  case (TArray n t)
  have "load_safe (has_type c t) (serialize_in c so t)" using TArray by simp
  from load_safe_elements [OF this] show ?case
    unfolding serialize_in.simps overload_defs by (rule load_safe_mono) auto
next
  case (TSeq kind spec contig cur t)
  have IH: "load_safe (has_type c t) (serialize_in c so t)" using TSeq by simp
  show ?case
  proof (cases "size_type_of c spec")
    case None
    have e: "load_safe (has_type c (TSeq kind spec contig cur t)) (in_elements c t contig (serialize_in c so t) cur)"
      by (rule load_safe_mono [OF load_safe_elements [OF IH]]) auto
    show ?thesis unfolding serialize_in.simps overload_defs None option.case by (rule e)
  next
    case (Some s)
    have e: "load_safe (has_type c (TSeq kind spec contig cur t)) (in_elements c t contig (serialize_in c so t) n)"
      if "kind = Spanned \<longrightarrow> n \<le> cur" for n
      by (rule load_safe_mono [OF load_safe_elements [OF IH]]) (use that Some in auto)
    have chk: "load_safe (\<lambda>_. kind = Spanned \<longrightarrow> n \<le> cur)
        (case kind of Growable \<Rightarrow> resize_to c (size_of so t) n | Spanned \<Rightarrow> shrink_to cur n)" for n
      using load_safe_resize load_safe_shrink by (cases kind) auto
    have "load_safe (\<lambda>_. True) (get_size c s)"
      using TSeq.prems by (intro load_safe_get_size [OF _ Some]) simp
    then show ?thesis
      unfolding serialize_in.simps overload_defs Some option.case
      by (rule load_safe_bind) (rule load_safe_bind [OF chk], rule e)
  qed
next
  case (TView spec)
  have "load_safe (\<lambda>_. True) (case size_type_of c spec of
      None \<Rightarrow> get_rest | Some s \<Rightarrow> bind_in (get_size c s) get_bytes)"
  proof (cases "size_type_of c spec")
    case (Some s)
    have "load_safe (\<lambda>_. True) (get_size c s)"
      using TView.prems by (intro load_safe_get_size [OF _ Some]) simp
    then have "load_safe (\<lambda>_. True) (bind_in (get_size c s) get_bytes)"
      by (rule load_safe_bind) (rule load_safe_mono [OF load_safe_get_bytes], simp)
    then show ?thesis using Some by simp
  qed (simp add: load_safe_get_rest)
  then show ?case
    unfolding serialize_in.simps overload_defs by (rule load_safe_map) (simp add: byte_vals_typed)
next
  case (TAssoc spec unique mapped t)
  have IH: "load_safe (has_type c t) (serialize_in c so t)" using TAssoc by simp
  obtain s where s: "size_type_of c spec = Some s" using TAssoc.prems by auto
  have "load_safe (\<lambda>_. True) (get_size c s)"
    using TAssoc.prems by (intro load_safe_get_size [OF _ s]) simp
  moreover have "load_safe (has_type c (TAssoc spec unique mapped t))
      (bind_in (load_many (replicate n (serialize_in c so t))) (\<lambda>vs.
            return_in (VList (foldl (insert_elem unique mapped) [] vs))))" for n
    by (rule load_safe_map [OF load_safe_elems [OF IH]])
      (use insert_elems_typed [of "has_type c t" _ "[]" unique mapped] in simp)
  ultimately show ?case
    unfolding serialize_in.simps overload_defs s option.case by (rule load_safe_bind)
next
  case (TTuple ts)
  have "load_safe (has_type c t) (serialize_in c so t)" if "t \<in> set ts" for t
    using TTuple that by (auto simp: list_all_iff)
  from load_safe_fields [OF this] show ?case
    unfolding serialize_in.simps overload_defs by (rule load_safe_map) simp_all
next
  case (TStruct p ts)
  have f: "load_safe (has_type c t) (serialize_in c so t)" if "t \<in> set ts" for t
    using TStruct that by (auto simp: list_all_iff)
  have each: "load_safe (has_type c (TStruct p ts))
      (bind_in (load_many (map (serialize_in c so) ts)) (\<lambda>vs. return_in (VList vs)))"
    by (rule load_safe_map [OF load_safe_fields [OF f]]) simp_all
  have bytes: "load_safe (has_type c (TStruct p ts))
      (bind_in (get_block (raw_size (TStruct p ts))) (\<lambda>bs. return_in (from_raw (TStruct p ts) bs)))"
    if "serialize_as_bytes c (TStruct p ts)"
    by (rule load_safe_map [OF load_safe_get_block])
      (rule has_type_from_raw [OF as_bytes_byte_serializable [OF that]])
  have empty: "load_safe (has_type c (TStruct p ts)) (return_in (VList []))" if "ts = []"
    by (rule load_safe_return) (use that in simp)
  show ?case
    unfolding serialize_in.simps overload_defs using each bytes empty by (simp only: split: if_split) blast
next
  case (TOptional t)
  then have "load_safe (has_type c t) (serialize_in c so t)" by simp
  from load_safe_optional [OF this, of c] show ?case
    unfolding serialize_in.simps overload_defs by (rule load_safe_mono) auto
next
  case (TOptionalPtr t)
  then have "load_safe (has_type c t) (serialize_in c so t)" by simp
  from load_safe_optional [OF this, of c] show ?case
    unfolding serialize_in.simps overload_defs by (rule load_safe_mono) auto
next
  case (TPointer t)
  then show ?case unfolding serialize_in.simps overload_defs by (intro load_safe_map) auto
next
  case (TVariant t ids ts)
  have id: "load_safe (has_type c t) (serialize_in c so t)" using TVariant by simp
  have alt: "load_safe (has_type c (TVariant t ids ts))
      (bind_in (map (serialize_in c so) ts ! i) (\<lambda>v. return_in (VVariant (Some (i, v)))))"
    if "variant_index ids x 0 = Some i" for x i
  proof -
    have i: "i < length ts" using variant_index_bound [OF that] TVariant.prems by simp
    have "load_safe (has_type c (ts ! i)) (serialize_in c so (ts ! i))"
      using TVariant.prems i by (intro TVariant.IH(2)) (auto simp: list_all_length)
    then show ?thesis using i by (auto intro!: load_safe_map)
  qed
  show ?case
    unfolding serialize_in.simps overload_defs
  proof (rule load_safe_bind [OF id])
    fix x
    show "load_safe (has_type c (TVariant t ids ts))
        (case variant_index ids x 0 of None \<Rightarrow> fail_in BadMessage
         | Some i \<Rightarrow> bind_in (map (serialize_in c so) ts ! i) (\<lambda>v. return_in (VVariant (Some (i, v)))))"
      using alt by (cases "variant_index ids x 0") (simp_all only: option.case, simp add: load_safe_fail)
  qed
next
  case (TBitset n)
  show ?case unfolding serialize_in.simps overload_defs by (rule load_safe_map [OF load_safe_get_bits]) simp
qed

end
