(* ===== verification/Lu_Protocol.thy ===== *)
theory Lu_Protocol
  imports Lu_Serializer_Correct
begin

text \<open>
  Items serialized by a protocol of their own (\<open>by_protocol\<close> in \<open>BitSerializer.h\<close>). The
  protocol is the program's, an argument here: an operation on the archive for writing, and
  one that is given the size for reading. The serializer writes a size field of zero, lets
  the protocol write its message and then goes back to fill in the size; a varint size that
  needs more than the one byte reserved first moves the message up.
\<close>

definition move_up :: "nat \<Rightarrow> nat \<Rightarrow> nat \<Rightarrow> byte list \<Rightarrow> byte list option" where
  "move_up start n by d =
     (case mem_read d start n of None \<Rightarrow> None | Some bs \<Rightarrow> mem_write d (start + by) bs)"

text \<open>
  The size is written through a second archive over the \<open>sizeof(SizeType)\<close> bytes at the size's
  position, which is given none of the options of the first.
\<close>

definition plain_class :: archive_class where
  "plain_class = \<lparr>resizable = False, options = []\<rparr>"

definition write_size_at :: "size_type \<Rightarrow> nat \<Rightarrow> nat \<Rightarrow> out_op" where
  "write_size_at s p n ar =
     (case s of
        SizeFixed k \<Rightarrow>
          map_option (\<lambda>d. (Success, ar\<lparr>ar_data := d\<rparr>))
            (mem_write (ar_data ar) p (number_bytes plain_class k (n mod 2 ^ (8 * k))))
      | SizeVarint k \<Rightarrow>
          if k < varint_size k (n mod 2 ^ (8 * k)) then Some (ResultOutOfRange, ar)
          else map_option (\<lambda>(q, d). (Success, ar\<lparr>ar_data := d\<rparr>))
                 (varint_loop (n mod 2 ^ (8 * k)) p (ar_data ar)))"

definition make_way :: "archive_class \<Rightarrow> size_type \<Rightarrow> nat \<Rightarrow> nat \<Rightarrow> out_op" where
  "make_way c s start n ar =
     (case s of
        SizeFixed k \<Rightarrow> Some (Success, ar)
      | SizeVarint k \<Rightarrow>
          let by = varint_size 8 n - 1 in
          if by = 0 then Some (Success, ar)
          else after_room (ensure_room c by)
                 (\<lambda>ar. map_option (\<lambda>d. (Success, ar\<lparr>ar_data := d,
                         ar_position := ar_position ar + by\<rparr>))
                       (move_up start n by (ar_data ar))) ar)"

definition size_field_length :: "size_type \<Rightarrow> nat" where
  "size_field_length s = (case s of SizeFixed k \<Rightarrow> k | SizeVarint k \<Rightarrow> 1)"

definition fill_in_size :: "archive_class \<Rightarrow> size_type \<Rightarrow> nat \<Rightarrow> out_op" where
  "fill_in_size c s p ar =
     (let n = size_sub (size_sub (ar_position ar) p) (size_field_length s) in
      then_out (make_way c s (p + 1) n) (write_size_at s p n) ar)"

definition serialize_protocol_out ::
  "archive_class \<Rightarrow> size_type option \<Rightarrow> out_op \<Rightarrow> out_op" where
  "serialize_protocol_out c so_opt protocol ar =
     (case so_opt of
        None \<Rightarrow> protocol ar
      | Some s \<Rightarrow>
          then_out (put_size c s 0) (then_out protocol (fill_in_size c s (ar_position ar))) ar)"

definition serialize_protocol_in ::
  "archive_class \<Rightarrow> size_type option \<Rightarrow> (nat option \<Rightarrow> val in_op) \<Rightarrow> val in_op" where
  "serialize_protocol_in c so_opt protocol =
     (case so_opt of
        None \<Rightarrow> protocol None
      | Some s \<Rightarrow> bind_in (get_size c s) (\<lambda>n. protocol (Some n)))"

section \<open>The size in front of the message\<close>

lemma size_sub_le: "b \<le> a \<Longrightarrow> a < 2 ^ 64 \<Longrightarrow> size_sub a b = a - b"
proof -
  assume b: "b \<le> a" and a: "a < 2 ^ 64"
  then have "a + 2 ^ 64 - b = (a - b) + 2 ^ 64" by simp
  moreover have "a - b < 2 ^ 64" using a by linarith
  ultimately show ?thesis unfolding size_sub_def by (simp only: mod_add_self2 mod_less)
qed

lemma overwrite_mid: "length xs = length ys \<Longrightarrow> overwrite (p @ xs @ r) (length p) ys = p @ ys @ r"
  by (simp add: overwrite_def)

lemma roomy_mono: "roomy c n ar \<Longrightarrow> m \<le> n \<Longrightarrow> roomy c m ar"
  using roomy_left [of c m "n - m" ar] by simp

text \<open>
  After the message is written the archive's data are the old prefix, the reserved size
  field, the message and a rest; filling in the size changes the field, and with a varint
  moves the message, and nothing else.
\<close>

lemma fill_in_fixed:
  assumes d: "ar_data ar = pre @ z @ bs @ r" "ar_position ar = length pre + length z + length bs"
    and k: "length z = k" and n: "length bs < 2 ^ (8 * k)" and r: "in_range ar"
    and e: "\<not> endian_aware c"
  shows "fill_in_size c (SizeFixed k) (length pre) ar
    = Some (Success, ar\<lparr>ar_data := pre @ size_bytes c (SizeFixed k) (length bs) @ bs @ r\<rparr>)"
proof -
  have lt: "ar_position ar < 2 ^ 64" using r by (simp add: in_range_def)
  have "size_sub (ar_position ar) (length pre) = k + length bs"
    using d(2) k lt by (simp add: size_sub_le)
  moreover have "size_sub (k + length bs) k = length bs"
    using d(2) k lt by (simp add: size_sub_le)
  moreover have "number_bytes plain_class k x = number_bytes c k x" for x
    using e by (simp add: number_bytes_def endian_aware_def plain_class_def)
  moreover have "mem_write (pre @ z @ bs @ r) (length pre) (number_bytes c k (length bs))
      = Some (pre @ number_bytes c k (length bs) @ bs @ r)"
    using k by (simp add: mem_write_def overwrite_mid)
  ultimately show ?thesis
    using n d(1) by (simp add: fill_in_size_def then_out_def make_way_def write_size_at_def
        size_field_length_def failure_def size_bytes_def)
qed

lemma move_up_message:
  "length r1 = by \<Longrightarrow> move_up (length p) (length bs) by (p @ bs @ r1 @ r) = Some
     (p @ take by (bs @ r1) @ bs @ r)"
proof -
  assume b: "length r1 = by"
  define w where "w = p @ bs @ r1 @ r"
  let ?q = "p @ take by (bs @ r1)"
  have rd: "mem_read w (length p) (length bs) = Some bs"
    by (simp add: w_def mem_read_def slice_of_def)
  have w: "w = ?q @ drop by (bs @ r1) @ r"
    unfolding w_def using append_take_drop_id [of "by" "bs @ r1"] by (metis append_assoc)
  have q: "length ?q = length p + by" and l: "length (drop by (bs @ r1)) = length bs"
    using b by simp_all
  have "overwrite w (length ?q) bs = ?q @ bs @ r" unfolding w using l by (rule overwrite_mid)
  moreover have "length p + by + length bs \<le> length w" using b by (simp add: w_def)
  ultimately have "mem_write w (length p + by) bs = Some (p @ take by (bs @ r1) @ bs @ r)"
    unfolding mem_write_def q by simp
  then show ?thesis using rd by (simp add: move_up_def w_def)
qed

lemma varint_bytes_zero: "varint_bytes 0 = [0]"
  by (simp add: varint_bytes.simps [of 0])

lemma length_varint_bytes_pos: "1 \<le> length (varint_bytes v)"
  by (simp add: varint_bytes.simps [of v])

definition size_field_ok :: "size_type \<Rightarrow> nat \<Rightarrow> bool" where
  "size_field_ok s n =
     (case s of SizeFixed k \<Rightarrow> 0 < k \<and> n < 2 ^ (8 * k)
              | SizeVarint k \<Rightarrow> 0 < k \<and> k \<le> 8 \<and> n < 2 ^ (7 * k) \<and> n < 2 ^ 64)"

lemma varint_fits_field: "n < 2 ^ (7 * k) \<Longrightarrow> 0 < k \<Longrightarrow> length (varint_bytes n) \<le> k"
proof -
  assume n: "n < 2 ^ (7 * k)" and k: "0 < k"
  have "max 1 (bit_length n) \<le> 7 * k" using bit_length_bound [OF n] k by simp
  then have "(max 1 (bit_length n) + 6) div 7 \<le> (7 * k + 6) div 7" by (intro div_le_mono) simp
  then show ?thesis by (simp add: length_varint_bytes)
qed

definition grown :: "archive_class \<Rightarrow> bool \<Rightarrow> archive \<Rightarrow> archive \<Rightarrow> bool" where
  "grown c zf ar ar' \<longleftrightarrow>
     in_range ar' \<and> (zf \<longrightarrow> clean ar') \<and> ar_position ar \<le> ar_position ar'
     \<and> length (ar_data ar) \<le> length (ar_data ar')
     \<and> (\<not> resizable c \<longrightarrow> length (ar_data ar') = length (ar_data ar)
          \<and> drop (ar_position ar') (ar_data ar') = drop (ar_position ar') (ar_data ar))"

lemma grown_keeps:
  "keeps c z ar ar2 \<Longrightarrow> grown c z ar2 ar3
     \<Longrightarrow> take (ar_position ar) (ar_data ar3) = take (ar_position ar) (ar_data ar)
     \<Longrightarrow> keeps c z ar ar3"
proof -
  assume a: "keeps c z ar ar2" and b: "grown c z ar2 ar3"
    and t: "take (ar_position ar) (ar_data ar3) = take (ar_position ar) (ar_data ar)"
  have "drop (ar_position ar3) (ar_data ar2) = drop (ar_position ar3) (ar_data ar)"
    if "\<not> resizable c"
  proof -
    have p: "ar_position ar3 = (ar_position ar3 - ar_position ar2) + ar_position ar2"
      using b by (simp add: grown_def)
    have "drop (ar_position ar2) (ar_data ar2) = drop (ar_position ar2) (ar_data ar)"
      using a that by (simp add: keeps_def)
    then show ?thesis by (subst (1 2) p) (simp only: drop_drop [symmetric])
  qed
  then show ?thesis using a b t by (simp add: keeps_def grown_def)
qed

lemma moved_grown:
  assumes d: "ar_data ar = pre @ z @ bs @ r" "ar_position ar = length pre + length z + length bs"
    and z1: "length z = 1" and sz: "1 \<le> length sz" "length sz - 1 < 2 ^ 64"
    and r: "in_range ar" and zf: "zf \<longrightarrow> clean ar" and g: "growing c"
    and e1: "ensure_room c (length sz - 1) ar = (Success, ar1)"
  shows "\<exists>r1 r2. length r1 = length sz - 1
    \<and> move_up (length pre + 1) (length bs) (length sz - 1) (ar_data ar1)
        = Some ((pre @ z) @ take (length sz - 1) (bs @ r1) @ bs @ r2)
    \<and> grown c zf ar (ar1\<lparr>ar_data := pre @ sz @ bs @ r2, ar_position := ar_position ar1 + (length sz - 1)\<rparr>)
    \<and> ar_position ar1 = ar_position ar"
proof -
  let ?by = "length sz - 1"
  note er = ensure_room_spec [OF r zf g sz(2) e1]
  have room: "ar_position ar + ?by \<le> length (ar_data ar1)" using er(4) by simp
  define r1 where "r1 = take ?by (drop (ar_position ar) (ar_data ar1))"
  define r2 where "r2 = drop (ar_position ar + ?by) (ar_data ar1)"
  have r1: "length r1 = ?by" using room by (simp add: r1_def)
  have "ar_data ar1 = take (ar_position ar) (ar_data ar1) @ drop (ar_position ar) (ar_data ar1)"
    by simp
  also have "drop (ar_position ar) (ar_data ar1) = r1 @ r2"
    unfolding r1_def r2_def by (metis add.commute append_take_drop_id drop_drop)
  finally have d1: "ar_data ar1 = (pre @ z) @ bs @ r1 @ r2" using er(3) d by simp
  have mv: "move_up (length pre + 1) (length bs) ?by (ar_data ar1)
      = Some ((pre @ z) @ take ?by (bs @ r1) @ bs @ r2)"
    using move_up_message [OF r1, of "pre @ z" bs r2] z1 d1 by simp
  let ?ar = "ar1\<lparr>ar_data := pre @ sz @ bs @ r2, ar_position := ar_position ar1 + ?by\<rparr>"
  have len: "length (ar_data ?ar) = length (ar_data ar1)" using d1 r1 z1 sz(1) by simp
  have pos: "ar_position ?ar = length pre + length sz + length bs" using er(2) d(2) z1 sz(1) by simp
  have tail: "drop (ar_position ?ar) (ar_data ?ar) = r2" using pos by simp
  have "clean ?ar" if zf
  proof -
    have "clean ar1" using er(1) that by (simp add: keeps_def)
    then have "\<forall>b \<in> set (r1 @ r2). b = 0" using d1 er(2) d(2) by (simp add: clean_def)
    then show ?thesis unfolding clean_def tail by simp
  qed
  moreover have "drop (ar_position ?ar) (ar_data ?ar) = drop (ar_position ?ar) (ar_data ar)
      \<and> length (ar_data ar1) = length (ar_data ar)" if "\<not> resizable c"
  proof -
    have f: "ar1 = ar" using e1 that by (auto simp: ensure_room_def split: if_splits)
    show ?thesis unfolding tail using f pos d1 r1 z1 sz(1) by simp
  qed
  moreover have "in_range ?ar" using er(1) len pos d1 r1 z1 sz(1) by (simp add: in_range_def keeps_def)
  moreover have "grown c zf ar ar1" using er(1,2) by (auto simp: grown_def keeps_def)
  ultimately have "grown c zf ar ?ar" using len er(2) by (simp add: grown_def)
  with r1 mv er(2) show ?thesis by blast
qed

lemma fill_in_spec:
  assumes d: "ar_data ar = pre @ z @ bs @ r" "ar_position ar = length pre + length z + length bs"
    and k: "length z = size_field_length s" and n: "size_field_ok s (length bs)"
    and r: "in_range ar" and zf: "zf \<longrightarrow> clean ar" and g: "growing c" and e: "\<not> endian_aware c"
  shows "\<exists>e ar'. fill_in_size c s (length pre) ar = Some (e, ar') \<and> grown c zf ar ar'
    \<and> take (length pre) (ar_data ar') = pre \<and> out_result c e
    \<and> (e = Success \<longrightarrow> ar_position ar' = length pre + length (size_bytes c s (length bs)) + length bs
         \<and> take (ar_position ar') (ar_data ar') = pre @ size_bytes c s (length bs) @ bs)
    \<and> (roomy c (length (size_bytes c s (length bs)) - length z) ar \<longrightarrow> e = Success)"
proof (cases s)
  case (SizeFixed k')
  let ?ar = "ar\<lparr>ar_data := pre @ size_bytes c s (length bs) @ bs @ r\<rparr>"
  have l: "length (size_bytes c s (length bs)) = length z"
    using k SizeFixed by (simp add: size_bytes_def size_field_length_def)
  have "fill_in_size c s (length pre) ar = Some (Success, ?ar)"
    using fill_in_fixed [OF d _ _ r e] k n SizeFixed by (simp add: size_field_length_def size_field_ok_def)
  moreover have "grown c zf ar ?ar"
    using r zf d l by (simp add: grown_def in_range_def clean_def)
  ultimately show ?thesis using d l by simp
next
  case (SizeVarint k')
  let ?n = "length bs"
  let ?sz = "varint_bytes ?n"
  let ?by = "length ?sz - 1"
  have k': "0 < k'" "k' \<le> 8" "?n < 2 ^ (7 * k')" "?n < 2 ^ 64"
    using n SizeVarint by (simp_all add: size_field_ok_def)
  have "(2::nat) ^ (7 * k') \<le> 2 ^ (8 * k')" by (rule power_increasing) auto
  then have n8: "?n < 2 ^ (8 * k')" using k'(3) by linarith
  have z1: "length z = 1" using k SizeVarint by (simp add: size_field_length_def)
  have sb: "size_bytes c s ?n = ?sz" using n8 SizeVarint by (simp add: size_bytes_def)
  have v8: "varint_size 8 ?n = length ?sz" using k'(4) by (intro varint_size_length) simp_all
  have vk: "varint_size k' ?n = length ?sz"
    using n8 k'(1) by (intro varint_size_length) (simp_all add: mult.commute)
  have fit: "length ?sz \<le> k'" using k' by (intro varint_fits_field)
  have lt: "ar_position ar < 2 ^ 64" using r d by (simp add: in_range_def)
  have sub: "size_sub (size_sub (ar_position ar) (length pre)) (size_field_length s) = ?n"
    using d(2) z1 k lt by (simp add: size_sub_le)
  have wr: "write_size_at s (length pre) ?n ar1 = Some (Success, ar1\<lparr>ar_data := pre @ ?sz @ bs @ q\<rparr>)"
    if "ar_data ar1 = pre @ y @ bs @ q" "length y = length ?sz" for ar1 y q
    using that vk fit n8 SizeVarint
    by (simp add: write_size_at_def varint_loop_writes overwrite_mid)
  show ?thesis
  proof (cases "?by = 0")
    case True
    then have l: "length ?sz = 1" using length_varint_bytes_pos [of ?n] by linarith
    let ?ar = "ar\<lparr>ar_data := pre @ ?sz @ bs @ r\<rparr>"
    have "fill_in_size c s (length pre) ar = Some (Success, ?ar)"
      using SizeVarint sub v8 True wr [OF d(1)] l z1
      by (simp add: fill_in_size_def then_out_def make_way_def failure_def)
    moreover have "grown c zf ar ?ar"
      using r zf d l z1 by (simp add: grown_def in_range_def clean_def)
    ultimately show ?thesis using d l sb z1 by simp
  next
    case False
    obtain e1 ar1 where e1: "ensure_room c ?by ar = (e1, ar1)" by (cases "ensure_room c ?by ar")
    have by64: "?by < 2 ^ 64" using fit k' by (simp add: order_le_less_trans)
    note er = ensure_room_spec [OF r zf g by64 e1]
    have pre1: "take (ar_position ar) (ar_data ar1) = pre @ z @ bs"
      using er(3) d by simp
    then have pre2: "take (length pre) (ar_data ar1) = pre"
      using d(2) by (metis append_eq_conv_conj le_add1 min.absorb1 take_take add.assoc)
    have g1: "grown c zf ar ar1" using er(1,2) by (auto simp: grown_def keeps_def)
    have mk: "fill_in_size c s (length pre) ar = then_out
        (after_room (ensure_room c ?by) (\<lambda>ar. map_option (\<lambda>d. (Success, ar\<lparr>ar_data := d,
              ar_position := ar_position ar + ?by\<rparr>)) (move_up (length pre + 1) ?n ?by (ar_data ar))))
        (write_size_at s (length pre) ?n) ar"
      using SizeVarint sub v8 False by (simp add: fill_in_size_def make_way_def then_out_def Let_def)
    show ?thesis
    proof (cases "failure e1")
      case True
      then have "fill_in_size c s (length pre) ar = Some (e1, ar1)"
        unfolding mk using e1 by (simp add: then_out_def after_room_def)
      moreover have "\<not> roomy c (length (size_bytes c s ?n) - length z) ar"
        using ensure_room_roomy [OF r g, of ?by] e1 True sb z1 by (auto simp: failure_def)
      ultimately show ?thesis using g1 pre2 er(5) True by (auto simp: failure_def)
    next
      case False
      then have s1: "e1 = Success" by (simp add: failure_def)
      obtain r1 r2 where r1: "length r1 = ?by"
        and mv: "move_up (length pre + 1) ?n ?by (ar_data ar1)
          = Some ((pre @ z) @ take ?by (bs @ r1) @ bs @ r2)"
        and gr: "grown c zf ar (ar1\<lparr>ar_data := pre @ ?sz @ bs @ r2, ar_position := ar_position ar1 + ?by\<rparr>)"
        using moved_grown [OF d z1 length_varint_bytes_pos by64 r zf g] e1 s1 by blast
      let ?d = "pre @ (z @ take ?by (bs @ r1)) @ bs @ r2"
      let ?ar = "ar1\<lparr>ar_data := pre @ ?sz @ bs @ r2, ar_position := ar_position ar1 + ?by\<rparr>"
      have ly: "length (z @ take ?by (bs @ r1)) = length ?sz"
        using z1 r1 length_varint_bytes_pos [of ?n] by simp
      have res: "fill_in_size c s (length pre) ar = Some (Success, ?ar)"
        unfolding mk
        using e1 False mv wr [of "ar1\<lparr>ar_data := ?d, ar_position := ar_position ar1 + ?by\<rparr>"
            "z @ take ?by (bs @ r1)" r2] ly
        by (simp add: then_out_def after_room_def failure_def)
      have pos: "ar_position ?ar = length pre + length ?sz + ?n"
        using er(2) d(2) z1 length_varint_bytes_pos [of ?n] by simp
      from gr show ?thesis using res pos sb by simp
    qed
  qed
qed

lemma emits_protocol:
  assumes g: "growing c" and e: "\<not> endian_aware c" and n: "size_field_ok s (length bs)"
    and p: "emits c zf ok bs protocol"
  shows "emits c zf ok (size_bytes c s (length bs) @ bs) (serialize_protocol_out c (Some s) protocol)"
  unfolding emits_def
proof (intro allI impI)
  fix ar
  let ?sb = "size_bytes c s (length bs)"
  assume r: "in_range ar" and z: "zf \<longrightarrow> clean ar" and l: "length (?sb @ bs) < 2 ^ 64"
  let ?z = "size_bytes c s 0" and ?pre = "take (ar_position ar) (ar_data ar)"
  have zl: "length ?z = size_field_length s" "length ?z \<le> length ?sb"
    using n length_varint_bytes_pos [of "length bs mod _"]
    by (auto simp: size_bytes_def size_field_length_def varint_bytes_zero split: size_type.split)
  have pl: "length ?pre = ar_position ar" using r by (simp add: in_range_def)
  have "emits c zf True ?z (put_size c s 0)"
    using n by (intro emits_put_size [OF g]) (auto simp: size_field_ok_def split: size_type.splits)
  from emits_then [OF this p] have "emits c zf ok (?z @ bs) (then_out (put_size c s 0) protocol)"
    by simp
  then obtain e1 ar2 where a: "then_out (put_size c s 0) protocol ar = Some (e1, ar2)"
    "keeps c zf ar ar2" "e1 = Success \<longrightarrow> ok \<and> appended (?z @ bs) ar ar2"
    "ok \<longrightarrow> roomy c (length (?z @ bs)) ar \<longrightarrow> e1 = Success" "ok \<longrightarrow> out_result c e1"
    using r z l zl(2) unfolding emits_def by fastforce
  have seq: "serialize_protocol_out c (Some s) protocol ar =
      then_out (then_out (put_size c s 0) protocol) (fill_in_size c s (ar_position ar)) ar"
    by (simp add: serialize_protocol_out_def then_out_def split: option.split)
  show "\<exists>e ar'. serialize_protocol_out c (Some s) protocol ar = Some (e, ar') \<and> keeps c zf ar ar'
      \<and> (e = Success \<longrightarrow> ok \<and> appended (?sb @ bs) ar ar')
      \<and> (ok \<longrightarrow> roomy c (length (?sb @ bs)) ar \<longrightarrow> e = Success)
      \<and> (ok \<longrightarrow> out_result c e)"
  proof (cases "failure e1")
    case True
    have "roomy c (length (?sb @ bs)) ar \<longrightarrow> roomy c (length (?z @ bs)) ar"
      using roomy_mono zl(2) by auto
    then show ?thesis using a True unfolding seq then_out_def [of "then_out _ _"]
      by (auto simp: failure_def)
  next
    case False
    then have s1: "e1 = Success" by (simp add: failure_def)
    then have ok: ok and ap: "appended (?z @ bs) ar ar2" using a(3) by auto
    have d: "ar_data ar2 = ?pre @ ?z @ bs @ drop (ar_position ar2) (ar_data ar2)"
      using ap append_take_drop_id [of "ar_position ar2" "ar_data ar2"]
      unfolding appended_def by (metis append_assoc)
    have ps: "ar_position ar2 = length ?pre + length ?z + length bs"
      using ap pl by (simp add: appended_def)
    have r2: "in_range ar2" and z2: "zf \<longrightarrow> clean ar2" using a(2) by (auto simp: keeps_def)
    from fill_in_spec [OF d ps zl(1) n r2 z2 g e] obtain e3 ar3 where
      f: "fill_in_size c s (ar_position ar) ar2 = Some (e3, ar3)" "grown c zf ar2 ar3"
        "take (ar_position ar) (ar_data ar3) = ?pre" "out_result c e3"
        "e3 = Success \<longrightarrow> ar_position ar3 = ar_position ar + length ?sb + length bs
           \<and> take (ar_position ar3) (ar_data ar3) = ?pre @ ?sb @ bs"
        "roomy c (length ?sb - length ?z) ar2 \<longrightarrow> e3 = Success"
      unfolding pl by blast
    have "serialize_protocol_out c (Some s) protocol ar = Some (e3, ar3)"
      unfolding seq then_out_def [of "then_out _ _"] using a(1) f(1) False by simp
    moreover have "keeps c zf ar ar3" using a(2) f(2,3) by (rule grown_keeps)
    moreover have "appended (?sb @ bs) ar ar3" if "e3 = Success"
      using f(5) that unfolding appended_def by (metis add.assoc length_append)
    moreover have "e3 = Success" if "roomy c (length (?sb @ bs)) ar"
    proof -
      have "length (?sb @ bs) = length (?z @ bs) + (length ?sb - length ?z)" using zl(2) by simp
      then have "roomy c (length ?sb - length ?z) ar2"
        using that roomy_right [OF _ ap a(2)] by metis
      then show ?thesis using f(6) by simp
    qed
    ultimately show ?thesis using ok f(4) by blast
  qed
qed

section \<open>The serializer's promises\<close>

lemma out_call_spec:
  assumes f: "emits c z ok bs f" and r: "in_range ar" and z: "z \<longrightarrow> clean ar"
    and l: "length bs < 2 ^ 64"
  shows "\<exists>e ar'. out_call c f ar = Some (e, ar') \<and> in_range ar'
    \<and> take (ar_position ar) (ar_data ar') = take (ar_position ar) (ar_data ar)
    \<and> (e = Success \<longrightarrow> ok \<and> appended bs ar ar')
    \<and> (ok \<longrightarrow> roomy c (length bs) ar \<longrightarrow> e = Success)"
proof -
  obtain e ar1 where a: "f ar = Some (e, ar1)" "keeps c z ar ar1" "e = Success \<longrightarrow> ok \<and> appended bs ar ar1"
    "ok \<longrightarrow> roomy c (length bs) ar \<longrightarrow> e = Success"
    using f r z l unfolding emits_def by blast
  have k: "ar_position ar1 \<le> length (ar_data ar1)" "length (ar_data ar1) < 2 ^ 64"
    "ar_position ar \<le> ar_position ar1"
    using a(2) by (auto simp: keeps_def in_range_def)
  let ?t = "ar1\<lparr>ar_data := resize (ar_position ar1) (ar_data ar1)\<rparr>"
  have t: "in_range ?t" "take (ar_position ar) (ar_data ?t) = take (ar_position ar) (ar_data ar)"
    using a(2) k by (auto simp: in_range_def keeps_def take_resize)
  have "e = Success \<longrightarrow> appended bs ar ?t"
    using a(3) k by (auto simp: appended_def resize_def)
  then show ?thesis
    using a k t by (auto simp: out_call_def Let_def keeps_def split: if_splits)
qed

text \<open>
  C11. Round trip of the values that both sides can handle: \<open>out\<close> succeeds and appends the
  reference encoding behind what the buffer held, and \<open>in\<close> with the same options reads the same
  value back at that position and stops where \<open>out\<close> stopped. This is for a type that compiles
  and a value of it that has no null owning pointer and no valueless variant (\<open>sendable\<close>), and
  whose containers fit (\<open>fits\<close>): every size is below the limit of its size field, of the
  allocation and of \<open>max_size()\<close>, a container without a size field has the length of the one it
  is read into, a view has a size field. The options let the buffer grow (\<open>growing\<close>), there is
  room for the encoding (\<open>roomy\<close>), and when the type
  has a bitset the bytes behind the position are zero. A size that does not fit is truncated
  (\<open>serializer_size_truncated\<close>), and bits that are left in the buffer stay set
  (\<open>bitset_keeps_old_bits\<close>).
\<close>

theorem serializer_roundtrip:
  assumes "growing c" "wf_type c t" "has_type c t v" "sendable t v" "fits c so t v"
    and "in_range ar" "has_bitset t \<longrightarrow> clean ar" "length (encode c t v) < 2 ^ 64"
    and "roomy c (length (encode c t v)) ar"
  shows "\<exists>ar'. out_call c (serialize_out c t v) ar = Some (Success, ar')
    \<and> processed_data ar' = Some (take (ar_position ar) (ar_data ar) @ encode c t v)
    \<and> serialize_in c so t (ar_data ar') (ar_position ar) = Some (Inr (v, ar_position ar'))"
proof -
  have "emits c (has_bitset t) (sendable t v) (encode c t v) (serialize_out c t v)"
    by (rule emits_serialize_out) (use assms in auto)
  from out_call_spec [OF this assms(6,7,8)] assms(4,9) obtain ar' where
    o: "out_call c (serialize_out c t v) ar = Some (Success, ar')" "in_range ar'"
      "appended (encode c t v) ar ar'" by auto
  let ?p = "take (ar_position ar) (ar_data ar)" and ?r = "drop (ar_position ar') (ar_data ar')"
  have p: "length ?p = ar_position ar" using assms(6) by (simp add: in_range_def)
  have t: "take (ar_position ar') (ar_data ar') = ?p @ encode c t v"
    using o(3) unfolding appended_def by blast
  have d: "ar_data ar' = ?p @ encode c t v @ ?r"
    using t append_take_drop_id [of "ar_position ar'" "ar_data ar'"] by (metis append_assoc)
  have pr: "processed_data ar' = Some (?p @ encode c t v)"
    using o(2) t by (simp add: processed_data_def mem_read_def slice_of_def in_range_def)
  have "loads (serialize_in c so t) (encode c t v) v" using assms(2-5) by (rule loads_serialize_in)
  moreover have "length (?p @ encode c t v @ ?r) < 2 ^ 64"
    unfolding d [symmetric] using o(2) by (simp add: in_range_def)
  ultimately have "serialize_in c so t (?p @ encode c t v @ ?r) (length ?p)
      = Some (Inr (v, length ?p + length (encode c t v)))"
    unfolding loads_def by blast
  then have "serialize_in c so t (ar_data ar') (ar_position ar) = Some (Inr (v, ar_position ar'))"
    unfolding d [symmetric] p using o(3) by (simp add: appended_def)
  with o(1) pr show ?thesis by blast
qed

theorem serializer_roundtrip_witness:
  "\<exists>ar'. out_call \<lparr>resizable = True, options = [OptEndianSwapped]\<rparr>
       (serialize_out \<lparr>resizable = True, options = [OptEndianSwapped]\<rparr>
         (TTuple [TInt 4, TOptional TByte]) (VList [VInt 258, VOpt (Some (VInt 7))]))
       \<lparr>ar_data = [1, 2], ar_position = 1\<rparr> = Some (Success, ar')
    \<and> processed_data ar' = Some [1, 0, 0, 1, 2, 1, 7]"
proof -
  let ?c = "\<lparr>resizable = True, options = [OptEndianSwapped]\<rparr>"
  let ?t = "TTuple [TInt 4, TOptional TByte]" and ?v = "VList [VInt 258, VOpt (Some (VInt 7))]"
  have e: "encode ?c ?t ?v = [0, 0, 1, 2, 1, 7]"
    by code_simp
  have h: "growing ?c" by (simp add: growing_def no_enlarge_overflow_def)
  have ty: "wf_type ?c ?t" "has_type ?c ?t ?v" "sendable ?t ?v" "fits ?c (\<lambda>_. 1) ?t ?v"
    by (simp_all add: elems_of_def all_fields_def)
  have r: "in_range \<lparr>ar_data = [1, 2], ar_position = 1\<rparr>" by (simp add: in_range_def)
  have b: "has_bitset ?t \<longrightarrow> clean \<lparr>ar_data = [1, 2], ar_position = 1\<rparr>" by simp
  have l: "length (encode ?c ?t ?v) < 2 ^ 64" unfolding e by simp
  have m: "roomy ?c (length (encode ?c ?t ?v)) \<lparr>ar_data = [1, 2], ar_position = 1\<rparr>"
    unfolding e by (simp add: roomy_def max_object_size_def size_max_def)
  from serializer_roundtrip [OF h ty r b l m]
  show ?thesis unfolding e by auto
qed

text \<open>
  C14. A fixed buffer is never overrun: writing a value succeeds exactly when its encoding
  fits in what is left, otherwise the error is \<open>result_out_of_range\<close>; in both cases the
  buffer keeps its length, everything before the position and everything behind where the
  writing stopped.
\<close>

theorem serializer_fixed_buffer:
  assumes "\<not> resizable c" "growing c" "wf_type c t" "has_type c t v" "sendable t v"
    and "in_range ar" "has_bitset t \<longrightarrow> clean ar" "length (encode c t v) < 2 ^ 64"
  shows "\<exists>e ar'. serialize_out c t v ar = Some (e, ar')
    \<and> (e = (if ar_position ar + length (encode c t v) \<le> length (ar_data ar) then Success
            else ResultOutOfRange))
    \<and> length (ar_data ar') = length (ar_data ar) \<and> ar_position ar' \<le> length (ar_data ar)
    \<and> take (ar_position ar) (ar_data ar') = take (ar_position ar) (ar_data ar)
    \<and> drop (ar_position ar') (ar_data ar') = drop (ar_position ar') (ar_data ar)"
proof -
  have "emits c (has_bitset t) (sendable t v) (encode c t v) (serialize_out c t v)"
    by (rule emits_serialize_out) (use assms in auto)
  then obtain e ar' where a: "serialize_out c t v ar = Some (e, ar')" "keeps c (has_bitset t) ar ar'"
    "e = Success \<longrightarrow> appended (encode c t v) ar ar'"
    "roomy c (length (encode c t v)) ar \<longrightarrow> e = Success" "out_result c e"
    using assms(5-8) unfolding emits_def by blast
  have k: "length (ar_data ar') = length (ar_data ar)" "ar_position ar' \<le> length (ar_data ar')"
    using a(2) assms(1) by (auto simp: keeps_def in_range_def)
  have "e = (if ar_position ar + length (encode c t v) \<le> length (ar_data ar) then Success
            else ResultOutOfRange)"
  proof (cases "ar_position ar + length (encode c t v) \<le> length (ar_data ar)")
    case True
    then show ?thesis using a(4) assms(1) by (simp add: roomy_def)
  next
    case False
    then have "e \<noteq> Success" using a(3) k by (auto simp: appended_def)
    then show ?thesis using False a(5) assms(1) by (simp add: out_result_def)
  qed
  then show ?thesis using a(1,2) k assms(1) by (auto simp: keeps_def)
qed

theorem serializer_fixed_buffer_witness:
  "(\<exists>e ar'. serialize_out \<lparr>resizable = False, options = []\<rparr> (TInt 4) (VInt 258)
       \<lparr>ar_data = [1, 2, 3], ar_position = 0\<rparr> = Some (e, ar') \<and> e = ResultOutOfRange)
   \<and> (\<exists>e ar'. serialize_out \<lparr>resizable = False, options = []\<rparr> (TInt 2) (VInt 258)
       \<lparr>ar_data = [1, 2, 3], ar_position = 1\<rparr> = Some (e, ar') \<and> e = Success)"
proof -
  let ?c = "\<lparr>resizable = False, options = []\<rparr>"
  have g: "\<not> resizable ?c" "growing ?c" by (simp_all add: growing_def no_enlarge_overflow_def)
  show ?thesis
    using serializer_fixed_buffer [OF g, of "TInt 4" "VInt 258" "\<lparr>ar_data = [1, 2, 3], ar_position = 0\<rparr>"]
      serializer_fixed_buffer [OF g, of "TInt 2" "VInt 258" "\<lparr>ar_data = [1, 2, 3], ar_position = 1\<rparr>"]
    by (auto simp: in_range_def)
qed

text \<open>
  C12. Reading is safe on any bytes: for every type and every input, \<open>in\<close> reads only inside its
  data, never moves backwards or beyond the end, and ends with an error or with a value of
  the type it was asked for.
\<close>

theorem serializer_in_safe:
  assumes "wf_type c t" "p \<le> length d" "length d < 2 ^ 64"
  shows "(\<exists>e q. serialize_in c so t d p = Some (Inl (e, q)) \<and> e \<noteq> Success \<and> p \<le> q \<and> q \<le> length d)
    \<or> (\<exists>v q. serialize_in c so t d p = Some (Inr (v, q)) \<and> has_type c t v \<and> p \<le> q \<and> q \<le> length d)"
  using load_safe_serialize_in [OF assms(1), of so] assms(2,3) unfolding load_safe_def by blast

theorem serializer_in_safe_witness:
  "serialize_in \<lparr>resizable = False, options = []\<rparr> (\<lambda>_. 1)
     (TSeq Growable DefaultSize True 0 TByte) [2, 0, 0, 0, 9] 0 \<noteq> None
   \<and> serialize_in \<lparr>resizable = False, options = []\<rparr> (\<lambda>_. 1)
     (TSeq Growable DefaultSize True 0 TByte) [2, 0, 0, 0, 9] 0 = Some (Inl (ResultOutOfRange, 4))"
proof -
  let ?c = "\<lparr>resizable = False, options = []\<rparr>" and ?t = "TSeq Growable DefaultSize True 0 TByte"
  have "wf_type ?c ?t" by (simp add: wf_size_def size_type_of_def)
  then have "serialize_in ?c (\<lambda>_. 1) ?t [2, 0, 0, 0, 9] 0 \<noteq> None"
    using serializer_in_safe [of ?c ?t 0 "[2, 0, 0, 0, 9]" "\<lambda>_. 1"] by (auto simp del: serialize_in.simps)
  moreover have "get_size ?c (SizeFixed 4) [2, 0, 0, 0, 9] 0 = Some (Inr (2, 4))"
    by (simp add: get_size_def get_number_def bind_in_def get_bytes_def size_sub_def mem_read_def
        slice_of_def return_in_def endian_aware_def le_nat_def be_nat_def)
  ultimately show ?thesis
    by (simp add: size_type_of_def bind_in_def resize_to_def size_max_def max_object_size_def return_in_def
        fail_in_def size_of_def serialize_as_bytes_def in_elements_def get_block_def get_bytes_def size_sub_def)
qed

text \<open>
  A container longer than its size field can count is sent without an error and read back
  cut: with a size of \<open>k\<close> bytes the reader takes the length modulo \<open>2 ^ (8 k)\<close> elements and
  stops there, in front of the rest of the elements.
\<close>

theorem serializer_size_truncated:
  assumes "size_type_of c spec = Some (SizeFixed k)" "0 < k" "growing c"
    and "list_all (has_type c TByte) vs" "m = length vs mod 2 ^ (8 * k)"
    and "m \<le> max_object_size" "alloc_limit (options c) = size_max"
    and "in_range ar" "k + length vs < 2 ^ 64" "roomy c (k + length vs) ar"
  shows "\<exists>ar'. out_call c (serialize_out c (TSeq Growable spec True cur TByte) (VList vs)) ar = Some (Success, ar')
    \<and> ar_position ar' = ar_position ar + k + length vs
    \<and> serialize_in c so (TSeq Growable spec True cur TByte) (ar_data ar') (ar_position ar)
        = Some (Inr (VList (take m vs), ar_position ar + k + m))"
proof -
  let ?t = "TSeq Growable spec True cur TByte"
  let ?enc = "\<lambda>vs. concat (map (encode c TByte) vs)"
  have le: "length (?enc vs) = length vs" for vs
    using length_concat_const [of vs "encode c TByte" 1] by simp
  have e: "encode c ?t (VList vs) = number_bytes c k m @ ?enc vs"
    using assms(1,5) by (simp add: elems_of_def size_prefix_def size_bytes_def)
  have "emits c False (sendable ?t (VList vs)) (encode c ?t (VList vs)) (serialize_out c ?t (VList vs))"
    using assms by (intro emits_serialize_out) (auto simp: wf_size_def)
  moreover have "sendable ?t (VList vs)" by (simp add: elems_of_def list_all_iff)
  moreover have "length (encode c ?t (VList vs)) = k + length vs" unfolding e using le by simp
  ultimately obtain ar' where o: "out_call c (serialize_out c ?t (VList vs)) ar = Some (Success, ar')"
    "in_range ar'" "appended (encode c ?t (VList vs)) ar ar'"
    using out_call_spec [of c False _ "encode c ?t (VList vs)" _ ar] assms(8-10) by auto
  have m: "m \<le> length vs" using assms(5) by simp
  let ?p = "take (ar_position ar) (ar_data ar)" and ?r = "drop (ar_position ar') (ar_data ar')"
  have p: "length ?p = ar_position ar" using assms(8) by (simp add: in_range_def)
  have tk: "take (ar_position ar') (ar_data ar') = ?p @ encode c ?t (VList vs)"
    using o(3) unfolding appended_def by blast
  have en: "encode c ?t (VList vs) = encode c ?t (VList (take m vs)) @ ?enc (drop m vs)"
  proof -
    have "?enc vs = ?enc (take m vs) @ ?enc (drop m vs)"
      by (simp only: concat_append [symmetric] map_append [symmetric] append_take_drop_id)
    moreover have "m mod 2 ^ (8 * k) = m" using assms(5) by simp
    ultimately show ?thesis
      using m assms(1,5) unfolding e by (simp add: elems_of_def size_prefix_def size_bytes_def min_absorb2)
  qed
  have d: "ar_data ar' = ?p @ encode c ?t (VList (take m vs)) @ (?enc (drop m vs) @ ?r)"
    using tk append_take_drop_id [of "ar_position ar'" "ar_data ar'"] unfolding en by (metis append_assoc)
  have "m < 2 ^ (8 * k)" using assms(5) by simp
  then have "fits c so ?t (VList (take m vs))"
    using m assms(1,6,7) by (simp add: elems_of_def size_fits_def min_absorb2 size_of_def list_all_iff)
  moreover have "has_type c ?t (VList (take m vs))"
    using assms(1,4) by (auto simp: list_all_iff dest: in_set_takeD)
  moreover have "sendable ?t (VList (take m vs))" "wf_type c ?t"
    using assms(1,2) by (simp_all add: elems_of_def list_all_iff wf_size_def)
  ultimately have "loads (serialize_in c so ?t) (encode c ?t (VList (take m vs))) (VList (take m vs))"
    by (intro loads_serialize_in)
  moreover have "length (?p @ encode c ?t (VList (take m vs)) @ (?enc (drop m vs) @ ?r)) < 2 ^ 64"
    unfolding d [symmetric] using o(2) by (simp add: in_range_def)
  ultimately have "serialize_in c so ?t (?p @ encode c ?t (VList (take m vs)) @ (?enc (drop m vs) @ ?r))
      (length ?p) = Some (Inr (VList (take m vs), length ?p + length (encode c ?t (VList (take m vs)))))"
    unfolding loads_def by blast
  then have "serialize_in c so ?t (ar_data ar') (length ?p)
      = Some (Inr (VList (take m vs), length ?p + length (encode c ?t (VList (take m vs)))))"
    unfolding d [symmetric] .
  moreover have "length (encode c ?t (VList (take m vs))) = k + m"
    using m le [of "take m vs"] assms(1) by (simp add: elems_of_def size_prefix_def size_bytes_def)
  moreover have "ar_position ar' = ar_position ar + k + length vs"
    using o(3) le [of vs] unfolding appended_def e by simp
  ultimately show ?thesis using o(1) unfolding p by (auto simp: add.assoc)
qed

theorem serializer_size_truncated_witness:
  "\<exists>ar'. out_call \<lparr>resizable = True, options = [OptSize (Some (SizeFixed 1))]\<rparr>
      (serialize_out \<lparr>resizable = True, options = [OptSize (Some (SizeFixed 1))]\<rparr>
        (TSeq Growable DefaultSize True 0 TByte) (VList (replicate 257 (VInt 7))))
      \<lparr>ar_data = [], ar_position = 0\<rparr> = Some (Success, ar')
    \<and> ar_position ar' = 258
    \<and> serialize_in \<lparr>resizable = True, options = [OptSize (Some (SizeFixed 1))]\<rparr> (\<lambda>_. 1)
        (TSeq Growable DefaultSize True 0 TByte) (ar_data ar') 0 = Some (Inr (VList [VInt 7], 2))"
proof -
  let ?c = "\<lparr>resizable = True, options = [OptSize (Some (SizeFixed 1))]\<rparr>"
  have h1: "size_type_of ?c DefaultSize = Some (SizeFixed 1)" by (simp add: size_type_of_def)
  have h3: "growing ?c" by (simp add: growing_def no_enlarge_overflow_def)
  have h4: "list_all (has_type ?c TByte) (replicate 257 (VInt 7))" by (simp add: list_all_iff)
  have h5: "(1::nat) = length (replicate 257 (VInt 7)) mod 2 ^ (8 * 1)" by simp
  have h6: "1 \<le> max_object_size" "alloc_limit (options ?c) = size_max" by (simp_all add: max_object_size_def)
  have h8: "in_range \<lparr>ar_data = [], ar_position = 0\<rparr>" by (simp add: in_range_def)
  have h9: "1 + length (replicate 257 (VInt 7)) < 2 ^ 64" by simp
  have h10: "roomy ?c (1 + length (replicate 257 (VInt 7))) \<lparr>ar_data = [], ar_position = 0\<rparr>"
    by (simp add: roomy_def max_object_size_def size_max_def)
  have h2: "(0::nat) < 1" by simp
  from serializer_size_truncated [OF h1 h2 h3 h4 h5 h6 h8 h9 h10, of 0 "\<lambda>_. 1"]
  show ?thesis by (auto simp: take_replicate simp del: serialize_in.simps serialize_out.simps)
qed

text \<open>
  A bit set is or-ed into the bytes that are in the buffer: written where there is room,
  what is read back has every bit that was sent and every bit that the buffer held before, so
  only a buffer of zeros gives the value back.
\<close>

theorem bitset_keeps_old_bits:
  assumes "ar_position ar + (length bits + 7) div 8 \<le> length (ar_data ar)" "in_range ar"
  shows "\<exists>ar'. serialize_out c (TBitset (length bits)) (VBits bits) ar = Some (Success, ar')
    \<and> serialize_in c so (TBitset (length bits)) (ar_data ar') (ar_position ar)
      = Some (Inr (VBits (map (\<lambda>i. bits ! i \<or> bit (ar_data ar ! (ar_position ar + i div 8)) (i mod 8))
          [0..<length bits]), ar_position ar'))"
proof -
  let ?p = "ar_position ar" and ?n = "(length bits + 7) div 8"
  have room: "ensure_room c ?n ar = (Success, ar)"
    using assms size_sub_in_range [OF assms(2)] by (auto simp: ensure_room_def enlarge_for_def)
  obtain d where d: "or_bits bits 0 ?p (ar_data ar) = Some d" "length d = length (ar_data ar)"
    "\<forall>q < length (ar_data ar). \<forall>m < 8. bit (d ! q) m \<longleftrightarrow>
        bit (ar_data ar ! q) m \<or> (\<exists>k < length bits. q = ?p + k div 8 \<and> m = k mod 8 \<and> bits ! k)"
    using or_bits_spec [of ?p 0 bits "ar_data ar"] assms(1) by auto
  let ?ar = "ar\<lparr>ar_data := d, ar_position := ?p + ?n\<rparr>"
  have out: "serialize_out c (TBitset (length bits)) (VBits bits) ar = Some (Success, ?ar)"
    using d(1) room by (simp add: put_bits_def after_room_def copy_bits_def failure_def)
  have get: "get_bytes ?n d ?p = Some (Inr (slice_of ?p ?n d, ?p + ?n))"
    using assms(1) d(2) size_sub_in_range [OF assms(2)] by (simp add: get_bytes_def mem_read_def)
  have old: "bit (slice_of ?p ?n d ! (i div 8)) (i mod 8)
      \<longleftrightarrow> bits ! i \<or> bit (ar_data ar ! (?p + i div 8)) (i mod 8)" if i: "i < length bits" for i
  proof -
    have b: "i div 8 < ?n" using i by (rule bit_byte_in_range)
    then have "slice_of ?p ?n d ! (i div 8) = d ! (?p + i div 8)"
      using assms(1) d(2) by (simp add: slice_of_def)
    moreover have "?p + i div 8 < length (ar_data ar)" using b assms(1) by linarith
    moreover have "(\<exists>k < length bits. ?p + i div 8 = ?p + k div 8 \<and> i mod 8 = k mod 8 \<and> bits ! k)
        \<longleftrightarrow> bits ! i"
    proof
      assume "\<exists>k < length bits. ?p + i div 8 = ?p + k div 8 \<and> i mod 8 = k mod 8 \<and> bits ! k"
      then obtain k where "i div 8 = k div 8" "i mod 8 = k mod 8" "bits ! k" by auto
      moreover from this have "i = k" by (metis mult_div_mod_eq)
      ultimately show "bits ! i" by simp
    qed (use i in blast)
    ultimately show ?thesis using d(3) by simp blast
  qed
  have "serialize_in c so (TBitset (length bits)) d ?p = Some (Inr (VBits (map (\<lambda>i. bits ! i
      \<or> bit (ar_data ar ! (?p + i div 8)) (i mod 8)) [0..<length bits]), ?p + ?n))"
    using get old by (simp add: get_bits_def bind_in_def return_in_def bit_iff_and_drop_bit_eq_1 [symmetric])
  with out show ?thesis by (intro exI [of _ ?ar]) simp
qed

theorem bitset_keeps_old_bits_witness:
  "\<exists>ar'. serialize_out \<lparr>resizable = False, options = []\<rparr> (TBitset 2) (VBits [False, False])
      \<lparr>ar_data = [3], ar_position = 0\<rparr> = Some (Success, ar')
    \<and> serialize_in \<lparr>resizable = False, options = []\<rparr> (\<lambda>_. 1) (TBitset 2) (ar_data ar') 0
      = Some (Inr (VBits [True, True], ar_position ar'))"
proof -
  have b: "bit (3::byte) 0" "bit (3::byte) 1" by (simp_all add: bit_1_iff)
  have "ar_position \<lparr>ar_data = [3], ar_position = 0\<rparr> + (length [False, False] + 7) div 8
      \<le> length (ar_data \<lparr>ar_data = [3], ar_position = 0\<rparr>)"
    "in_range \<lparr>ar_data = [3], ar_position = 0\<rparr>" by (simp_all add: in_range_def)
  from bitset_keeps_old_bits [OF this, of "\<lparr>resizable = False, options = []\<rparr>" "\<lambda>_. 1"]
  show ?thesis using b by (simp del: serialize_out.simps serialize_in.simps add: numeral_2_eq_2)
qed

text \<open>
  C15. An item with a protocol of its own comes back, in an archive that does not swap the byte
  order (one that does writes the size unswapped, \<open>protocol_size_not_swapped\<close>): when the
  protocol writes a message that its reader reads (\<open>emits\<close>, \<open>loads\<close>), whose size the size field can
  hold and for which there is room, the serializer puts the message's exact size in front of
  it, in a field of fixed width or in a varint for which it moves the message up, and reading
  the size and then the message gives the item and ends where writing ended. When the
  protocol needs a clean buffer, the bytes behind the position are zero.
\<close>

theorem protocol_roundtrip:
  assumes "growing c" "\<not> endian_aware c" "size_field_ok s (length bs)"
    and "emits c z True bs protocol" "loads (protocol_in (Some (length bs))) bs v"
    and "in_range ar" "z \<longrightarrow> clean ar" "length (size_bytes c s (length bs) @ bs) < 2 ^ 64"
    and "roomy c (length (size_bytes c s (length bs) @ bs)) ar"
  shows "\<exists>ar'. out_call c (serialize_protocol_out c (Some s) protocol) ar = Some (Success, ar')
    \<and> processed_data ar' = Some (take (ar_position ar) (ar_data ar) @ size_bytes c s (length bs) @ bs)
    \<and> serialize_protocol_in c (Some s) protocol_in (ar_data ar') (ar_position ar)
        = Some (Inr (v, ar_position ar'))"
proof -
  let ?enc = "size_bytes c s (length bs) @ bs"
  from out_call_spec [OF emits_protocol [OF assms(1-4)] assms(6-8)] assms(9) obtain ar' where
    o: "out_call c (serialize_protocol_out c (Some s) protocol) ar = Some (Success, ar')"
      "in_range ar'" "appended ?enc ar ar'" by auto
  let ?p = "take (ar_position ar) (ar_data ar)" and ?r = "drop (ar_position ar') (ar_data ar')"
  have p: "length ?p = ar_position ar" using assms(6) by (simp add: in_range_def)
  have t: "take (ar_position ar') (ar_data ar') = ?p @ ?enc" using o(3) unfolding appended_def by blast
  have d: "ar_data ar' = ?p @ ?enc @ ?r"
    using t append_take_drop_id [of "ar_position ar'" "ar_data ar'"] by (metis append_assoc)
  have pr: "processed_data ar' = Some (?p @ ?enc)"
    using o(2) t by (simp add: processed_data_def mem_read_def slice_of_def in_range_def)
  have k: "(2::nat) ^ (7 * k) \<le> 2 ^ (8 * k)" for k by (rule power_increasing) auto
  have "loads (get_size c s) (size_bytes c s (length bs)) (length bs)"
    using assms(3) k
    by (intro loads_get_size) (auto simp: size_field_ok_def split: size_type.splits intro: order_less_le_trans)
  from loads_bind [OF this, of "\<lambda>n. protocol_in (Some n)", OF assms(5)]
  have "loads (serialize_protocol_in c (Some s) protocol_in) ?enc v"
    by (simp add: serialize_protocol_in_def)
  moreover have "length (?p @ ?enc @ ?r) < 2 ^ 64"
    unfolding d [symmetric] using o(2) by (simp add: in_range_def)
  ultimately have "serialize_protocol_in c (Some s) protocol_in (?p @ ?enc @ ?r) (length ?p)
      = Some (Inr (v, length ?p + length ?enc))"
    unfolding loads_def by blast
  then have "serialize_protocol_in c (Some s) protocol_in (ar_data ar') (ar_position ar)
      = Some (Inr (v, ar_position ar'))"
    unfolding d [symmetric] p using o(3) by (simp add: appended_def)
  with o(1) pr show ?thesis by blast
qed

theorem protocol_roundtrip_witness:
  "\<exists>ar'. out_call \<lparr>resizable = True, options = []\<rparr>
      (serialize_protocol_out \<lparr>resizable = True, options = []\<rparr> (Some (SizeVarint 8))
        (serialize_out \<lparr>resizable = True, options = []\<rparr> (TArray 130 TByte) (VList (replicate 130 (VInt 7)))))
      \<lparr>ar_data = [], ar_position = 0\<rparr> = Some (Success, ar')
    \<and> serialize_protocol_in \<lparr>resizable = True, options = []\<rparr> (Some (SizeVarint 8))
        (\<lambda>_. serialize_in \<lparr>resizable = True, options = []\<rparr> (\<lambda>_. 1) (TArray 130 TByte)) (ar_data ar') 0
      = Some (Inr (VList (replicate 130 (VInt 7)), ar_position ar'))"
proof -
  let ?c = "\<lparr>resizable = True, options = []\<rparr>" and ?t = "TArray 130 TByte"
  let ?v = "VList (replicate 130 (VInt 7))" and ?s = "SizeVarint 8"
  let ?bs = "encode ?c ?t ?v" and ?ar = "\<lparr>ar_data = [], ar_position = 0\<rparr>"
  have c: "growing ?c" "\<not> endian_aware ?c"
    by (simp_all add: growing_def no_enlarge_overflow_def endian_aware_def)
  have l: "length ?bs = 130"
    using length_concat_const [of "replicate 130 (VInt 7)" "encode ?c TByte" 1] by (simp add: elems_of_def)
  have ty: "wf_type ?c ?t" "has_type ?c ?t ?v" "sendable ?t ?v" "fits ?c (\<lambda>_. 1) ?t ?v"
    by (simp_all add: elems_of_def list_all_iff)
  have s: "size_field_ok ?s (length ?bs)" unfolding l by (simp add: size_field_ok_def)
  have e: "emits ?c False True ?bs (serialize_out ?c ?t ?v)"
    using emits_serialize_out [OF c(1) ty(1,2), of False] ty(3) by (simp del: serialize_out.simps encode.simps sendable.simps)
  have ld: "loads ((\<lambda>_. serialize_in ?c (\<lambda>_. 1) ?t) (Some (length ?bs))) ?bs ?v"
    using loads_serialize_in [OF ty] by (simp del: serialize_in.simps encode.simps)
  have sb: "length (size_bytes ?c ?s 130) = 2"
    by (simp add: size_bytes_def varint_bytes.simps [of 130] varint_bytes.simps [of "Suc 0"])
  have r: "in_range ?ar" "False \<longrightarrow> clean ?ar" by (simp_all add: in_range_def)
  have n: "length (size_bytes ?c ?s (length ?bs) @ ?bs) < 2 ^ 64"
    unfolding length_append l sb by simp
  have m: "roomy ?c (length (size_bytes ?c ?s (length ?bs) @ ?bs)) ?ar"
    unfolding length_append l sb by (simp add: roomy_def max_object_size_def size_max_def)
  from protocol_roundtrip [OF c s e, of "\<lambda>_. serialize_in ?c (\<lambda>_. 1) ?t", OF ld r n m]
  show ?thesis by auto
qed

text \<open>
  With the byte order swapped the size that a protocol's item is given is wrong: it is
  written through an archive that does not have the option, so a message of one byte is
  announced as one of 16777216 bytes to the reader that has it.
\<close>

theorem protocol_size_not_swapped:
  "serialize_protocol_out \<lparr>resizable = False, options = [OptEndianSwapped]\<rparr> (Some (SizeFixed 4))
     (serialize_out \<lparr>resizable = False, options = [OptEndianSwapped]\<rparr> TByte (VInt 7))
     \<lparr>ar_data = [0, 0, 0, 0, 0], ar_position = 0\<rparr>
       = Some (Success, \<lparr>ar_data = [1, 0, 0, 0, 7], ar_position = 5\<rparr>)
   \<and> serialize_protocol_in \<lparr>resizable = False, options = [OptEndianSwapped]\<rparr> (Some (SizeFixed 4))
       (\<lambda>size. return_in (VInt (the size))) [1, 0, 0, 0, 7] 0 = Some (Inr (VInt 16777216, 4))"
proof -
  let ?c = "\<lparr>resizable = False, options = [OptEndianSwapped]\<rparr>"
  have a: "endian_aware ?c" "\<not> endian_aware plain_class"
    by (simp_all add: endian_aware_def plain_class_def)
  have z: "number_bytes ?c 4 0 = [0, 0, 0, 0]" and one: "number_bytes plain_class 4 1 = [1, 0, 0, 0]"
    by code_simp+
  have n: "le_nat (rev [1, 0, 0, 0]) = 16777216" by (simp add: le_nat_def be_nat_def)
  have p: "put_size ?c (SizeFixed 4) 0 \<lparr>ar_data = [0, 0, 0, 0, 0], ar_position = 0\<rparr>
      = Some (Success, \<lparr>ar_data = [0, 0, 0, 0, 0], ar_position = 4\<rparr>)"
    by (simp add: size_sub_def put_size_def put_number_def z put_bytes_def after_room_def ensure_room_def
        copy_bytes_def mem_write_def overwrite_def failure_def)
  have b: "serialize_out ?c TByte (VInt 7) \<lparr>ar_data = [0, 0, 0, 0, 0], ar_position = 4\<rparr>
      = Some (Success, \<lparr>ar_data = [0, 0, 0, 0, 7], ar_position = 5\<rparr>)"
    by (simp add: size_sub_def put_number_def le_bytes_def put_bytes_def after_room_def ensure_room_def
        copy_bytes_def mem_write_def overwrite_def failure_def)
  have f: "fill_in_size ?c (SizeFixed 4) 0 \<lparr>ar_data = [0, 0, 0, 0, 7], ar_position = 5\<rparr>
      = Some (Success, \<lparr>ar_data = [1, 0, 0, 0, 7], ar_position = 5\<rparr>)"
    using one by (simp add: size_sub_def fill_in_size_def size_field_length_def then_out_def make_way_def
        write_size_at_def mem_write_def overwrite_def failure_def)
  have g: "get_size ?c (SizeFixed 4) [1, 0, 0, 0, 7] 0 = Some (Inr (16777216, 4))"
    using n a(1) by (simp add: size_sub_def get_size_def get_number_def get_bytes_def bind_in_def return_in_def
        mem_read_def slice_of_def)
  show ?thesis
    using p b f g by (simp add: serialize_protocol_out_def serialize_protocol_in_def then_out_def
        failure_def bind_in_def return_in_def del: serialize_out.simps)
qed

end
