(* ===== verification/Lu_Rest.thy ===== *)
theory Lu_Rest
  imports Lu_Base_Socket Lu_Text
begin

text \<open>
  The REST client (\<open>Request.cpp\<close>, \<open>RestAPIClient.cpp\<close>): a request collects a query and
  headers, the client sets libcurl's options from it on the one handle it keeps and performs
  the transfer. libcurl is a parameter: the server's answer to a transfer. What is documented
  of its options is in the model: an option stays set for all later transfers of the handle,
  \<open>CURLOPT_CUSTOMREQUEST\<close> replaces the method, \<open>CURLOPT_POSTFIELDS\<close> makes the transfer a
  POST and keeps the pointer without copying what it points to. So request bodies live in a
  memory of strings by address, and reading a body that was freed is a memory fault.
\<close>

section \<open>Requests\<close>

datatype http_method = GET | POST | PUT | DELETE

record request =
  rq_method :: http_method
  rq_resource :: string
  rq_data :: string
  rq_extraHttpHeader :: "string list"

definition Request :: "http_method \<Rightarrow> request" where
  "Request m = \<lparr>rq_method = m, rq_resource = [], rq_data = [], rq_extraHttpHeader = []\<rparr>"

definition append_param :: "string \<Rightarrow> string \<Rightarrow> request \<Rightarrow> request" where
  "append_param key v r =
     (if rq_data r = [] then r\<lparr>rq_data := rq_data r @ key @ ''='' @ v\<rparr>
      else r\<lparr>rq_data := rq_data r @ ''&'' @ key @ ''='' @ v\<rparr>)"

definition append_number :: "string \<Rightarrow> nat \<Rightarrow> request \<Rightarrow> request" where
  "append_number key n = append_param key (to_string n)"

definition setResource :: "string \<Rightarrow> request \<Rightarrow> request" where
  "setResource s r = r\<lparr>rq_resource := s\<rparr>"

definition addHttpHeader :: "string \<Rightarrow> string \<Rightarrow> request \<Rightarrow> request" where
  "addHttpHeader key v r =
     r\<lparr>rq_extraHttpHeader := rq_extraHttpHeader r @ [key @ '': '' @ v]\<rparr>"

definition addHttpHeader_number :: "string \<Rightarrow> nat \<Rightarrow> request \<Rightarrow> request" where
  "addHttpHeader_number key n = addHttpHeader key (to_string n)"

definition clear_request :: "request \<Rightarrow> request" where
  "clear_request r = r\<lparr>rq_data := []\<rparr>"

section \<open>The client\<close>

text \<open>
  The options of the handle that \<open>getResponse\<close> sets. \<open>curl_postfields\<close> is the address of the
  body. The memory gives for an address the string there, or nothing when it was freed.
\<close>

record curl =
  curl_url :: string
  curl_customrequest :: "string option"
  curl_postfields :: "nat option"
  curl_httpheader :: "string list"

record transfer =
  tr_verb :: string
  tr_url :: string
  tr_body :: string
  tr_headers :: "string list"

type_synonym string_memory = "nat \<Rightarrow> string option"

text \<open>\<open>curl_easy_init\<close> gives a handle with no option set, or none.\<close>

definition curl_easy_init :: curl where
  "curl_easy_init = \<lparr>curl_url = [], curl_customrequest = None, curl_postfields = None, curl_httpheader = []\<rparr>"

definition methodStr :: "http_method \<Rightarrow> string" where
  "methodStr m = (case m of GET \<Rightarrow> ''GET'' | POST \<Rightarrow> ''POST'' | PUT \<Rightarrow> ''PUT'' | DELETE \<Rightarrow> ''DELETE'')"

text \<open>The transfer that \<open>curl_easy_perform\<close> makes of the options.\<close>

definition transfer_of :: "string_memory \<Rightarrow> curl \<Rightarrow> transfer run" where
  "transfer_of mem h =
     (case curl_postfields h of
        None \<Rightarrow> Some (Inr \<lparr>tr_verb = (case curl_customrequest h of None \<Rightarrow> ''GET'' | Some m \<Rightarrow> m),
                          tr_url = curl_url h, tr_body = [], tr_headers = curl_httpheader h\<rparr>)
      | Some a \<Rightarrow>
          (case mem a of
             None \<Rightarrow> Some (Inl MemoryFault)
           | Some body \<Rightarrow>
               Some (Inr \<lparr>tr_verb = (case curl_customrequest h of None \<Rightarrow> ''POST'' | Some m \<Rightarrow> m),
                          tr_url = curl_url h, tr_body = body, tr_headers = curl_httpheader h\<rparr>)))"

text \<open>Every part of the answer that arrives is appended to the response.\<close>

definition dataCallback :: "string \<Rightarrow> string \<Rightarrow> string" where
  "dataCallback buffer content = buffer @ content"

text \<open>\<open>addr\<close> is the address of the request's data; the other options do not depend on it.\<close>

definition set_request :: "nat \<Rightarrow> request \<Rightarrow> curl \<Rightarrow> curl" where
  "set_request addr r h =
     (if rq_method r = GET then h\<lparr>curl_url := rq_resource r @ ''?'' @ rq_data r\<rparr>
      else
        let h = h\<lparr>curl_url := rq_resource r\<rparr>;
            h = (if rq_method r = PUT \<or> rq_method r = DELETE
                 then h\<lparr>curl_customrequest := Some (methodStr (rq_method r))\<rparr> else h) in
        h\<lparr>curl_postfields := Some addr\<rparr>)"

definition set_headers :: "request \<Rightarrow> curl \<Rightarrow> curl" where
  "set_headers r h =
     (if rq_extraHttpHeader r \<noteq> [] then h\<lparr>curl_httpheader := rq_extraHttpHeader r\<rparr> else h)"

definition getResponse ::
  "(transfer \<Rightarrow> string list) \<Rightarrow> string_memory \<Rightarrow> nat \<Rightarrow> request \<Rightarrow> curl option \<Rightarrow> (string \<times> curl option) run" where
  "getResponse server mem addr r client =
     (case client of
        None \<Rightarrow> Some (Inr ([], None))
      | Some h \<Rightarrow>
          let h = set_headers r (set_request addr r h) in
          (case transfer_of mem h of
             None \<Rightarrow> None
           | Some (Inl f) \<Rightarrow> Some (Inl f)
           | Some (Inr t) \<Rightarrow> Some (Inr (foldl dataCallback [] (server t), Some h))))"

section \<open>What is sent\<close>

lemma foldl_dataCallback: "foldl dataCallback b cs = b @ concat cs"
  by (induction cs arbitrary: b) (auto simp: dataCallback_def)

lemma append_param_data:
  "rq_data (fold (\<lambda>(k, v). append_param k v) ps r)
     = join_with ''&'' ((if rq_data r = [] then [] else [rq_data r]) @ map (\<lambda>(k, v). k @ ''='' @ v) ps)"
proof (induction ps arbitrary: r)
  case (Cons p ps)
  obtain k v where p: "p = (k, v)" by (cases p)
  have j: "join_with ''&'' ((x @ ''&'' @ y) # zs) = join_with ''&'' (x # y # zs)" for x y zs
    by (cases zs) auto
  show ?case using Cons.IH [of "append_param k v r"] j unfolding p
    by (simp add: append_param_def)
qed simp

text \<open>
  The first request of a client is the one that was asked for: a GET goes to the resource
  with the parameters joined by \<open>&\<close> behind a question mark and without a body, any other
  method to the resource with the parameters as its body, both with the method's name and
  exactly the request's headers, and the response is the whole answer.
\<close>

theorem rest_first_request:
  assumes "r = fold (\<lambda>(k, v). append_param k v) ps (setResource res (Request m))\<lparr>rq_extraHttpHeader := hs\<rparr>"
    and "mem addr = Some (rq_data r)"
  shows "\<exists>h. getResponse server mem addr r (Some curl_easy_init) = Some (Inr (concat (server
      (let q = join_with ''&'' (map (\<lambda>(k, v). k @ ''='' @ v) ps) in
       if m = GET then \<lparr>tr_verb = ''GET'', tr_url = res @ ''?'' @ q, tr_body = [], tr_headers = hs\<rparr>
       else \<lparr>tr_verb = methodStr m, tr_url = res, tr_body = q, tr_headers = hs\<rparr>)), Some h))"
proof -
  have f: "rq_method (fold (\<lambda>(k, v). append_param k v) ps r0) = rq_method r0
      \<and> rq_resource (fold (\<lambda>(k, v). append_param k v) ps r0) = rq_resource r0" for r0
    by (induction ps arbitrary: r0) (auto simp: append_param_def split: prod.split)
  have d: "rq_data r = join_with ''&'' (map (\<lambda>(k, v). k @ ''='' @ v) ps)"
    using append_param_data [of ps "setResource res (Request m)"]
    by (simp add: assms(1) setResource_def Request_def)
  have r: "rq_method r = m" "rq_resource r = res" "rq_extraHttpHeader r = hs"
    using f [of "setResource res (Request m)"] by (simp_all add: assms(1) setResource_def Request_def)
  show ?thesis
    using assms(2) d r
    by (cases m) (auto simp: getResponse_def set_request_def set_headers_def transfer_of_def
        curl_easy_init_def methodStr_def foldl_dataCallback Let_def)
qed

theorem rest_first_request_witness:
  "\<exists>h. getResponse (\<lambda>t. [tr_verb t, tr_url t]) (\<lambda>a. Some ''a=1&b=2'') 0
      (append_param ''b'' ''2'' (append_param ''a'' ''1'' (setResource ''/x'' (Request GET))))
      (Some curl_easy_init) = Some (Inr (''GET/x?a=1&b=2'', Some h))"
  using rest_first_request [where r = "append_param ''b'' ''2'' (append_param ''a'' ''1'' (setResource ''/x'' (Request GET)))"
      and ps = "[(''a'', ''1''), (''b'', ''2'')]" and res = "''/x''" and m = GET and hs = "[]"
      and mem = "\<lambda>a. Some ''a=1&b=2''" and addr = 0 and server = "\<lambda>t. [tr_verb t, tr_url t]"]
  by (simp add: append_param_def setResource_def Request_def)

text \<open>
  A GET on a client that has posted before is not a GET: the handle still has the address
  of the earlier body. While that request lives the GET is sent as a POST with the old body;
  once it is destroyed the transfer reads freed memory. Headers stay as well: a request
  without headers of its own is sent with those of the last request that had some.
\<close>

theorem rest_get_after_post:
  assumes "rq_method r1 = POST" "rq_method r2 = GET" "rq_extraHttpHeader r2 = []"
    and "mem1 a1 = Some (rq_data r1)"
  shows "\<exists>h. getResponse server mem1 a1 r1 (Some curl_easy_init) = Some (Inr (concat (server
        \<lparr>tr_verb = ''POST'', tr_url = rq_resource r1, tr_body = rq_data r1, tr_headers = rq_extraHttpHeader r1\<rparr>), Some h))
    \<and> getResponse server mem2 a2 r2 (Some h) =
        (case mem2 a1 of
           None \<Rightarrow> Some (Inl MemoryFault)
         | Some body \<Rightarrow> Some (Inr (concat (server
             \<lparr>tr_verb = ''POST'', tr_url = rq_resource r2 @ ''?'' @ rq_data r2, tr_body = body,
              tr_headers = rq_extraHttpHeader r1\<rparr>),
             Some (h\<lparr>curl_url := rq_resource r2 @ ''?'' @ rq_data r2\<rparr>))))"
proof -
  let ?h = "set_headers r1 (set_request a1 r1 curl_easy_init)"
  have h: "?h = \<lparr>curl_url = rq_resource r1, curl_customrequest = None, curl_postfields = Some a1,
      curl_httpheader = rq_extraHttpHeader r1\<rparr>"
    using assms by (simp add: set_headers_def set_request_def curl_easy_init_def Let_def)
  show ?thesis
    by (rule exI [of _ ?h])
      (use assms h in \<open>simp add: getResponse_def transfer_of_def foldl_dataCallback Let_def set_request_def
        set_headers_def split: option.split\<close>)
qed

theorem rest_get_after_post_witness:
  "\<exists>h. getResponse (\<lambda>t. [tr_verb t]) (\<lambda>a. Some []) 0 (Request POST) (Some curl_easy_init)
      = Some (Inr (''POST'', Some h))
    \<and> getResponse (\<lambda>t. [tr_verb t]) (\<lambda>a. None) 1 (Request GET) (Some h) = Some (Inl MemoryFault)"
  using rest_get_after_post [of "Request POST" "Request GET" "\<lambda>a. Some []" 0 "\<lambda>t. [tr_verb t]" "\<lambda>a. None" 1]
  by (simp add: Request_def)

text \<open>After a PUT or DELETE every later request of the client goes out with that method.\<close>

lemma rest_custom_method_stays:
  assumes "curl_customrequest h = Some v" "rq_method r = GET \<or> rq_method r = POST"
    and "getResponse server mem addr r (Some h) = Some (Inr (x, Some h'))"
  shows "curl_customrequest h' = Some v
    \<and> (\<exists>t. transfer_of mem h' = Some (Inr t) \<and> tr_verb t = v \<and> x = concat (server t))"
proof -
  let ?h = "set_headers r (set_request addr r h)"
  have c: "curl_customrequest ?h = Some v"
    using assms(1,2) by (auto simp: set_headers_def set_request_def Let_def)
  obtain t where t: "transfer_of mem ?h = Some (Inr t)" "x = concat (server t)" "h' = ?h"
    using assms(3) by (auto simp: getResponse_def Let_def foldl_dataCallback split: option.splits sum.splits)
  then have "tr_verb t = v" using c by (auto simp: transfer_of_def split: option.splits)
  with c t show ?thesis by blast
qed

end
