(* ===== verification/Lu_Storage.thy ===== *)
theory Lu_Storage
  imports Lu_Base_Socket Lu_Text Lu_Fixed_String
begin

text \<open>
  The database layer (\<open>DBManager\<close>, \<open>DBReader\<close>, \<open>DBWriter\<close>, \<open>MetaData.h\<close>): the SQL that the
  macros build from a structure's name and members, and the writer that inserts rows and
  commits a transaction for every full batch. The client library is a parameter: what
  executing a statement and ending a transaction do to the session, \<open>None\<close> for an exception.
\<close>

section \<open>SQL from the macros\<close>

text \<open>\<open>CREAT_STRING_LIST\<close>: the members, each between prefix and postfix, with separators.\<close>

fun creat_string_list :: "string \<Rightarrow> string \<Rightarrow> string \<Rightarrow> string list \<Rightarrow> string" where
  "creat_string_list sep pre post [] = []"
| "creat_string_list sep pre post [m] = pre @ m @ post"
| "creat_string_list sep pre post (m # ms) = pre @ m @ post @ sep @ creat_string_list sep pre post ms"

text \<open>\<open>CREAT_BIND_LIST\<close>: the counter starts as \<open>X\<close> and every step pastes \<open>_X\<close> to it.\<close>

definition macro_concat :: "string \<Rightarrow> string \<Rightarrow> string" where
  "macro_concat a b = a @ ''_'' @ b"

fun creat_bind_list :: "string \<Rightarrow> string list \<Rightarrow> string" where
  "creat_bind_list counter [] = []"
| "creat_bind_list counter [m] = '':'' @ counter"
| "creat_bind_list counter (m # ms) =
     '':'' @ counter @ '','' @ creat_bind_list (macro_concat counter ''X'') ms"

definition getInsertSQL :: "string \<Rightarrow> string list \<Rightarrow> string" where
  "getInsertSQL table ms =
     ''INSERT INTO '' @ table @ ''('' @ creat_string_list '','' ''`'' ''`'' ms
     @ '') VALUES ('' @ creat_bind_list ''X'' ms @ '')''"

definition select_sql :: "string \<Rightarrow> string" where
  "select_sql table = ''SELECT * FROM '' @ table"

definition select_where_sql :: "string \<Rightarrow> string \<Rightarrow> string" where
  "select_where_sql table clause = ''SELECT * FROM '' @ table @ '' where '' @ clause"

definition truncate_sql :: "string \<Rightarrow> string" where
  "truncate_sql table = ''TRUNCATE TABLE '' @ table"

text \<open>The names the statement binds, in order.\<close>

fun bind_names :: "string \<Rightarrow> nat \<Rightarrow> string list" where
  "bind_names counter 0 = []"
| "bind_names counter (Suc n) = counter # bind_names (macro_concat counter ''X'') n"

lemma length_bind_names [simp]: "length (bind_names c n) = n"
  by (induction n arbitrary: c) auto

lemma bind_names_longer: "x \<in> set (bind_names c n) \<Longrightarrow> length c \<le> length x"
  by (induction n arbitrary: c) (fastforce simp: macro_concat_def)+

lemma distinct_bind_names: "distinct (bind_names c n)"
proof (induction n arbitrary: c)
  case (Suc n)
  have "c \<notin> set (bind_names (macro_concat c ''X'') n)"
    using bind_names_longer [of c "macro_concat c ''X''" n] by (auto simp: macro_concat_def)
  then show ?case using Suc by simp
qed simp

lemma creat_bind_list_names:
  "creat_bind_list c ms = join_with '','' (map (\<lambda>x. '':'' @ x) (bind_names c (length ms)))"
proof (induction c ms rule: creat_bind_list.induct)
  case (3 c m m' ms)
  then show ?case by (cases "bind_names (macro_concat c ''X'') (length (m' # ms))") auto
qed auto

lemma creat_string_list_join:
  "creat_string_list sep pre post ms = join_with sep (map (\<lambda>m. pre @ m @ post) ms)"
  by (induction sep pre post ms rule: creat_string_list.induct) auto

text \<open>
  The insert statement of a structure has one column and one bound parameter for each
  member, the columns are the members in their order, and the parameters' names are
  pairwise distinct.
\<close>

theorem insert_sql_binds:
  "\<exists>names. length names = length ms \<and> distinct names
    \<and> getInsertSQL table ms = ''INSERT INTO '' @ table @ ''(''
        @ join_with '','' (map (\<lambda>m. ''`'' @ m @ ''`'') ms) @ '') VALUES (''
        @ join_with '','' (map (\<lambda>x. '':'' @ x) names) @ '')''"
  by (rule exI [of _ "bind_names ''X'' (length ms)"])
    (simp add: getInsertSQL_def creat_bind_list_names creat_string_list_join distinct_bind_names)

section \<open>Rows\<close>

text \<open>
  \<open>POPULATE_SOCI_FROM_BASE\<close> and \<open>POPULATE_SOCI_TO_BASE\<close>: a row is a table of columns by name;
  \<open>get\<close> of a column that is missing or of another type throws, which is \<open>None\<close>. Members of type
  \<open>char\<close> and \<open>short\<close> are read as an \<open>int\<close> and cast.
\<close>

datatype member_type = CharMember | ShortMember | LongMember | OtherMember

datatype column = NumColumn int | TextColumn string

definition read_member :: "member_type \<Rightarrow> column \<Rightarrow> column option" where
  "read_member mt col =
     (case mt of
        CharMember \<Rightarrow> (case col of NumColumn i \<Rightarrow> Some (NumColumn (sint (word_of_int i :: 8 word))) | _ \<Rightarrow> None)
      | ShortMember \<Rightarrow> (case col of NumColumn i \<Rightarrow> Some (NumColumn (sint (word_of_int i :: 16 word))) | _ \<Rightarrow> None)
      | LongMember \<Rightarrow> (case col of NumColumn i \<Rightarrow> Some (NumColumn i) | _ \<Rightarrow> None)
      | OtherMember \<Rightarrow> Some col)"

fun populate_from_base :: "(string \<times> member_type) list \<Rightarrow> (string \<Rightarrow> column option) \<Rightarrow> (string \<times> column) list option" where
  "populate_from_base [] vals = Some []"
| "populate_from_base ((name, mt) # ms) vals =
     (case vals name of
        None \<Rightarrow> None
      | Some col \<Rightarrow>
          (case read_member mt col of
             None \<Rightarrow> None
           | Some x \<Rightarrow> map_option (\<lambda>xs. (name, x) # xs) (populate_from_base ms vals)))"

fun populate_to_base :: "(string \<times> column) list \<Rightarrow> (string \<Rightarrow> column option) \<Rightarrow> string \<Rightarrow> column option" where
  "populate_to_base [] vals = vals"
| "populate_to_base ((name, x) # obj) vals = populate_to_base obj (vals(name \<mapsto> x))"

text \<open>The values a member of the type can have.\<close>

definition fits_member :: "member_type \<Rightarrow> column \<Rightarrow> bool" where
  "fits_member mt col \<longleftrightarrow>
     (case mt of
        CharMember \<Rightarrow> (case col of NumColumn i \<Rightarrow> - 128 \<le> i \<and> i < 128 | _ \<Rightarrow> False)
      | ShortMember \<Rightarrow> (case col of NumColumn i \<Rightarrow> - 32768 \<le> i \<and> i < 32768 | _ \<Rightarrow> False)
      | LongMember \<Rightarrow> (case col of NumColumn i \<Rightarrow> True | _ \<Rightarrow> False)
      | OtherMember \<Rightarrow> True)"

lemma sint_word_of_int_fits:
  "- (2 ^ (LENGTH('w) - 1)) \<le> i \<Longrightarrow> i < 2 ^ (LENGTH('w) - 1) \<Longrightarrow> sint (word_of_int i :: 'w :: len word) = i"
  by (simp add: signed_of_int signed_take_bit_int_eq_self)

lemma read_member_fits: "fits_member mt x \<Longrightarrow> read_member mt x = Some x"
  using sint_word_of_int_fits [where 'w = 8] sint_word_of_int_fits [where 'w = 16]
  by (cases mt; cases x) (auto simp: fits_member_def read_member_def)

lemma populate_to_base_other: "name \<notin> fst ` set obj \<Longrightarrow> populate_to_base obj vals name = vals name"
  by (induction obj vals rule: populate_to_base.induct) auto

text \<open>
  A row read back: the columns that a structure sets give the same structure again, when its
  members have different names.
\<close>

theorem row_roundtrip:
  assumes "distinct (map fst ms)" and "map fst obj = map fst ms"
    and "list_all2 (\<lambda>m x. fits_member (snd m) (snd x)) ms obj"
  shows "populate_from_base ms (populate_to_base obj vals) = Some obj"
  using assms
proof (induction ms arbitrary: obj vals)
  case (Cons m ms)
  obtain name mt where m: "m = (name, mt)" by (cases m)
  from Cons.prems m obtain x obj' where o: "obj = (name, x) # obj'" "map fst obj' = map fst ms" "fits_member mt x"
    "list_all2 (\<lambda>m x. fits_member (snd m) (snd x)) ms obj'"
    by (cases obj) auto
  have "name \<notin> fst ` set obj'" using Cons.prems(1) o(2) m by (metis distinct.simps(2) list.simps(9) fst_conv list.set_map)
  then have "populate_to_base obj' (vals(name \<mapsto> x)) name = Some x" by (simp add: populate_to_base_other)
  moreover have "populate_from_base ms (populate_to_base obj' (vals(name \<mapsto> x))) = Some obj'"
    by (rule Cons.IH) (use o m Cons.prems(1) in simp_all)
  ultimately show ?case using o m by (simp add: read_member_fits)
qed simp

lemma row_roundtrip_witness:
  "populate_from_base [(''id'', LongMember), (''side'', CharMember)]
     (populate_to_base [(''id'', NumColumn 5), (''side'', NumColumn 66)] Map.empty)
   = Some [(''id'', NumColumn 5), (''side'', NumColumn 66)]"
  by (rule row_roundtrip) (simp_all add: fits_member_def)

text \<open>A column that is wider than the member is cut without an error.\<close>

lemma row_cut:
  "populate_from_base [(''side'', CharMember)] [''side'' \<mapsto> NumColumn 200] = Some [(''side'', NumColumn (- 56))]"
  by (simp add: read_member_def)

text \<open>
  \<open>DBReader::load\<close>: the rows that the session gives for the statement, each converted when it is
  visited; \<open>query\<close> is the session.
\<close>

definition reader_load ::
  "('db \<Rightarrow> string \<Rightarrow> (string \<Rightarrow> column option) list) \<Rightarrow> string \<Rightarrow> (string \<times> member_type) list \<Rightarrow> 'db \<Rightarrow>
     (string \<times> column) list list option" where
  "reader_load query tab ms db = those (map (populate_from_base ms) (query db (select_sql tab)))"

definition reader_load_where ::
  "('db \<Rightarrow> string \<Rightarrow> (string \<Rightarrow> column option) list) \<Rightarrow> string \<Rightarrow> (string \<times> member_type) list \<Rightarrow> string \<Rightarrow> 'db \<Rightarrow>
     (string \<times> column) list list option" where
  "reader_load_where query tab ms whereClause db =
     those (map (populate_from_base ms) (query db (select_where_sql tab whereClause)))"

text \<open>
  Structures read back: when the table holds the columns that the structures set, loading gives
  the structures, in the order of the rows.
\<close>

theorem load_gives_structures:
  assumes "distinct (map fst ms)"
    and "\<forall>obj \<in> set objs. map fst obj = map fst ms \<and> list_all2 (\<lambda>m x. fits_member (snd m) (snd x)) ms obj"
    and "query db (select_sql tab) = map (\<lambda>obj. populate_to_base obj Map.empty) objs"
  shows "reader_load query tab ms db = Some objs"
proof -
  have "those (map (\<lambda>obj. populate_from_base ms (populate_to_base obj Map.empty)) objs) = Some objs"
    using assms(2) by (induction objs) (auto simp: row_roundtrip [OF assms(1)])
  then show ?thesis using assms(3) by (simp add: reader_load_def comp_def)
qed

text \<open>A text column of the database becomes a \<open>FixedString\<close> through the assignment, and back.\<close>

definition fixed_from_base :: "nat \<Rightarrow> string \<Rightarrow> string \<Rightarrow> string option" where
  "fixed_from_base N str fs = assign_string N str fs"

definition fixed_to_base :: "string \<Rightarrow> string" where
  "fixed_to_base fs = fs_string fs"

section \<open>The writer\<close>

text \<open>
  \<open>'db\<close> is the session with its transaction. The library's operations: \<open>insert_row\<close> executes
  the insert statement and throws when its first result is false, \<open>commit_tx\<close> commits the writer's transaction object, \<open>session_commit\<close>
  and \<open>session_begin\<close> are the session's own.
\<close>

record 'db soci =
  insert_row :: "string \<Rightarrow> string list \<Rightarrow> 'db \<Rightarrow> bool \<times> 'db"
  commit_tx :: "'db \<Rightarrow> 'db option"
  session_commit :: "'db \<Rightarrow> 'db option"
  session_begin :: "'db \<Rightarrow> 'db option"
  execute_sql :: "string \<Rightarrow> 'db \<Rightarrow> 'db option"

record 'db writer =
  wr_session :: 'db
  wr_threshold :: nat
  wr_count :: nat

definition DBWriter :: "'db \<Rightarrow> nat \<Rightarrow> 'db writer" where
  "DBWriter db threshold = \<lparr>wr_session = db, wr_threshold = threshold, wr_count = 0\<rparr>"

definition writeToDB ::
  "'db soci \<Rightarrow> string \<Rightarrow> string list \<Rightarrow> string list \<Rightarrow> 'db \<Rightarrow> bool \<times> 'db" where
  "writeToDB lib table ms row db = insert_row lib (getInsertSQL table ms) row db"

text \<open>
  An exception of the insert is caught and \<open>store\<close> returns false; one of the commit is
  outside the \<open>try\<close> and leaves \<open>store\<close>, with the row counted and inserted.
\<close>

definition store ::
  "'db soci \<Rightarrow> string \<Rightarrow> string list \<Rightarrow> string list \<Rightarrow> 'db writer \<Rightarrow> (fault + bool) \<times> 'db writer" where
  "store lib table ms row w =
     (case writeToDB lib table ms row (wr_session w) of
        (False, db) \<Rightarrow> (Inr False, w\<lparr>wr_session := db\<rparr>)
      | (True, db) \<Rightarrow>
          let n = u32_add (wr_count w) 1; w = w\<lparr>wr_session := db, wr_count := n\<rparr> in
          if n = wr_threshold w then
            (case commit_tx lib db of
               None \<Rightarrow> (Inl Uncaught, w)
             | Some db \<Rightarrow> (Inr True, w\<lparr>wr_session := db, wr_count := 0\<rparr>))
          else (Inr True, w))"

fun store_all ::
  "'db soci \<Rightarrow> string \<Rightarrow> string list \<Rightarrow> string list list \<Rightarrow> 'db writer \<Rightarrow> (fault + bool) list \<times> 'db writer" where
  "store_all lib table ms [] w = ([], w)"
| "store_all lib table ms (r # rs) w =
     (case store lib table ms r w of
        (Inl f, w) \<Rightarrow> ([Inl f], w)
      | (Inr b, w) \<Rightarrow> (case store_all lib table ms rs w of (bs, w) \<Rightarrow> (Inr b # bs, w)))"

text \<open>\<open>DBManager::commit\<close>, \<open>begin\<close>, \<open>execute\<close> and \<open>truncate\<close> go to the session.\<close>

definition manager_commit :: "'db soci \<Rightarrow> 'db writer \<Rightarrow> 'db writer option" where
  "manager_commit lib w = map_option (\<lambda>db. w\<lparr>wr_session := db\<rparr>) (session_commit lib (wr_session w))"

definition manager_begin :: "'db soci \<Rightarrow> 'db writer \<Rightarrow> 'db writer option" where
  "manager_begin lib w = map_option (\<lambda>db. w\<lparr>wr_session := db\<rparr>) (session_begin lib (wr_session w))"

definition manager_execute :: "'db soci \<Rightarrow> string \<Rightarrow> 'db writer \<Rightarrow> 'db writer option" where
  "manager_execute lib sql w =
     map_option (\<lambda>db. w\<lparr>wr_session := db\<rparr>) (execute_sql lib sql (wr_session w))"

definition manager_truncate :: "'db soci \<Rightarrow> string \<Rightarrow> 'db writer \<Rightarrow> 'db writer option" where
  "manager_truncate lib table = manager_execute lib (truncate_sql table)"

section \<open>Batches\<close>

text \<open>
  What the library documents of a table inside a transaction: a row that is inserted is pending,
  a failed insert leaves the rows as they were, and a commit after a successful insert makes
  the pending rows durable and ends the transaction object. Inserts and commits may fail.
\<close>

definition rows_law :: "'db soci \<Rightarrow> ('db \<Rightarrow> string list list) \<Rightarrow> ('db \<Rightarrow> string list list) \<Rightarrow> ('db \<Rightarrow> bool) \<Rightarrow> bool" where
  "rows_law lib pending durable open_tx \<longleftrightarrow>
     (\<forall>sql row db ok db'. open_tx db \<and> insert_row lib sql row db = (ok, db') \<longrightarrow>
        open_tx db' \<and> durable db' = durable db
        \<and> pending db' = (if ok then pending db @ [row] else pending db)
        \<and> (\<forall>db''. ok \<and> commit_tx lib db' = Some db'' \<longrightarrow>
             \<not> open_tx db'' \<and> pending db'' = [] \<and> durable db'' = durable db' @ pending db'))"

text \<open>The rows whose \<open>store\<close> returned true.\<close>

definition accepted :: "string list list \<Rightarrow> (fault + bool) list \<Rightarrow> string list list" where
  "accepted rs res = map fst (filter (\<lambda>(r, b). b = Inr True) (zip rs res))"

lemma accepted_simps [simp]:
  "accepted [] res = []" "accepted rs [] = []"
  "accepted (r # rs) (b # res) = (if b = Inr True then r # accepted rs res else accepted rs res)"
  by (simp_all add: accepted_def)

lemma accepted_last:
  "length res = length rs \<Longrightarrow> res \<noteq> [] \<Longrightarrow> last res = Inr True \<Longrightarrow> accepted rs res \<noteq> []"
  by (induction res rs rule: list_induct2) (auto split: if_splits)

lemma length_store_all:
  "store_all lib table ms rs w = (res, w') \<Longrightarrow> \<forall>f. Inl f \<notin> set res \<Longrightarrow> length res = length rs"
  by (induction rs arbitrary: w res) (auto split: prod.splits sum.splits)

text \<open>One step, and any number of steps of a writer whose rows are still pending.\<close>

definition filling :: "('db \<Rightarrow> string list list) \<Rightarrow> ('db \<Rightarrow> bool) \<Rightarrow> 'db writer \<Rightarrow> bool" where
  "filling pending open_tx w \<longleftrightarrow> open_tx (wr_session w) \<and> wr_count w = length (pending (wr_session w))
     \<and> wr_count w < wr_threshold w \<and> wr_threshold w < 2 ^ 32"

lemma store_step:
  assumes "rows_law lib pending durable open_tx" "filling pending open_tx w" "store lib table ms r w = (Inr b, w')"
  shows "wr_threshold w' = wr_threshold w
    \<and> (if b \<and> Suc (wr_count w) = wr_threshold w
       then \<not> open_tx (wr_session w') \<and> wr_count w' = 0 \<and> pending (wr_session w') = []
         \<and> durable (wr_session w') = durable (wr_session w) @ pending (wr_session w) @ [r]
       else filling pending open_tx w' \<and> durable (wr_session w') = durable (wr_session w)
         \<and> pending (wr_session w') = pending (wr_session w) @ (if b then [r] else []))"
proof -
  obtain ok db' where i: "insert_row lib (getInsertSQL table ms) r (wr_session w) = (ok, db')" by fastforce
  have o: "open_tx (wr_session w)" and n: "u32_add (wr_count w) 1 = Suc (wr_count w)"
    using assms(2) by (auto simp: filling_def u32_add_small)
  have l: "open_tx db'" "durable db' = durable (wr_session w)"
    "pending db' = (if ok then pending (wr_session w) @ [r] else pending (wr_session w))"
    "\<And>db''. ok \<Longrightarrow> commit_tx lib db' = Some db'' \<Longrightarrow>
       \<not> open_tx db'' \<and> pending db'' = [] \<and> durable db'' = durable db' @ pending db'"
    using assms(1) i o unfolding rows_law_def by blast+
  show ?thesis
    using assms(2,3) l i n
    by (cases ok) (auto simp: store_def writeToDB_def Let_def filling_def split: if_splits option.splits)
qed

lemma store_all_batch:
  assumes "rows_law lib pending durable open_tx"
  shows "filling pending open_tx w \<Longrightarrow> store_all lib table ms rs w = (res, w') \<Longrightarrow> \<forall>f. Inl f \<notin> set res \<Longrightarrow>
    (length (pending (wr_session w) @ accepted rs res) < wr_threshold w \<longrightarrow>
       filling pending open_tx w' \<and> pending (wr_session w') = pending (wr_session w) @ accepted rs res
       \<and> durable (wr_session w') = durable (wr_session w) \<and> wr_threshold w' = wr_threshold w)
    \<and> (length (pending (wr_session w) @ accepted rs res) = wr_threshold w \<and> last res = Inr True \<longrightarrow>
       \<not> open_tx (wr_session w') \<and> pending (wr_session w') = [] \<and> wr_count w' = 0 \<and> wr_threshold w' = wr_threshold w
       \<and> durable (wr_session w') = durable (wr_session w) @ pending (wr_session w) @ accepted rs res)"
proof (induction rs arbitrary: w res)
  case Nil
  then show ?case by (auto simp: filling_def)
next
  case (Cons r rs)
  obtain b w1 bs where s: "store lib table ms r w = (Inr b, w1)" "store_all lib table ms rs w1 = (bs, w')" "res = Inr b # bs"
    using Cons.prems(2,3) by (auto split: prod.splits sum.splits)
  have no: "\<forall>f. Inl f \<notin> set bs" using Cons.prems(3) s(3) by simp
  note step = store_step [OF assms Cons.prems(1) s(1)]
  have n: "wr_count w = length (pending (wr_session w))" "wr_count w < wr_threshold w"
    using Cons.prems(1) by (auto simp: filling_def)
  show ?case
  proof (cases "b \<and> Suc (wr_count w) = wr_threshold w")
    case True
    let ?all = "pending (wr_session w) @ accepted (r # rs) res"
    have ge: "wr_threshold w \<le> length ?all" using True n s(3) by simp
    have fin: "w' = w1 \<and> ?all = pending (wr_session w) @ [r]" if "length ?all = wr_threshold w" "last res = Inr True"
    proof -
      have "Suc (length (pending (wr_session w))) + length (accepted rs bs) = wr_threshold w"
        using that(1) True s(3) by simp
      moreover have "Suc (length (pending (wr_session w))) = wr_threshold w" using True n(1) by simp
      ultimately have "length (accepted rs bs) = 0" by linarith
      then have a: "accepted rs bs = []" by simp
      with accepted_last [OF length_store_all [OF s(2) no]] that(2) s(3) have "bs = []" by (auto split: if_splits)
      with length_store_all [OF s(2) no] s(2,3) a True show ?thesis by simp
    qed
    from True step have w1: "wr_threshold w1 = wr_threshold w" "\<not> open_tx (wr_session w1)" "wr_count w1 = 0"
      "pending (wr_session w1) = []" "durable (wr_session w1) = durable (wr_session w) @ pending (wr_session w) @ [r]"
      by simp_all
    show ?thesis
      by (rule conjI) (use ge in linarith, use fin w1 in auto)
  next
    case False
    with step have f: "filling pending open_tx w1" "durable (wr_session w1) = durable (wr_session w)"
      "pending (wr_session w1) = pending (wr_session w) @ (if b then [r] else [])" "wr_threshold w1 = wr_threshold w"
      by auto
    show ?thesis
    proof (cases "bs = []")
      case True
      with s(2) no have "rs = []" "w' = w1" using length_store_all [OF s(2) no] by auto
      with True f s(3) n False show ?thesis by auto
    next
      case ne: False
      with Cons.IH [OF f(1) s(2) no] f(2-4) s(3) show ?thesis by (cases b) auto
    qed
  qed
qed

text \<open>
  C33. The first batch of a new writer becomes durable as a whole. Inserts may fail. As long as
  fewer rows than the threshold have been accepted, the accepted rows are pending, in order,
  nothing is durable that was not before, and the count is their number; the store that
  accepts the last row of the batch commits all of them and starts the count again. This is
  for calls that return: a commit that fails throws out of \<open>store\<close>. It is for the first
  batch, as the transaction object is not begun again (\<open>store_second_batch_throws\<close>).
\<close>

theorem store_commits_batch:
  assumes "rows_law lib pending durable open_tx" "open_tx db" "pending db = []"
    and "0 < threshold" "threshold < 2 ^ 32"
    and "store_all lib table ms rs (DBWriter db threshold) = (res, w)" "\<forall>f. Inl f \<notin> set res"
  shows "(length (accepted rs res) < threshold \<longrightarrow>
       pending (wr_session w) = accepted rs res \<and> durable (wr_session w) = durable db
       \<and> wr_count w = length (accepted rs res))
    \<and> (length (accepted rs res) = threshold \<and> last res = Inr True \<longrightarrow>
       pending (wr_session w) = [] \<and> durable (wr_session w) = durable db @ accepted rs res \<and> wr_count w = 0)"
proof -
  have "filling pending open_tx (DBWriter db threshold)" using assms(2-5) by (simp add: filling_def DBWriter_def)
  from store_all_batch [OF assms(1) this assms(6,7)] assms(3) show ?thesis
    by (auto simp: DBWriter_def filling_def)
qed

text \<open>
  An instance: pending rows, durable rows, and whether the transaction object is open. A row
  without values is refused.
\<close>

definition table_lib :: "(string list list \<times> string list list \<times> bool) soci" where
  "table_lib = \<lparr>
     insert_row = (\<lambda>sql row (p, d, o1).
       if row = [] then (False, p, d, o1) else (True, if o1 then (p @ [row], d, o1) else (p, d @ [row], o1))),
     commit_tx = (\<lambda>(p, d, o1). if o1 then Some ([], d @ p, False) else None),
     session_commit = (\<lambda>(p, d, o1). Some ([], d @ p, o1)),
     session_begin = (\<lambda>db. Some db),
     execute_sql = (\<lambda>sql db. Some db)\<rparr>"

lemma table_lib_rows: "rows_law table_lib fst (\<lambda>db. fst (snd db)) (\<lambda>db. snd (snd db))"
  by (auto simp: rows_law_def table_lib_def split: if_splits)

theorem store_commits_batch_witness:
  "let (res, w) = store_all table_lib ''t'' [''a''] [[''1''], [], [''2'']] (DBWriter ([], [], True) 2) in
     res = [Inr True, Inr False, Inr True] \<and> wr_session w = ([], [[''1''], [''2'']], snd (snd (wr_session w)))"
proof -
  obtain res w where s: "store_all table_lib ''t'' [''a''] [[''1''], [], [''2'']] (DBWriter ([], [], True) 2) = (res, w)"
    by fastforce
  then have r: "res = [Inr True, Inr False, Inr True]"
    by (auto simp: store_def writeToDB_def table_lib_def DBWriter_def u32_add_def)
  from store_commits_batch [OF table_lib_rows _ _ _ _ s] r
  have "fst (wr_session w) = []" "fst (snd (wr_session w)) = [[''1''], [''2'']]" by simp_all
  then show ?thesis using s r by (cases "wr_session w") simp
qed

text \<open>A library whose inserts succeed, and whose commits do while the transaction is open.\<close>

definition smooth_law :: "'db soci \<Rightarrow> ('db \<Rightarrow> bool) \<Rightarrow> bool" where
  "smooth_law lib open_tx \<longleftrightarrow>
     (\<forall>sql row db. fst (insert_row lib sql row db)) \<and> (\<forall>db. open_tx db \<longrightarrow> commit_tx lib db \<noteq> None)"

lemma store_smooth:
  assumes "rows_law lib pending durable open_tx" "smooth_law lib open_tx" "open_tx (wr_session w)"
  shows "\<exists>w'. store lib table ms r w = (Inr True, w')"
proof -
  obtain db' where i: "insert_row lib (getInsertSQL table ms) r (wr_session w) = (True, db')"
    using assms(2) unfolding smooth_law_def by (metis prod.collapse)
  then have "open_tx db'" using assms(1,3) unfolding rows_law_def by blast
  then have "commit_tx lib db' \<noteq> None" using assms(2) unfolding smooth_law_def by blast
  with i show ?thesis by (auto simp: store_def writeToDB_def Let_def)
qed

lemma store_all_smooth:
  assumes "rows_law lib pending durable open_tx" "smooth_law lib open_tx"
  shows "filling pending open_tx w \<Longrightarrow> wr_count w + length rs \<le> wr_threshold w \<Longrightarrow>
    fst (store_all lib table ms rs w) = replicate (length rs) (Inr True)"
proof (induction rs arbitrary: w)
  case (Cons r rs)
  then have "open_tx (wr_session w)" by (simp add: filling_def)
  from store_smooth [OF assms this] obtain w1 where s: "store lib table ms r w = (Inr True, w1)" by blast
  note step = store_step [OF assms(1) Cons.prems(1) s]
  show ?case
  proof (cases "Suc (wr_count w) = wr_threshold w")
    case True
    with Cons.prems(2) have "length rs \<le> 0" unfolding list.size by linarith
    then have "rs = []" by simp
    with s show ?thesis by simp
  next
    case False
    with step have f: "filling pending open_tx w1" "wr_threshold w1 = wr_threshold w"
      "pending (wr_session w1) = pending (wr_session w) @ [r]" by auto
    moreover have "wr_count w1 = Suc (wr_count w)" using f(1,3) Cons.prems(1) by (simp add: filling_def)
    ultimately have "fst (store_all lib table ms rs w1) = replicate (length rs) (Inr True)"
      using Cons.IH [of w1] Cons.prems(2) by simp
    with s show ?thesis by (auto split: prod.split)
  qed
qed simp

lemma accepted_all: "accepted rs (replicate (length rs) (Inr True)) = rs"
  by (induction rs) auto

text \<open>The library's law for a transaction object that has been committed: it cannot be again.\<close>

definition closed_law :: "'db soci \<Rightarrow> ('db \<Rightarrow> bool) \<Rightarrow> bool" where
  "closed_law lib open_tx \<longleftrightarrow>
     (\<forall>sql row db. \<not> open_tx db \<longrightarrow> \<not> open_tx (snd (insert_row lib sql row db)))
   \<and> (\<forall>db. \<not> open_tx db \<longrightarrow> commit_tx lib db = None)"

lemma store_all_closed:
  assumes l: "closed_law lib open_tx" "smooth_law lib open_tx'"
  shows "\<not> open_tx (wr_session w) \<Longrightarrow> wr_count w + length rs < wr_threshold w \<Longrightarrow> wr_threshold w < 2 ^ 32 \<Longrightarrow>
    \<exists>w'. store_all lib table ms rs w = (replicate (length rs) (Inr True), w') \<and> \<not> open_tx (wr_session w')
    \<and> wr_count w' = wr_count w + length rs \<and> wr_threshold w' = wr_threshold w"
proof (induction rs arbitrary: w)
  case (Cons r rs)
  obtain db' where "insert_row lib (getInsertSQL table ms) r (wr_session w) = (True, db')" "\<not> open_tx db'"
    using l Cons.prems(1) unfolding closed_law_def smooth_law_def by (metis prod.collapse)
  then have "store lib table ms r w = (Inr True, w\<lparr>wr_session := db', wr_count := wr_count w + 1\<rparr>)"
    using Cons.prems by (simp add: store_def writeToDB_def Let_def u32_add_small)
  then show ?case
    using Cons.IH [of "w\<lparr>wr_session := db', wr_count := wr_count w + 1\<rparr>"] Cons.prems \<open>\<not> open_tx db'\<close>
    by auto
qed auto

lemma store_all_append:
  "store_all lib table ms (xs @ [y]) w =
     (case store_all lib table ms xs w of (bs, w') \<Rightarrow>
        if (\<exists>f. Inl f \<in> set bs) then (bs, w')
        else (case store lib table ms y w' of (b, w'') \<Rightarrow> (bs @ [b], w'')))"
proof (induction xs arbitrary: w)
  case Nil
  then show ?case by (auto split: prod.split sum.split)
next
  case (Cons x xs)
  then show ?case by (fastforce split: prod.split sum.split)
qed

lemma store_all_split:
  "store_all lib table ms xs w = (bs, w') \<Longrightarrow> \<forall>f. Inl f \<notin> set bs \<Longrightarrow>
     store_all lib table ms (xs @ ys) w =
       (case store_all lib table ms ys w' of (cs, w'') \<Rightarrow> (bs @ cs, w''))"
proof (induction xs arbitrary: w bs)
  case (Cons x xs)
  then show ?case by (fastforce split: prod.splits sum.splits)
qed auto

text \<open>
  Only one batch can be committed: the writer's transaction object ends with the first
  commit and none is begun after it, so the store of the last row of the second batch throws
  out of \<open>store\<close>, which otherwise reports failures by its result.
\<close>

theorem store_second_batch_throws:
  assumes "rows_law lib pending durable open_tx" "smooth_law lib open_tx" "closed_law lib open_tx"
    and "open_tx db" "pending db = []"
    and "0 < threshold" "threshold < 2 ^ 32" "length rs1 = threshold" "length rs2 = threshold"
  shows "fst (store_all lib table ms (rs1 @ rs2) (DBWriter db threshold))
    = replicate (2 * threshold - 1) (Inr True) @ [Inl Uncaught]"
proof -
  let ?w = "DBWriter db threshold"
  have f: "filling pending open_tx ?w" using assms(4-7) by (simp add: filling_def DBWriter_def)
  obtain w1 where s1: "store_all lib table ms rs1 ?w = (replicate threshold (Inr True), w1)"
    using store_all_smooth [OF assms(1,2) f, of rs1 table ms] assms(8)
    by (cases "store_all lib table ms rs1 ?w") (auto simp: DBWriter_def)
  have "accepted rs1 (replicate threshold (Inr True)) = rs1" using accepted_all [of rs1] assms(8) by simp
  with store_all_batch [OF assms(1) f s1] assms(5,6,8) have
    w1: "wr_count w1 = 0" "\<not> open_tx (wr_session w1)" "wr_threshold w1 = threshold"
    by (auto simp: DBWriter_def)
  obtain xs y where rs: "rs2 = xs @ [y]" using assms(6,9) by (cases rs2 rule: rev_cases) auto
  from store_all_closed [OF assms(3,2), of w1 xs table ms] w1 assms(7,9) rs obtain w2 where
    w2: "store_all lib table ms xs w1 = (replicate (length xs) (Inr True), w2)" "\<not> open_tx (wr_session w2)"
      "wr_count w2 = length xs" "wr_threshold w2 = threshold" by auto
  obtain d where d: "insert_row lib (getInsertSQL table ms) y (wr_session w2) = (True, d)" "\<not> open_tx d"
    using assms(2,3) w2(2) unfolding closed_law_def smooth_law_def by (metis prod.collapse)
  have n: "Suc (length xs) = threshold" using assms(9) rs by simp
  then have u: "u32_add (length xs) 1 = threshold" using assms(7) by (simp add: u32_add_small)
  have "commit_tx lib d = None" using assms(3) d(2) unfolding closed_law_def by blast
  then have "fst (store lib table ms y w2) = Inl Uncaught"
    using d(1) w2(3,4) u by (simp add: store_def writeToDB_def Let_def)
  then have "fst (store_all lib table ms rs2 w1) = replicate (length xs) (Inr True) @ [Inl Uncaught]"
    using w2(1) by (auto simp: rs store_all_append split: prod.split)
  moreover have "replicate threshold (Inr True) @ replicate (length xs) (Inr True)
      = replicate (2 * threshold - 1) (Inr True)"
    using n by (simp add: replicate_add [symmetric])
  ultimately show ?thesis using store_all_split [OF s1, of rs2] by (auto split: prod.split)
qed

text \<open>The same table without the check of the row.\<close>

definition smooth_lib :: "(string list list \<times> string list list \<times> bool) soci" where
  "smooth_lib = table_lib\<lparr>insert_row := (\<lambda>sql row (p, d, o1). (True, if o1 then (p @ [row], d, o1) else (p, d @ [row], o1)))\<rparr>"

theorem store_second_batch_throws_witness:
  "fst (store_all smooth_lib ''t'' [''a''] ([[''1''], [''2'']] @ [[''3''], [''4'']]) (DBWriter ([], [], True) 2))
    = replicate 3 (Inr True) @ [Inl Uncaught]"
proof -
  let ?o = "\<lambda>db :: string list list \<times> string list list \<times> bool. snd (snd db)"
  have "rows_law smooth_lib fst (\<lambda>db. fst (snd db)) ?o"
    by (auto simp: rows_law_def smooth_lib_def table_lib_def)
  moreover have "smooth_law smooth_lib ?o" "closed_law smooth_lib ?o"
    by (auto simp: smooth_law_def closed_law_def smooth_lib_def table_lib_def)
  ultimately show ?thesis
    using store_second_batch_throws [of smooth_lib fst "\<lambda>db. fst (snd db)" ?o "([], [], True)" 2
      "[[''1''], [''2'']]" "[[''3''], [''4'']]" "''t''" "[''a'']"] by simp
qed

end
