(* ===== verification/Lu_Crypto.thy ===== *)
theory Lu_Crypto
  imports Lu_Data_Wrap Lu_Base_Socket
begin

text \<open>
  The wrappers around OpenSSL (\<open>Base64EncodeDecode\<close>, \<open>Hash\<close>, \<open>RSAPrivateKey\<close>, \<open>RSAPublicKey\<close>):
  how they size and fill their buffers and what they do with each return code. OpenSSL is a
  parameter; what its documentation says of it is a named law.
\<close>

section \<open>Base 64\<close>

text \<open>
  \<open>b64_write\<close> is what the encoder BIO has in memory after a write and a flush; \<open>b64_read\<close> all
  bytes that reading the decoder BIO of a message gives.
\<close>

record base64_lib =
  b64_write :: "byte list \<Rightarrow> string"
  b64_read :: "string \<Rightarrow> byte list"

definition size_minus :: "nat \<Rightarrow> nat \<Rightarrow> nat" where
  "size_minus a b = (a + 2 ^ 64 - b) mod 2 ^ 64"

text \<open>
  Indexing the message at \<open>len - 1\<close> or \<open>len - 2\<close> below zero is outside the string, which
  \<open>operator[]\<close> does not check. The second index is only evaluated after a final \<open>'='\<close>.
\<close>

definition calcDecodeLength :: "string \<Rightarrow> nat option" where
  "calcDecodeLength b64message =
     (let len = length b64message in
      if len = 0 then None
      else if b64message ! (len - 1) = CHR ''='' then
        if len = 1 then None
        else Some (size_minus (len * 3 div 4) (if b64message ! (len - 2) = CHR ''='' then 2 else 1))
      else Some (len * 3 div 4))"

text \<open>
  \<open>static_cast<int>\<close> of a \<open>size_t\<close> keeps the low 32 bits. The BIO functions neither write nor read
  anything for a length that is not positive.
\<close>

definition int_of_size :: "nat \<Rightarrow> int" where
  "int_of_size n = sint (word_of_nat n :: 32 word)"

definition base64_encode :: "base64_lib \<Rightarrow> data_wrap \<Rightarrow> string" where
  "base64_encode lib d = b64_write lib (take (nat (int_of_size (dw_length d))) (dw_data d))"

text \<open>The other \<open>encode\<close> copies into memory of the caller, at most \<open>maxLength\<close> characters.\<close>

definition base64_encode_to :: "base64_lib \<Rightarrow> byte list \<Rightarrow> string \<Rightarrow> nat \<Rightarrow> string option" where
  "base64_encode_to lib bs dest maxLength =
     (let s = b64_write lib bs;
          len = (if maxLength < length s then maxLength else length s) in
      mem_write dest 0 (take len s))"

text \<open>
  \<open>decode\<close> allocates the calculated length, which throws beyond what an array can have, and
  lets \<open>BIO_read\<close> store up to \<open>static_cast<int>(length + 1)\<close> bytes there. \<open>BIO_new_mem_buf\<close> with the
  length \<open>-1\<close> takes the text up to its first NUL.
\<close>

definition base64_decode :: "base64_lib \<Rightarrow> string \<Rightarrow> data_wrap run" where
  "base64_decode lib b64message =
     (case calcDecodeLength b64message of
        None \<Rightarrow> Some (Inl MemoryFault)
      | Some n \<Rightarrow>
          if n \<ge> 2 ^ 63 then Some (Inl Uncaught)
          else
            let dw = DataWrap n in
            (case mem_write (dw_data dw) 0 (take (nat (int_of_size (length b64message + 1)))
                (b64_read lib (takeWhile (\<lambda>c. c \<noteq> CHR 0x00) b64message))) of
               None \<Rightarrow> Some (Inl MemoryFault)
             | Some d \<Rightarrow> Some (Inr (dw\<lparr>dw_data := d\<rparr>))))"

text \<open>RFC 4648, as OpenSSL documents its encoder without newlines and its decoder.\<close>

definition base64_law :: "base64_lib \<Rightarrow> bool" where
  "base64_law lib \<longleftrightarrow>
     (\<forall>bs. length (b64_write lib bs) = 4 * ((length bs + 2) div 3)
       \<and> (bs \<noteq> [] \<longrightarrow>
            (last (b64_write lib bs) = CHR ''='' \<longleftrightarrow> length bs mod 3 \<noteq> 0)
            \<and> (b64_write lib bs ! (length (b64_write lib bs) - 2) = CHR ''='' \<longleftrightarrow> length bs mod 3 = 1))
       \<and> CHR 0x00 \<notin> set (b64_write lib bs) \<and> b64_read lib (b64_write lib bs) = bs)"

lemma int_of_size_small: "n < 2 ^ 31 \<Longrightarrow> int_of_size n = int n"
  by (simp add: int_of_size_def signed_of_nat signed_take_bit_int_eq_self)

lemma base64_lengths:
  "0 < n \<Longrightarrow> 4 * ((n + 2) div 3) * 3 div 4 - (if n mod 3 = 1 then 2 else if n mod 3 = 2 then 1 else 0) = (n::nat)"
  "0 < n \<Longrightarrow> n \<le> 3 * ((n + 2) div (3::nat))"
proof -
  assume n: "0 < n"
  have q: "4 * m * 3 div 4 = 3 * m" for m :: nat by simp
  consider "n mod 3 = 0" | "n mod 3 = 1" | "n mod 3 = 2" by linarith
  then show "4 * ((n + 2) div 3) * 3 div 4 - (if n mod 3 = 1 then 2 else if n mod 3 = 2 then 1 else 0) = n"
    unfolding q by cases presburger+
  show "n \<le> 3 * ((n + 2) div 3)" by presburger
qed

lemma calcDecodeLength_encoded:
  assumes l: "base64_law lib" and bs: "bs \<noteq> []" and n: "length bs < 2 ^ 60"
  shows "calcDecodeLength (b64_write lib bs) = Some (length bs)"
proof -
  let ?s = "b64_write lib bs" and ?n = "length bs"
  define m where "m = (?n + 2) div 3"
  have s: "length ?s = 4 * m" "last ?s = CHR ''='' \<longleftrightarrow> ?n mod 3 \<noteq> 0"
    "?s ! (length ?s - 2) = CHR ''='' \<longleftrightarrow> ?n mod 3 = 1"
    using l bs by (auto simp: base64_law_def m_def)
  have m: "1 \<le> m" using bs by (cases bs) (auto simp: m_def)
  have ne: "?s \<noteq> []" using s(1) m by auto
  have la: "?s ! (length ?s - 1) = last ?s" using ne by (simp add: last_conv_nth)
  have le: "m \<le> ?n" using bs by (cases bs) (auto simp: m_def)
  have sm: "size_minus (3 * m) k = 3 * m - k" if "k \<le> 2" for k
  proof -
    have "3 * m + 2 ^ 64 - k = (3 * m - k) + 2 ^ 64" using that m by simp
    moreover have "3 * m - k < 2 ^ 64" using le n by simp
    ultimately show ?thesis unfolding size_minus_def by (simp only: mod_add_self2 mod_less)
  qed
  have q: "length ?s * 3 div 4 = 3 * m" using s(1) by simp
  have "3 * m - (if ?n mod 3 = 1 then 2 else if ?n mod 3 = 2 then 1 else 0) = ?n"
    using base64_lengths(1) [of ?n] bs unfolding m_def by simp
  moreover have "length ?s \<noteq> 0" "length ?s \<noteq> 1" using s(1) m by auto
  ultimately show ?thesis
    unfolding calcDecodeLength_def Let_def q la s(2,3)
    using sm [of 1] sm [of 2] by (cases "?n mod 3 = 0") (auto split: if_splits)
qed

lemma base64_roundtrip_lemma:
  assumes "base64_law lib" "dw_wf d" "0 < dw_length d" "dw_length d < 2 ^ 30"
  shows "\<exists>d'. base64_decode lib (base64_encode lib d) = Some (Inr d')
    \<and> dw_data d' = dw_data d \<and> dw_length d' = dw_length d"
proof -
  let ?bs = "dw_data d"
  have b: "take (nat (int_of_size (dw_length d))) ?bs = ?bs" "length ?bs = dw_length d" "?bs \<noteq> []"
    using assms(2-4) by (auto simp: dw_wf_def int_of_size_small)
  have c: "calcDecodeLength (b64_write lib ?bs) = Some (dw_length d)"
    using calcDecodeLength_encoded [OF assms(1) b(3)] b(2) assms(4) by simp
  have le: "length ?bs \<le> length (b64_write lib ?bs)"
    using assms(1) base64_lengths(2) [of "length ?bs"] b(2) assms(3) by (simp add: base64_law_def)
  have "length (b64_write lib ?bs) + 1 < 2 ^ 31"
    using assms(1,4) b(2) by (simp add: base64_law_def)
  then have i: "nat (int_of_size (length (b64_write lib ?bs) + 1)) = length (b64_write lib ?bs) + 1"
    by (simp only: int_of_size_small nat_int)
  have t: "takeWhile (\<lambda>c. c \<noteq> CHR 0x00) (b64_write lib ?bs) = b64_write lib ?bs"
    and rb: "b64_read lib (b64_write lib ?bs) = ?bs"
    using assms(1) by (auto simp: base64_law_def takeWhile_eq_all_conv)
  have r: "take (nat (int_of_size (length (b64_write lib ?bs) + 1)))
      (b64_read lib (takeWhile (\<lambda>c. c \<noteq> CHR 0x00) (b64_write lib ?bs))) = ?bs"
    unfolding i t rb using le by simp
  have "base64_decode lib (base64_encode lib d) = Some (Inr ((DataWrap (dw_length d))\<lparr>dw_data := ?bs\<rparr>))"
    unfolding base64_encode_def base64_decode_def b(1) c option.case Let_def r
    using assms(4) b(2) by (simp add: DataWrap_def mem_write_def overwrite_def)
  then show ?thesis by (intro exI [of _ "(DataWrap (dw_length d))\<lparr>dw_data := ?bs\<rparr>"]) (simp add: DataWrap_def)
qed

text \<open>
  Decoding what was encoded gives the same bytes, in a buffer that they fill exactly:
  the length calculated from the text and its padding is the number of bytes, whatever
  their number modulo three, so that nothing is written behind the buffer. The lengths are
  those that an \<open>int\<close> holds.
\<close>

theorem base64_roundtrip:
  assumes "base64_law lib" "dw_wf d" "0 < dw_length d" "dw_length d < 2 ^ 30"
  shows "\<exists>d'. base64_decode lib (base64_encode lib d) = Some (Inr d')
    \<and> dw_data d' = dw_data d \<and> dw_length d' = dw_length d"
  using base64_roundtrip_lemma [OF assms] .

text \<open>
  The empty text is not decoded: its last character is read outside the string, and so is
  the one before the last of \<open>=\<close>; and \<open>==\<close> asks for a buffer of almost
  \<open>2 ^ 64\<close> bytes. A text that is not padded as it should be can decode to more bytes than
  the buffer has.
\<close>

theorem base64_decode_malformed:
  "base64_decode lib [] = Some (Inl MemoryFault)
   \<and> base64_decode lib ''='' = Some (Inl MemoryFault)
   \<and> base64_decode lib ''=='' = Some (Inl Uncaught)
   \<and> (length (b64_read lib (takeWhile (\<lambda>c. c \<noteq> CHR 0x00) s)) > n \<longrightarrow> n \<le> length s
        \<longrightarrow> calcDecodeLength s = Some n \<longrightarrow> length s + 1 < 2 ^ 31 \<longrightarrow> base64_decode lib s = Some (Inl MemoryFault))"
proof -
  have "base64_decode lib [] = Some (Inl MemoryFault)" "base64_decode lib ''='' = Some (Inl MemoryFault)"
    "base64_decode lib ''=='' = Some (Inl Uncaught)"
    by (simp_all add: base64_decode_def calcDecodeLength_def size_minus_def)
  moreover have "base64_decode lib s = Some (Inl MemoryFault)"
    if "length (b64_read lib (takeWhile (\<lambda>c. c \<noteq> CHR 0x00) s)) > n" "n \<le> length s"
      "calcDecodeLength s = Some n" "length s + 1 < 2 ^ 31"
    using that int_of_size_small [of "length s + 1"] by (auto simp: base64_decode_def Let_def DataWrap_def mem_write_def)
  ultimately show ?thesis by blast
qed

section \<open>Hashes\<close>

text \<open>MD4 is in the enumeration too, but has no traits: code that names it does not compile.\<close>

datatype HashAlgo = SHA | SHA224 | SHA256 | SHA384 | SHA512 | MD5

definition ALGO_NAME :: "HashAlgo \<Rightarrow> string" where
  "ALGO_NAME a = (case a of SHA \<Rightarrow> ''SHA1'' | SHA224 \<Rightarrow> ''SHA224'' | SHA256 \<Rightarrow> ''SHA256''
     | SHA384 \<Rightarrow> ''SHA384'' | SHA512 \<Rightarrow> ''SHA512'' | MD5 \<Rightarrow> ''MD5'')"

definition HASH_SIZE :: "HashAlgo \<Rightarrow> nat" where
  "HASH_SIZE a = (case a of SHA \<Rightarrow> 20 | SHA224 \<Rightarrow> 28 | SHA256 \<Rightarrow> 32 | SHA384 \<Rightarrow> 48 | SHA512 \<Rightarrow> 64 | MD5 \<Rightarrow> 16)"

text \<open>The digest of a signature, by its name.\<close>

definition HASH_FUNCTION :: "HashAlgo \<Rightarrow> string" where
  "HASH_FUNCTION a = (case a of SHA \<Rightarrow> ''SHA1'' | SHA224 \<Rightarrow> ''SHA256'' | SHA256 \<Rightarrow> ''SHA256''
     | SHA384 \<Rightarrow> ''SHA384'' | SHA512 \<Rightarrow> ''SHA512'' | MD5 \<Rightarrow> ''MD5'')"

text \<open>
  \<open>digest name data\<close> is what \<open>EVP_DigestFinal_ex\<close> stores for a digest that is known by its
  name. Without a successful \<open>init\<close> there is no digest and no context.
\<close>

definition hash_init :: "(string \<Rightarrow> (byte list \<Rightarrow> byte list) option) \<Rightarrow> HashAlgo \<Rightarrow> bool" where
  "hash_init lib a = (lib (ALGO_NAME a) \<noteq> None)"

definition getHash ::
  "(string \<Rightarrow> (byte list \<Rightarrow> byte list) option) \<Rightarrow> HashAlgo \<Rightarrow> byte list \<Rightarrow> data_wrap run" where
  "getHash lib a bs =
     (case lib (ALGO_NAME a) of
        None \<Rightarrow> Some (Inl MemoryFault)
      | Some digest \<Rightarrow>
          let dw = DataWrap (HASH_SIZE a) in
          (case mem_write (dw_data dw) 0 (digest bs) of
             None \<Rightarrow> Some (Inl MemoryFault)
           | Some d \<Rightarrow> Some (Inr (dw\<lparr>dw_data := d\<rparr>))))"

definition getBase64Hash ::
  "base64_lib \<Rightarrow> (string \<Rightarrow> (byte list \<Rightarrow> byte list) option) \<Rightarrow> HashAlgo \<Rightarrow> byte list \<Rightarrow> string run" where
  "getBase64Hash b64 lib a bs =
     (case getHash lib a bs of
        None \<Rightarrow> None
      | Some (Inl f) \<Rightarrow> Some (Inl f)
      | Some (Inr dw) \<Rightarrow> Some (Inr (base64_encode b64 dw)))"

section \<open>Signatures\<close>

text \<open>
  The steps of signing and verifying with a key and a digest: \<open>None\<close> or a result that is not
  positive fails. \<open>sign_size\<close> is the first call of \<open>EVP_DigestSignFinal\<close>, for the size of the
  signature, and \<open>sign_final\<close> the second.
\<close>

record ('key, 'ctx) signature_lib =
  sign_init :: "string \<Rightarrow> 'key \<Rightarrow> 'ctx option"
  sign_update :: "'ctx \<Rightarrow> byte list \<Rightarrow> 'ctx option"
  sign_size :: "'ctx \<Rightarrow> nat option"
  sign_final :: "'ctx \<Rightarrow> byte list option"
  verify_init :: "string \<Rightarrow> 'key \<Rightarrow> 'ctx option"
  verify_update :: "'ctx \<Rightarrow> byte list \<Rightarrow> 'ctx option"
  verify_final :: "'ctx \<Rightarrow> byte list \<Rightarrow> int"

definition getBase64Signature ::
  "base64_lib \<Rightarrow> ('key, 'ctx) signature_lib \<Rightarrow> HashAlgo \<Rightarrow> 'key option \<Rightarrow> byte list \<Rightarrow> byte list \<Rightarrow> string run" where
  "getBase64Signature b64 lib a key bs salt =
     (case key of
        None \<Rightarrow> Some (Inl Aborted)
      | Some k \<Rightarrow>
        (case sign_init lib (HASH_FUNCTION a) k of
           None \<Rightarrow> Some (Inr [])
         | Some ctx \<Rightarrow>
           (case sign_update lib ctx (salt @ bs) of
              None \<Rightarrow> Some (Inr [])
            | Some ctx \<Rightarrow>
              (case sign_size lib ctx of
                 None \<Rightarrow> Some (Inr [])
               | Some n \<Rightarrow>
                 let dw = DataWrap n in
                 (case sign_final lib ctx of
                    None \<Rightarrow> Some (Inr [])
                  | Some sig \<Rightarrow>
                    (case mem_write (dw_data dw) 0 sig of
                       None \<Rightarrow> Some (Inl MemoryFault)
                     | Some d \<Rightarrow> Some (Inr (base64_encode b64 (dw\<lparr>dw_data := d\<rparr>)))))))))"

definition verifyBase64Signature ::
  "base64_lib \<Rightarrow> ('key, 'ctx) signature_lib \<Rightarrow> HashAlgo \<Rightarrow> 'key option \<Rightarrow> byte list \<Rightarrow> string \<Rightarrow> byte list \<Rightarrow> bool run" where
  "verifyBase64Signature b64 lib a key bs signature salt =
     (case key of
        None \<Rightarrow> Some (Inl Aborted)
      | Some k \<Rightarrow>
        (case base64_decode b64 signature of
           None \<Rightarrow> None
         | Some (Inl f) \<Rightarrow> Some (Inl f)
         | Some (Inr dw) \<Rightarrow>
           (case verify_init lib (HASH_FUNCTION a) k of
              None \<Rightarrow> Some (Inr False)
            | Some ctx \<Rightarrow>
              (case verify_update lib ctx (salt @ bs) of
                 None \<Rightarrow> Some (Inr False)
               | Some ctx \<Rightarrow> Some (Inr (verify_final lib ctx (take (dw_length dw) (dw_data dw)) = 1))))))"

text \<open>
  \<open>signed\<close> and \<open>accepts\<close> are the library's steps one after the other. What it promises of a key
  pair: every step succeeds, a signature is at most as long as announced, and the public key
  accepts the signature that the private key made for the same digest and message. Nothing is
  said of other signatures: a scheme may have several for one message, and random ones.
\<close>

definition signed :: "('key, 'ctx) signature_lib \<Rightarrow> string \<Rightarrow> 'key \<Rightarrow> byte list \<Rightarrow> byte list option" where
  "signed lib h k bs =
     do { c0 \<leftarrow> sign_init lib h k; c1 \<leftarrow> sign_update lib c0 bs; sign_final lib c1 }"

definition accepts :: "('key, 'ctx) signature_lib \<Rightarrow> string \<Rightarrow> 'key \<Rightarrow> byte list \<Rightarrow> byte list \<Rightarrow> bool" where
  "accepts lib h k bs s =
     (case do { v0 \<leftarrow> verify_init lib h k; verify_update lib v0 bs } of
        None \<Rightarrow> False
      | Some v1 \<Rightarrow> verify_final lib v1 s = 1)"

definition key_pair :: "('key, 'ctx) signature_lib \<Rightarrow> nat \<Rightarrow> 'key \<Rightarrow> 'key \<Rightarrow> bool" where
  "key_pair lib n priv pub \<longleftrightarrow>
     (\<forall>h bs. \<exists>c0 c1 s. sign_init lib h priv = Some c0 \<and> sign_update lib c0 bs = Some c1
        \<and> sign_size lib c1 = Some n \<and> sign_final lib c1 = Some s
        \<and> 0 < length s \<and> length s \<le> n \<and> accepts lib h pub bs s)"

lemma verify_decoded:
  assumes "base64_decode b64 s = Some (Inr dw)"
  shows "verifyBase64Signature b64 lib a (Some pub) bs s salt
    = Some (Inr (accepts lib (HASH_FUNCTION a) pub (salt @ bs) (take (dw_length dw) (dw_data dw))))"
  using assms by (simp add: verifyBase64Signature_def accepts_def split: option.split)

lemma sign_verify:
  assumes l: "base64_law b64" and k: "key_pair lib n priv pub" and n: "n < 2 ^ 30"
  shows "\<exists>sig s. signed lib (HASH_FUNCTION a) priv (salt @ bs) = Some sig \<and> length sig \<le> n
    \<and> accepts lib (HASH_FUNCTION a) pub (salt @ bs) sig
    \<and> getBase64Signature b64 lib a (Some priv) bs salt = Some (Inr s)
    \<and> (\<forall>a' bs' salt'. verifyBase64Signature b64 lib a' (Some pub) bs' s salt'
        = Some (Inr (accepts lib (HASH_FUNCTION a') pub (salt' @ bs') (sig @ replicate (n - length sig) 0))))"
proof -
  obtain c0 c1 sig where s: "sign_init lib (HASH_FUNCTION a) priv = Some c0" "sign_update lib c0 (salt @ bs) = Some c1"
    "sign_size lib c1 = Some n" "sign_final lib c1 = Some sig" "0 < length sig" "length sig \<le> n"
    "accepts lib (HASH_FUNCTION a) pub (salt @ bs) sig"
    using k unfolding key_pair_def by metis
  let ?d = "(DataWrap n)\<lparr>dw_data := sig @ replicate (n - length sig) 0\<rparr>"
  have w: "mem_write (dw_data (DataWrap n)) 0 sig = Some (sig @ replicate (n - length sig) 0)"
    using s(6) by (simp add: DataWrap_def mem_write_def overwrite_def)
  have g: "getBase64Signature b64 lib a (Some priv) bs salt = Some (Inr (base64_encode b64 ?d))"
    using s w by (simp add: getBase64Signature_def Let_def)
  have "dw_wf ?d" "0 < dw_length ?d" "dw_length ?d < 2 ^ 30"
    using s(6) less_le_trans [OF s(5,6)] n by (auto simp: dw_wf_def DataWrap_def)
  from base64_roundtrip_lemma [OF l this] obtain d' where d': "base64_decode b64 (base64_encode b64 ?d) = Some (Inr d')"
    "dw_data d' = dw_data ?d" "dw_length d' = n" by (auto simp: DataWrap_def)
  have "take (dw_length d') (dw_data d') = sig @ replicate (n - length sig) 0"
    using d'(2,3) s(6) by simp
  with verify_decoded [OF d'(1)] g s show ?thesis by (auto simp: signed_def)
qed

text \<open>
  C34. A signature goes through: \<open>getBase64Signature\<close> encodes what the library signs, and
  \<open>verifyBase64Signature\<close> with that text asks the library about the signature in the announced
  length, for any message, salt and algorithm. A signature as long as announced, as those of
  RSA keys are, is therefore accepted for the message, salt and algorithm it was made for; one
  that is shorter is put to the library with zeros behind it. The library is any that keeps
  its documentation (\<open>base64_law\<close>, \<open>key_pair\<close>) with signatures below \<open>2^30\<close> bytes, whose lengths in
  Base64 an \<open>int\<close> holds.
\<close>

theorem signature_verifies:
  assumes "base64_law b64" "key_pair lib n priv pub" "n < 2 ^ 30"
  shows "\<exists>sig s. signed lib (HASH_FUNCTION a) priv (salt @ bs) = Some sig \<and> length sig \<le> n
    \<and> getBase64Signature b64 lib a (Some priv) bs salt = Some (Inr s)
    \<and> (\<forall>a' bs' salt'. verifyBase64Signature b64 lib a' (Some pub) bs' s salt'
        = Some (Inr (accepts lib (HASH_FUNCTION a') pub (salt' @ bs') (sig @ replicate (n - length sig) 0))))
    \<and> (length sig = n \<longrightarrow> verifyBase64Signature b64 lib a (Some pub) bs s salt = Some (Inr True))"
proof -
  from sign_verify [OF assms, of a salt bs] obtain sig s where
    "signed lib (HASH_FUNCTION a) priv (salt @ bs) = Some sig" "length sig \<le> n"
    "accepts lib (HASH_FUNCTION a) pub (salt @ bs) sig"
    "getBase64Signature b64 lib a (Some priv) bs salt = Some (Inr s)"
    "\<forall>a' bs' salt'. verifyBase64Signature b64 lib a' (Some pub) bs' s salt'
        = Some (Inr (accepts lib (HASH_FUNCTION a') pub (salt' @ bs') (sig @ replicate (n - length sig) 0)))"
    by blast
  then show ?thesis by auto
qed

section \<open>Keys from files\<close>

text \<open>
  A key object holds a pointer; \<open>rk_leaked\<close> counts the keys that nothing frees any more. The
  argument \<open>file\<close> gives the text of a file that can be opened, \<open>pem\<close> the key that OpenSSL finds
  in a text. A string in memory is read up to its first NUL, as its length is given as \<open>-1\<close>.
\<close>

record 'key rsa_key =
  rk_key :: "'key option"
  rk_leaked :: nat

definition replace_key :: "'key option \<Rightarrow> 'key rsa_key \<Rightarrow> bool \<times> 'key rsa_key" where
  "replace_key new k =
     (new \<noteq> None, k\<lparr>rk_key := new, rk_leaked := rk_leaked k + (if rk_key k = None then 0 else 1)\<rparr>)"

definition RSAPrivateKey_load ::
  "(string \<Rightarrow> string option) \<Rightarrow> (string \<Rightarrow> 'key option) \<Rightarrow> string \<Rightarrow> 'key rsa_key \<Rightarrow> bool \<times> 'key rsa_key" where
  "RSAPrivateKey_load file pem path k =
     (case file path of None \<Rightarrow> (False, k) | Some txt \<Rightarrow> replace_key (pem txt) k)"

definition RSAPublicKey_load ::
  "(string \<Rightarrow> string option) \<Rightarrow> (string \<Rightarrow> 'key option) \<Rightarrow> string \<Rightarrow> 'key rsa_key \<Rightarrow> bool \<times> 'key rsa_key" where
  "RSAPublicKey_load file pem path k =
     (case file path of None \<Rightarrow> (False, k) | Some txt \<Rightarrow> replace_key (pem txt) k)"

definition RSAPublicKey_read :: "(string \<Rightarrow> 'key option) \<Rightarrow> string \<Rightarrow> 'key rsa_key \<Rightarrow> bool \<times> 'key rsa_key" where
  "RSAPublicKey_read pem publickey k = replace_key (pem (takeWhile (\<lambda>c. c \<noteq> CHR 0x00) publickey)) k"

definition RSAKey_destroy :: "'key rsa_key \<Rightarrow> nat" where
  "RSAKey_destroy k = rk_leaked k"

text \<open>Keys that were loaded can be used, and a key that is loaded again is never freed.\<close>

lemma loaded_keys_verify:
  assumes "base64_law b64" "n < 2 ^ 30"
    and "RSAPrivateKey_load file pem path k = (True, priv)" "RSAPublicKey_load file' pem' path' k' = (True, pub)"
    and "\<And>x y. rk_key priv = Some x \<Longrightarrow> rk_key pub = Some y \<Longrightarrow> key_pair lib n x y"
    and "\<And>h x bs s. rk_key priv = Some x \<Longrightarrow> signed lib h x bs = Some s \<Longrightarrow> length s = n"
  shows "\<exists>s. getBase64Signature b64 lib a (rk_key priv) bs salt = Some (Inr s)
    \<and> verifyBase64Signature b64 lib a (rk_key pub) bs s salt = Some (Inr True)"
proof -
  obtain x y where k: "rk_key priv = Some x" "rk_key pub = Some y"
    using assms(3,4) by (auto simp: RSAPrivateKey_load_def RSAPublicKey_load_def replace_key_def split: option.splits)
  from sign_verify [OF assms(1) assms(5) [OF k] assms(2), of a salt bs] obtain sig s where
    s: "signed lib (HASH_FUNCTION a) x (salt @ bs) = Some sig" "accepts lib (HASH_FUNCTION a) y (salt @ bs) sig"
    "getBase64Signature b64 lib a (Some x) bs salt = Some (Inr s)"
    "verifyBase64Signature b64 lib a (Some y) bs s salt
      = Some (Inr (accepts lib (HASH_FUNCTION a) y (salt @ bs) (sig @ replicate (n - length sig) 0)))" by blast
  from assms(6) [OF k(1) s(1)] s k show ?thesis by auto
qed

lemma load_again_leaks:
  assumes "rk_key k = Some x" "file path = Some t"
  shows "RSAKey_destroy (snd (RSAPrivateKey_load file pem path k)) = Suc (rk_leaked k)"
    and "pem t = None \<Longrightarrow> rk_key (snd (RSAPrivateKey_load file pem path k)) = None"
  using assms by (simp_all add: RSAPrivateKey_load_def replace_key_def RSAKey_destroy_def)

section \<open>A library\<close>

text \<open>
  A base 64 library for the witnesses: groups of three bytes as four characters of six bits,
  padded as the standard says, with the characters from code 64 on as alphabet.
\<close>

definition six :: "nat \<Rightarrow> char" where
  "six n = char_of (64 + n)"

definition six_of :: "char \<Rightarrow> nat" where
  "six_of c = of_char c - 64"

fun b64_groups :: "byte list \<Rightarrow> string" where
  "b64_groups [] = []"
| "b64_groups [a] = [six (unat a div 4), six (unat a mod 4 * 16), CHR ''='', CHR ''='']"
| "b64_groups [a, b] =
     [six (unat a div 4), six (unat a mod 4 * 16 + unat b div 16), six (unat b mod 16 * 4), CHR ''='']"
| "b64_groups (a # b # c # bs) =
     six (unat a div 4) # six (unat a mod 4 * 16 + unat b div 16)
       # six (unat b mod 16 * 4 + unat c div 64) # six (unat c mod 64) # b64_groups bs"

fun b64_ungroup :: "string \<Rightarrow> byte list" where
  "b64_ungroup (w # x # y # z # s) =
     (if y = CHR ''='' then [word_of_nat (six_of w * 4 + six_of x div 16)]
      else if z = CHR ''='' then
        [word_of_nat (six_of w * 4 + six_of x div 16), word_of_nat (six_of x mod 16 * 16 + six_of y div 4)]
      else word_of_nat (six_of w * 4 + six_of x div 16)
        # word_of_nat (six_of x mod 16 * 16 + six_of y div 4)
        # word_of_nat (six_of y mod 4 * 64 + six_of z) # b64_ungroup s)"
| "b64_ungroup _ = []"

definition b64_lib :: base64_lib where
  "b64_lib = \<lparr>b64_write = b64_groups, b64_read = b64_ungroup\<rparr>"

lemma six_of_six [simp]: "n < 64 \<Longrightarrow> six_of (six n) = n"
  by (simp add: six_of_def six_def)

lemma six_not_pad: "n < 64 \<Longrightarrow> six n \<noteq> CHR ''=''"
proof
  assume n: "n < 64" and e: "six n = CHR ''=''"
  have "of_char (six n) = (64 + n :: nat)" using n by (simp add: six_def)
  then show False using e n by simp
qed

lemma byte_bound: "unat (b :: byte) < 256"
  using unsigned_less [of b] by simp

lemma six_bounds [simp]:
  "unat (a :: byte) div 4 < 64" "unat a mod 4 * 16 + unat (b :: byte) div 16 < 64"
  "unat b mod 16 * 4 + unat (c :: byte) div 64 < 64" "unat a mod 4 * 16 < 64" "unat b mod 16 * 4 < 64"
  using byte_bound [of a] byte_bound [of b] byte_bound [of c]
    mod_less_divisor [of 4 "unat a"] mod_less_divisor [of 16 "unat b"] by (simp_all; linarith)+

lemma regroup:
  "a div 4 * 4 + (a mod 4 * 16 + b div 16) div 16 = (a::nat)" if "b < 256" for a b :: nat
proof -
  have "(a mod 4 * 16 + b div 16) div 16 = a mod 4" using that by simp
  then show ?thesis by simp
qed

lemma regroup2:
  "(a mod 4 * 16 + b div 16) mod 16 * 16 + (b mod 16 * 4 + c div 64) div 4 = b" if "b < 256" "c < 256"
  for a b c :: nat
proof -
  have "(a mod 4 * 16 + b div 16) mod 16 = b div 16" using that by simp
  moreover have "(b mod 16 * 4 + c div 64) div 4 = b mod 16" using that by simp
  ultimately show ?thesis by simp
qed

lemma regroup3: "(b mod 16 * 4 + c div 64) mod 4 * 64 + c mod 64 = c" if "c < 256" for b c :: nat
proof -
  have "(b mod 16 * 4 + c div 64) mod 4 = c div 64" using that by simp
  then show ?thesis by simp
qed

lemma b64_ungroup_groups: "b64_ungroup (b64_groups bs) = bs"
proof (induction bs rule: b64_groups.induct)
  case (2 a)
  then show ?case using regroup [where b = 0 and a = "unat a"] by simp
next
  case (3 a b)
  then show ?case
    using regroup [where b = "unat b" and a = "unat a"] regroup2 [where b = "unat b" and c = 0 and a = "unat a"]
      byte_bound [of b] six_not_pad [of "unat b mod 16 * 4"] by simp
next
  case (4 a b c bs)
  then show ?case
    using regroup [where b = "unat b" and a = "unat a"] regroup2 [where b = "unat b" and c = "unat c" and a = "unat a"]
      regroup3 [where c = "unat c" and b = "unat b"] byte_bound [of b] byte_bound [of c]
      six_not_pad [of "unat b mod 16 * 4 + unat c div 64"] six_not_pad [of "unat c mod 64"] by simp
qed simp

lemma length_b64_groups: "length (b64_groups bs) = 4 * ((length bs + 2) div 3)"
proof (induction bs rule: b64_groups.induct)
  case (4 a b c bs)
  have "(length (a # b # c # bs) + 2) div 3 = Suc ((length bs + 2) div 3)" by simp
  then show ?case using 4 by simp
qed simp_all

lemma b64_groups_padding:
  "bs \<noteq> [] \<Longrightarrow> (last (b64_groups bs) = CHR ''='' \<longleftrightarrow> length bs mod 3 \<noteq> 0)
     \<and> (b64_groups bs ! (length (b64_groups bs) - 2) = CHR ''='' \<longleftrightarrow> length bs mod 3 = 1)"
proof (induction bs rule: b64_groups.induct)
  case (3 a b)
  then show ?case using six_not_pad [OF six_bounds(5) [of b]] by simp
next
  case (4 a b c bs)
  have m: "length (a # b # c # bs) mod 3 = length bs mod 3" by simp
  show ?case
  proof (cases "bs = []")
    case True
    then show ?thesis
      using six_not_pad [OF six_bounds(3) [of b c]] six_not_pad [of "unat c mod 64"] by simp
  next
    case False
    then have n: "4 \<le> length (b64_groups bs)" using length_b64_groups [of bs] by (cases bs) auto
    then have "b64_groups bs \<noteq> []" by auto
    moreover have "(ws @ b64_groups bs) ! (length (ws @ b64_groups bs) - 2)
        = b64_groups bs ! (length (b64_groups bs) - 2)" for ws
    proof -
      have "\<not> length ws + length (b64_groups bs) - 2 < length ws"
        "length ws + length (b64_groups bs) - 2 - length ws = length (b64_groups bs) - 2"
        using n by linarith+
      then show ?thesis by (simp only: nth_append length_append if_False)
    qed
    then have "b64_groups (a # b # c # bs) ! (length (b64_groups (a # b # c # bs)) - 2)
        = b64_groups bs ! (length (b64_groups bs) - 2)"
      unfolding b64_groups.simps by (metis append_Cons append_Nil)
    ultimately show ?thesis using 4 False m by simp
  qed
qed simp_all

lemma six_not_nul: "n < 64 \<Longrightarrow> CHR 0x00 \<noteq> six n"
proof
  assume n: "n < 64" and e: "CHR 0x00 = six n"
  have "of_char (six n) = (64 + n :: nat)" using n by (simp add: six_def)
  then show False using e [symmetric] n by simp
qed

lemma b64_groups_no_nul: "CHR 0x00 \<notin> set (b64_groups bs)"
proof (induction bs rule: b64_groups.induct)
  case (4 a b c bs)
  then show ?case by (simp add: six_not_nul)
qed (simp_all add: six_not_nul)

lemma b64_lib_law: "base64_law b64_lib"
  using b64_groups_padding
  by (simp add: base64_law_def b64_lib_def length_b64_groups b64_ungroup_groups b64_groups_no_nul)

theorem base64_roundtrip_witness:
  "\<exists>d'. base64_decode b64_lib (base64_encode b64_lib \<lparr>dw_data = [1, 2, 3, 4], dw_length = 4, dw_offset = 0\<rparr>)
     = Some (Inr d') \<and> dw_data d' = [1, 2, 3, 4]"
  using base64_roundtrip [OF b64_lib_law, of "\<lparr>dw_data = [1, 2, 3, 4], dw_length = 4, dw_offset = 0\<rparr>"]
  by (auto simp: dw_wf_def)

theorem base64_decode_malformed_witness:
  "base64_decode \<lparr>b64_write = b64_groups, b64_read = (\<lambda>s. [1, 2])\<rparr> ''AA'' = Some (Inl MemoryFault)"
  using base64_decode_malformed [where lib = "\<lparr>b64_write = b64_groups, b64_read = (\<lambda>s. [1, 2])\<rparr>" and s = "''AA''" and n = 1]
  by (simp add: calcDecodeLength_def)

text \<open>
  A signature library whose signatures are of two bytes, announced as \<open>n\<close> bytes, and which
  accepts two signatures for a message.
\<close>

definition toy_signatures :: "nat \<Rightarrow> (unit, byte list) signature_lib" where
  "toy_signatures n = \<lparr>
     sign_init = (\<lambda>h k. Some []), sign_update = (\<lambda>c bs. Some (c @ bs)), sign_size = (\<lambda>c. Some n),
     sign_final = (\<lambda>c. Some [1, word_of_nat (length c)]),
     verify_init = (\<lambda>h k. Some []), verify_update = (\<lambda>c bs. Some (c @ bs)),
     verify_final = (\<lambda>c s. if s = [1, word_of_nat (length c)] \<or> s = [2, word_of_nat (length c)] then 1 else 0)\<rparr>"

theorem signature_verifies_witness:
  "(\<exists>s. getBase64Signature b64_lib (toy_signatures 2) SHA256 (Some ()) [5] [6] = Some (Inr s)
      \<and> verifyBase64Signature b64_lib (toy_signatures 2) SHA256 (Some ()) [5] s [6] = Some (Inr True))
   \<and> (\<exists>s. getBase64Signature b64_lib (toy_signatures 3) SHA256 (Some ()) [5] [6] = Some (Inr s)
      \<and> verifyBase64Signature b64_lib (toy_signatures 3) SHA256 (Some ()) [5] s [6] = Some (Inr False))"
proof -
  have k: "key_pair (toy_signatures n) n () ()" if "2 \<le> n" for n
    using that by (simp add: key_pair_def toy_signatures_def accepts_def)
  have s: "signed (toy_signatures n) h () bs = Some [1, word_of_nat (length bs)]" for n h bs
    by (simp add: signed_def toy_signatures_def)
  have "\<not> accepts (toy_signatures 3) h () [6, 5] [1, 2, 0]" for h
    by (simp add: accepts_def toy_signatures_def)
  with signature_verifies [OF b64_lib_law k, of 2 SHA256 "[6]" "[5]"]
    signature_verifies [OF b64_lib_law k, of 3 SHA256 "[6]" "[5]"] show ?thesis
    by (auto simp: s)
qed

end
