(* ===== verification/Lu_Queue_Order.thy ===== *)
theory Lu_Queue_Order
  imports Lu_Queue
begin

text \<open>
  What several producers can rely on. Tickets are given in order, but a slot serves every ticket
  that is equal to it modulo the size, in whatever order their threads get to it. A consumer
  that waits for a slow producer has already given its place back to \<open>try_push\<close>, so that a push
  a whole lap later may get the slot first: the queue does not keep the order of the elements
  of one producer.
\<close>

section \<open>A thread that is not disturbed\<close>

lemma sint_word_of_small: "j < 2 ^ 31 \<Longrightarrow> sint (word_of_nat j :: u32) = int j"
  by (simp add: signed_of_nat signed_take_bit_int_eq_self)

lemma sint_size: "unat (m_queueSize c) < 2 ^ 31 \<Longrightarrow> sint (m_queueSize c) = int (unat (m_queueSize c))"
  using sint_word_of_small [of "unat (m_queueSize c)"] by simp

lemma looks_full_words:
  assumes "unat (m_queueSize c) < 2 ^ 31" "k < 2 ^ 31"
  shows "looks_full c (h + word_of_nat k) h \<longleftrightarrow> unat (m_queueSize c) \<le> k"
  using assms by (simp add: looks_full_def sint_word_of_small sint_size del: of_nat_unat)

text \<open>Between the operations of one producer and one consumer the queue knows how full it is.\<close>

lemma spsc_size:
  assumes "spsc_ok c s" "unat (m_queueSize c) < 2 ^ 31" "pcs s 0 = Idle" "pcs s 1 = Idle"
  shows "was_size (shared s) = length (pushed (trace s)) - length (popped (trace s))"
    and "was_full c (shared s) \<longleftrightarrow> length (pushed (trace s)) = length (popped (trace s)) + capacity c"
proof -
  let ?np = "length (pushed (trace s))" and ?nc = "length (popped (trace s))"
  have f: "m_head (shared s) = word_of_nat ?np" "m_tail (shared s) = word_of_nat ?nc" "?nc \<le> ?np"
    "?np \<le> ?nc + unat (m_queueSize c)"
    using assms(1,3,4) by (auto simp: spsc_ok_def Let_def window_ok_def)
  have "m_head (shared s) - m_tail (shared s) = word_of_nat (?np - ?nc)" using f by (simp add: of_nat_diff)
  moreover have "sint (word_of_nat (?np - ?nc) :: u32) = int (?np - ?nc)"
    by (rule sint_word_of_small) (use f assms(2) in linarith)
  ultimately show "was_size (shared s) = ?np - ?nc" by (simp add: was_size_def)
  then show "was_full c (shared s) \<longleftrightarrow> ?np = ?nc + capacity c" using f by (auto simp: was_full_def capacity_def)
qed

definition after_push :: "qconf \<Rightarrow> 'a \<Rightarrow> 'a qsys \<Rightarrow> 'a qsys" where
  "after_push c x s =
     (let q = shared s; i = slot_index c (m_head q) in
      s\<lparr>shared := q\<lparr>m_head := m_head q + 1, m_states := (m_states q)[i := STORED],
                    m_elements := (m_elements q)[i := x]\<rparr>,
        trace := trace s @ [Pushed x]\<rparr>)"

lemma try_push_alone:
  assumes "\<not> m_isSPSC c" "pcs s t = Idle"
    and "\<not> looks_full c (m_head (shared s)) (m_tail (shared s))"
    and "m_states (shared s) ! slot_index c (m_head (shared s)) = EMPTY"
  shows "run_steps c (replicate 6 (t, TryPush x)) s = after_push c x s"
  using assms by (simp add: eval_nat_numeral sys_step_def Let_def after_push_def fun_upd_idem)

text \<open>The slots of the tickets up to the size are pairwise distinct.\<close>

lemma slot_index_ticket_inj:
  assumes "conf_ok c" "i < unat (m_queueSize c)" "j < unat (m_queueSize c)"
    and "slot_index c (word_of_nat i) = slot_index c (word_of_nat j)"
  shows "i = j"
proof -
  have m: "unat ((word_of_nat k :: u32) mod m_queueSize c) = k" if "k < unat (m_queueSize c)" for k
  proof -
    have "unat (m_queueSize c) < 2 ^ LENGTH(32)" by (rule unsigned_less)
    then have "k < 2 ^ 32" using that by simp
    then show ?thesis using that by (simp add: unat_mod unat_of_nat)
  qed
  have "unat ((word_of_nat i :: u32) mod m_queueSize c) = unat ((word_of_nat j :: u32) mod m_queueSize c)"
    using slot_index_inj [OF assms(1,4)] by simp
  then show ?thesis unfolding m [OF assms(2)] m [OF assms(3)] .
qed

lemma slot_index_lap: "slot_index c (word_of_nat (unat (m_queueSize c))) = slot_index c 0"
  by (simp add: slot_index_def)

text \<open>
  Thread 1 has pushed up to ticket \<open>k\<close>, the slot of ticket 0 and those from \<open>k\<close> on are empty.
\<close>

definition filled :: "qconf \<Rightarrow> nat \<Rightarrow> 'a qsys \<Rightarrow> bool" where
  "filled c k s \<longleftrightarrow>
     m_head (shared s) = word_of_nat k \<and> m_tail (shared s) = 0 \<and> pcs s 1 = Idle
     \<and> length (m_states (shared s)) = unat (m_queueSize c)
     \<and> length (m_elements (shared s)) = unat (m_queueSize c)
     \<and> (\<forall>j < unat (m_queueSize c). j = 0 \<or> k \<le> j \<longrightarrow>
          m_states (shared s) ! slot_index c (word_of_nat j) = EMPTY)"

lemma filled_push:
  assumes "conf_ok c" "filled c k s" "0 < k" "k < unat (m_queueSize c)"
  shows "filled c (Suc k) (after_push c x s)"
proof -
  have "slot_index c (word_of_nat k) \<noteq> slot_index c (word_of_nat j)" if "j < unat (m_queueSize c)" "j \<noteq> k" for j
    using slot_index_ticket_inj [OF assms(1,4) that(1)] that(2) by blast
  with this [of 0] assms show ?thesis
    by (auto simp: filled_def after_push_def Let_def of_nat_Suc)
qed

definition pushes :: "nat \<Rightarrow> 'a list \<Rightarrow> (nat \<times> 'a qop) list" where
  "pushes t xs = concat (map (\<lambda>x. replicate 6 (t, TryPush x)) xs)"

lemma run_steps_append: "run_steps c (xs @ ys) s = run_steps c ys (run_steps c xs s)"
  by (induction xs arbitrary: s) auto

lemma fill_slots:
  assumes "\<not> m_isSPSC c" "conf_ok c" "unat (m_queueSize c) < 2 ^ 31"
  shows "filled c k s \<Longrightarrow> 0 < k \<Longrightarrow> k + length xs \<le> unat (m_queueSize c) \<Longrightarrow>
    filled c (k + length xs) (run_steps c (pushes 1 xs) s)
    \<and> trace (run_steps c (pushes 1 xs) s) = trace s @ map Pushed xs
    \<and> pcs (run_steps c (pushes 1 xs) s) = pcs s"
proof (induction xs arbitrary: k s)
  case (Cons x xs)
  have nf: "\<not> looks_full c (m_head (shared s)) (m_tail (shared s))"
    using Cons.prems looks_full_words [OF assms(3), of k 0] assms(3) by (simp add: filled_def)
  have "run_steps c (replicate 6 (1, TryPush x)) s = after_push c x s"
    using try_push_alone [OF assms(1) _ nf, of 1 x] Cons.prems by (simp add: filled_def)
  then have r: "run_steps c (pushes 1 (x # xs)) s = run_steps c (pushes 1 xs) (after_push c x s)"
    by (simp add: pushes_def run_steps_append del: run_steps.simps)
  have "filled c (Suc k) (after_push c x s)" 
    using filled_push [OF assms(2) Cons.prems(1,2)] Cons.prems(3) by simp
  from Cons.IH [OF this] Cons.prems show ?case
    unfolding r by (simp add: after_push_def Let_def)
qed (simp add: pushes_def)

section \<open>One lap ahead\<close>

text \<open>The consumer takes ticket 0 and waits, and later finds the slot stored.\<close>

lemma try_pop_waits:
  assumes "\<not> m_isSPSC c" "pcs s t = Idle" "\<not> looks_empty (m_head (shared s)) (m_tail (shared s))"
  shows "run_steps c (replicate 3 (t, TryPop)) s
    = s\<lparr>shared := (shared s)\<lparr>m_tail := m_tail (shared s) + 1\<rparr>,
        pcs := (pcs s)(t := PopSpin (m_tail (shared s)))\<rparr>"
  using assms by (simp add: numeral_3_eq_3 sys_step_def)

lemma pop_waits:
  assumes "\<not> m_isSPSC c" "filled c k s" "0 < k" "k < 2 ^ 31" "pcs s 2 = Idle"
  shows "run_steps c (replicate 3 (2, TryPop)) s
    = s\<lparr>shared := (shared s)\<lparr>m_tail := 1\<rparr>, pcs := (pcs s)(2 := PopSpin 0)\<rparr>"
proof -
  have t: "m_tail (shared s) = 0" "m_head (shared s) = word_of_nat k" using assms(2) by (simp_all add: filled_def)
  have "\<not> looks_empty (m_head (shared s)) (m_tail (shared s))"
    unfolding looks_empty_def t using sint_word_of_small [OF assms(4)] assms(3) by simp
  from try_pop_waits [OF assms(1,5) this] show ?thesis unfolding t by simp
qed

lemma pop_stored:
  assumes "\<not> m_isSPSC c" "pcs s 2 = PopSpin h" "m_states (shared s) ! slot_index c h = STORED"
    "m_elements (shared s) ! slot_index c h = x"
  shows "trace (run_steps c (replicate 3 (2, TryPop)) s) = trace s @ [Popped x]
    \<and> (\<forall>t. t \<noteq> 2 \<longrightarrow> pcs (run_steps c (replicate 3 (2, TryPop)) s) t = pcs s t)"
  using assms by (simp add: eval_nat_numeral sys_step_def Let_def)

definition lap_schedule :: "'a \<Rightarrow> 'a list \<Rightarrow> (nat \<times> 'a qop) list" where
  "lap_schedule y xs =
     replicate 3 (0, TryPush y) @ pushes 1 (butlast xs) @ replicate 3 (2, TryPop)
     @ replicate 6 (1, TryPush (last xs)) @ replicate 3 (2, TryPop)"

lemma start_filled:
  assumes "\<not> m_isSPSC c" "conf_ok c" "2 \<le> unat (m_queueSize c)" "unat (m_queueSize c) < 2 ^ 31"
  shows "filled c 1 (run_steps c (replicate 3 (0, TryPush y)) (qinit c d))
    \<and> trace (run_steps c (replicate 3 (0, TryPush y)) (qinit c d)) = []
    \<and> pcs (run_steps c (replicate 3 (0, TryPush y)) (qinit c d)) = (\<lambda>_. Idle)(0 := PushSpin y 0)"
proof -
  have "\<not> looks_full c 0 0" using looks_full_words [OF assms(4), of 0 0] assms(3) by simp
  moreover have "slot_index c (word_of_nat j) < unat (m_queueSize c)" for j
    using slot_index_bound [OF assms(2)] .
  ultimately show ?thesis
    using assms(1) by (simp add: eval_nat_numeral sys_step_def qinit_def filled_def)
qed

lemma lap_run:
  fixes xs :: "'a list"
  assumes "\<not> m_isSPSC c" "conf_ok c" "2 \<le> unat (m_queueSize c)" "unat (m_queueSize c) < 2 ^ 31"
    and "length xs = unat (m_queueSize c)"
  shows "pushed (trace (run_steps c (lap_schedule y xs) (qinit c d))) = xs
    \<and> popped (trace (run_steps c (lap_schedule y xs) (qinit c d))) = [last xs]
    \<and> pcs (run_steps c (lap_schedule y xs) (qinit c d)) 0 = PushSpin y 0"
proof -
  let ?n = "unat (m_queueSize c)"
  define s1 where "s1 = run_steps c (replicate 3 (0, TryPush y)) (qinit c d)"
  define s2 where "s2 = run_steps c (pushes 1 (butlast xs)) s1"
  define s3 where "s3 = run_steps c (replicate 3 (2, TryPop)) s2"
  define s4 where "s4 = run_steps c (replicate 6 (1, TryPush (last xs))) s3"
  define s5 where "s5 = run_steps c (replicate 3 (2, TryPop)) s4"
  have s1: "filled c 1 s1" "trace s1 = []" "pcs s1 = (\<lambda>_. Idle)(0 := PushSpin y 0)"
    using start_filled [OF assms(1-4), of y d] unfolding s1_def by blast+
  have s2: "filled c ?n s2" "trace s2 = map Pushed (butlast xs)" "pcs s2 = (\<lambda>_. Idle)(0 := PushSpin y 0)"
    using fill_slots [OF assms(1,2,4) s1(1), of "butlast xs"] s1 assms(3,5) unfolding s2_def by auto
  have s3: "s3 = s2\<lparr>shared := (shared s2)\<lparr>m_tail := 1\<rparr>, pcs := (pcs s2)(2 := PopSpin 0)\<rparr>"
    using pop_waits [OF assms(1) s2(1)] s2(3) assms(3,4) unfolding s3_def by simp
  have h: "m_head (shared s3) = 1 + word_of_nat (?n - 1)" "m_tail (shared s3) = 1"
    using s2(1) assms(3) unfolding s3 filled_def by (simp_all add: of_nat_diff)
  have "\<not> looks_full c (m_head (shared s3)) (m_tail (shared s3))"
    using looks_full_words [OF assms(4), of "?n - 1" 1] assms(3,4) unfolding h by simp
  moreover have e: "slot_index c (m_head (shared s3)) = slot_index c 0" "m_states (shared s3) ! slot_index c 0 = EMPTY"
    "slot_index c 0 < length (m_states (shared s3))" "slot_index c 0 < length (m_elements (shared s3))"
    using s2(1) assms(3) slot_index_lap [of c] slot_index_bound [OF assms(2), of 0] unfolding s3 filled_def by auto
  ultimately have s4: "s4 = after_push c (last xs) s3"
    using try_push_alone [OF assms(1), of s3 1 "last xs"] s2(3) unfolding s4_def s3 by simp
  have "trace s5 = trace s4 @ [Popped (last xs)] \<and> (\<forall>t. t \<noteq> 2 \<longrightarrow> pcs s5 t = pcs s4 t)"
    unfolding s5_def by (rule pop_stored [where h = 0, OF assms(1)])
      (use e in \<open>simp_all add: s4 after_push_def Let_def s3\<close>)
  moreover have "trace s4 = map Pushed (butlast xs) @ [Pushed (last xs)]" "pcs s4 0 = PushSpin y 0"
    using s2 by (simp_all add: s4 after_push_def Let_def s3)
  moreover have "run_steps c (lap_schedule y xs) (qinit c d) = s5"
    unfolding lap_schedule_def run_steps_append s1_def s2_def s3_def s4_def s5_def ..
  moreover have "pushed (map Pushed zs) = zs" "popped (map Pushed zs) = []" for zs :: "'a list"
    by (simp_all add: pushed_def popped_def comp_def)
  moreover have "pushed [Pushed a, Popped b] = [a]" "popped [Pushed a, Popped b] = [b]" for a b :: 'a
    by (simp_all add: pushed_def popped_def)
  moreover have "xs \<noteq> []" using assms(3,5) by auto
  ultimately show ?thesis by simp
qed

text \<open>
  C39. Several producers lose the order of each: for every size of the queue there is a run in
  which one producer pushes \<open>xs\<close> one after the other, as many as there are slots, a second one
  is held up in its only push, and the single consumer gets the last of \<open>xs\<close> first.
\<close>

theorem queue_loses_order:
  assumes "\<not> m_isSPSC c" "conf_ok c" "2 \<le> unat (m_queueSize c)" "unat (m_queueSize c) < 2 ^ 31"
    and "length xs = unat (m_queueSize c)"
  shows "\<exists>ms. (\<forall>m \<in> set ms. m = (0, TryPush y) \<or> m = (2, TryPop) \<or> (\<exists>x \<in> set xs. m = (1, TryPush x)))
    \<and> pushed (trace (run_steps c ms (qinit c d))) = xs
    \<and> popped (trace (run_steps c ms (qinit c d))) = [last xs]
    \<and> pcs (run_steps c ms (qinit c d)) 0 = PushSpin y 0"
proof -
  have "xs \<noteq> []" using assms(3,5) by auto
  then have "m = (0, TryPush y) \<or> m = (2, TryPop) \<or> (\<exists>x \<in> set xs. m = (1, TryPush x))"
    if "m \<in> set (lap_schedule y xs)" for m
    using that by (auto simp: lap_schedule_def pushes_def dest: in_set_butlastD)
  with lap_run [OF assms, of y d] show ?thesis by blast
qed

theorem queue_loses_order_witness:
  "\<exists>ms. pushed (trace (run_steps \<lparr>m_queueSize = 4, m_shuffleBits = 0, m_isSPSC = False\<rparr> ms
        (qinit \<lparr>m_queueSize = 4, m_shuffleBits = 0, m_isSPSC = False\<rparr> 0))) = [1, 2, 3, 4 :: nat]
     \<and> popped (trace (run_steps \<lparr>m_queueSize = 4, m_shuffleBits = 0, m_isSPSC = False\<rparr> ms
        (qinit \<lparr>m_queueSize = 4, m_shuffleBits = 0, m_isSPSC = False\<rparr> 0))) = [4]"
  using queue_loses_order [of "\<lparr>m_queueSize = 4, m_shuffleBits = 0, m_isSPSC = False\<rparr>" "[1, 2, 3, 4 :: nat]" 9 0]
  by (auto simp: conf_ok_def)

end
