(* ===== verification/Lu_Queue_Tickets.thy ===== *)
theory Lu_Queue_Tickets
  imports Lu_Queue_Order
begin

text \<open>
  The order that several producers do keep. The tickets are counted without wrap-around, with
  the thread that took each and the element it brought; when no producer gets a whole lap ahead
  of another, the consumer gets the elements in the order of the tickets.
\<close>

section \<open>Tickets\<close>

fun pushing :: "'a qpc \<Rightarrow> bool" where
  "pushing (PushSpin x h) = True" | "pushing (PushWrite x i) = True" | "pushing (PushRelease x i) = True"
| "pushing _ = False"

fun writing :: "'a qpc \<Rightarrow> bool" where
  "writing (PushWrite x i) = True" | "writing (PushRelease x i) = True" | "writing _ = False"

fun reading :: "'a qpc \<Rightarrow> bool" where
  "reading (PopRead i) = True" | "reading (PopRelease i x) = True" | "reading _ = False"

text \<open>The slot that a thread waits for or writes.\<close>

fun push_at :: "qconf \<Rightarrow> 'a qpc \<Rightarrow> nat option" where
  "push_at c (PushSpin x h) = Some (slot_index c h)"
| "push_at c (PushWrite x i) = Some i" | "push_at c (PushRelease x i) = Some i"
| "push_at c _ = None"

definition no_lap :: "qconf \<Rightarrow> 'a qsys \<Rightarrow> bool" where
  "no_lap c s \<longleftrightarrow> (\<forall>t u i. push_at c (pcs s t) = Some i \<longrightarrow> push_at c (pcs s u) = Some i \<longrightarrow> t = u)"

text \<open>Thread 0 is the consumer, every other thread a producer.\<close>

definition mpsc_allowed :: "nat \<Rightarrow> 'a qop \<Rightarrow> bool" where
  "mpsc_allowed t op \<longleftrightarrow> (case op of TryPush _ \<Rightarrow> t \<noteq> 0 | Push _ \<Rightarrow> t \<noteq> 0 | TryPop \<Rightarrow> t = 0 | Pop \<Rightarrow> t = 0)"

text \<open>The ticket that a step takes: its thread begins to wait for a slot.\<close>

fun taken :: "nat \<Rightarrow> 'a qpc \<Rightarrow> 'a qpc \<Rightarrow> (nat \<times> 'a) list" where
  "taken t p (PushSpin x h) = (if pushing p then [] else [(t, x)])"
| "taken t p _ = []"

inductive mpsc_run :: "qconf \<Rightarrow> 'a \<Rightarrow> 'a qsys \<Rightarrow> (nat \<times> 'a) list \<Rightarrow> bool" for c d where
  init: "mpsc_run c d (qinit c d) []"
| step: "mpsc_run c d s ts \<Longrightarrow> mpsc_allowed t op \<Longrightarrow> no_lap c (sys_step c t op s) \<Longrightarrow>
    mpsc_run c d (sys_step c t op s) (ts @ taken t (pcs s t) (pcs (sys_step c t op s) t))"

lemma mpsc_run_reach: "mpsc_run c d s ts \<Longrightarrow> reach c mpsc_allowed d s"
  by (induction rule: mpsc_run.induct) (auto intro: reach.intros)

lemma mpsc_run_no_lap: "mpsc_run c d s ts \<Longrightarrow> no_lap c s"
  by (induction rule: mpsc_run.induct) (auto simp: no_lap_def qinit_def)

text \<open>The last ticket of a thread.\<close>

definition ticket_of :: "(nat \<times> 'a) list \<Rightarrow> nat \<Rightarrow> nat" where
  "ticket_of ts t = length ts - Suc (length (takeWhile (\<lambda>e. fst e \<noteq> t) (rev ts)))"

lemma ticket_of_snoc [simp]:
  "ticket_of (ts @ [e]) t = (if fst e = t then length ts else ticket_of ts t)"
  by (simp add: ticket_of_def)

definition held :: "(nat \<times> 'a) list \<Rightarrow> (nat \<Rightarrow> 'a qpc) \<Rightarrow> nat \<Rightarrow> bool" where
  "held ts pc k \<longleftrightarrow> k < length ts \<and> pushing (pc (fst (ts ! k))) \<and> ticket_of ts (fst (ts ! k)) = k"

text \<open>The state that the slot of a ticket has, when \<open>nc\<close> elements have been delivered.\<close>

definition ticket_state :: "(nat \<times> 'a) list \<Rightarrow> (nat \<Rightarrow> 'a qpc) \<Rightarrow> nat \<Rightarrow> nat \<Rightarrow> slot_state" where
  "ticket_state ts pc nc k =
     (if length ts \<le> k then EMPTY
      else if held ts pc k then (if writing (pc (fst (ts ! k))) then STORING else EMPTY)
      else if k = nc \<and> reading (pc 0) then LOADING else STORED)"

definition tickets_ok :: "qconf \<Rightarrow> slot_state list \<Rightarrow> 'a list \<Rightarrow> (nat \<times> 'a) list \<Rightarrow> (nat \<Rightarrow> 'a qpc) \<Rightarrow> nat \<Rightarrow> bool" where
  "tickets_ok c sts els ts pc nc \<longleftrightarrow>
     length sts = unat (m_queueSize c) \<and> length els = unat (m_queueSize c) \<and> nc \<le> length ts
     \<and> (\<forall>k. nc \<le> k \<and> k < nc + unat (m_queueSize c) \<longrightarrow>
          sts ! ticket_slot c k = ticket_state ts pc nc k
          \<and> (k < length ts \<longrightarrow> \<not> held ts pc k \<longrightarrow> els ! ticket_slot c k = snd (ts ! k)))
     \<and> (\<forall>k. nc + unat (m_queueSize c) \<le> k \<and> k < length ts \<longrightarrow> held ts pc k)
     \<and> (reading (pc 0) \<longrightarrow> nc < length ts \<and> \<not> held ts pc nc)"

fun pusher_ok :: "qconf \<Rightarrow> 'a list \<Rightarrow> (nat \<times> 'a) list \<Rightarrow> nat \<Rightarrow> nat \<Rightarrow> 'a qpc \<Rightarrow> bool" where
  "pusher_ok c els ts nc t (PushSpin x h) =
     (let k = ticket_of ts t in k < length ts \<and> ts ! k = (t, x) \<and> nc \<le> k \<and> h = word_of_nat k)"
| "pusher_ok c els ts nc t (PushWrite x i) =
     (let k = ticket_of ts t in k < length ts \<and> ts ! k = (t, x) \<and> nc \<le> k
        \<and> k < nc + unat (m_queueSize c) \<and> i = ticket_slot c k)"
| "pusher_ok c els ts nc t (PushRelease x i) =
     (let k = ticket_of ts t in k < length ts \<and> ts ! k = (t, x) \<and> nc \<le> k
        \<and> k < nc + unat (m_queueSize c) \<and> i = ticket_slot c k \<and> els ! i = x)"
| "pusher_ok c els ts nc t Idle = True"
| "pusher_ok c els ts nc t (TryPushTest x h) = True"
| "pusher_ok c els ts nc t (TryPushTake x h) = True"
| "pusher_ok c els ts nc t _ = False"

fun popper_ok :: "qconf \<Rightarrow> u32 \<Rightarrow> (nat \<times> 'a) list \<Rightarrow> nat \<Rightarrow> 'a qpc \<Rightarrow> bool" where
  "popper_ok c tail ts nc Idle = (tail = word_of_nat nc)"
| "popper_ok c tail ts nc (TryPopTest h) = (tail = word_of_nat nc)"
| "popper_ok c tail ts nc (TryPopTake h) = (tail = word_of_nat nc)"
| "popper_ok c tail ts nc (PopSpin h) = (tail = word_of_nat (Suc nc) \<and> h = word_of_nat nc)"
| "popper_ok c tail ts nc (PopRead i) = (tail = word_of_nat (Suc nc) \<and> i = ticket_slot c nc)"
| "popper_ok c tail ts nc (PopRelease i x) =
     (tail = word_of_nat (Suc nc) \<and> i = ticket_slot c nc \<and> x = snd (ts ! nc))"
| "popper_ok c tail ts nc _ = False"

definition mpsc_ok :: "qconf \<Rightarrow> 'a qsys \<Rightarrow> (nat \<times> 'a) list \<Rightarrow> bool" where
  "mpsc_ok c s ts \<longleftrightarrow>
     (let q = shared s; nc = length (popped (trace s)) in
      m_head q = word_of_nat (length ts) \<and> popped (trace s) = map snd (take nc ts)
      \<and> tickets_ok c (m_states q) (m_elements q) ts (pcs s) nc
      \<and> (\<forall>t. t \<noteq> 0 \<longrightarrow> pusher_ok c (m_elements q) ts nc t (pcs s t))
      \<and> popper_ok c (m_tail q) ts nc (pcs s 0))"

section \<open>The slots of the tickets\<close>

lemma pow2_slot_inj:
  assumes "pow2_conf c" "nc \<le> j" "j < nc + unat (m_queueSize c)" "nc \<le> k" "k < nc + unat (m_queueSize c)"
  shows "ticket_slot c j = ticket_slot c k \<longleftrightarrow> j = k"
proof -
  have "j = k" if "ticket_slot c j = ticket_slot c k" "j \<le> k" "k < nc + unat (m_queueSize c)" "nc \<le> j" for j k
    using ticket_slot_inj [of c j k] that assms(1) by (auto simp: pow2_conf_def)
  then show ?thesis using assms by (metis nat_le_linear)
qed

lemma ticket_slot_laps: "pow2_conf c \<Longrightarrow> ticket_slot c (k + m * unat (m_queueSize c)) = ticket_slot c k"
proof (induction m)
  case (Suc m)
  then show ?case using ticket_slot_wrap [of c "k + m * unat (m_queueSize c)"] by (simp add: ac_simps)
qed simp

lemma held_other:
  "k \<noteq> ticket_of ts t \<Longrightarrow> held ts (pc(t := p)) k = held ts pc k"
  by (auto simp: held_def)

lemma ticket_state_other:
  "k \<noteq> ticket_of ts t \<Longrightarrow> t \<noteq> 0 \<Longrightarrow> ticket_state ts (pc(t := p)) nc k = ticket_state ts pc nc k"
  unfolding ticket_state_def held_other by (auto simp: held_def)

lemma held_same:
  "pushing p = pushing (pc t) \<Longrightarrow> held ts (pc(t := p)) k = held ts pc k"
  by (simp add: held_def)

lemma tickets_ok_quiet:
  assumes "tickets_ok c sts els ts pc nc" "pushing p = pushing (pc t)" "writing p = writing (pc t)"
    "reading p = reading (pc t)"
  shows "tickets_ok c sts els ts (pc(t := p)) nc"
proof -
  note held = held_same [where pc = pc and t = t, OF assms(2)]
  moreover have "writing ((pc(t := p)) u) = writing (pc u)" "reading ((pc(t := p)) u) = reading (pc u)" for u
    using assms(3,4) by simp_all
  then have "ticket_state ts (pc(t := p)) nc k = ticket_state ts pc nc k" for k
    unfolding ticket_state_def held by presburger
  ultimately show ?thesis using assms(1,4) by (simp add: tickets_ok_def)
qed

text \<open>A producer takes the next ticket.\<close>

lemma held_take:
  assumes "\<not> pushing (pc t)"
  shows "held (ts @ [(t, x)]) (pc(t := PushSpin y h)) k \<longleftrightarrow> held ts pc k \<or> k = length ts"
  using assms by (cases k "length ts" rule: linorder_cases) (auto simp: held_def nth_append)

lemma tickets_ok_take:
  assumes "tickets_ok c sts els ts pc nc" "\<not> pushing (pc t)" "t \<noteq> 0"
  shows "tickets_ok c sts els (ts @ [(t, x)]) (pc(t := PushSpin x h)) nc"
proof -
  note held = held_take [where pc = pc and t = t, OF assms(2)]
  have "held ts pc k \<Longrightarrow> k < length ts \<and> fst (ts ! k) \<noteq> t" for k using assms(2) by (auto simp: held_def)
  then have "ticket_state (ts @ [(t, x)]) (pc(t := PushSpin x h)) nc k = ticket_state ts pc nc k" for k
    using assms(3) by (cases k "length ts" rule: linorder_cases) (auto simp: ticket_state_def held nth_append)
  then show ?thesis using assms(1,3) by (auto simp: tickets_ok_def held nth_append)
qed

text \<open>One ticket of the window changes.\<close>

lemma tickets_ok_change:
  assumes "tickets_ok c sts els ts pc nc" "pow2_conf c" "nc \<le> K" "K < nc + unat (m_queueSize c)"
    and "\<And>k. k \<noteq> K \<Longrightarrow> held ts pc' k = held ts pc k \<and> ticket_state ts pc' nc k = ticket_state ts pc nc k"
    and "K < length ts \<Longrightarrow> \<not> held ts pc' K \<Longrightarrow> els' ! ticket_slot c K = snd (ts ! K)"
    and "length els' = length els" "\<And>i. i \<noteq> ticket_slot c K \<Longrightarrow> els' ! i = els ! i"
    and "reading (pc' 0) \<Longrightarrow> nc < length ts \<and> \<not> held ts pc' nc"
  shows "tickets_ok c (sts[ticket_slot c K := ticket_state ts pc' nc K]) els' ts pc' nc"
  unfolding tickets_ok_def
proof (intro conjI allI impI)
  have b: "ticket_slot c K < length sts"
    using assms(1,2) ticket_slot_bound [of c K] by (simp add: tickets_ok_def pow2_conf_def)
  fix k assume k: "nc \<le> k \<and> k < nc + unat (m_queueSize c)"
  note inj = pow2_slot_inj [OF assms(2) _ _ assms(3,4), of k]
  show "sts[ticket_slot c K := ticket_state ts pc' nc K] ! ticket_slot c k = ticket_state ts pc' nc k"
    using k inj b assms(1,5) by (cases "k = K") (auto simp: tickets_ok_def)
  show "els' ! ticket_slot c k = snd (ts ! k)" if "k < length ts" "\<not> held ts pc' k"
    using that k inj assms(1,5,6,8) by (cases "k = K") (auto simp: tickets_ok_def)
qed (use assms in \<open>auto simp: tickets_ok_def\<close>)

text \<open>A producer acquires, writes and releases the slot of its ticket.\<close>

lemma acquire_in_window:
  assumes "tickets_ok c sts els ts pc nc" "pow2_conf c" "\<And>u. u \<noteq> 0 \<Longrightarrow> pusher_ok c els ts nc u (pc u)"
    and "\<not> pushing (pc 0)" "pc t = PushSpin x h" "sts ! slot_index c h = EMPTY"
    and "\<And>u i. push_at c (pc t) = Some i \<Longrightarrow> push_at c (pc u) = Some i \<Longrightarrow> t = u"
  shows "ticket_of ts t < nc + unat (m_queueSize c)"
proof (rule ccontr)
  define K where "K = ticket_of ts t"
  define k where "k = nc + (K - nc) mod unat (m_queueSize c)"
  have "t \<noteq> 0" using assms(4,5) by (metis pushing.simps(1))
  with assms(3) [of t] assms(5) have K: "K < length ts" "nc \<le> K" "h = word_of_nat K" by (auto simp: K_def Let_def)
  have "K = k + (K - nc) div unat (m_queueSize c) * unat (m_queueSize c)" using K(2) by (simp add: k_def)
  then have slot: "ticket_slot c K = ticket_slot c k" using ticket_slot_laps [OF assms(2)] by metis
  have k: "nc \<le> k" "k < nc + unat (m_queueSize c)" using pow2_conf_pos [OF assms(2)] by (auto simp: k_def)
  assume "\<not> ticket_of ts t < nc + unat (m_queueSize c)"
  then have "k < K" using k by (simp add: K_def)
  have "sts ! ticket_slot c k = EMPTY" using assms(6) slot by (simp add: K(3) ticket_slot_def)
  with assms(1) k have "ticket_state ts pc nc k = EMPTY" by (auto simp: tickets_ok_def)
  with \<open>k < K\<close> K(1) have u: "held ts pc k" "\<not> writing (pc (fst (ts ! k)))"
    by (auto simp: ticket_state_def split: if_splits)
  define u where "u = fst (ts ! k)"
  with u have "ticket_of ts u = k" "pushing (pc u)" "\<not> writing (pc u)" "u \<noteq> 0"
    using assms(4) unfolding held_def by metis+
  then have "push_at c (pc u) = Some (ticket_slot c k)"
    using assms(3) [of u] by (cases "pc u") (auto simp: Let_def ticket_slot_def)
  moreover have "push_at c (pc t) = Some (ticket_slot c k)" using assms(5) slot by (simp add: K(3) ticket_slot_def)
  ultimately have "t = u" using assms(7) by blast
  with \<open>ticket_of ts u = k\<close> \<open>k < K\<close> show False by (simp add: K_def)
qed

lemma tickets_ok_producer:
  assumes "tickets_ok c sts els ts pc nc" "pow2_conf c" "t \<noteq> 0" "nc \<le> ticket_of ts t"
    and "ticket_of ts t < nc + unat (m_queueSize c)" "ticket_of ts t < length ts" "ts ! ticket_of ts t = (t, x)"
    and "length els' = length els" "\<And>i. i \<noteq> ticket_slot c (ticket_of ts t) \<Longrightarrow> els' ! i = els ! i"
    and "\<not> pushing p \<Longrightarrow> els' ! ticket_slot c (ticket_of ts t) = x" "pushing (pc t)"
  shows "tickets_ok c (sts[ticket_slot c (ticket_of ts t) :=
      if writing p then STORING else if pushing p then EMPTY else STORED]) els' ts (pc(t := p)) nc"
proof -
  let ?K = "ticket_of ts t"
  have held: "held ts pc ?K" "held ts (pc(t := p)) ?K \<longleftrightarrow> pushing p" using assms(6,7,11) by (auto simp: held_def)
  have wp: "writing p \<Longrightarrow> pushing p" by (cases p) auto
  have r: "reading (pc 0) \<Longrightarrow> nc < length ts \<and> \<not> held ts pc nc" using assms(1) by (auto simp: tickets_ok_def)
  then have "reading (pc 0) \<Longrightarrow> ?K \<noteq> nc" using held(1) by metis
  then have "ticket_state ts (pc(t := p)) nc ?K = (if writing p then STORING else if pushing p then EMPTY else STORED)"
    using held assms(3,6,7) wp by (auto simp: ticket_state_def)
  moreover have "reading ((pc(t := p)) 0) \<Longrightarrow> nc < length ts \<and> \<not> held ts (pc(t := p)) nc"
    using r held(1) assms(3) held_other [of nc ts t pc p] by (cases "nc = ?K") auto
  moreover have "held ts (pc(t := p)) k = held ts pc k \<and> ticket_state ts (pc(t := p)) nc k = ticket_state ts pc nc k"
    if "k \<noteq> ?K" for k
    using held_other [OF that] ticket_state_other [OF that assms(3)] by blast
  ultimately show ?thesis
    using tickets_ok_change [OF assms(1,2,4,5), of "pc(t := p)" els'] assms(7-10) held(2) by auto
qed

text \<open>The consumer.\<close>

lemma tickets_ok_load:
  assumes "tickets_ok c sts els ts pc nc" "pow2_conf c" "sts ! ticket_slot c nc = STORED"
    and "\<not> pushing (pc 0)" "\<not> reading (pc 0)"
  shows "tickets_ok c (sts[ticket_slot c nc := LOADING]) els ts (pc(0 := PopRead i)) nc"
proof -
  have n: "nc < nc + unat (m_queueSize c)" using pow2_conf_pos [OF assms(2)] by simp
  with assms(1,3) have "ticket_state ts pc nc nc = STORED" by (auto simp: tickets_ok_def)
  then have dn: "nc < length ts" "\<not> held ts pc nc" by (auto simp: ticket_state_def split: if_splits)
  have held: "held ts (pc(0 := PopRead i)) k = held ts pc k" for k using assms(4) by (intro held_same) simp
  have new: "ticket_state ts (pc(0 := PopRead i)) nc nc = LOADING" using dn by (simp add: ticket_state_def held)
  have other: "held ts pc k \<Longrightarrow> fst (ts ! k) \<noteq> 0" for k using assms(4) unfolding held_def by metis
  have old: "ticket_state ts (pc(0 := PopRead i)) nc k = ticket_state ts pc nc k" if "k \<noteq> nc" for k
    using that other [of k] by (auto simp: ticket_state_def held)
  have "els ! ticket_slot c nc = snd (ts ! nc)" using assms(1) dn n by (simp add: tickets_ok_def)
  then show ?thesis
    using tickets_ok_change [where pc' = "pc(0 := PopRead i)" and els' = els, OF assms(1,2) order_refl n]
      new old held dn by simp
qed

lemma tickets_ok_unload:
  assumes "tickets_ok c sts els ts pc nc" "pow2_conf c" "reading (pc 0)"
    and "\<And>u. u \<noteq> 0 \<Longrightarrow> writing (pc u) \<Longrightarrow> ticket_of ts u < nc + unat (m_queueSize c)"
  shows "tickets_ok c (sts[ticket_slot c nc := EMPTY]) els ts (pc(0 := Idle)) (Suc nc)"
proof -
  let ?n = "unat (m_queueSize c)"
  have dn: "nc < length ts" "\<not> held ts pc nc" using assms(1,3) by (auto simp: tickets_ok_def)
  have np: "\<not> pushing (pc 0)" using assms(3) by (cases "pc 0") auto
  then have held: "held ts (pc(0 := Idle)) k = held ts pc k" for k by (intro held_same) simp
  have other: "held ts pc k \<Longrightarrow> fst (ts ! k) \<noteq> 0" for k using np unfolding held_def by metis
  have old: "ticket_state ts (pc(0 := Idle)) (Suc nc) k = ticket_state ts pc nc k" if "k \<noteq> nc" for k
    using that other [of k] by (auto simp: ticket_state_def held)
  have hf: "nc + ?n < length ts \<Longrightarrow> held ts pc (nc + ?n)" using assms(1) by (simp add: tickets_ok_def)
  have "\<not> writing (pc (fst (ts ! (nc + ?n))))" if "held ts pc (nc + ?n)"
    using assms(4) [OF other [OF that]] that by (auto simp: held_def)
  with hf have far: "ticket_state ts pc nc (nc + ?n) = EMPTY" by (auto simp: ticket_state_def)
  have b: "ticket_slot c nc < length sts"
    using assms(1,2) ticket_slot_bound [of c nc] by (simp add: tickets_ok_def pow2_conf_def)
  have n: "ticket_slot c (nc + ?n) = ticket_slot c nc" using ticket_slot_wrap [OF assms(2)] .
  have inj: "ticket_slot c k = ticket_slot c nc \<longleftrightarrow> k = nc" if "nc \<le> k" "k < nc + ?n" for k
    using pow2_slot_inj [OF assms(2) that, of nc] pow2_conf_pos [OF assms(2)] by simp
  show ?thesis
    unfolding tickets_ok_def
  proof (intro conjI allI impI)
    fix k assume k: "Suc nc \<le> k \<and> k < Suc nc + ?n"
    show "sts[ticket_slot c nc := EMPTY] ! ticket_slot c k = ticket_state ts (pc(0 := Idle)) (Suc nc) k"
      using k old [of k] far n b pow2_conf_pos [OF assms(2)] inj [of k] assms(1) by (cases "k = nc + ?n") (auto simp: tickets_ok_def)
    show "els ! ticket_slot c k = snd (ts ! k)" if "k < length ts" "\<not> held ts (pc(0 := Idle)) k"
      using k that hf assms(1) unfolding held by (cases "k = nc + ?n") (auto simp: tickets_ok_def)
  qed (use assms(1) dn(1) held in \<open>auto simp: tickets_ok_def\<close>)
qed

section \<open>The invariant\<close>

lemma pusher_ok_take:
  "pusher_ok c els ts nc t p \<Longrightarrow> u \<noteq> t \<Longrightarrow> pusher_ok c els (ts @ [(u, x)]) nc t p"
  by (cases p) (auto simp: Let_def nth_append)

lemma popper_ok_take:
  "popper_ok c tail ts nc p \<Longrightarrow> (reading p \<Longrightarrow> nc < length ts) \<Longrightarrow> popper_ok c tail (ts @ [e]) nc p"
  by (cases p) (auto simp: nth_append)

lemma pusher_ok_write:
  assumes "pow2_conf c" "pusher_ok c els ts nc u p" "ts ! ticket_of ts t = (t, x)" "t \<noteq> u"
    and "nc \<le> ticket_of ts t" "ticket_of ts t < nc + unat (m_queueSize c)"
  shows "pusher_ok c (els[ticket_slot c (ticket_of ts t) := y]) ts nc u p"
proof -
  have "ticket_slot c (ticket_of ts t) \<noteq> ticket_slot c (ticket_of ts u)"
    if "ts ! ticket_of ts u = (u, z)" "nc \<le> ticket_of ts u" "ticket_of ts u < nc + unat (m_queueSize c)" for z
    using pow2_slot_inj [OF assms(1,5,6) that(2,3)] that(1) assms(3,4) by auto
  then show ?thesis using assms(2) by (cases p) (auto simp: Let_def)
qed

lemma pusher_ok_pop:
  assumes "pusher_ok c els ts nc u p" "\<not> held ts pc nc" "nc < length ts" "pc u = p"
  shows "pusher_ok c els ts (Suc nc) u p"
proof -
  have "ticket_of ts u \<noteq> nc" if "ts ! ticket_of ts u = (u, x)" "pushing p" for x
    using that assms(2-4) by (auto simp: held_def)
  then show ?thesis using assms(1) by (cases p) (auto simp: Let_def le_Suc_eq Suc_le_eq order_less_le)
qed

lemma pusher_fields:
  assumes "pusher_ok c els ts nc t p" "pushing p"
  shows "ticket_of ts t < length ts \<and> fst (ts ! ticket_of ts t) = t \<and> nc \<le> ticket_of ts t"
  using assms by (cases p) (auto simp: Let_def)

lemma mpsc_okD:
  assumes "mpsc_ok c s ts" "q = shared s" "nc = length (popped (trace s))"
  shows "m_head q = word_of_nat (length ts)" "popped (trace s) = map snd (take nc ts)"
    "tickets_ok c (m_states q) (m_elements q) ts (pcs s) nc"
    "\<And>u. u \<noteq> 0 \<Longrightarrow> pusher_ok c (m_elements q) ts nc u (pcs s u)" "popper_ok c (m_tail q) ts nc (pcs s 0)"
    "\<not> pushing (pcs s 0)" "nc \<le> length ts"
    "reading (pcs s 0) \<Longrightarrow> nc < length ts \<and> \<not> held ts (pcs s) nc"
proof -
  show p: "popper_ok c (m_tail q) ts nc (pcs s 0)" using assms by (simp add: mpsc_ok_def Let_def)
  show "\<not> pushing (pcs s 0)" using p by (cases "pcs s 0") auto
  show t: "tickets_ok c (m_states q) (m_elements q) ts (pcs s) nc" using assms by (simp add: mpsc_ok_def Let_def)
  show "nc \<le> length ts" "reading (pcs s 0) \<Longrightarrow> nc < length ts \<and> \<not> held ts (pcs s) nc"
    using t by (auto simp: tickets_ok_def)
qed (use assms in \<open>simp_all add: mpsc_ok_def Let_def\<close>)

lemma mpsc_ok_slot:
  assumes "\<not> m_isSPSC c" "pow2_conf c" "mpsc_ok c s ts" "t \<noteq> 0" "no_lap c s" "pushing (pcs s t)"
  shows "mpsc_ok c (sys_step c t op s) ts"
proof -
  let ?K = "ticket_of ts t"
  define q nc where "q = shared s" and "nc = length (popped (trace s))"
  note defs = q_def [symmetric] nc_def [symmetric]
  note ok = mpsc_okD [OF assms(3) q_def nc_def]
  note nc = ok(7)
  note step = sys_step_def mpsc_ok_def Let_def defs
  note quiet = tickets_ok_quiet [OF ok(3), where t = t]
  show ?thesis
  proof (cases "pcs s t")
    case (PushSpin x h)
    with ok(4) [OF assms(4)] have K: "?K < length ts" "ts ! ?K = (t, x)" "nc \<le> ?K" "slot_index c h = ticket_slot c ?K"
      "h = word_of_nat ?K"
      by (auto simp: Let_def ticket_slot_def)
    show ?thesis
    proof (cases "m_states q ! ticket_slot c ?K = EMPTY")
      case True
      with K(4) have w: "?K < nc + unat (m_queueSize c)"
        using acquire_in_window [OF ok(3) assms(2) ok(4) ok(6) PushSpin] assms(5) unfolding no_lap_def by metis
      then have "tickets_ok c ((m_states q)[ticket_slot c ?K := STORING]) (m_elements q) ts
          ((pcs s)(t := PushWrite x (ticket_slot c ?K))) nc"
        using tickets_ok_producer [OF ok(3) assms(2,4) K(3) w K(1,2), of "m_elements q" "PushWrite x (ticket_slot c ?K)"]
        PushSpin by simp
      with PushSpin ok K w True assms(1,4) show ?thesis by (simp add: step)
    qed (use PushSpin ok quiet [of "PushSpin x h"] nc K assms(1,4) in \<open>auto simp: step ticket_slot_def\<close>)
  next
    case (PushWrite x i)
    with ok(4) [OF assms(4)] have K: "?K < length ts" "ts ! ?K = (t, x)" "nc \<le> ?K"
      "?K < nc + unat (m_queueSize c)" "i = ticket_slot c ?K" by (auto simp: Let_def)
    have "held ts (pcs s) ?K" using K PushWrite by (simp add: held_def)
    then have "m_states q ! i = STORING" using ok(3) K PushWrite by (auto simp: tickets_ok_def ticket_state_def)
    then have "(m_states q)[i := STORING] = m_states q" using list_update_id [of "m_states q" i] by simp
    then have "tickets_ok c (m_states q) ((m_elements q)[i := x]) ts ((pcs s)(t := PushRelease x i)) nc"
      using tickets_ok_producer [OF ok(3) assms(2,4) K(3,4,1,2), of "(m_elements q)[i := x]" "PushRelease x i"] PushWrite K(5)
      by simp
    moreover have "i < length (m_elements q)" 
      using ok(3) assms(2) ticket_slot_bound [of c ?K] K(5) by (simp add: tickets_ok_def pow2_conf_def)
    ultimately show ?thesis
      using PushWrite ok K assms(4) pusher_ok_write [OF assms(2) ok(4) K(2) _ K(3,4)] by (auto simp: step)
  next
    case (PushRelease x i)
    with ok(4) [OF assms(4)] have K: "?K < length ts" "ts ! ?K = (t, x)" "nc \<le> ?K"
      "?K < nc + unat (m_queueSize c)" "i = ticket_slot c ?K" "m_elements q ! i = x" by (auto simp: Let_def)
    have "tickets_ok c ((m_states q)[i := STORED]) (m_elements q) ts ((pcs s)(t := Idle)) nc"
      using tickets_ok_producer [OF ok(3) assms(2,4) K(3,4,1,2), of "m_elements q" Idle] PushRelease K(5,6) by simp
    with PushRelease ok nc assms(4) show ?thesis by (auto simp: step)
  qed (use assms(6) in simp_all)
qed

lemma mpsc_ok_producer:
  assumes "\<not> m_isSPSC c" "pow2_conf c" "mpsc_ok c s ts" "mpsc_allowed t op" "t \<noteq> 0" "no_lap c s"
  shows "mpsc_ok c (sys_step c t op s) (ts @ taken t (pcs s t) (pcs (sys_step c t op s) t))"
proof -
  define q nc where "q = shared s" and "nc = length (popped (trace s))"
  note defs = q_def [symmetric] nc_def [symmetric]
  note ok = mpsc_okD [OF assms(3) q_def nc_def]
  note nc = ok(7)
  note step = sys_step_def mpsc_ok_def Let_def defs
  note quiet = tickets_ok_quiet [OF ok(3), where t = t]
  have take: "tickets_ok c (m_states q) (m_elements q) (ts @ [(t, x)]) ((pcs s)(t := PushSpin x h)) nc
    \<and> (\<forall>u. u \<noteq> 0 \<longrightarrow> u \<noteq> t \<longrightarrow> pusher_ok c (m_elements q) (ts @ [(t, x)]) nc u (pcs s u))
    \<and> popper_ok c (m_tail q) (ts @ [(t, x)]) nc (pcs s 0)" if "\<not> pushing (pcs s t)" for x h
    using tickets_ok_take [OF ok(3) that assms(5)] pusher_ok_take [OF ok(4)] popper_ok_take [OF ok(5)] ok(8) by simp
  show ?thesis
  proof (cases "pushing (pcs s t)")
    case True
    then have "taken t (pcs s t) p = []" for p :: "'a qpc" by (cases p) auto
    then show ?thesis using mpsc_ok_slot [OF assms(1-3,5,6) True] by simp
  next
    case False
    show ?thesis
    proof (cases "pcs s t")
      case Idle
      with ok quiet take nc assms(1,4,5) show ?thesis by (cases op) (auto simp: step mpsc_allowed_def)
    qed (use False ok quiet take nc assms(1,5) ok(4) [OF assms(5)] in \<open>auto simp: step\<close>)
  qed
qed

lemma mpsc_ok_consumer:
  assumes "\<not> m_isSPSC c" "pow2_conf c" "mpsc_ok c s ts" "mpsc_allowed 0 op"
  shows "mpsc_ok c (sys_step c 0 op s) (ts @ taken 0 (pcs s 0) (pcs (sys_step c 0 op s) 0))"
proof -
  define q nc where "q = shared s" and "nc = length (popped (trace s))"
  note defs = q_def [symmetric] nc_def [symmetric]
  note ok = mpsc_okD [OF assms(3) q_def nc_def]
  note nc = ok(7)
  note step = sys_step_def mpsc_ok_def Let_def defs
  note quiet = tickets_ok_quiet [OF ok(3), where t = 0]
  show ?thesis
  proof (cases "pcs s 0")
    case Idle
    with ok quiet nc assms(1,4) show ?thesis by (cases op) (auto simp: step mpsc_allowed_def)
  next
    case (PopSpin h)
    with ok(5) have h: "slot_index c h = ticket_slot c nc" by (simp add: ticket_slot_def)
    show ?thesis
      using PopSpin ok nc h tickets_ok_load [OF ok(3) assms(2)] quiet [of "PopSpin h"] assms(1) by (auto simp: step)
  next
    case (PopRead i)
    have "m_elements q ! ticket_slot c nc = snd (ts ! nc)"
      using ok(8) PopRead ok(3) pow2_conf_pos [OF assms(2)] by (auto simp: tickets_ok_def)
    with PopRead ok quiet nc show ?thesis by (auto simp: step)
  next
    case (PopRelease i x)
    have r: "nc < length ts" "\<not> held ts (pcs s) nc" using ok(8) PopRelease by simp_all
    have "ticket_of ts u < nc + unat (m_queueSize c)" if "u \<noteq> 0" "writing (pcs s u)" for u
      using ok(4) [OF that(1)] that(2) by (cases "pcs s u") (auto simp: Let_def)
    from tickets_ok_unload [OF ok(3) assms(2) _ this] PopRelease
    have "tickets_ok c ((m_states q)[ticket_slot c nc := EMPTY]) (m_elements q) ts ((pcs s)(0 := Idle)) (Suc nc)"
      by simp
    moreover have "pusher_ok c (m_elements q) ts (Suc nc) u (pcs s u)" if "u \<noteq> 0" for u
      using pusher_ok_pop [OF ok(4) [OF that] r(2,1) refl] .
    moreover have "map snd (take nc ts) @ [snd (ts ! nc)] = map snd (take (Suc nc) ts)"
      using r(1) by (simp add: take_Suc_conv_app_nth)
    moreover have "min (length ts) nc = nc" "min (length ts) (Suc nc) = Suc nc" using nc r(1) by simp_all
    ultimately show ?thesis using PopRelease ok by (simp add: step)
  qed (use ok quiet nc assms(1) in \<open>auto simp: step\<close>)
qed

lemma mpsc_run_ok:
  assumes "mpsc_run c d s ts" "\<not> m_isSPSC c" "pow2_conf c"
  shows "mpsc_ok c s ts"
  using assms(1)
proof induction
  case init
  show ?case
    using ticket_slot_bound [of c] assms(3)
    by (simp add: mpsc_ok_def qinit_def tickets_ok_def ticket_state_def pow2_conf_def)
next
  case (step s ts t op)
  then show ?case
    using mpsc_ok_producer [OF assms(2,3)] mpsc_ok_consumer [OF assms(2,3)] mpsc_run_no_lap [OF step(1)]
    by (cases "t = 0") auto
qed

text \<open>There is no lap while the tickets taken and not yet delivered fit into the queue.\<close>

lemma fitting_no_lap:
  assumes "mpsc_ok c s ts" "pow2_conf c" "length ts \<le> length (popped (trace s)) + unat (m_queueSize c)"
  shows "no_lap c s"
proof -
  let ?nc = "length (popped (trace s))"
  have at: "\<exists>k. i = ticket_slot c k \<and> ?nc \<le> k \<and> k < ?nc + unat (m_queueSize c) \<and> fst (ts ! k) = t"
    if "push_at c (pcs s t) = Some i" for t i
  proof -
    have "push_at c (pcs s 0) = None" using assms(1) by (cases "pcs s 0") (auto simp: mpsc_ok_def Let_def)
    with that have "t \<noteq> 0" by (metis option.distinct(1))
    with assms(1) have "pusher_ok c (m_elements (shared s)) ts ?nc t (pcs s t)" by (simp add: mpsc_ok_def Let_def)
    with that assms(3) show ?thesis
      by (cases "pcs s t") (auto simp: Let_def ticket_slot_def intro!: exI [of _ "ticket_of ts t"])
  qed
  have "t = u" if "push_at c (pcs s t) = Some i" "push_at c (pcs s u) = Some i" for t u i
    using at [OF that(1)] at [OF that(2)] pow2_slot_inj [OF assms(2)] by metis
  then show ?thesis unfolding no_lap_def by blast
qed

lemma fitting_step:
  assumes "mpsc_run c d s ts" "\<not> m_isSPSC c" "pow2_conf c" "mpsc_allowed t op"
    and "length (ts @ taken t (pcs s t) (pcs (sys_step c t op s) t))
      \<le> length (popped (trace (sys_step c t op s))) + unat (m_queueSize c)"
  shows "mpsc_run c d (sys_step c t op s) (ts @ taken t (pcs s t) (pcs (sys_step c t op s) t))"
proof -
  have "mpsc_ok c (sys_step c t op s) (ts @ taken t (pcs s t) (pcs (sys_step c t op s) t))"
    using mpsc_run_ok [OF assms(1-3)] mpsc_ok_producer [OF assms(2,3)] mpsc_ok_consumer [OF assms(2,3)]
      mpsc_run_no_lap [OF assms(1)] assms(4) by (cases "t = 0") auto
  from fitting_no_lap [OF this assms(3,5)] assms(1,4) show ?thesis by (rule mpsc_run.step [rotated 2])
qed

fun ticket_steps :: "qconf \<Rightarrow> (nat \<times> 'a qop) list \<Rightarrow> 'a qsys \<Rightarrow> (nat \<times> 'a) list \<Rightarrow> ('a qsys \<times> (nat \<times> 'a) list) option" where
  "ticket_steps c [] s ts = Some (s, ts)"
| "ticket_steps c ((t, op) # ms) s ts =
     (let s' = sys_step c t op s; ts' = ts @ taken t (pcs s t) (pcs s' t) in
      if mpsc_allowed t op \<and> length ts' \<le> length (popped (trace s')) + unat (m_queueSize c)
      then ticket_steps c ms s' ts' else None)"

lemma ticket_steps_run:
  assumes "\<not> m_isSPSC c" "pow2_conf c"
  shows "mpsc_run c d s ts \<Longrightarrow> ticket_steps c ms s ts = Some (s', ts') \<Longrightarrow> mpsc_run c d s' ts'"
proof (induction ms arbitrary: s ts)
  case (Cons m ms)
  obtain t op where m: "m = (t, op)" by (cases m)
  from Cons.prems(2) have "mpsc_allowed t op"
    "length (ts @ taken t (pcs s t) (pcs (sys_step c t op s) t))
      \<le> length (popped (trace (sys_step c t op s))) + unat (m_queueSize c)"
    "ticket_steps c ms (sys_step c t op s) (ts @ taken t (pcs s t) (pcs (sys_step c t op s) t)) = Some (s', ts')"
    by (simp_all add: m Let_def split: if_splits)
  then show ?case using Cons.IH [OF fitting_step [OF Cons.prems(1) assms]] by blast
qed simp

text \<open>Two producers, the second of which is done first.\<close>

definition fifo_schedule :: "(nat \<times> nat qop) list" where
  "fifo_schedule =
     [(1, Push 7), (2, Push 8), (2, Push 8), (2, Push 8), (2, Push 8),
      (0, Pop), (0, Pop), (1, Push 7), (1, Push 7), (1, Push 7),
      (0, Pop), (0, Pop), (0, Pop), (0, Pop), (0, Pop), (0, Pop), (0, Pop)]"

text \<open>
  C7. The order of several producers: when no two of them ever wait for the same slot, the
  single consumer gets the elements in the order in which the tickets were taken, so that the
  elements of each producer come in the order in which it pushed them, for every interleaving
  and across wrap-around of the 32-bit tickets.
\<close>

theorem mpsc_ticket_order:
  assumes "mpsc_run (AtomicQueue2 SIZE True False) d s ts" and "1 \<le> unat SIZE" and "unat SIZE \<le> 2 ^ 31"
  shows "popped (trace s) = map snd (take (length (popped (trace s))) ts)
    \<and> m_head (shared s) = word_of_nat (length ts)"
proof -
  let ?c = "AtomicQueue2 SIZE True False"
  have c: "\<not> m_isSPSC ?c" by (simp add: AtomicQueue2_def Let_def)
  from mpsc_run_ok [OF assms(1) c AtomicQueue2_conf(2) [OF assms(2,3)]]
  show ?thesis by (simp add: mpsc_ok_def Let_def)
qed

lemma mpsc_ticket_order_witness:
  "map_option (\<lambda>(s, ts). (popped (trace s), ts))
     (ticket_steps (AtomicQueue2 2 True False) fifo_schedule (qinit (AtomicQueue2 2 True False) 0) [])
   = Some ([7, 8], [(1, 7), (2, 8)])"
proof -
  let ?c = "AtomicQueue2 2 True False" and ?r = "ticket_steps (AtomicQueue2 2 True False) fifo_schedule"
  have "map_option (\<lambda>(s, ts). (length (popped (trace s)), ts)) (?r (qinit ?c 0) []) = Some (2, [(1, 7), (2, 8)])"
    by code_simp
  then obtain s where s: "?r (qinit ?c 0) [] = Some (s, [(1, 7), (2, 8)])" "length (popped (trace s)) = 2" by auto
  have "\<not> m_isSPSC ?c" by (simp add: AtomicQueue2_def Let_def)
  moreover have n: "1 \<le> unat (2 :: u32)" "unat (2 :: u32) \<le> 2 ^ 31" by simp_all
  ultimately have "mpsc_run ?c 0 s [(1, 7), (2, 8)]"
    using ticket_steps_run [OF _ AtomicQueue2_conf(2) mpsc_run.init s(1)] by blast
  from mpsc_ticket_order [OF this n] s show ?thesis by simp
qed

end
