(* ===== verification/Lu_Socket_Options.thy ===== *)
theory Lu_Socket_Options
  imports Lu_Base_Socket
begin

text \<open>
  The rest of \<open>BaseSocket.cpp\<close>: the object with its address, and the socket options. What the
  kernel holds for a socket is a table of values by level and option; which settings it
  accepts is an argument. Using an object whose descriptor was moved away dereferences a null
  pointer, using one without an open descriptor fails the assertion.
\<close>

section \<open>The object\<close>

record base_sock =
  sk_fd :: "int option"
  sk_ip :: string
  sk_port :: nat
  sk_socketFlags :: int
  sk_reuse :: bool

definition BaseSocket :: "int \<Rightarrow> base_sock" where
  "BaseSocket fd = \<lparr>sk_fd = Some fd, sk_ip = [], sk_port = 0, sk_socketFlags = 0, sk_reuse = True\<rparr>"

text \<open>
  An address carries its bytes and its port as in the packet; \<open>ntop\<close> is \<open>inet_ntop\<close>. Other
  families leave the object as it is.
\<close>

datatype sockaddr = AddrIn "byte list" byte byte | AddrIn6 "byte list" byte byte | AddrOther

definition ntohs :: "byte \<Rightarrow> byte \<Rightarrow> nat" where
  "ntohs hi lo = unat hi * 256 + unat lo"

definition getIPAndPort :: "(byte list \<Rightarrow> string) \<Rightarrow> sockaddr \<Rightarrow> base_sock \<Rightarrow> base_sock" where
  "getIPAndPort ntop a s =
     (case a of
        AddrIn ip hi lo \<Rightarrow> s\<lparr>sk_ip := ntop ip, sk_port := ntohs hi lo\<rparr>
      | AddrIn6 ip hi lo \<Rightarrow> s\<lparr>sk_ip := ntop ip, sk_port := ntohs hi lo\<rparr>
      | AddrOther \<Rightarrow> s)"

definition BaseSocket_address :: "(byte list \<Rightarrow> string) \<Rightarrow> int \<Rightarrow> sockaddr \<Rightarrow> base_sock" where
  "BaseSocket_address ntop fd a = getIPAndPort ntop a (BaseSocket fd)"

definition setAddress :: "(byte list \<Rightarrow> string) \<Rightarrow> sockaddr \<Rightarrow> base_sock \<Rightarrow> base_sock" where
  "setAddress = getIPAndPort"

text \<open>Moving gives the new object and the one that was moved from; a moved string is empty.\<close>

definition BaseSocket_move :: "base_sock \<Rightarrow> base_sock \<times> base_sock" where
  "BaseSocket_move s = (s, s\<lparr>sk_fd := None, sk_ip := []\<rparr>)"

definition getFD :: "base_sock \<Rightarrow> int" where
  "getFD s = (case sk_fd s of None \<Rightarrow> NULL_FD | Some fd \<Rightarrow> fd)"

text \<open>\<open>assert(*m_fd != nullptr)\<close>, and then the system call on the descriptor.\<close>

definition on_open :: "base_sock \<Rightarrow> (int \<Rightarrow> 'a) \<Rightarrow> 'a run" where
  "on_open s f =
     (case sk_fd s of
        None \<Rightarrow> Some (Inl MemoryFault)
      | Some fd \<Rightarrow> if fd = NULL_FD then Some (Inl Aborted) else Some (Inr (f fd)))"

definition stop_socket :: "(int \<Rightarrow> int \<Rightarrow> int) \<Rightarrow> int \<Rightarrow> base_sock \<Rightarrow> int run" where
  "stop_socket shutdown site s = on_open s (\<lambda>fd. shutdown fd site)"

definition close_socket :: "(int \<Rightarrow> int) \<Rightarrow> base_sock \<Rightarrow> (int \<times> base_sock) run" where
  "close_socket close s =
     on_open s (\<lambda>fd. case fd_close (close fd) fd of (r, fd') \<Rightarrow> (r, s\<lparr>sk_fd := Some fd'\<rparr>))"

section \<open>Options\<close>

text \<open>Levels and options with their numbers on Linux; an option's meaning depends on the level.\<close>

abbreviation "SOL_SOCKET \<equiv> 1 :: nat"
abbreviation "IPPROTO_TCP \<equiv> 6 :: nat"
abbreviation "SO_DEBUG \<equiv> 1 :: nat"
abbreviation "SO_REUSEADDR \<equiv> 2 :: nat"
abbreviation "SO_SNDBUF \<equiv> 7 :: nat"
abbreviation "SO_RCVBUF \<equiv> 8 :: nat"
abbreviation "SO_KEEPALIVE \<equiv> 9 :: nat"
abbreviation "SO_LINGER \<equiv> 13 :: nat"
abbreviation "SO_RCVLOWAT \<equiv> 18 :: nat"
abbreviation "SO_SNDLOWAT \<equiv> 19 :: nat"
abbreviation "SO_RCVTIMEO \<equiv> 20 :: nat"
abbreviation "SO_SNDTIMEO \<equiv> 21 :: nat"
abbreviation "SO_BINDTODEVICE \<equiv> 25 :: nat"
abbreviation "SO_MAX_PACING_RATE \<equiv> 47 :: nat"
abbreviation "TCP_NODELAY \<equiv> 1 :: nat"
abbreviation "TCP_KEEPIDLE \<equiv> 4 :: nat"
abbreviation "TCP_KEEPINTVL \<equiv> 5 :: nat"
abbreviation "TCP_KEEPCNT \<equiv> 6 :: nat"
abbreviation "TCP_NOTSENT_LOWAT \<equiv> 25 :: nat"

text \<open>A value is the list of its fields: one integer, or two for \<open>timeval\<close> and \<open>linger\<close>.\<close>

type_synonym opt_table = "nat \<times> nat \<Rightarrow> int list"
type_synonym opt_kernel = "nat \<Rightarrow> nat \<Rightarrow> int list \<Rightarrow> bool"

definition setsockopt :: "opt_kernel \<Rightarrow> nat \<Rightarrow> nat \<Rightarrow> int list \<Rightarrow> opt_table \<Rightarrow> int \<times> opt_table" where
  "setsockopt accepts level opt v t = (if accepts level opt v then (0, t((level, opt) := v)) else (- 1, t))"

definition setSocketOption ::
  "opt_kernel \<Rightarrow> nat \<Rightarrow> nat \<Rightarrow> int list \<Rightarrow> base_sock \<Rightarrow> opt_table \<Rightarrow> (bool \<times> opt_table) run" where
  "setSocketOption accepts level opt v s t =
     on_open s (\<lambda>_. case setsockopt accepts level opt v t of (r, t') \<Rightarrow> (r \<noteq> - 1, t'))"

text \<open>Reading an option that the kernel refuses gives the default value.\<close>

definition getSocketOption ::
  "(nat \<Rightarrow> nat \<Rightarrow> bool) \<Rightarrow> nat \<Rightarrow> nat \<Rightarrow> base_sock \<Rightarrow> opt_table \<Rightarrow> int list run" where
  "getSocketOption readable level opt s t =
     on_open s (\<lambda>_. if readable level opt then t (level, opt) else [0])"

definition setReuseAddAndPort :: "opt_kernel \<Rightarrow> base_sock \<Rightarrow> opt_table \<Rightarrow> (bool \<times> opt_table) run" where
  "setReuseAddAndPort k = setSocketOption k SOL_SOCKET SO_REUSEADDR [1]"

definition setTCPMaxSendRate :: "opt_kernel \<Rightarrow> int \<Rightarrow> base_sock \<Rightarrow> opt_table \<Rightarrow> (bool \<times> opt_table) run" where
  "setTCPMaxSendRate k rate = setSocketOption k SOL_SOCKET SO_MAX_PACING_RATE [rate]"

definition setTCPNoDelay :: "opt_kernel \<Rightarrow> base_sock \<Rightarrow> opt_table \<Rightarrow> (bool \<times> opt_table) run" where
  "setTCPNoDelay k = setSocketOption k IPPROTO_TCP TCP_NODELAY [1]"

definition setRxBufferSize :: "opt_kernel \<Rightarrow> int \<Rightarrow> base_sock \<Rightarrow> opt_table \<Rightarrow> (bool \<times> opt_table) run" where
  "setRxBufferSize k n = setSocketOption k SOL_SOCKET SO_RCVBUF [n]"

definition setTxBufferSize :: "opt_kernel \<Rightarrow> int \<Rightarrow> base_sock \<Rightarrow> opt_table \<Rightarrow> (bool \<times> opt_table) run" where
  "setTxBufferSize k n = setSocketOption k SOL_SOCKET SO_SNDBUF [n]"

definition setKeepAlive :: "opt_kernel \<Rightarrow> base_sock \<Rightarrow> opt_table \<Rightarrow> (bool \<times> opt_table) run" where
  "setKeepAlive k = setSocketOption k SOL_SOCKET SO_KEEPALIVE [1]"

definition setReceiveTimeOut :: "opt_kernel \<Rightarrow> int \<Rightarrow> int \<Rightarrow> base_sock \<Rightarrow> opt_table \<Rightarrow> (bool \<times> opt_table) run" where
  "setReceiveTimeOut k sec usec = setSocketOption k SOL_SOCKET SO_RCVTIMEO [sec, usec]"

definition setSendTimeOut :: "opt_kernel \<Rightarrow> int \<Rightarrow> int \<Rightarrow> base_sock \<Rightarrow> opt_table \<Rightarrow> (bool \<times> opt_table) run" where
  "setSendTimeOut k sec usec = setSocketOption k SOL_SOCKET SO_SNDTIMEO [sec, usec]"

definition setMinimumDataToReturnRecv :: "opt_kernel \<Rightarrow> int \<Rightarrow> base_sock \<Rightarrow> opt_table \<Rightarrow> (bool \<times> opt_table) run" where
  "setMinimumDataToReturnRecv k n = setSocketOption k SOL_SOCKET SO_RCVLOWAT [n]"

definition setMinimumDataToReturnSend :: "opt_kernel \<Rightarrow> int \<Rightarrow> base_sock \<Rightarrow> opt_table \<Rightarrow> (bool \<times> opt_table) run" where
  "setMinimumDataToReturnSend k n = setSocketOption k SOL_SOCKET SO_SNDLOWAT [n]"

definition setDataFlushTimeoutOnClose :: "opt_kernel \<Rightarrow> int \<Rightarrow> base_sock \<Rightarrow> opt_table \<Rightarrow> (bool \<times> opt_table) run" where
  "setDataFlushTimeoutOnClose k n = setSocketOption k SOL_SOCKET SO_LINGER [1, n]"

definition setBufferTCPSendData :: "opt_kernel \<Rightarrow> base_sock \<Rightarrow> opt_table \<Rightarrow> (bool \<times> opt_table) run" where
  "setBufferTCPSendData k = setSocketOption k SOL_SOCKET TCP_NODELAY [0]"

definition setMaxSendDataWaitThreshold :: "opt_kernel \<Rightarrow> int \<Rightarrow> base_sock \<Rightarrow> opt_table \<Rightarrow> (bool \<times> opt_table) run" where
  "setMaxSendDataWaitThreshold k n = setSocketOption k SOL_SOCKET TCP_NOTSENT_LOWAT [n]"

text \<open>Keep-alive: four options, each only when the one before was accepted.\<close>

fun set_in_turn :: "opt_kernel \<Rightarrow> (nat \<times> nat \<times> int) list \<Rightarrow> opt_table \<Rightarrow> bool \<times> opt_table" where
  "set_in_turn k [] t = (True, t)"
| "set_in_turn k ((level, opt, v) # os) t =
     (case setsockopt k level opt [v] t of
        (r, t') \<Rightarrow> if r = - 1 then (False, t') else set_in_turn k os t')"

definition setTCPKeepAlive :: "opt_kernel \<Rightarrow> int \<Rightarrow> int \<Rightarrow> int \<Rightarrow> base_sock \<Rightarrow> opt_table \<Rightarrow> (bool \<times> opt_table) run" where
  "setTCPKeepAlive k maxIdleTime interval numberOfTry s t =
     (if sk_fd s \<noteq> None \<and> sk_fd s \<noteq> Some NULL_FD \<and> \<not> (0 < maxIdleTime \<and> 0 < interval \<and> 0 < numberOfTry)
      then Some (Inl Aborted)
      else on_open s (\<lambda>_. set_in_turn k
             [(SOL_SOCKET, SO_KEEPALIVE, 1), (IPPROTO_TCP, TCP_KEEPIDLE, maxIdleTime),
              (IPPROTO_TCP, TCP_KEEPINTVL, interval), (IPPROTO_TCP, TCP_KEEPCNT, numberOfTry)] t))"

definition getRxBufferSize :: "(nat \<Rightarrow> nat \<Rightarrow> bool) \<Rightarrow> base_sock \<Rightarrow> opt_table \<Rightarrow> int list run" where
  "getRxBufferSize readable = getSocketOption readable SOL_SOCKET SO_RCVBUF"

definition getTxBufferSize :: "(nat \<Rightarrow> nat \<Rightarrow> bool) \<Rightarrow> base_sock \<Rightarrow> opt_table \<Rightarrow> int list run" where
  "getTxBufferSize readable = getSocketOption readable SOL_SOCKET SO_SNDBUF"

section \<open>What the settings do\<close>

definition open_socket :: "base_sock \<Rightarrow> bool" where
  "open_socket s \<longleftrightarrow> (\<exists>fd. sk_fd s = Some fd \<and> fd \<noteq> NULL_FD)"

lemma on_open_open: "open_socket s \<Longrightarrow> on_open s f = Some (Inr (f (getFD s)))"
  by (auto simp: open_socket_def on_open_def getFD_def)

text \<open>The table with some options set, whatever the kernel says.\<close>

definition set_all :: "(nat \<times> nat \<times> int) list \<Rightarrow> opt_table \<Rightarrow> opt_table" where
  "set_all os t = fold (\<lambda>(l, n, v) t. t((l, n) := [v])) os t"

lemma set_in_turn_prefix:
  "\<exists>m \<le> length os. set_in_turn k os t = (m = length os, set_all (take m os) t)
    \<and> list_all (\<lambda>(l, n, v). k l n [v]) (take m os)
    \<and> (m < length os \<longrightarrow> (case os ! m of (l, n, v) \<Rightarrow> \<not> k l n [v]))"
proof (induction os arbitrary: t)
  case Nil
  then show ?case by (simp add: set_all_def)
next
  case (Cons p os)
  obtain l n v where p: "p = (l, n, v)" by (cases p)
  show ?case
  proof (cases "k l n [v]")
    case False
    then show ?thesis by (intro exI [of _ 0]) (simp add: p setsockopt_def set_all_def)
  next
    case True
    from Cons.IH [of "t((l, n) := [v])"] obtain m where m: "m \<le> length os"
      "set_in_turn k os (t((l, n) := [v])) = (m = length os, set_all (take m os) (t((l, n) := [v])))"
      "list_all (\<lambda>(l, n, v). k l n [v]) (take m os)"
      "m < length os \<longrightarrow> (case os ! m of (l, n, v) \<Rightarrow> \<not> k l n [v])"
      by (elim exE conjE) (rule that)
    show ?thesis
      by (rule exI [of _ "Suc m"]) (use m True in \<open>simp add: p setsockopt_def set_all_def\<close>)
  qed
qed

definition keepalive_options :: "int \<Rightarrow> int \<Rightarrow> int \<Rightarrow> (nat \<times> nat \<times> int) list" where
  "keepalive_options idle interval count =
     [(SOL_SOCKET, SO_KEEPALIVE, 1), (IPPROTO_TCP, TCP_KEEPIDLE, idle),
      (IPPROTO_TCP, TCP_KEEPINTVL, interval), (IPPROTO_TCP, TCP_KEEPCNT, count)]"

text \<open>
  Keep-alive is all or a prefix: the call succeeds exactly when the kernel accepts all four
  settings; when it refuses one, those before it stay set and nothing else changes.
\<close>

theorem keepalive_prefix:
  assumes "open_socket s" "0 < idle" "0 < interval" "0 < count"
  shows "\<exists>m \<le> 4. setTCPKeepAlive k idle interval count s t
        = Some (Inr (m = 4, set_all (take m (keepalive_options idle interval count)) t))
    \<and> list_all (\<lambda>(l, n, v). k l n [v]) (take m (keepalive_options idle interval count))
    \<and> (m < 4 \<longrightarrow> (case keepalive_options idle interval count ! m of (l, n, v) \<Rightarrow> \<not> k l n [v]))"
proof -
  have "setTCPKeepAlive k idle interval count s t
      = Some (Inr (set_in_turn k (keepalive_options idle interval count) t))"
    using assms by (simp add: setTCPKeepAlive_def on_open_open keepalive_options_def)
  moreover have "length (keepalive_options idle interval count) = 4" by (simp add: keepalive_options_def)
  ultimately show ?thesis
    using set_in_turn_prefix [of "keepalive_options idle interval count" k t] by auto
qed

theorem keepalive_prefix_witness:
  "\<exists>m \<le> 4. setTCPKeepAlive (\<lambda>l n v. n \<noteq> TCP_KEEPCNT) 60 10 3 (BaseSocket 5) (\<lambda>_. [0])
     = Some (Inr (m = 4, set_all (take m (keepalive_options 60 10 3)) (\<lambda>_. [0])))"
proof -
  have "open_socket (BaseSocket 5)" by (simp add: open_socket_def BaseSocket_def)
  from keepalive_prefix [OF this, of 60 10 3 "\<lambda>l n v. n \<noteq> TCP_KEEPCNT" "\<lambda>_. [0]"] show ?thesis by auto
qed

text \<open>
  \<open>setBufferTCPSendData\<close> does not take back \<open>setTCPNoDelay\<close>: it names the option at the wrong
  level, where its number is that of \<open>SO_DEBUG\<close>. In the same way \<open>setMaxSendDataWaitThreshold\<close>
  sets \<open>SO_BINDTODEVICE\<close>.
\<close>

theorem nodelay_not_undone:
  assumes "open_socket s" "k IPPROTO_TCP TCP_NODELAY [1]" "k SOL_SOCKET SO_DEBUG [0]"
  shows "\<exists>t1. setTCPNoDelay k s t = Some (Inr (True, t1)) \<and> t1 (IPPROTO_TCP, TCP_NODELAY) = [1]
    \<and> setBufferTCPSendData k s t1 = Some (Inr (True, t1((SOL_SOCKET, SO_DEBUG) := [0])))"
  using assms by (simp add: setTCPNoDelay_def setBufferTCPSendData_def setSocketOption_def
      setsockopt_def on_open_open)

lemma wait_threshold_binds:
  assumes "open_socket s" "k SOL_SOCKET SO_BINDTODEVICE [n]"
  shows "setMaxSendDataWaitThreshold k n s t
    = Some (Inr (True, t((SOL_SOCKET, SO_BINDTODEVICE) := [n])))"
  using assms by (simp add: setMaxSendDataWaitThreshold_def setSocketOption_def setsockopt_def on_open_open)

text \<open>A setting that is accepted can be read back; one that is refused changes nothing.\<close>

lemma option_roundtrip:
  assumes "open_socket s" "readable l n"
  shows "setSocketOption k l n v s t = Some (Inr (k l n v, if k l n v then t((l, n) := v) else t))
    \<and> (k l n v \<longrightarrow> getSocketOption readable l n s (t((l, n) := v)) = Some (Inr v))"
  using assms by (simp add: setSocketOption_def getSocketOption_def setsockopt_def on_open_open)

text \<open>An object that was moved from, or closed, can not be used again; the new one has all.\<close>

lemma moved_from:
  "snd (BaseSocket_move s) = s' \<Longrightarrow> on_open s' f = Some (Inl MemoryFault) \<and> getFD s' = NULL_FD"
  by (auto simp: BaseSocket_move_def on_open_def getFD_def)

lemma closed_twice:
  assumes "open_socket s" "close (getFD s) = 0"
  shows "\<exists>s'. close_socket close s = Some (Inr (0, s')) \<and> getFD s' = NULL_FD
    \<and> close_socket close s' = Some (Inl Aborted)"
proof -
  obtain fd where fd: "sk_fd s = Some fd" "fd \<noteq> NULL_FD" using assms(1) by (auto simp: open_socket_def)
  then show ?thesis
    using assms(2) by (auto simp: close_socket_def on_open_def fd_close_def getFD_def)
qed

text \<open>The port comes out as the number the peer put in.\<close>

lemma port_roundtrip:
  assumes "p < 2 ^ 16"
  shows "sk_port (BaseSocket_address ntop fd (AddrIn ip (word_of_nat (p div 256)) (word_of_nat p))) = p"
  using assms by (simp add: BaseSocket_address_def getIPAndPort_def ntohs_def unat_byte_of_nat)

end
