(* ===== verification/Lu_Thread_Setup.thy ===== *)
theory Lu_Thread_Setup
  imports Lu_Server_Thread Lu_Connection_Thread
begin

text \<open>
  The life of the threads with an event loop (\<open>EventThread\<close>, \<open>ClientThread\<close>, \<open>ServerThread\<close>,
  \<open>ServerSingleThread\<close>, \<open>ConnectionThread\<close>): what \<open>init\<close> connects, the pipes that \<open>run\<close> opens for
  the threads that will send messages, stopping. A thread is a number in \<open>thread_sys\<close>; what the
  system calls answer is an argument.
\<close>

section \<open>Connecting the senders\<close>

text \<open>
  \<open>ServerThread::init\<close>: every thread that was connected to the server is connected to each of its
  client threads. The results of \<open>ClientThread::init\<close> and of \<open>EventThread::init\<close> are not looked at.
\<close>

fun connect_senders :: "nat list \<Rightarrow> nat \<Rightarrow> thread_sys \<Rightarrow> fault + thread_sys" where
  "connect_senders [] c s = Inr s"
| "connect_senders (t # ts) c s = (case connect t c s of Inl f \<Rightarrow> Inl f | Inr s \<Rightarrow> connect_senders ts c s)"

fun connect_clients :: "nat list \<Rightarrow> nat list \<Rightarrow> thread_sys \<Rightarrow> fault + thread_sys" where
  "connect_clients senders [] s = Inr s"
| "connect_clients senders (c # cs) s =
     (case connect_senders senders c s of Inl f \<Rightarrow> Inl f | Inr s \<Rightarrow> connect_clients senders cs s)"

definition ServerThread_init :: "nat \<Rightarrow> nat list \<Rightarrow> thread_sys \<Rightarrow> fault + bool \<times> thread_sys" where
  "ServerThread_init srv clients s =
     map_sum id (Pair True) (connect_clients (lt_senders (ts_thread s srv)) clients s)"

text \<open>\<open>ServerThread::connect\<close> connects every client thread as a sender to another thread.\<close>

fun ServerThread_connect :: "nat list \<Rightarrow> nat \<Rightarrow> thread_sys \<Rightarrow> fault + thread_sys" where
  "ServerThread_connect [] reader s = Inr s"
| "ServerThread_connect (c # cs) reader s =
     (case connect c reader s of Inl f \<Rightarrow> Inl f | Inr s \<Rightarrow> ServerThread_connect cs reader s)"

text \<open>The second component says whether the thread has an \<open>EventNotifier\<close> to give away.\<close>

definition ClientThread_init :: "bool \<Rightarrow> bool \<Rightarrow> bool \<times> bool" where
  "ClientThread_init channel_init thread_init =
     (if \<not> channel_init then (False, False) else (thread_init, True))"

section \<open>Opening the channels\<close>

text \<open>
  The loop at the start of \<open>run\<close>: for every sender a channel of its own; a channel that cannot be
  created aborts, one that cannot be added to the event loop is not noticed. An answer holds
  the result of \<open>EventChannel::init\<close>, the pipe, and the channel as a handler.
\<close>

record new_channel =
  ch_init :: bool
  ch_pipe :: nat
  ch_ptr :: ptr
  ch_fd :: int
  ch_nonblock :: bool
  ch_ctl :: bool

definition add_channel :: "new_channel \<Rightarrow> event_loop \<Rightarrow> fault + event_loop" where
  "add_channel a el =
     map_sum id snd (el_add (ch_nonblock a) (ch_ctl a) (ch_ptr a)
       (el\<lparr>el_objects := (el_objects el)(ch_ptr a \<mapsto> \<lparr>h_fd = ch_fd a, h_type = PipeHandler\<rparr>)\<rparr>))"

fun open_channels ::
  "nat \<Rightarrow> (nat \<times> new_channel) list \<Rightarrow> thread_sys \<Rightarrow> event_loop \<Rightarrow> fault + thread_sys \<times> event_loop" where
  "open_channels c [] s el = Inr (s, el)"
| "open_channels c ((t, a) # tas) s el =
     (if \<not> ch_init a then Inl Aborted
      else
        let s = connectTo t (lt_channelID (ts_thread s c)) (ch_pipe a) s in
        (case add_channel a el of
           Inl f \<Rightarrow> Inl f
         | Inr el \<Rightarrow> open_channels c tas s el))"

definition answers_for :: "nat \<Rightarrow> (nat \<Rightarrow> new_channel) \<Rightarrow> thread_sys \<Rightarrow> (nat \<times> new_channel) list" where
  "answers_for c ans s = map (\<lambda>i. (lt_senders (ts_thread s c) ! i, ans i)) [0..<length (lt_senders (ts_thread s c))]"

text \<open>\<open>ClientThread::run\<close> up to its event loop; \<open>own\<close> is the channel that \<open>init\<close> made.\<close>

definition ClientThread_run ::
  "nat \<Rightarrow> (nat \<Rightarrow> new_channel) \<Rightarrow> new_channel \<Rightarrow> wait_for_count \<Rightarrow> thread_sys \<Rightarrow> event_loop
     \<Rightarrow> fault + thread_sys \<times> event_loop \<times> wait_for_count" where
  "ClientThread_run c ans own w s el =
     (case open_channels c (answers_for c ans s) s el of
        Inl f \<Rightarrow> Inl f
      | Inr (s, el) \<Rightarrow>
          (case add_channel own el of
             Inl f \<Rightarrow> Inl f
           | Inr el \<Rightarrow> Inr (s, el, ClientThread_run_sync w)))"

text \<open>
  \<open>ServerSingleThread\<close> up to its event loop: the constructor counts one start if it has a thread
  of its own; \<open>run\<close> returns when the socket cannot be set up (first component) and else adds
  the listening socket at \<open>sock\<close>; \<open>start\<close> waits, or runs on the caller's thread.
\<close>

definition ServerSingleThread :: "bool \<Rightarrow> wait_for_count" where
  "ServerSingleThread createNewThread =
     (if createNewThread then wc_update 1 (WaitForCount 0) else WaitForCount 0)"

definition ServerSingleThread_run ::
  "nat \<Rightarrow> (nat \<Rightarrow> new_channel) \<Rightarrow> bool \<Rightarrow> bool \<Rightarrow> bool \<Rightarrow> bool \<Rightarrow> ptr \<Rightarrow> wait_for_count \<Rightarrow> thread_sys \<Rightarrow> event_loop
     \<Rightarrow> fault + bool \<times> thread_sys \<times> event_loop \<times> wait_for_count" where
  "ServerSingleThread_run c ans createNewThread setUp nonblock ctl sock w s el =
     (case open_channels c (answers_for c ans s) s el of
        Inl f \<Rightarrow> Inl f
      | Inr (s, el) \<Rightarrow>
          if \<not> setUp then Inr (False, s, el, w)
          else
            (case el_add nonblock ctl sock el of
               Inl f \<Rightarrow> Inl f
             | Inr (_, el) \<Rightarrow> Inr (True, s, el, if createNewThread then snd (wc_increment w) else w)))"

text \<open>\<open>start\<close>: \<open>None\<close> while it waits for the counter, which \<open>run\<close> may have left at \<open>w\<close>.\<close>

definition ServerSingleThread_start :: "bool \<Rightarrow> wait_for_count \<Rightarrow> unit option" where
  "ServerSingleThread_start createNewThread w =
     (if createNewThread \<and> \<not> wc_may_return w then None else Some ())"

text \<open>
  \<open>ConnectionThread\<close>: with TLS \<open>init\<close> needs a context; \<open>run\<close> opens the channels and then makes the
  missing connections before its event loop starts.
\<close>

definition ConnectionThread_init :: "bool option \<Rightarrow> bool \<Rightarrow> bool" where
  "ConnectionThread_init ctx thread_init = (if ctx = Some False then False else thread_init)"

definition ConnectionThread_run ::
  "nat \<Rightarrow> (nat \<Rightarrow> new_channel) \<Rightarrow> (nat \<Rightarrow> int option) \<Rightarrow> (nat \<Rightarrow> bool) \<Rightarrow> (nat \<Rightarrow> string) \<Rightarrow> bool
     \<Rightarrow> connection_thread \<Rightarrow> thread_sys \<Rightarrow> event_loop
     \<Rightarrow> fault + thread_sys \<times> event_loop \<times> connection_thread \<times> connection_event list" where
  "ConnectionThread_run c ans tcp added key hs ct s el =
     (case open_channels c (answers_for c ans s) s el of
        Inl f \<Rightarrow> Inl f
      | Inr (s, el) \<Rightarrow> map_sum id (\<lambda>(ct, es). (s, el, ct, es)) (connect_missing tcp added key hs ct))"

section \<open>Running and stopping\<close>

text \<open>\<open>EventThread::run\<close>: the timer at \<open>tm\<close> if there is one, then the loop.\<close>

definition EventThread_run ::
  "u32 \<Rightarrow> bool \<Rightarrow> bool \<Rightarrow> ptr \<Rightarrow> ((ptr \<times> reaction) list \<times> bool) list \<Rightarrow> int \<Rightarrow> event_loop \<Rightarrow> event_loop run" where
  "EventThread_run TIMER_IN_MSEC nonblock ctl tm batches ret el =
     (if TIMER_IN_MSEC \<noteq> 0 then
        (case el_add nonblock ctl tm el of
           Inl f \<Rightarrow> Some (Inl f)
         | Inr (_, el) \<Rightarrow> el_start batches ret el)
      else el_start batches ret el)"

text \<open>
  \<open>EventThread::stop\<close> runs on another thread than the loop. Without a timer of its own the loop
  gets one that fires once after ten milliseconds, so that it looks at the flag; the flag is
  set after that. Its three actions are steps that interleave with the loop's.
\<close>

datatype stopper = NotStopping | TimerInit | TimerAdded | TimerStarted | Stopped

record life =
  lf_stopper :: stopper
  lf_timer :: "itimerspec option"
  lf_stop :: bool
  lf_running :: bool

definition life_init :: "u32 \<Rightarrow> life" where
  "life_init TIMER_IN_MSEC =
     \<lparr>lf_stopper = NotStopping, lf_timer = EventThread_run_timer TIMER_IN_MSEC, lf_stop = False, lf_running = True\<rparr>"

text \<open>\<open>tm\<close> says whether the timer is created and can be added to the loop.\<close>

fun stop_step :: "u32 \<Rightarrow> bool \<Rightarrow> stopper \<Rightarrow> life \<Rightarrow> life" where
  "stop_step T tm NotStopping s = s\<lparr>lf_stopper := (if T = 0 then TimerInit else TimerStarted)\<rparr>"
| "stop_step T tm TimerInit s = s\<lparr>lf_stopper := TimerAdded\<rparr>"
| "stop_step T tm TimerAdded s =
     s\<lparr>lf_timer := (if tm then EventThread_stop_timer T else lf_timer s), lf_stopper := TimerStarted\<rparr>"
| "stop_step T tm TimerStarted s = s\<lparr>lf_stop := True, lf_stopper := Stopped\<rparr>"
| "stop_step T tm Stopped s = s"

definition wake :: "life \<Rightarrow> life" where
  "wake s = (if lf_running s \<and> lf_stop s then s\<lparr>lf_running := False\<rparr> else s)"

text \<open>The timer expires: it stays armed only if it repeats; the loop wakes and looks at the flag.\<close>

definition timer_fires :: "life \<Rightarrow> life option" where
  "timer_fires s =
     (case lf_timer s of
        None \<Rightarrow> None
      | Some t \<Rightarrow>
          if \<not> timer_armed t then None
          else Some (wake (s\<lparr>lf_timer := Some (t\<lparr>value_sec := interval_sec t, value_nsec := interval_nsec t\<rparr>)\<rparr>)))"

inductive life_reach :: "u32 \<Rightarrow> bool \<Rightarrow> life \<Rightarrow> bool" for T tm where
  init: "life_reach T tm (life_init T)"
| stop: "life_reach T tm s \<Longrightarrow> life_reach T tm (stop_step T tm (lf_stopper s) s)"
| fires: "life_reach T tm s \<Longrightarrow> timer_fires s = Some s' \<Longrightarrow> life_reach T tm s'"
| other: "life_reach T tm s \<Longrightarrow> life_reach T tm (wake s)"

text \<open>
  A call of \<open>stop\<close> from start to end, with nothing in between. \<open>ServerThread::stop\<close> stops the
  client threads one after the other and then itself; \<open>join\<close> returns when all loops have ended.
\<close>

definition EventThread_stop :: "u32 \<Rightarrow> bool \<Rightarrow> life \<Rightarrow> life" where
  "EventThread_stop T tm s = ((\<lambda>s. stop_step T tm (lf_stopper s) s) ^^ 4) s"

definition ServerThread_stop :: "u32 \<Rightarrow> bool \<Rightarrow> life list \<times> life \<Rightarrow> life list \<times> life" where
  "ServerThread_stop T tm = (\<lambda>(clients, srv). (map (EventThread_stop T tm) clients, EventThread_stop T tm srv))"

definition ServerThread_join :: "life list \<times> life \<Rightarrow> unit option" where
  "ServerThread_join = (\<lambda>(clients, srv). if list_ex lf_running clients \<or> lf_running srv then None else Some ())"

section \<open>Stopping ends the loop, or not\<close>

lemma run_timer_periodic:
  assumes "T \<noteq> 0"
  obtains t where "EventThread_run_timer T = Some t" "timer_armed t"
    "t\<lparr>value_sec := interval_sec t, value_nsec := interval_nsec t\<rparr> = t"
proof -
  from timer_period [of T] assms obtain t where
    "EventThread_run_timer T = Some t" "timer_armed t" "interval_sec t = value_sec t" "interval_nsec t = value_nsec t"
    by blast
  then show ?thesis using that by simp
qed

lemma stop_step_fields [simp]:
  "T \<noteq> 0 \<Longrightarrow> lf_timer (stop_step T tm p s) = (if p = TimerAdded \<and> tm then None else lf_timer s)"
  "lf_running (stop_step T tm p s) = lf_running s"
  by (cases p; simp add: EventThread_stop_timer_def)+

definition life_ok :: "u32 \<Rightarrow> life \<Rightarrow> bool" where
  "life_ok T s \<longleftrightarrow> lf_timer s = EventThread_run_timer T \<and> lf_stopper s \<in> {NotStopping, TimerStarted, Stopped}
     \<and> (lf_stopper s = Stopped \<longrightarrow> lf_stop s)"

lemma life_ok_wake: "life_ok T s \<Longrightarrow> life_ok T (wake s)"
  by (simp add: life_ok_def wake_def)

lemma fires_periodic:
  assumes "T \<noteq> 0" "life_ok T s"
  shows "timer_fires s = Some (wake s)"
proof -
  obtain t where t: "EventThread_run_timer T = Some t" "timer_armed t"
    "t\<lparr>value_sec := interval_sec t, value_nsec := interval_nsec t\<rparr> = t"
    using run_timer_periodic [OF assms(1)] .
  with assms(2) show ?thesis by (cases s) (simp add: timer_fires_def life_ok_def)
qed

lemma reach_periodic: "life_reach T tm s \<Longrightarrow> T \<noteq> 0 \<Longrightarrow> life_ok T s"
proof (induction rule: life_reach.induct)
  case init
  then show ?case by (simp add: life_ok_def life_init_def)
next
  case (stop s)
  then show ?case by (cases "lf_stopper s") (auto simp: life_ok_def)
next
  case (fires s s')
  with fires_periodic [of T s] show ?case by (auto intro: life_ok_wake)
next
  case (other s)
  then show ?case by (simp add: life_ok_wake)
qed

lemma reach_steps: "life_reach T tm s \<Longrightarrow> life_reach T tm (((\<lambda>s. stop_step T tm (lf_stopper s) s) ^^ n) s)"
  by (induction n) (auto intro: life_reach.stop)

text \<open>The run in which the timer of \<open>stop\<close> fires before the flag is set.\<close>

lemma stop_hangs:
  "\<exists>s. life_reach 0 True s \<and> lf_stopper s = Stopped \<and> lf_running s \<and> timer_fires s = None"
proof -
  let ?step = "\<lambda>s. stop_step 0 True (lf_stopper s) s"
  define a where "a = ?step (?step (?step (life_init 0)))"
  have a: "a = \<lparr>lf_stopper = TimerStarted, lf_timer = Some (timer_start 0 10001000 False), lf_stop = False, lf_running = True\<rparr>"
    by (simp add: a_def life_init_def EventThread_run_timer_def EventThread_stop_timer_def)
  have "life_reach 0 True a"
    unfolding a_def by (intro life_reach.init life_reach.stop)
  moreover obtain b where b: "timer_fires a = Some b" "lf_stopper b = TimerStarted" "lf_running b"
    "lf_timer b = Some \<lparr>value_sec = 0, value_nsec = 0, interval_sec = 0, interval_nsec = 0\<rparr>"
    by (simp add: a timer_fires_def timer_armed_def timer_start_def wake_def)
  ultimately have "life_reach 0 True (?step b)" by (intro life_reach.stop) (rule life_reach.fires)
  with b show ?thesis by (intro exI [of _ "?step b"]) (simp add: timer_fires_def timer_armed_def)
qed

text \<open>
  C31. Stopping a thread with a timer of its own always works: in every interleaving, once \<open>stop\<close>
  has returned the next expiry of the timer ends the loop, and there always is one. Without
  a timer it can hang: the timer that \<open>stop\<close> arms may fire before the flag is set, and then the
  loop waits with nothing left to wake it.
\<close>

theorem stop_ends_loop:
  "(\<forall>s. T \<noteq> 0 \<longrightarrow> life_reach T tm s \<longrightarrow> lf_stopper s = Stopped \<longrightarrow>
      (\<exists>s'. timer_fires s = Some s' \<and> \<not> lf_running s'))
   \<and> (\<exists>s. life_reach 0 True s \<and> lf_stopper s = Stopped \<and> lf_running s \<and> timer_fires s = None)"
proof -
  have "\<exists>s'. timer_fires s = Some s' \<and> \<not> lf_running s'"
    if "T \<noteq> 0" "life_reach T tm s" "lf_stopper s = Stopped" for s
    using fires_periodic [OF that(1) reach_periodic [OF that(2,1)]] reach_periodic [OF that(2,1)] that(3)
    by (auto simp: life_ok_def wake_def)
  with stop_hangs show ?thesis by blast
qed

theorem stop_ends_loop_witness:
  "\<exists>s'. timer_fires (EventThread_stop 500 True (life_init 500)) = Some s' \<and> \<not> lf_running s'"
proof -
  let ?s = "EventThread_stop 500 True (life_init 500)"
  have "life_reach 500 True ?s"
    unfolding EventThread_stop_def by (intro reach_steps life_reach.init)
  moreover have "lf_stopper ?s = Stopped"
    by (simp add: EventThread_stop_def eval_nat_numeral life_init_def)
  ultimately show ?thesis using stop_ends_loop [of 500 True] by simp
qed

text \<open>A server whose threads have timers: after \<open>stop\<close> and one expiry of each, \<open>join\<close> returns.\<close>

lemma EventThread_stop_stopped:
  assumes "T \<noteq> 0" "life_ok T s"
  shows "life_ok T (EventThread_stop T tm s) \<and> lf_stop (EventThread_stop T tm s)"
  using assms by (cases "lf_stopper s") (auto simp: EventThread_stop_def eval_nat_numeral life_ok_def)

lemma server_stop_join:
  assumes "T \<noteq> 0" "list_all (life_ok T) clients" "life_ok T srv"
    and "ServerThread_stop T tm (clients, srv) = (clients', srv')"
  shows "ServerThread_join (map (\<lambda>s. the (timer_fires s)) clients', the (timer_fires srv')) = Some ()"
proof -
  have "\<not> lf_running (the (timer_fires (EventThread_stop T tm s)))" if "life_ok T s" for s
    using fires_periodic [OF assms(1)] EventThread_stop_stopped [OF assms(1) that, of tm]
    by (simp add: wake_def)
  with assms show ?thesis
    by (auto simp: ServerThread_stop_def ServerThread_join_def list_ex_iff list_all_iff)
qed

section \<open>Messages to the client threads\<close>

text \<open>What \<open>init\<close> changes: the client threads know their senders, nothing else is different.\<close>

definition with_senders :: "nat list \<Rightarrow> nat list \<Rightarrow> thread_sys \<Rightarrow> thread_sys" where
  "with_senders senders cs s =
     s\<lparr>ts_thread := (\<lambda>u. if u \<in> set cs
        then (ts_thread s u)\<lparr>lt_senders := lt_senders (ts_thread s u) @ senders\<rparr> else ts_thread s u)\<rparr>"

lemma connect_senders_io:
  "lt_isIO (ts_thread s c) \<Longrightarrow> connect_senders senders c s = Inr (with_senders senders [c] s)"
proof (induction senders arbitrary: s)
  case Nil
  have "(\<lambda>u. if u = c then ts_thread s c else ts_thread s u) = ts_thread s" by auto
  then show ?case by (cases s) (auto simp: with_senders_def fun_eq_iff)
next
  case (Cons t ts)
  let ?s = "addToThreadSendingMsg t c s"
  have "connect_senders ts c ?s = Inr (with_senders ts [c] ?s)"
    using Cons by (simp add: addToThreadSendingMsg_def)
  moreover have "with_senders ts [c] ?s = with_senders (t # ts) [c] s"
    by (cases s) (auto simp: with_senders_def addToThreadSendingMsg_def set_thread_def fun_eq_iff)
  ultimately show ?case using Cons.prems by (simp add: connect_def)
qed

lemma connect_clients_io:
  "list_all (\<lambda>c. lt_isIO (ts_thread s c)) cs \<Longrightarrow> distinct cs \<Longrightarrow>
     connect_clients senders cs s = Inr (with_senders senders cs s)"
proof (induction cs arbitrary: s)
  case Nil
  then show ?case by (cases s) (simp add: with_senders_def)
next
  case (Cons c cs)
  let ?s = "with_senders senders [c] s"
  have "list_all (\<lambda>c. lt_isIO (ts_thread ?s c)) cs"
    using Cons.prems by (auto simp: list_all_iff with_senders_def)
  then have "connect_clients senders cs ?s = Inr (with_senders senders cs ?s)"
    using Cons by simp
  moreover have "with_senders senders cs ?s = with_senders senders (c # cs) s"
    using Cons.prems(2) by (cases s) (auto simp: with_senders_def fun_eq_iff)
  ultimately show ?case using Cons.prems connect_senders_io [of s c senders] by simp
qed

text \<open>What opening the channels changes: each sender can reach the thread through its pipe.\<close>

definition channels_ok :: "(nat \<times> new_channel) list \<Rightarrow> bool" where
  "channels_ok tas \<longleftrightarrow> list_all (\<lambda>(t, a). ch_init a \<and> ch_fd a \<noteq> NULL_FD) tas"

definition same_but_notifiers :: "thread_sys \<Rightarrow> thread_sys \<Rightarrow> bool" where
  "same_but_notifiers s s' \<longleftrightarrow> ts_pipe s' = ts_pipe s
     \<and> (\<forall>u. lt_channelID (ts_thread s' u) = lt_channelID (ts_thread s u))"

lemma connectTo_same: "same_but_notifiers s (connectTo t cid p s)"
  by (auto simp: same_but_notifiers_def connectTo_def split: option.split)

lemma same_trans: "same_but_notifiers s1 s2 \<Longrightarrow> same_but_notifiers s2 s3 \<Longrightarrow> same_but_notifiers s1 s3"
  by (simp add: same_but_notifiers_def)

lemma connectTo_notifier:
  "lt_notifiers (ts_thread (connectTo t cid p s) u) i
     = (if u = t \<and> i = cid \<and> lt_notifiers (ts_thread s t) cid = None then Some p
        else lt_notifiers (ts_thread s u) i)"
  by (auto simp: connectTo_def split: option.split)

lemma add_channel_runs: "ch_fd a \<noteq> NULL_FD \<Longrightarrow> \<exists>el'. add_channel a el = Inr el'"
  by (auto simp: add_channel_def el_add_def)

lemma open_channels_reach:
  assumes "channels_ok tas" "distinct (map fst tas)"
    and "\<forall>(t, a) \<in> set tas. lt_notifiers (ts_thread s t) (lt_channelID (ts_thread s c)) = None"
  shows "\<exists>s' el'. open_channels c tas s el = Inr (s', el') \<and> same_but_notifiers s s'
    \<and> (\<forall>(t, a) \<in> set tas. lt_notifiers (ts_thread s' t) (lt_channelID (ts_thread s c)) = Some (ch_pipe a))
    \<and> (\<forall>u. u \<notin> fst ` set tas \<longrightarrow> lt_notifiers (ts_thread s' u) = lt_notifiers (ts_thread s u))"
  using assms
proof (induction tas arbitrary: s el)
  case Nil
  then show ?case by (simp add: same_but_notifiers_def)
next
  case (Cons ta tas)
  obtain t a where ta: "ta = (t, a)" by (cases ta)
  let ?cid = "lt_channelID (ts_thread s c)"
  let ?s = "connectTo t ?cid (ch_pipe a) s"
  have cid: "lt_channelID (ts_thread ?s c) = ?cid" using connectTo_same by (simp add: same_but_notifiers_def)
  obtain el1 where el1: "add_channel a el = Inr el1"
    using add_channel_runs [of a el] Cons.prems(1) by (auto simp: channels_ok_def ta)
  have t: "t \<notin> fst ` set tas" "distinct (map fst tas)" using Cons.prems(2) by (auto simp: ta)
  have "\<forall>(t', a') \<in> set tas. lt_notifiers (ts_thread ?s t') (lt_channelID (ts_thread ?s c)) = None"
    using Cons.prems(3) t(1) unfolding cid connectTo_notifier by (force simp: ta)
  from Cons.IH [OF _ t(2) this, of el1] Cons.prems(1) obtain s' el' where s':
    "open_channels c tas ?s el1 = Inr (s', el')" "same_but_notifiers ?s s'"
    "\<forall>(t, a) \<in> set tas. lt_notifiers (ts_thread s' t) ?cid = Some (ch_pipe a)"
    "\<forall>u. u \<notin> fst ` set tas \<longrightarrow> lt_notifiers (ts_thread s' u) = lt_notifiers (ts_thread ?s u)"
    unfolding cid by (auto simp: channels_ok_def ta)
  have "lt_notifiers (ts_thread s' t) ?cid = Some (ch_pipe a)"
    using s'(4) t(1) Cons.prems(3) by (simp add: connectTo_notifier ta)
  moreover have "open_channels c (ta # tas) s el = Inr (s', el')"
    using s'(1) el1 Cons.prems(1) by (simp add: ta Let_def channels_ok_def)
  moreover have "lt_notifiers (ts_thread s' u) = lt_notifiers (ts_thread s u)" if "u \<notin> fst ` set (ta # tas)" for u
    using that s'(4) by (auto simp: ta connectTo_notifier fun_eq_iff)
  ultimately show ?case
    using s'(3) same_trans [OF connectTo_same s'(2)] by (auto simp: ta)
qed

text \<open>Sends by any threads to the thread with channel \<open>cid\<close>; every \<open>write\<close> takes the whole record.\<close>

fun send_io :: "u32 \<Rightarrow> (nat \<times> ptr) list \<Rightarrow> thread_sys \<Rightarrow> fault + thread_sys" where
  "send_io cid [] s = Inr s"
| "send_io cid ((t, m) # ms) s =
     (case transferMsgToIOThread (int EVENT_SIZE) t cid m s of Inl f \<Rightarrow> Inl f | Inr s \<Rightarrow> send_io cid ms s)"

definition app_message :: "u32 \<Rightarrow> ptr \<Rightarrow> event_data" where
  "app_message from m = \<lparr>eventType = EventAppMessage, channelID = from, ed_data = m\<rparr>"

definition sent_by :: "nat \<Rightarrow> (nat \<times> ptr) list \<Rightarrow> ptr list" where
  "sent_by t sends = map snd (filter (\<lambda>(u, _). u = t) sends)"

definition io_bytes :: "u32 \<Rightarrow> ptr list \<Rightarrow> byte list" where
  "io_bytes from ms = concat (map (\<lambda>m. event_bytes (app_message from m)) ms)"

lemma io_bytes_Cons [simp]: "io_bytes from (m # ms) = event_bytes (app_message from m) @ io_bytes from ms"
  by (simp add: io_bytes_def)

lemma io_bytes_Nil [simp]: "io_bytes from [] = []"
  by (simp add: io_bytes_def)

lemma send_io_pipes:
  assumes "\<forall>t \<in> fst ` set sends. \<exists>p. lt_notifiers (ts_thread s t) cid = Some p \<and> to p = t"
  shows "\<exists>s'. send_io cid sends s = Inr s' \<and> ts_thread s' = ts_thread s
    \<and> (\<forall>p. lt_notifiers (ts_thread s (to p)) cid = Some p \<longrightarrow>
         ts_pipe s' p = ts_pipe s p @ io_bytes (lt_channelID (ts_thread s (to p))) (sent_by (to p) sends))"
  using assms
proof (induction sends arbitrary: s)
  case Nil
  then show ?case by (simp add: sent_by_def)
next
  case (Cons tm sends)
  obtain t m where tm: "tm = (t, m)" by (cases tm)
  from Cons.prems obtain p where p: "lt_notifiers (ts_thread s t) cid = Some p" "to p = t" by (auto simp: tm)
  let ?bs = "event_bytes (app_message (lt_channelID (ts_thread s t)) m)"
  let ?s = "s\<lparr>ts_pipe := (ts_pipe s)(p := ts_pipe s p @ ?bs)\<rparr>"
  have step: "transferMsgToIOThread (int EVENT_SIZE) t cid m s = Inr ?s"
    using p(1) by (simp add: transferMsgToIOThread_def notify_def app_message_def)
  obtain s' where s': "send_io cid sends ?s = Inr s'" "ts_thread s' = ts_thread s"
    "\<forall>p. lt_notifiers (ts_thread s (to p)) cid = Some p \<longrightarrow> ts_pipe s' p =
       ts_pipe ?s p @ io_bytes (lt_channelID (ts_thread s (to p))) (sent_by (to p) sends)"
  proof -
    have "\<forall>t \<in> fst ` set sends. \<exists>p. lt_notifiers (ts_thread ?s t) cid = Some p \<and> to p = t"
      using Cons.prems by (auto simp: tm)
    from Cons.IH [OF this] that show thesis by auto
  qed
  have "ts_pipe s' q = ts_pipe s q @ io_bytes (lt_channelID (ts_thread s (to q))) (sent_by (to q) (tm # sends))"
    if q: "lt_notifiers (ts_thread s (to q)) cid = Some q" for q
  proof (cases "q = p")
    case True
    with s'(3) q p show ?thesis by (simp add: sent_by_def tm)
  next
    case False
    then have "to q \<noteq> t" using q p(1) by auto
    with False s'(3) q show ?thesis by (simp add: sent_by_def tm)
  qed
  with step s'(1,2) show ?case by (auto simp: tm)
qed

lemma dispatch_app_messages:
  "concat (map (\<lambda>m. dispatch (app_message cid m)) ms) = map (\<lambda>m. OnAppMsg m cid) ms"
  by (induction ms) (auto simp: dispatch_def app_message_def)

lemma io_pipe_received:
  assumes "concat chunks = io_bytes i ms" "[] \<notin> set chunks"
    and "reads_within readDataFile ec_on_bytes rb_leftToRecv (map Received chunks @ [RecvError EAGAIN]) EventChannel"
  shows "\<exists>rb. EventChannel_Receive (map Received chunks @ [RecvError EAGAIN]) EventChannel =
          Some (Inr (True, rb, map (\<lambda>m. OnAppMsg m i) ms)) \<and> rb_pending rb = []"
proof -
  have "split_events (io_bytes i ms) = (map (\<lambda>m. OnAppMsg m i) ms, [])"
    using split_events_encoded [of "[]" "map (app_message i) ms"] dispatch_app_messages
    by (simp add: io_bytes_def comp_def)
  then show ?thesis
    using ec.receive_delivers [OF ec_ok_new assms(2,3)] assms(1)
    by (auto simp: EventChannel_Receive_def EventChannel_def)
qed

text \<open>When every sender has a pipe of its own, what they send is in these pipes, in their order.\<close>

lemma send_io_own_pipes:
  assumes "\<And>j. j < length ss \<Longrightarrow> lt_notifiers (ts_thread s (ss ! j)) cid = Some (pipes j)"
    and "inj_on pipes {..<length ss}" "fst ` set sends \<subseteq> set ss"
  shows "\<exists>s'. send_io cid sends s = Inr s' \<and> (\<forall>j < length ss. ts_pipe s' (pipes j) =
    ts_pipe s (pipes j) @ io_bytes (lt_channelID (ts_thread s (ss ! j))) (sent_by (ss ! j) sends))"
proof -
  define to where "to p = ss ! (the_inv_into {..<length ss} pipes p)" for p
  have to: "to (pipes j) = ss ! j" if "j < length ss" for j
    using the_inv_into_f_f [OF assms(2), of j] that by (simp add: to_def)
  have "\<forall>t \<in> fst ` set sends. \<exists>p. lt_notifiers (ts_thread s t) cid = Some p \<and> to p = t"
  proof
    fix t assume "t \<in> fst ` set sends"
    with assms(3) obtain j where "j < length ss" "t = ss ! j" by (metis in_set_conv_nth subsetD)
    with assms(1) to show "\<exists>p. lt_notifiers (ts_thread s t) cid = Some p \<and> to p = t" by blast
  qed
  from send_io_pipes [OF this] obtain s' where "send_io cid sends s = Inr s'"
    "\<And>p. lt_notifiers (ts_thread s (to p)) cid = Some p \<Longrightarrow>
       ts_pipe s' p = ts_pipe s p @ io_bytes (lt_channelID (ts_thread s (to p))) (sent_by (to p) sends)" by blast
  with assms(1) to show ?thesis by (metis (no_types, lifting))
qed

text \<open>
  C23. Messages to client threads arrive: after the server's \<open>init\<close> has connected its senders, a
  client thread that runs has a pipe for each of them, and whatever the senders send to its
  channel, in any order, its handler gets the messages of every sender in the order in which
  that sender sent them, with the sender's channel id, however the reads cut the pipe.
\<close>

theorem io_thread_receives:
  assumes "distinct clients" "c \<in> set clients" "\<forall>c \<in> set clients. lt_isIO (ts_thread s c)"
    and "lt_senders (ts_thread s c) = []" "distinct (lt_senders (ts_thread s srv))"
    and "\<forall>t \<in> set (lt_senders (ts_thread s srv)). t \<noteq> c \<and> lt_notifiers (ts_thread s t) cid = None"
    and "\<forall>i < length (lt_senders (ts_thread s srv)). ch_init (ans i) \<and> ch_fd (ans i) \<noteq> NULL_FD \<and> ts_pipe s (ch_pipe (ans i)) = []"
    and "inj_on (ch_pipe \<circ> ans) {..<length (lt_senders (ts_thread s srv))}"
    and "fst ` set sends \<subseteq> set (lt_senders (ts_thread s srv))"
    and "i < length (lt_senders (ts_thread s srv))" "t = lt_senders (ts_thread s srv) ! i"
  shows "\<exists>s0 s1 el1 s2. ServerThread_init srv clients s = Inr (True, s0)
    \<and> open_channels c (answers_for c ans (threadRun cid c s0)) (threadRun cid c s0) el = Inr (s1, el1)
    \<and> send_io cid sends s1 = Inr s2
    \<and> ts_pipe s2 (ch_pipe (ans i)) = io_bytes (lt_channelID (ts_thread s t)) (sent_by t sends)
    \<and> (\<forall>chunks. concat chunks = ts_pipe s2 (ch_pipe (ans i)) \<and> [] \<notin> set chunks
         \<and> reads_within readDataFile ec_on_bytes rb_leftToRecv (map Received chunks @ [RecvError EAGAIN]) EventChannel \<longrightarrow>
       (\<exists>rb. EventChannel_Receive (map Received chunks @ [RecvError EAGAIN]) EventChannel =
          Some (Inr (True, rb, map (\<lambda>m. OnAppMsg m (lt_channelID (ts_thread s t))) (sent_by t sends))) \<and> rb_pending rb = []))"
proof -
  let ?snd = "lt_senders (ts_thread s srv)"
  define s0 where "s0 = with_senders ?snd clients s"
  define s0' where "s0' = threadRun cid c s0"
  define tas where "tas = map (\<lambda>j. (?snd ! j, ans j)) [0..<length ?snd]"
  have init: "ServerThread_init srv clients s = Inr (True, s0)"
    using connect_clients_io [of s clients ?snd] assms(1,3) by (simp add: ServerThread_init_def s0_def list_all_iff)
  have s0: "lt_senders (ts_thread s0 c) = ?snd" "ts_pipe s0' = ts_pipe s" "lt_channelID (ts_thread s0' c) = cid"
    "lt_notifiers (ts_thread s0' u) = lt_notifiers (ts_thread s u)"
    "u \<noteq> c \<Longrightarrow> lt_channelID (ts_thread s0' u) = lt_channelID (ts_thread s u)" for u
    using assms(2,4) by (auto simp: s0'_def s0_def threadRun_def with_senders_def)
  have ans: "answers_for c ans s0' = tas"
    using s0(1) by (simp add: answers_for_def tas_def s0'_def threadRun_def)
  have fst: "map fst tas = ?snd" by (simp add: tas_def map_nth comp_def)
  have "channels_ok tas" using assms(7) by (auto simp: channels_ok_def tas_def list_all_iff)
  moreover have "\<forall>(t, a) \<in> set tas. lt_notifiers (ts_thread s0' t) (lt_channelID (ts_thread s0' c)) = None"
    using assms(6) by (auto simp: tas_def s0)
  ultimately obtain s1 el1 where s1: "open_channels c tas s0' el = Inr (s1, el1)" "same_but_notifiers s0' s1"
    "\<forall>(t, a) \<in> set tas. lt_notifiers (ts_thread s1 t) cid = Some (ch_pipe a)"
    using open_channels_reach [of tas s0' c el] assms(5) fst s0(3) by auto
  have notif: "lt_notifiers (ts_thread s1 (?snd ! j)) cid = Some (ch_pipe (ans j))" if "j < length ?snd" for j
    using s1(3) that by (force simp: tas_def)
  obtain s2 where s2: "send_io cid sends s1 = Inr s2"
    "\<forall>j < length ?snd. ts_pipe s2 (ch_pipe (ans j)) = ts_pipe s1 (ch_pipe (ans j))
       @ io_bytes (lt_channelID (ts_thread s1 (?snd ! j))) (sent_by (?snd ! j) sends)"
    using send_io_own_pipes [OF notif _ assms(9)] assms(8) by (auto simp: comp_def)
  have chan: "lt_channelID (ts_thread s1 t) = lt_channelID (ts_thread s t)"
    using s1(2) s0(5) [of t] assms(6,10,11) by (auto simp: same_but_notifiers_def)
  have pipe: "ts_pipe s2 (ch_pipe (ans i)) = io_bytes (lt_channelID (ts_thread s t)) (sent_by t sends)"
    using s2 assms(7,10,11) s1(2) s0(2) chan by (simp add: same_but_notifiers_def)
  note io_pipe_received [of _ "lt_channelID (ts_thread s t)" "sent_by t sends"]
  then show ?thesis using init s1(1) ans s2(1) pipe unfolding s0'_def by simp
qed

definition demo_threads :: thread_sys where
  "demo_threads =
     \<lparr>ts_thread = (\<lambda>t. \<lparr>lt_name = [], lt_isIO = (t \<le> 1), lt_channelID = word_of_nat (t + 100), lt_output = OutputChannel,
        lt_notifiers = Map.empty, lt_senders = (if t = 0 then [2, 3] else [])\<rparr>),
      ts_pipe = (\<lambda>_. [])\<rparr>"

definition demo_channel :: "nat \<Rightarrow> new_channel" where
  "demo_channel i = \<lparr>ch_init = True, ch_pipe = i, ch_ptr = word_of_nat (4096 + i), ch_fd = int i + 5,
     ch_nonblock = True, ch_ctl = True\<rparr>"

theorem io_thread_receives_witness:
  "\<exists>s0 s1 el1 s2 rb. ServerThread_init 0 [1] demo_threads = Inr (True, s0)
    \<and> open_channels 1 (answers_for 1 demo_channel (threadRun 77 1 s0)) (threadRun 77 1 s0) FDEventLoop = Inr (s1, el1)
    \<and> send_io 77 [(2, 7), (3, 8), (2, 9)] s1 = Inr s2
    \<and> EventChannel_Receive [Received (ts_pipe s2 0), RecvError EAGAIN] EventChannel
        = Some (Inr (True, rb, [OnAppMsg 7 102, OnAppMsg 9 102]))"
proof -
  have "distinct [1 :: nat]" "(1 :: nat) \<in> set [1]" "\<forall>c \<in> set [1]. lt_isIO (ts_thread demo_threads c)"
    "lt_senders (ts_thread demo_threads 1) = []" "distinct (lt_senders (ts_thread demo_threads 0))"
    "\<forall>t \<in> set (lt_senders (ts_thread demo_threads 0)). t \<noteq> 1 \<and> lt_notifiers (ts_thread demo_threads t) 77 = None"
    "\<forall>i < length (lt_senders (ts_thread demo_threads 0)). ch_init (demo_channel i) \<and> ch_fd (demo_channel i) \<noteq> NULL_FD
       \<and> ts_pipe demo_threads (ch_pipe (demo_channel i)) = []"
    "inj_on (ch_pipe \<circ> demo_channel) {..<length (lt_senders (ts_thread demo_threads 0))}"
    "fst ` set [(2 :: nat, 7 :: ptr), (3, 8), (2, 9)] \<subseteq> set (lt_senders (ts_thread demo_threads 0))"
    "0 < length (lt_senders (ts_thread demo_threads 0))" "2 = lt_senders (ts_thread demo_threads 0) ! 0"
    by (simp_all add: demo_threads_def demo_channel_def inj_on_def)
  note r = io_thread_receives [OF this, of FDEventLoop]
  have v: "lt_channelID (ts_thread demo_threads 2) = 102" "ch_pipe (demo_channel 0) = 0"
    by (simp_all add: demo_threads_def demo_channel_def)
  from r [unfolded v] obtain s0 s1 el1 s2 where
    r: "ServerThread_init 0 [1] demo_threads = Inr (True, s0)"
    "open_channels 1 (answers_for 1 demo_channel (threadRun 77 1 s0)) (threadRun 77 1 s0) FDEventLoop = Inr (s1, el1)"
    "send_io 77 [(2, 7), (3, 8), (2, 9)] s1 = Inr s2"
    "ts_pipe s2 0 = io_bytes 102 (sent_by 2 [(2, 7), (3, 8), (2, 9)])"
    "\<forall>chunks. concat chunks = ts_pipe s2 0 \<and> [] \<notin> set chunks \<and>
       reads_within readDataFile ec_on_bytes rb_leftToRecv (map Received chunks @ [RecvError EAGAIN]) EventChannel \<longrightarrow>
       (\<exists>rb. EventChannel_Receive (map Received chunks @ [RecvError EAGAIN]) EventChannel =
          Some (Inr (True, rb, map (\<lambda>m. OnAppMsg m 102) (sent_by 2 [(2, 7), (3, 8), (2, 9)]))) \<and> rb_pending rb = [])"
    by blast
  have p: "ts_pipe s2 0 = event_bytes (app_message 102 7) @ event_bytes (app_message 102 9)"
    by (simp add: r(4) sent_by_def)
  have "reads_within readDataFile ec_on_bytes rb_leftToRecv (map Received [ts_pipe s2 0] @ [RecvError EAGAIN]) EventChannel"
    by (rule ec.reads_within_bounded [OF ec_room ec_ok_new]) (auto simp: p)
  with spec [OF r(5), of "[ts_pipe s2 0]"] p obtain rb where
    "EventChannel_Receive [Received (ts_pipe s2 0), RecvError EAGAIN] EventChannel =
      Some (Inr (True, rb, [OnAppMsg 7 102, OnAppMsg 9 102]))" by (auto simp: sent_by_def)
  with r(1-3) show ?thesis by blast
qed

text \<open>
  A single-threaded server can not be reached through \<open>getEventNotifier\<close>, which no member sets;
  and with a thread of its own, \<open>start\<close> waits for ever when the socket can not be set up.
\<close>

lemma single_server_start:
  assumes "open_channels c (answers_for c ans s) s el = Inr (s', el')"
    and "ServerSingleThread_run c ans True setUp nonblock ctl sock (ServerSingleThread True) s el = Inr (listening, r1, r2, w)"
  shows "ServerSingleThread_start True w = (if setUp then Some () else None)"
  using assms
  by (auto simp: ServerSingleThread_run_def ServerSingleThread_start_def ServerSingleThread_def WaitForCount_def
      wc_update_def wc_may_return_def wc_increment_def split: sum.splits if_splits)

end
