(* ===== verification/Lu_Socket_Send.thy ===== *)
theory Lu_Socket_Send
  imports Lu_Web_Socket_Correct Lu_Socket_Options
begin

text \<open>
  The data sockets on top of \<open>BaseSocket\<close>: sending through the kernel, closing, events. The
  frames that \<open>Frame::sendMsg\<close> passes to \<open>send\<close> meet the answers of the kernel; \<open>sendMsg\<close> does
  not look at what \<open>send\<close> returns, so that a short write tears the stream of frames.
\<close>

section \<open>Sending\<close>


definition DataSocket_sendMsg :: "int \<Rightarrow> byte list \<Rightarrow> int \<Rightarrow> (int \<times> errno) list \<Rightarrow> (int \<times> byte list) run" where
  "DataSocket_sendMsg = base_send"

definition DataSocketV_sendMsg :: "int \<Rightarrow> byte list \<Rightarrow> int \<Rightarrow> (int \<times> errno) list \<Rightarrow> (int \<times> byte list) run" where
  "DataSocketV_sendMsg = base_send"

definition DataSocketV_sendFile :: "byte list \<Rightarrow> int \<Rightarrow> (int \<times> errno) list \<Rightarrow> (int \<times> byte list) option" where
  "DataSocketV_sendFile = base_sendfile"



definition HBSocketClient_sendMsg ::
  "(nat \<Rightarrow> u32) \<Rightarrow> nat \<Rightarrow> opcode \<Rightarrow> byte list \<Rightarrow> nat \<Rightarrow> web_socket \<Rightarrow> (byte list list \<times> byte list \<times> nat) option" where
  "HBSocketClient_sendMsg rnd maxMessageSize op buffer len s =
     (if ws_status s = ConnectedAsTCP then Some ([take len buffer], buffer, len)
      else if ws_status s = ConnectedAsWebSocket then sendMsg rnd True maxMessageSize op buffer len
      else Some ([], buffer, 0))"

section \<open>What reaches the other side\<close>












section \<open>Closing\<close>

text \<open>
  \<open>close\<close> of all data sockets: \<open>if (retVal = 0)\<close> assigns, so that the condition is false. The
  result: what is returned, whether the object deletes itself, and the socket.
\<close>

definition object_close :: "(int \<Rightarrow> int) \<Rightarrow> base_sock \<Rightarrow> (int \<times> bool \<times> base_sock) run" where
  "object_close close s =
     (case close_socket close s of
        None \<Rightarrow> None
      | Some (Inl f) \<Rightarrow> Some (Inl f)
      | Some (Inr (_, s')) \<Rightarrow> (let retVal = 0 in Some (Inr (retVal, retVal \<noteq> 0, s'))))"

lemma object_close_hides_errors:
  "object_close close s = Some (Inr (r, deleted, s')) \<Longrightarrow> r = 0 \<and> \<not> deleted"
  by (auto simp: object_close_def split: option.splits sum.splits)

section \<open>Events\<close>

text \<open>The callbacks of a socket whose receive loop has events of its own.\<close>

definition with_events :: "('e \<Rightarrow> 'f) \<Rightarrow> (bool \<times> 's \<times> 'e list) run \<Rightarrow> (bool \<times> 's \<times> 'f list) run" where
  "with_events f = map_option (map_sum id (\<lambda>(alive, s, es). (alive, s, map f es)))"

definition DataSocket_onEvent ::
  "32 word \<Rightarrow> recv_result list \<Rightarrow> recv_buffer \<Rightarrow> (bool \<times> recv_buffer \<times> socket_event list) run" where
  "DataSocket_onEvent = onEvent (\<lambda>rs s. with_events DataEvent (DataSocket_Receive rs s)) OnClientClose"

definition DataSocketV_onEvent ::
  "32 word \<Rightarrow> recv_result list \<Rightarrow> data_socketv \<Rightarrow> (bool \<times> data_socketv \<times> socket_event list) run" where
  "DataSocketV_onEvent = onEvent (\<lambda>rs s. with_events DataEvent (DataSocketV_Receive rs s)) OnClientClose"

definition HBDataSocket_onEvent ::
  "(string \<Rightarrow> bool option) \<Rightarrow> (string \<Rightarrow> string) \<Rightarrow>
     (byte list \<Rightarrow> nat \<Rightarrow> nat option) \<Rightarrow> (byte list \<Rightarrow> nat \<Rightarrow> nat \<Rightarrow> byte list option) \<Rightarrow> nat \<Rightarrow> nat \<Rightarrow>
     32 word \<Rightarrow> recv_result list \<Rightarrow> web_socket \<Rightarrow> (bool \<times> web_socket \<times> socket_event list) run" where
  "HBDataSocket_onEvent below base64Sha readHeader readMessage headerSize maxMessageSize =
     onEvent (HBDataSocket_Receive below base64Sha readHeader readMessage headerSize maxMessageSize) OnClientClose"

definition HBSocketClient_onEvent ::
  "(string \<Rightarrow> bool option) \<Rightarrow> (string \<Rightarrow> string) \<Rightarrow> string \<Rightarrow>
     (byte list \<Rightarrow> nat \<Rightarrow> nat option) \<Rightarrow> (byte list \<Rightarrow> nat \<Rightarrow> nat \<Rightarrow> byte list option) \<Rightarrow> nat \<Rightarrow> nat \<Rightarrow>
     32 word \<Rightarrow> recv_result list \<Rightarrow> web_socket \<Rightarrow> (bool \<times> web_socket \<times> socket_event list) run" where
  "HBSocketClient_onEvent below base64Sha key readHeader readMessage headerSize maxMessageSize =
     onEvent (HBSocketClient_Receive below base64Sha key readHeader readMessage headerSize maxMessageSize) OnClientClose"

text \<open>
  What the loop does with one socket: every wake-up calls \<open>onEvent\<close>, until it answers \<open>false\<close>,
  after which the socket is destroyed.
\<close>

fun serve_socket ::
  "(32 word \<Rightarrow> 'r list \<Rightarrow> 's \<Rightarrow> (bool \<times> 's \<times> 'e list) run) \<Rightarrow> (32 word \<times> 'r list) list \<Rightarrow> 's \<Rightarrow>
     (bool \<times> 's \<times> 'e list) run" where
  "serve_socket ev [] s = Some (Inr (True, s, []))"
| "serve_socket ev ((events, rs) # ws) s =
     (case ev events rs s of
        Some (Inr (True, s', es)) \<Rightarrow>
          (case serve_socket ev ws s' of
             Some (Inr (alive, s'', es')) \<Rightarrow> Some (Inr (alive, s'', es @ es'))
           | e \<Rightarrow> e)
      | e \<Rightarrow> e)"

definition quiet_receive :: "('r list \<Rightarrow> 's \<Rightarrow> (bool \<times> 's \<times> socket_event list) run) \<Rightarrow> bool" where
  "quiet_receive Receive \<longleftrightarrow>
     (\<forall>rs s alive s' es. Receive rs s = Some (Inr (alive, s', es)) \<longrightarrow> OnClientClose \<notin> set es)"

lemma receive_quiet:
  assumes "\<And>bs s s' es. on_bytes bs s = Some (Inr (s', es)) \<Longrightarrow> x \<notin> set es"
  shows "receive read on_bytes rs s = Some (Inr (alive, s', es)) \<Longrightarrow> x \<notin> set es"
proof (induction rs arbitrary: s es)
  case (Cons r rs)
  then show ?case by (auto split: sum.splits option.splits prod.splits if_splits dest: assms)
qed simp

definition closed_once :: "bool \<Rightarrow> socket_event list \<Rightarrow> bool" where
  "closed_once alive es \<longleftrightarrow>
     (if alive then OnClientClose \<notin> set es else es \<noteq> [] \<and> last es = OnClientClose \<and> OnClientClose \<notin> set (butlast es))"

lemma onEvent_closes_once:
  assumes "quiet_receive Receive" "onEvent Receive OnClientClose events rs s = Some (Inr (alive, s', es))"
  shows "closed_once alive es"
proof -
  have q: "Receive rs s = Some (Inr (a, s1, es1)) \<Longrightarrow> OnClientClose \<notin> set es1" for a s1 es1
    using assms(1) unfolding quiet_receive_def by blast
  show ?thesis using assms(2) q
    by (auto simp: onEvent_def closed_once_def split: if_splits option.splits sum.splits prod.splits bool.splits)
qed

lemma serve_closes_once:
  assumes "quiet_receive Receive" "serve_socket (onEvent Receive OnClientClose) ws s = Some (Inr (alive, s', es))"
  shows "closed_once alive es"
  using assms(2)
proof (induction ws arbitrary: s es)
  case (Cons w ws)
  obtain events rs where w: "w = (events, rs)" by (cases w)
  from Cons.prems obtain a s1 es1 where e: "onEvent Receive OnClientClose events rs s = Some (Inr (a, s1, es1))"
    by (auto simp: w split: option.splits sum.splits)
  note once = onEvent_closes_once [OF assms(1) e]
  show ?case
  proof (cases a)
    case False
    with Cons.prems e once show ?thesis by (auto simp: w)
  next
    case True
    with Cons.prems e obtain es2 where r: "serve_socket (onEvent Receive OnClientClose) ws s1 = Some (Inr (alive, s', es2))"
      "es = es1 @ es2" by (auto simp: w split: option.splits sum.splits prod.splits)
    show ?thesis using Cons.IH [OF r(1)] once True r(2)
      by (auto simp: closed_once_def butlast_append split: if_splits)
  qed
qed (auto simp: closed_once_def)

lemma with_events_closed: "with_events DataEvent r = Some (Inr (alive, s', es)) \<Longrightarrow> OnClientClose \<notin> set es"
  by (cases r; cases "the r") (auto simp: with_events_def)

lemma with_events_quiet: "quiet_receive (\<lambda>rs s. with_events DataEvent (R rs s))"
  unfolding quiet_receive_def by (intro allI impI) (rule with_events_closed)

lemma ws_readFrames_quiet: "ws_readFrames s = Some (Inr (s', es)) \<Longrightarrow> OnClientClose \<notin> set es"
  by (auto simp: ws_readFrames_def Let_def split: option.splits prod.splits if_splits)

lemma hb_readConnected_quiet: "hb_readConnected rh rm hs s = Some (Inr (s', es)) \<Longrightarrow> OnClientClose \<notin> set es"
  by (auto simp: hb_readConnected_def hb_readRawTCPMessages_def dest: ws_readFrames_quiet
      split: option.splits sum.splits if_splits)

lemma header_incomplete_quiet: "header_incomplete off s = (s', es) \<Longrightarrow> OnClientClose \<notin> set es"
  by (auto simp: header_incomplete_def split: if_splits)

lemma ws_processHandshake_quiet: "ws_processHandshake below sha s = Some (Inr (s', es)) \<Longrightarrow> OnClientClose \<notin> set es"
  by (auto simp: ws_processHandshake_def dest: header_incomplete_quiet
      split: option.splits prod.splits bool.splits outcome.splits if_splits)

lemma hb_processHandshake_quiet: "hb_processHandshake below sha s = Some (Inr (s', es)) \<Longrightarrow> OnClientClose \<notin> set es"
  by (auto simp: hb_processHandshake_def dest: header_incomplete_quiet
      split: option.splits prod.splits bool.splits outcome.splits)

lemma hb_processServerReply_quiet:
  "hb_processServerReply below sha key s = Some (Inr (s', es)) \<Longrightarrow> OnClientClose \<notin> set es"
  by (auto simp: hb_processServerReply_def dest: header_incomplete_quiet
      split: option.splits prod.splits bool.splits outcome.splits)

lemma hb_readMessages_quiet:
  assumes "\<And>s s' es. p s = Some (Inr (s', es)) \<Longrightarrow> OnClientClose \<notin> set es"
    and "\<And>s s' es. c s = Some (Inr (s', es)) \<Longrightarrow> OnClientClose \<notin> set es"
  shows "hb_readMessages p c s = Some (Inr (s', es)) \<Longrightarrow> OnClientClose \<notin> set es"
  by (auto simp: hb_readMessages_def dest: assms split: option.splits sum.splits prod.splits if_splits)

lemma ws_readMessages_quiet: "ws_readMessages below sha s = Some (Inr (s', es)) \<Longrightarrow> OnClientClose \<notin> set es"
  by (auto simp: ws_readMessages_def dest: ws_processHandshake_quiet ws_readFrames_quiet
      split: option.splits sum.splits prod.splits if_splits)

lemma socket_receive_quiet:
  assumes "\<And>s s' es. readMsgs s = Some (Inr (s', es)) \<Longrightarrow> OnClientClose \<notin> set es"
  shows "quiet_receive (receive read (socket_on_bytes readMsgs n))"
proof -
  have "socket_on_bytes readMsgs n bs s = Some (Inr (s', es)) \<Longrightarrow> OnClientClose \<notin> set es" for bs s s' es
    by (auto simp: socket_on_bytes_def dest: assms split: option.splits sum.splits prod.splits)
  then show ?thesis using receive_quiet unfolding quiet_receive_def by metis
qed

lemma ws_quiet: "quiet_receive (receive read (socket_on_bytes (ws_readMessages below sha) n))"
  by (rule socket_receive_quiet) (rule ws_readMessages_quiet)

lemma hb_quiet:
  assumes "\<And>s s' es. p s = Some (Inr (s', es)) \<Longrightarrow> OnClientClose \<notin> set es"
  shows "quiet_receive (receive read (socket_on_bytes (hb_readMessages p (hb_readConnected rh rm hs)) n))"
  by (rule socket_receive_quiet, rule hb_readMessages_quiet) (auto dest: assms hb_readConnected_quiet)

lemmas quiet_sockets =
  with_events_quiet ws_quiet hb_quiet [OF hb_processHandshake_quiet] hb_quiet [OF hb_processServerReply_quiet]

text \<open>
  C19. A connection is reported closed once, and as the last thing, by every kind of data socket:
  over any sequence of wake-ups, the callback gets \<open>onClientClose\<close> exactly when \<open>onEvent\<close>
  answers \<open>false\<close>, which is when the loop destroys the socket; nothing is called back after it.
\<close>

theorem sockets_close_once:
  "(serve_socket DataSocket_onEvent ws s1 = Some (Inr (alive, t1, es)) \<longrightarrow> closed_once alive es)
 \<and> (serve_socket DataSocketV_onEvent ws s2 = Some (Inr (alive, t2, es)) \<longrightarrow> closed_once alive es)
 \<and> (serve_socket (WebSocket_onEvent below sha) ws s3 = Some (Inr (alive, t3, es)) \<longrightarrow> closed_once alive es)
 \<and> (serve_socket (HBDataSocket_onEvent below sha rh rm hs m) ws s3 = Some (Inr (alive, t3, es)) \<longrightarrow> closed_once alive es)
 \<and> (serve_socket (HBSocketClient_onEvent below sha key rh rm hs m) ws s3 = Some (Inr (alive, t3, es))
      \<longrightarrow> closed_once alive es)"
  unfolding DataSocket_onEvent_def DataSocketV_onEvent_def WebSocket_onEvent_def WebSocket_Receive_def
    HBDataSocket_onEvent_def HBDataSocket_Receive_def HBSocketClient_onEvent_def HBSocketClient_Receive_def
    hbc_readMessages_same
  by (intro conjI impI; erule serve_closes_once [rotated]; rule quiet_sockets)

text \<open>Bytes that arrived before a hang-up was noticed are not read.\<close>

lemma hangup_drops:
  "DataSocket_onEvent (EPOLLIN OR EPOLLHUP) rs s = Some (Inr (False, s, [OnClientClose]))"
  by (simp add: DataSocket_onEvent_def onEvent_def EPOLLIN_def EPOLLHUP_def)

theorem sockets_close_once_witness:
  "serve_socket DataSocket_onEvent [(1, [RecvError EAGAIN]), (16, []), (1, [])] DataSocket
     = Some (Inr (False, DataSocket, [OnClientClose]))
   \<and> closed_once False [OnClientClose]"
proof -
  let ?ws = "[(1, [RecvError EAGAIN]), (16, []), (1, [])]"
  have "serve_socket DataSocket_onEvent ?ws DataSocket = Some (Inr (False, DataSocket, [OnClientClose]))"
    by (simp add: DataSocket_onEvent_def onEvent_def EPOLLIN_def EPOLLHUP_def EPOLLERR_def DataSocket_Receive_def
        readDataSocket_def with_events_def)
  with sockets_close_once [of ?ws DataSocket False DataSocket "[OnClientClose]"] show ?thesis by blast
qed

end
