(* ===== verification/Lu_Reflection.thy ===== *)
theory Lu_Reflection
  imports Lu_Prelude
begin

text \<open>
  Code of \<open>include/reflection/Reflection.h\<close> that the compiler runs: identifiers of the
  alternatives of a variant, access to a tuple by an index, how many members a structure has and
  visiting them, and whether a type refers to itself. A program that does not compile is \<open>None\<close>.
\<close>

section \<open>Identifiers of a variant\<close>

text \<open>
  An identifier is a constant with its type; \<open>BYTE_ID\<close> stands for \<open>std::byte\<close>. An alternative is
  the name of its type and the \<open>serialize_id\<close> it declares, as a member or through a function.
\<close>

type_synonym id_value = "nat \<times> nat"

abbreviation "BYTE_ID \<equiv> 0 :: nat"

record alternative =
  al_type :: string
  al_id :: "id_value option"

text \<open>Without one the identifier is \<open>std::byte{Index}\<close>, which 255 is the last to fit.\<close>

fun get_id :: "nat \<Rightarrow> nat \<Rightarrow> alternative list \<Rightarrow> id_value option" where
  "get_id index current [] = None"
| "get_id index current (t # ts) =
     (if index = current then
        (case al_id t of Some v \<Rightarrow> Some v | None \<Rightarrow> if index < 256 then Some (BYTE_ID, index) else None)
      else get_id index (current + 1) ts)"

definition static_id :: "alternative list \<Rightarrow> nat \<Rightarrow> id_value option" where
  "static_id ts index = get_id index 0 ts"

text \<open>The identifier for an index known at run time: the last alternative is not compared.\<close>

function dynamic_id :: "alternative list \<Rightarrow> nat \<Rightarrow> nat \<Rightarrow> id_value option" where
  "dynamic_id ts index current =
     (if length ts - 1 \<le> current then static_id ts current
      else if index = current then static_id ts current
      else dynamic_id ts index (current + 1))"
  by auto
termination
  by (relation "measure (\<lambda>(ts, index, current). length ts - current)") auto

function index_of_id :: "alternative list \<Rightarrow> id_value \<Rightarrow> nat \<Rightarrow> nat option" where
  "index_of_id ts i current =
     (if length ts \<le> current then None
      else if static_id ts current = Some i then Some current
      else index_of_id ts i (current + 1))"
  by auto
termination
  by (relation "measure (\<lambda>(ts, i, current). length ts - current)") auto

declare dynamic_id.simps [simp del] index_of_id.simps [simp del]

definition unique_ids :: "alternative list \<Rightarrow> bool" where
  "unique_ids ts =
     list_all (\<lambda>l. list_all (\<lambda>r. l = r \<or> static_id ts l \<noteq> static_id ts r) [0..<length ts]) [0..<length ts]"

definition same_id_types :: "alternative list \<Rightarrow> bool" where
  "same_id_types ts =
     list_all (\<lambda>l. list_all (\<lambda>r. map_option fst (static_id ts l) = map_option fst (static_id ts r)) [0..<length ts])
       [0..<length ts]"

text \<open>The two assertions of \<open>variant_checker\<close>; identifiers that do not exist do not compile.\<close>

definition variant_checker :: "alternative list \<Rightarrow> bool" where
  "variant_checker ts \<longleftrightarrow>
     list_all (\<lambda>i. static_id ts i \<noteq> None) [0..<length ts] \<and> unique_ids ts \<and> same_id_types ts"

definition index_by_type :: "alternative list \<Rightarrow> string \<Rightarrow> nat" where
  "index_by_type ts t = sum_list (map (\<lambda>i. of_bool (t = al_type (ts ! i)) * i) [0..<length ts])"

lemma dynamic_id_from:
  "current \<le> index \<Longrightarrow> index < length ts \<Longrightarrow> dynamic_id ts index current = static_id ts index"
proof (induction ts index current rule: dynamic_id.induct)
  case (1 ts index current)
  then show ?case by (subst dynamic_id.simps) auto
qed

lemma dynamic_id_valueless:
  "current < length ts \<Longrightarrow> length ts \<le> index \<Longrightarrow> dynamic_id ts index current = static_id ts (length ts - 1)"
proof (induction ts index current rule: dynamic_id.induct)
  case (1 ts index current)
  then show ?case by (subst dynamic_id.simps) (auto intro: arg_cong [where f = "static_id ts"])
qed

lemma index_of_id_from:
  assumes "static_id ts index = Some i" "\<And>j. j < index \<Longrightarrow> static_id ts j \<noteq> Some i" "index < length ts"
  shows "current \<le> index \<Longrightarrow> index_of_id ts i current = Some index"
  using assms
proof (induction ts i current rule: index_of_id.induct)
  case (1 ts i current)
  show ?case
  proof (cases "current = index")
    case True
    with 1 show ?thesis by (subst index_of_id.simps) simp
  next
    case False
    with 1 have "index_of_id ts i (current + 1) = Some index" by simp
    with False 1 show ?thesis by (subst index_of_id.simps) simp
  qed
qed

text \<open>
  Identifiers of a variant that the assertions of \<open>variant_checker\<close> accept: the identifier that
  is written for an alternative, chosen at run time from its index, is the one that reading
  looks up, and it leads back to that alternative.
\<close>

theorem variant_ids_roundtrip:
  assumes "variant_checker ts" and "i < length ts"
  shows "\<exists>v. dynamic_id ts i 0 = Some v \<and> static_id ts i = Some v \<and> index_of_id ts v 0 = Some i"
proof -
  from assms have "static_id ts i \<noteq> None" by (simp add: variant_checker_def list_all_iff del: not_None_eq)
  then obtain v where v: "static_id ts i = Some v" by blast
  have "static_id ts j \<noteq> Some v" if "j < i" for j
  proof -
    from assms(2) that have "j < length ts" "j \<noteq> i" by simp_all
    moreover from assms have "\<forall>l < length ts. \<forall>r < length ts. l = r \<or> static_id ts l \<noteq> static_id ts r"
      by (simp add: variant_checker_def unique_ids_def list_all_iff Ball_def)
    ultimately have "static_id ts j \<noteq> static_id ts i" using assms(2) by blast
    with v show ?thesis by simp
  qed
  with v assms(2) show ?thesis using dynamic_id_from [of 0 i ts] index_of_id_from [OF v] by simp
qed

lemma variant_ids_roundtrip_witness:
  "index_of_id [\<lparr>al_type = ''A'', al_id = None\<rparr>, \<lparr>al_type = ''B'', al_id = Some (0, 7)\<rparr>] (0, 7) 0 = Some 1"
proof -
  let ?ts = "[\<lparr>al_type = ''A'', al_id = None\<rparr>, \<lparr>al_type = ''B'', al_id = Some (0, 7)\<rparr>]"
  have "variant_checker ?ts"
    by (simp add: variant_checker_def unique_ids_def same_id_types_def static_id_def eval_nat_numeral)
  from variant_ids_roundtrip [OF this, of 1] show ?thesis by (simp add: static_id_def)
qed

text \<open>\<open>index_by_type\<close> is the index of a type that occurs once; for one that occurs twice it is no index.\<close>

lemma index_by_type_once:
  assumes "i < length ts" "\<And>j. j < length ts \<Longrightarrow> al_type (ts ! j) = t \<longleftrightarrow> j = i"
  shows "index_by_type ts t = i"
proof -
  have t: "t = al_type (ts ! j) \<longleftrightarrow> j = i" if "j < length ts" for j using assms(2) [OF that] by auto
  have "index_by_type ts t = (\<Sum>j = 0..<length ts. of_bool (t = al_type (ts ! j)) * j)"
    by (simp add: index_by_type_def interv_sum_list_conv_sum_set_nat)
  also have "\<dots> = (\<Sum>j = 0..<length ts. if j = i then i else 0)" by (rule sum.cong) (use t in auto)
  finally show ?thesis using assms(1) by simp
qed

lemma index_by_type_twice:
  "index_by_type [\<lparr>al_type = a, al_id = None\<rparr>, \<lparr>al_type = b, al_id = None\<rparr>, \<lparr>al_type = b, al_id = None\<rparr>] b = 3"
  by (simp add: index_by_type_def eval_nat_numeral)

section \<open>Access to a tuple\<close>

text \<open>As with the identifiers, the last element is not compared with the index.\<close>

fun tuple_visit :: "'a list \<Rightarrow> nat \<Rightarrow> nat \<Rightarrow> ('a \<Rightarrow> 'b) \<Rightarrow> 'b option" where
  "tuple_visit [] current index visitor = None"
| "tuple_visit [x] current index visitor = Some (visitor x)"
| "tuple_visit (x # y # xs) current index visitor =
     (if current = index then Some (visitor x) else tuple_visit (y # xs) (current + 1) index visitor)"

lemma tuple_visit_nth:
  "xs \<noteq> [] \<Longrightarrow> current \<le> index \<Longrightarrow>
     tuple_visit xs current index f = Some (f (xs ! min (index - current) (length xs - 1)))"
proof (induction xs current index f rule: tuple_visit.induct)
  case (3 x y xs current index f)
  then show ?case by (cases "current = index") (auto simp: min_def nth_Cons' Suc_diff_le)
qed auto

section \<open>The members of a structure\<close>

text \<open>
  What the cascade of \<open>number_of_members\<close> asks about a type: \<open>sh_accepts k\<close> says whether
  \<open>type{any{}, ...}\<close> with \<open>k\<close> initialisers is well formed. A declared number that is the largest
  \<open>size_t\<close> counts as not declared.
\<close>

record shape =
  sh_array :: "nat option"
  sh_class :: bool
  sh_fixed_size :: "nat option"
  sh_tuple :: "nat option"
  sh_serialize_members :: "nat option"
  sh_try_members :: "nat option"
  sh_protocol_members :: "nat option"
  sh_try_protocol :: "nat option"
  sh_aggregate :: bool
  sh_accepts :: "nat \<Rightarrow> bool"
  sh_empty :: bool

definition declared :: "nat option \<Rightarrow> nat option" where
  "declared n = (if n = Some (2 ^ 64 - 1) then None else n)"

definition max_visit_members :: nat where
  "max_visit_members = 50"

definition aggregate_members :: "shape \<Rightarrow> int" where
  "aggregate_members sh =
     (case find (sh_accepts sh) (rev [1..<51]) of
        Some k \<Rightarrow> int k
      | None \<Rightarrow> if sh_empty sh then 0 else - 1)"

definition number_of_members :: "shape \<Rightarrow> int" where
  "number_of_members sh =
     (case sh_array sh of Some n \<Rightarrow> int n | None \<Rightarrow>
      if \<not> sh_class sh then 0 else
      case sh_fixed_size sh of Some n \<Rightarrow> int n | None \<Rightarrow>
      case sh_tuple sh of Some n \<Rightarrow> int n | None \<Rightarrow>
      case declared (sh_serialize_members sh) of Some n \<Rightarrow> int n | None \<Rightarrow>
      case declared (sh_try_members sh) of Some n \<Rightarrow> int n | None \<Rightarrow>
      case declared (sh_protocol_members sh) of Some n \<Rightarrow> int n | None \<Rightarrow>
      case declared (sh_try_protocol sh) of Some n \<Rightarrow> int n | None \<Rightarrow>
      if sh_aggregate sh then aggregate_members sh else - 1)"

text \<open>
  \<open>visit_members\<close> binds as many names as there are members: with another number than the object
  has it does not compile.
\<close>

definition visit_members :: "shape \<Rightarrow> 'm list \<Rightarrow> ('m list \<Rightarrow> 'b) \<Rightarrow> 'b option" where
  "visit_members sh members visitor =
     (let count = number_of_members sh in
      if 0 \<le> count \<and> count \<le> int max_visit_members \<and> count = int (length members)
      then Some (visitor members) else None)"

lemma find_rev_upt: "0 < n \<Longrightarrow> find (\<lambda>k. k \<le> n) (rev [1..<m]) = (if m \<le> 1 then None else Some (min n (m - 1)))"
  by (induction m) (auto simp: min_def)

text \<open>A plain structure of \<open>n\<close> members: those up to 50 are visited, a larger one does not compile.\<close>

definition plain_struct :: "nat \<Rightarrow> shape" where
  "plain_struct n =
     \<lparr>sh_array = None, sh_class = True, sh_fixed_size = None, sh_tuple = None, sh_serialize_members = None,
      sh_try_members = None, sh_protocol_members = None, sh_try_protocol = None, sh_aggregate = True,
      sh_accepts = (\<lambda>k. k \<le> n), sh_empty = (n = 0)\<rparr>"

lemma number_of_plain: "number_of_members (plain_struct n) = int (min n 50)"
proof (cases "n = 0")
  case True
  have "find (\<lambda>k. k = 0) (rev [1..<51]) = (None :: nat option)" by (simp add: find_None_iff)
  with True show ?thesis by (simp add: number_of_members_def plain_struct_def declared_def aggregate_members_def)
next
  case False
  then show ?thesis
    using find_rev_upt [of n 51] by (simp add: number_of_members_def plain_struct_def declared_def aggregate_members_def)
qed

lemma visit_plain:
  "visit_members (plain_struct (length ms)) ms f = (if length ms \<le> max_visit_members then Some (f ms) else None)"
  by (simp add: visit_members_def number_of_plain max_visit_members_def Let_def)

section \<open>Types that refer to themselves\<close>

text \<open>
  A type with what the test looks at: a structure has a name, may serialize itself, and lists its
  members; containers, associative containers, owning pointers and optionals refer to the type
  they hold by its name, so that a structure can contain a container of itself. The number of
  members of these four is not known, that of a scalar is 0.
\<close>

datatype cpp_type =
  Scalar string
| Structure string bool "cpp_type list"
| FixedArray cpp_type nat
| ContainerOf string | MapOf string string | OwningPointer string | OptionalOf string

fun type_name :: "cpp_type \<Rightarrow> string option" where
  "type_name (Scalar n) = Some n" | "type_name (Structure n e ms) = Some n" | "type_name _ = None"

fun type_references :: "cpp_type \<Rightarrow> string option \<Rightarrow> bool" where
  "type_references (ContainerOf v) r = (Some v = r)"
| "type_references (MapOf k v) r = (Some k = r \<or> Some v = r)"
| "type_references (OwningPointer v) r = (Some v = r)"
| "type_references (OptionalOf v) r = (Some v = r)"
| "type_references _ r = False"

text \<open>\<open>visited\<close> holds the structures on the way; an empty list does not cut off.\<close>

fun self_referencing :: "string option \<Rightarrow> cpp_type list \<Rightarrow> cpp_type \<Rightarrow> bool" where
  "self_referencing self visited (Structure n explicit ms) =
     (if explicit then False
      else if ms = [] then False
      else if \<exists>m \<in> set ms. type_references m self then True
      else if visited \<noteq> [] \<and> Structure n explicit ms \<in> set visited then False
      else \<exists>m \<in> set ms. self_referencing self (Structure n explicit ms # visited) m)"
| "self_referencing self visited (FixedArray t k) = (if k = 0 then False else self_referencing self visited t)"
| "self_referencing self visited t = False"

text \<open>What it is meant to find: a path by value to a member that refers to the type.\<close>

inductive refers :: "string option \<Rightarrow> cpp_type \<Rightarrow> bool" for self where
  here: "m \<in> set ms \<Longrightarrow> type_references m self \<Longrightarrow> refers self (Structure n False ms)"
| member: "m \<in> set ms \<Longrightarrow> refers self m \<Longrightarrow> refers self (Structure n False ms)"
| array: "0 < k \<Longrightarrow> refers self t \<Longrightarrow> refers self (FixedArray t k)"

inductive_simps refers_simps [simp]:
  "refers self (Structure n e ms)" "refers self (FixedArray t k)" "refers self (Scalar n)"
  "refers self (ContainerOf v)" "refers self (MapOf v w)" "refers self (OwningPointer v)" "refers self (OptionalOf v)"

lemma size_member: "m \<in> set ms \<Longrightarrow> size m < size (Structure n e ms)"
  by (induction ms) auto

text \<open>A structure never contains itself by value, so that the visited ones do not matter.\<close>

lemma self_referencing_visited:
  "\<forall>v \<in> set visited. size t < size v \<Longrightarrow> self_referencing self visited t \<longleftrightarrow> refers self t"
proof (induction self visited t rule: self_referencing.induct)
  case (1 self visited n explicit ms)
  have fresh: "Structure n explicit ms \<notin> set visited" using 1(2) by blast
  have small: "\<forall>v \<in> set (Structure n explicit ms # visited). size m < size v" if "m \<in> set ms" for m
    using size_member [OF that, of n explicit] 1(2) by fastforce
  have "self_referencing self (Structure n explicit ms # visited) m \<longleftrightarrow> refers self m"
    if "m \<in> set ms" "\<not> explicit" "\<not> (\<exists>m \<in> set ms. type_references m self)" for m
    using 1(1) [OF that(2) _ that(3) _ that(1)] small [OF that(1)] fresh that(1) by (cases ms) auto
  with fresh show ?case by auto
next
  case (2 self visited t k)
  have "\<forall>v \<in> set visited. size t < size v" using 2(2) by fastforce
  with 2(1) show ?case by auto
qed auto

text \<open>
  \<open>self_referencing\<close>, which decides whether a type is serialized by inlined code, answers yes
  exactly when some member, reached through structures by value and arrays, is a container, a
  pointer or an optional of the type itself, and no structure on the way serializes itself.
\<close>

theorem self_referencing_refers:
  "self_referencing (type_name t) [] t \<longleftrightarrow> refers (type_name t) t"
  by (rule self_referencing_visited) simp

lemma self_referencing_list:
  "self_referencing (Some ''node'') [] (Structure ''node'' False [Scalar ''int'', OwningPointer ''node''])"
  by simp

end
