(* ===== verification/Lu_Host.thy ===== *)
theory Lu_Host
  imports Complex_Main Lu_Prelude
begin

text \<open>
  What depends on the host: the clocks of \<open>utils/TimerClock.cpp\<close>, over the times that
  \<open>system_clock::now()\<close> gives, in nanoseconds, and the helpers of \<open>common/Defs.h\<close>.
\<close>

section \<open>TimerClock\<close>

text \<open>\<open>duration_cast\<close> to a coarser unit drops the fraction, towards zero.\<close>

definition duration_cast :: "int \<Rightarrow> int \<Rightarrow> int" where
  "duration_cast unit ns = sgn ns * (\<bar>ns\<bar> div unit)"

record timer_clock =
  m_start :: int

definition begin_clock :: "int \<Rightarrow> ('a :: type) timer_clock_scheme \<Rightarrow> 'a timer_clock_scheme" where
  "begin_clock now c = c\<lparr>m_start := now\<rparr>"

definition getElapsedTimeMSec :: "int \<Rightarrow> 'a timer_clock_scheme \<Rightarrow> int" where
  "getElapsedTimeMSec now c = duration_cast 1000000 (now - m_start c)"

definition getElapsedTimeSec :: "int \<Rightarrow> 'a timer_clock_scheme \<Rightarrow> int" where
  "getElapsedTimeSec now c = duration_cast 1000000000 (now - m_start c)"

lemma duration_cast_bounds:
  assumes "0 \<le> ns" "0 < unit"
  shows "unit * duration_cast unit ns \<le> ns \<and> ns < unit * (duration_cast unit ns + 1)"
proof -
  have d: "duration_cast unit ns = ns div unit" using assms by (cases "ns = 0") (auto simp: duration_cast_def)
  have "ns = unit * (ns div unit) + ns mod unit" "0 \<le> ns mod unit" "ns mod unit < unit" using assms(2) by simp_all
  then show ?thesis unfolding d distrib_left by (intro conjI) linarith+
qed

lemma seconds_of_msec:
  "m_start c \<le> now \<Longrightarrow> getElapsedTimeSec now c = getElapsedTimeMSec now c div 1000"
  by (cases "now = m_start c") (auto simp: getElapsedTimeSec_def getElapsedTimeMSec_def duration_cast_def div_mult2_eq [symmetric]
      zdiv_zmult2_eq [of 1000 "now - m_start c" 1000000, symmetric])

text \<open>The system clock may be set back between the two readings.\<close>

lemma elapsed_negative:
  "getElapsedTimeSec 0 \<lparr>m_start = 2500000000\<rparr> = - 2"
  by (simp add: getElapsedTimeSec_def duration_cast_def)

section \<open>AccumulateAndAverage\<close>

record accumulator = timer_clock +
  m_totalTimeSpendInNanoSec :: int
  m_totalQty :: "64 word"

definition AccumulateAndAverage :: accumulator where
  "AccumulateAndAverage = \<lparr>m_start = 0, m_totalTimeSpendInNanoSec = 0, m_totalQty = 0\<rparr>"

definition begin_measure :: "int \<Rightarrow> accumulator \<Rightarrow> accumulator" where
  "begin_measure now a = begin_clock now a"

definition end_measure :: "int \<Rightarrow> 64 word \<Rightarrow> accumulator \<Rightarrow> accumulator" where
  "end_measure now qty a =
     a\<lparr>m_totalTimeSpendInNanoSec := m_totalTimeSpendInNanoSec a + (now - m_start a),
       m_totalQty := m_totalQty a + qty\<rparr>"

text \<open>The division is one of \<open>double\<close>s, an argument here; the cast to an integer truncates.\<close>

definition truncate_number :: "rat \<Rightarrow> int" where
  "truncate_number x = (if x < 0 then - \<lfloor>- x\<rfloor> else \<lfloor>x\<rfloor>)"

definition getTotalElapsedTimeMSec :: "(int \<Rightarrow> int \<Rightarrow> rat) \<Rightarrow> accumulator \<Rightarrow> int" where
  "getTotalElapsedTimeMSec fdiv a = truncate_number (fdiv (m_totalTimeSpendInNanoSec a) 1000000)"

definition getTotalElapsedTimeSec :: "(int \<Rightarrow> int \<Rightarrow> rat) \<Rightarrow> accumulator \<Rightarrow> int" where
  "getTotalElapsedTimeSec fdiv a = truncate_number (fdiv (m_totalTimeSpendInNanoSec a) 1000000000)"

definition getTotalQty :: "accumulator \<Rightarrow> int" where
  "getTotalQty a = sint (m_totalQty a)"

fun measure_all :: "(int \<times> int \<times> 64 word) list \<Rightarrow> accumulator \<Rightarrow> accumulator" where
  "measure_all [] a = a"
| "measure_all ((t0, t1, qty) # ms) a = measure_all ms (end_measure t1 qty (begin_measure t0 a))"

lemma measure_all_sums:
  "m_totalTimeSpendInNanoSec (measure_all ms a) = m_totalTimeSpendInNanoSec a + sum_list (map (\<lambda>(t0, t1, _). t1 - t0) ms)
   \<and> m_totalQty (measure_all ms a) = m_totalQty a + sum_list (map (\<lambda>(_, _, qty). qty) ms)"
  by (induction ms a rule: measure_all.induct) (auto simp: end_measure_def begin_measure_def begin_clock_def)

lemma truncate_exact: "0 < k \<Longrightarrow> truncate_number (rat_of_int n / rat_of_int k) = duration_cast k n"
proof (cases "n < 0")
  case True
  assume "0 < k"
  with True have "rat_of_int n / rat_of_int k < 0" by (simp add: divide_neg_pos)
  moreover have "\<lfloor>- (rat_of_int n / rat_of_int k)\<rfloor> = (- n) div k"
    using floor_divide_of_int_eq [of "- n" k, where 'a = rat] by simp
  ultimately show ?thesis using True by (simp add: truncate_number_def duration_cast_def)
next
  case False
  assume "0 < k"
  with False have "\<not> rat_of_int n / rat_of_int k < 0" by (simp add: not_less)
  with False show ?thesis
    by (cases "n = 0") (auto simp: truncate_number_def duration_cast_def floor_divide_of_int_eq)
qed

text \<open>
  Measuring: over any sequence of \<open>begin\<close> and \<open>end\<close> the total is the sum of the intervals, in
  milliseconds without the fraction when the division is exact, and the quantity is the sum
  of the quantities modulo \<open>2^64\<close>.
\<close>

theorem accumulate_total:
  "getTotalElapsedTimeMSec (\<lambda>n k. rat_of_int n / rat_of_int k) (measure_all ms AccumulateAndAverage)
     = duration_cast 1000000 (sum_list (map (\<lambda>(t0, t1, _). t1 - t0) ms))
   \<and> m_totalQty (measure_all ms AccumulateAndAverage) = sum_list (map (\<lambda>(_, _, qty). qty) ms)"
  using measure_all_sums [of ms AccumulateAndAverage]
    truncate_exact [of 1000000 "sum_list (map (\<lambda>(t0, t1, _). t1 - t0) ms)"]
  by (simp add: getTotalElapsedTimeMSec_def AccumulateAndAverage_def)

section \<open>The processor\<close>

datatype cpu = X86 | ARM | POWER | S390 | RISCV | OtherCPU

definition CACHE_LINE_SIZE :: "cpu \<Rightarrow> nat" where
  "CACHE_LINE_SIZE arch =
     (case arch of X86 \<Rightarrow> 64 | ARM \<Rightarrow> 64 | POWER \<Rightarrow> 128 | S390 \<Rightarrow> 256 | RISCV \<Rightarrow> 64 | OtherCPU \<Rightarrow> 64)"

text \<open>The bytes of an integer in memory, and the test of the first of them.\<close>

definition int_in_memory :: "bool \<Rightarrow> u32 \<Rightarrow> byte list" where
  "int_in_memory little n =
     (let bs = [ucast n, ucast (drop_bit 8 n), ucast (drop_bit 16 n), ucast (drop_bit 24 n)]
      in if little then bs else rev bs)"

definition isLittleEndian :: "bool \<Rightarrow> bool" where
  "isLittleEndian little \<longleftrightarrow> hd (int_in_memory little 0x01020304) = 1"

text \<open>The first byte is the lowest one, 4, on a little-endian host: the answer is the opposite.\<close>

lemma isLittleEndian_inverted: "isLittleEndian little \<longleftrightarrow> \<not> little"
  by (cases little) (simp_all add: isLittleEndian_def int_in_memory_def drop_bit_eq_div)

end
