(* ===== verification/Lu_Worker.thy ===== *)
theory Lu_Worker
  imports Lu_Threads Lu_Queue_Tickets Lu_Queue_Variants "HOL-Library.Sublist"
begin

text \<open>
  The worker threads on the queue they really have: \<open>TransferQueue\<close> is an \<open>MPSCQueue\<close> over an
  \<open>AtomicQueue2\<close> with many producers. Every atomic access of \<open>try_push\<close> and \<open>try_pop\<close>, every
  access of \<open>m_consumerWait\<close> and every critical section is a step of its thread, in any
  interleaving; the loop of \<open>WorkerThread\<close> runs on the results of \<open>pop\<close>. The \<open>int\<close> that counts the
  polls of one \<open>pop\<close> is a natural number here; it would overflow after \<open>2^31\<close> of them.
\<close>

section \<open>State\<close>

text \<open>
  Thread 0 of the queue is the worker, the others are senders. A sender has the elements that
  it still pushes on this channel, in its order; where it is in \<open>push\<close>, and where the worker is
  in \<open>pop\<close>, are the program counters of \<open>Lu_Queue_Variants\<close>, with the steps of the queue inside
  \<open>PTry\<close> and \<open>CTry\<close>. \<open>wk_given\<close> are the calls of \<open>onMsg\<close>.
\<close>

record worker_sys =
  wk_queue :: "channel_data qsys"
  wk_wait :: bool
  wk_todo :: "nat \<Rightarrow> channel_data list"
  wk_push :: "nat \<Rightarrow> channel_data ppc"
  wk_pop :: "channel_data cpc"
  wk_given :: "channel_data list"
  wk_stopped :: bool

definition TransferQueue :: qconf where
  "TransferQueue = AtomicQueue2 10000 True False"

lemma TransferQueue_size: "m_queueSize TransferQueue = 16384"
  by code_simp

definition InputChannel :: "qconf \<Rightarrow> (nat \<Rightarrow> channel_data list) \<Rightarrow> worker_sys" where
  "InputChannel c todo =
     \<lparr>wk_queue = qinit c \<lparr>cd_channelID = 0, cd_data = 0\<rparr>, wk_wait = False, wk_todo = todo,
      wk_push = (\<lambda>_. PIdle), wk_pop = CTry 0, wk_given = [], wk_stopped = False\<rparr>"

section \<open>Steps\<close>

text \<open>What a step of \<open>try_push\<close> or \<open>try_pop\<close> on the queue ends with, if it is the last one.\<close>

definition step_events :: "qconf \<Rightarrow> nat \<Rightarrow> 'a qop \<Rightarrow> 'a qsys \<Rightarrow> 'a qevent list" where
  "step_events c t op q = snd (snd (thread_step c op (shared q) (pcs q t)))"

text \<open>
  \<open>MPSCQueue::push\<close>: \<open>try_push\<close> until it succeeds, then look at the flag of the sleeping
  consumer, clear it under the mutex and notify.
\<close>

definition push_step :: "qconf \<Rightarrow> nat \<Rightarrow> worker_sys \<Rightarrow> worker_sys" where
  "push_step c t s =
     (case wk_push s t of
        PIdle \<Rightarrow>
          (case wk_todo s t of
             [] \<Rightarrow> s
           | d # ds \<Rightarrow> s\<lparr>wk_todo := (wk_todo s)(t := ds), wk_push := (wk_push s)(t := PTry d)\<rparr>)
      | PTry d \<Rightarrow>
          s\<lparr>wk_queue := sys_step c t (TryPush d) (wk_queue s),
            wk_push := (wk_push s)(t :=
              (if pushed (step_events c t (TryPush d) (wk_queue s)) = [] then PTry d else PCheck))\<rparr>
      | PCheck \<Rightarrow> s\<lparr>wk_push := (wk_push s)(t := (if wk_wait s then PClear else PIdle))\<rparr>
      | PClear \<Rightarrow> s\<lparr>wk_wait := False, wk_push := (wk_push s)(t := PNotify)\<rparr>
      | PNotify \<Rightarrow>
          s\<lparr>wk_push := (wk_push s)(t := PIdle),
            wk_pop := (case wk_pop s of CBlocked cnt \<Rightarrow> CEnterWait cnt | pc \<Rightarrow> pc)\<rparr>)"

text \<open>
  \<open>WorkerThread::run\<close>: \<open>MPSCQueue::pop\<close>, which sleeps when \<open>try_pop\<close> has failed and the count is
  1000, then \<open>onMsg\<close>, or the end of the loop for a null pointer. The predicate of the wait is
  tested with the mutex held.
\<close>

definition WorkerThread_step :: "qconf \<Rightarrow> worker_sys \<Rightarrow> worker_sys" where
  "WorkerThread_step c s =
     (if wk_stopped s then s
      else case wk_pop s of
        CTry cnt \<Rightarrow>
          let es = step_events c 0 TryPop (wk_queue s) in
          s\<lparr>wk_queue := sys_step c 0 TryPop (wk_queue s),
            wk_pop := (case popped es of
                d # _ \<Rightarrow> CReturned d
              | [] \<Rightarrow> if es = [] then CTry cnt else if cnt = 1000 then CSetWait cnt else CTry (cnt + 1))\<rparr>
      | CSetWait cnt \<Rightarrow> s\<lparr>wk_wait := True, wk_pop := CEnterWait cnt\<rparr>
      | CEnterWait cnt \<Rightarrow> s\<lparr>wk_pop := (if wk_wait s then CBlocked cnt else CTry (cnt + 1))\<rparr>
      | CBlocked cnt \<Rightarrow> s
      | CReturned d \<Rightarrow>
          if cd_data d = 0 then s\<lparr>wk_stopped := True\<rparr>
          else s\<lparr>wk_given := wk_given s @ [d], wk_pop := CTry 0\<rparr>)"

text \<open>A condition variable may wake its thread without a notification.\<close>

definition wake_step :: "worker_sys \<Rightarrow> worker_sys" where
  "wake_step s = s\<lparr>wk_pop := (case wk_pop s of CBlocked cnt \<Rightarrow> CEnterWait cnt | pc \<Rightarrow> pc)\<rparr>"

text \<open>\<open>WorkerThread::stop\<close> pushes a null pointer on the thread's own input channel.\<close>

definition WorkerThread_stop :: "nat \<Rightarrow> thread_sys \<Rightarrow> push_call" where
  "WorkerThread_stop t s = (t, \<lparr>cd_channelID = lt_channelID (ts_thread s t), cd_data = 0\<rparr>)"

datatype worker_move = SenderStep nat | WorkerStep | SpuriousWakeup

definition worker_step :: "qconf \<Rightarrow> worker_move \<Rightarrow> worker_sys \<Rightarrow> worker_sys" where
  "worker_step c m s =
     (case m of
        SenderStep t \<Rightarrow> if t = 0 then s else push_step c t s
      | WorkerStep \<Rightarrow> WorkerThread_step c s
      | SpuriousWakeup \<Rightarrow> wake_step s)"

text \<open>
  The tickets of the queue are noted with their senders, as in \<open>Lu_Queue_Tickets\<close>; the runs are
  those in which no two senders ever wait for the same slot.
\<close>

definition mover :: "worker_move \<Rightarrow> nat" where
  "mover m = (case m of SenderStep t \<Rightarrow> t | _ \<Rightarrow> 0)"

definition tickets_after ::
  "qconf \<Rightarrow> worker_move \<Rightarrow> worker_sys \<Rightarrow> (nat \<times> channel_data) list \<Rightarrow> (nat \<times> channel_data) list" where
  "tickets_after c m s ts =
     ts @ taken (mover m) (pcs (wk_queue s) (mover m)) (pcs (wk_queue (worker_step c m s)) (mover m))"

inductive worker_run ::
  "qconf \<Rightarrow> (nat \<Rightarrow> channel_data list) \<Rightarrow> worker_sys \<Rightarrow> (nat \<times> channel_data) list \<Rightarrow> bool" for c todo where
  start: "worker_run c todo (InputChannel c todo) []"
| step: "worker_run c todo s ts \<Longrightarrow> no_lap c (wk_queue (worker_step c m s)) \<Longrightarrow>
    worker_run c todo (worker_step c m s) (tickets_after c m s ts)"

section \<open>The queue inside\<close>

lemma taken_same [simp]: "taken t p p = []"
  by (cases p) auto

text \<open>A step leaves the queue alone, or is a step of the queue by the same thread.\<close>

lemma worker_step_queue:
  "wk_queue (worker_step c m s) = wk_queue s
   \<or> (\<exists>op. mpsc_allowed (mover m) op \<and> wk_queue (worker_step c m s) = sys_step c (mover m) op (wk_queue s))"
proof (cases m)
  case (SenderStep t)
  then show ?thesis
    by (cases "wk_push s t")
      (force simp: worker_step_def push_step_def mover_def mpsc_allowed_def split: list.split)+
next
  case WorkerStep
  have "mpsc_allowed 0 TryPop" by (simp add: mpsc_allowed_def)
  with WorkerStep show ?thesis
    by (cases "wk_pop s") (auto simp: worker_step_def WorkerThread_step_def mover_def Let_def)
qed (simp add: worker_step_def wake_step_def)

lemma worker_run_queue:
  "worker_run c todo s ts \<Longrightarrow> mpsc_run c \<lparr>cd_channelID = 0, cd_data = 0\<rparr> (wk_queue s) ts"
proof (induction rule: worker_run.induct)
  case start
  then show ?case by (simp add: InputChannel_def mpsc_run.init)
next
  case (step s ts m)
  from worker_step_queue [of c m s] show ?case
  proof
    assume "wk_queue (worker_step c m s) = wk_queue s"
    with step.IH show ?thesis by (simp add: tickets_after_def)
  next
    assume "\<exists>op. mpsc_allowed (mover m) op \<and> wk_queue (worker_step c m s) = sys_step c (mover m) op (wk_queue s)"
    then obtain op where "mpsc_allowed (mover m) op"
      "wk_queue (worker_step c m s) = sys_step c (mover m) op (wk_queue s)" by blast
    with mpsc_run.step [OF step.IH this(1)] step.hyps(2) show ?thesis by (simp add: tickets_after_def)
  qed
qed

section \<open>Senders\<close>

definition by_sender :: "nat \<Rightarrow> (nat \<times> 'a) list \<Rightarrow> 'a list" where
  "by_sender t ts = map snd (filter (\<lambda>(u, _). u = t) ts)"

lemma by_sender_simps [simp]:
  "by_sender t [] = []" "by_sender t (ts @ us) = by_sender t ts @ by_sender t us"
  "by_sender t [(u, x)] = (if u = t then [x] else [])"
  by (simp_all add: by_sender_def)

lemma by_sender_taken: "u \<noteq> t \<Longrightarrow> by_sender t (taken u p p') = []"
  by (cases p') (auto simp: by_sender_def)

text \<open>Inside \<open>try_push\<close> of an element.\<close>

fun trying :: "'a \<Rightarrow> 'a qpc \<Rightarrow> bool" where
  "trying d Idle = True" | "trying d (TryPushTest x h) = (x = d)" | "trying d (TryPushTake x h) = (x = d)"
| "trying d (PushSpin x h) = (x = d)" | "trying d (PushWrite x i) = (x = d)"
| "trying d (PushRelease x i) = (x = d)" | "trying d _ = False"

text \<open>
  What sender \<open>t\<close> has got tickets for, the element it is trying to get one for, and what it
  still has to push are what it had to push at the start.
\<close>

definition sender_ok :: "channel_data list \<Rightarrow> channel_data list \<Rightarrow> channel_data qpc \<Rightarrow> channel_data ppc \<Rightarrow> channel_data list \<Rightarrow> bool" where
  "sender_ok all mine pc pp rest \<longleftrightarrow>
     (case pp of
        PTry d \<Rightarrow> trying d pc \<and> all = mine @ (if pushing pc then rest else d # rest)
      | _ \<Rightarrow> pc = Idle \<and> all = mine @ rest)"

lemma sender_ok_try:
  assumes "\<not> m_isSPSC c" "sender_ok all mine (pcs q t) (PTry d) rest" "q' = sys_step c t (TryPush d) q"
  shows "sender_ok all (mine @ by_sender t (taken t (pcs q t) (pcs q' t))) (pcs q' t)
    (if pushed (step_events c t (TryPush d) q) = [] then PTry d else PCheck) rest"
  using assms
  by (cases "pcs q t")
    (auto simp: sender_ok_def sys_step_def step_events_def Let_def pushed_def split: if_splits)

lemma sender_ok_other:
  assumes "u \<noteq> t" "pcs q' u = pcs q u"
  shows "sender_ok all (by_sender u (ts @ taken t p p')) (pcs q' u) pp rest = sender_ok all (by_sender u ts) (pcs q u) pp rest"
  using assms by (simp add: by_sender_taken)

lemma sys_step_other [simp]: "u \<noteq> t \<Longrightarrow> pcs (sys_step c t op q) u = pcs q u"
  by (simp add: sys_step_def split: prod.split)

definition senders_ok :: "(nat \<Rightarrow> channel_data list) \<Rightarrow> worker_sys \<Rightarrow> (nat \<times> channel_data) list \<Rightarrow> bool" where
  "senders_ok todo s ts \<longleftrightarrow>
     (\<forall>t. t \<noteq> 0 \<longrightarrow> sender_ok (todo t) (by_sender t ts) (pcs (wk_queue s) t) (wk_push s t) (wk_todo s t))"

lemma senders_ok_push:
  assumes "\<not> m_isSPSC c" "senders_ok todo s ts" "t \<noteq> 0" "u \<noteq> 0"
  shows "sender_ok (todo u) (by_sender u (tickets_after c (SenderStep t) s ts))
    (pcs (wk_queue (push_step c t s)) u) (wk_push (push_step c t s) u) (wk_todo (push_step c t s) u)"
proof -
  have t: "sender_ok (todo t) (by_sender t ts) (pcs (wk_queue s) t) (wk_push s t) (wk_todo s t)"
    and u: "sender_ok (todo u) (by_sender u ts) (pcs (wk_queue s) u) (wk_push s u) (wk_todo s u)"
    using assms by (auto simp: senders_ok_def)
  note defs = tickets_after_def mover_def worker_step_def push_step_def
  show ?thesis
  proof (cases "u = t")
    case True
    show ?thesis
    proof (cases "wk_push s t")
      case (PTry d)
      with sender_ok_try [OF assms(1) t [unfolded PTry] refl] True assms(3) show ?thesis by (simp add: defs)
    qed (use t True assms(3) in \<open>auto simp: defs sender_ok_def split: list.split\<close>)
  next
    case False
    with u assms(3) show ?thesis
      by (cases "wk_push s t") (auto simp: defs by_sender_taken split: list.split)
  qed
qed

lemma senders_ok_step:
  assumes "\<not> m_isSPSC c" "senders_ok todo s ts"
  shows "senders_ok todo (worker_step c m s) (tickets_after c m s ts)"
proof (cases m)
  case (SenderStep t)
  with senders_ok_push [OF assms, of t] assms(2) show ?thesis
    by (cases "t = 0") (simp_all add: senders_ok_def tickets_after_def worker_step_def)
next
  case WorkerStep
  have "by_sender u (tickets_after c WorkerStep s ts) = by_sender u ts" if "u \<noteq> 0" for u
    using that by (simp add: tickets_after_def mover_def by_sender_taken)
  moreover have "wk_push (WorkerThread_step c s) = wk_push s" "wk_todo (WorkerThread_step c s) = wk_todo s"
    "u \<noteq> 0 \<Longrightarrow> pcs (wk_queue (WorkerThread_step c s)) u = pcs (wk_queue s) u" for u
    by (auto simp: WorkerThread_step_def Let_def split: cpc.split)
  ultimately show ?thesis using assms(2) WorkerStep by (simp add: senders_ok_def worker_step_def)
next
  case SpuriousWakeup
  with assms(2) show ?thesis by (simp add: senders_ok_def tickets_after_def worker_step_def wake_step_def)
qed

section \<open>The worker\<close>

definition worker_ok :: "worker_sys \<Rightarrow> bool" where
  "worker_ok s \<longleftrightarrow>
     (\<forall>d \<in> set (wk_given s). cd_data d \<noteq> 0)
     \<and> popped (trace (wk_queue s)) = wk_given s @ (case wk_pop s of CReturned d \<Rightarrow> [d] | _ \<Rightarrow> [])
     \<and> (wk_stopped s \<longrightarrow> (\<exists>d. wk_pop s = CReturned d \<and> cd_data d = 0))"

lemma trace_step: "trace (sys_step c t op q) = trace q @ step_events c t op q"
  by (simp add: sys_step_def step_events_def split: prod.split)

lemma try_push_pops_nothing:
  "trying d (pcs q t) \<Longrightarrow> popped (step_events c t (TryPush d) q) = []"
  by (cases "pcs q t") (auto simp: step_events_def Let_def)

lemma pop_step_one: "popped (step_events c 0 op q) = [] \<or> (\<exists>d. popped (step_events c 0 op q) = [d])"
  by (cases "pcs q 0"; cases op) (auto simp: step_events_def Let_def)

lemma worker_ok_step:
  assumes "worker_ok s" "senders_ok todo s ts"
  shows "worker_ok (worker_step c m s)"
proof (cases m)
  case (SenderStep t)
  show ?thesis
  proof (cases "t = 0")
    case True
    with assms(1) SenderStep show ?thesis by (simp add: worker_step_def)
  next
    case False
    have tr: "trying d (pcs (wk_queue s) t)" if "wk_push s t = PTry d" for d
    proof -
      have "sender_ok (todo t) (by_sender t ts) (pcs (wk_queue s) t) (PTry d) (wk_todo s t)"
        using assms(2) False unfolding senders_ok_def that [symmetric] by blast
      then show ?thesis by (simp add: sender_ok_def)
    qed
    note defs = worker_ok_def worker_step_def push_step_def
    show ?thesis
    proof (cases "wk_push s t")
      case (PTry d)
      with assms(1) SenderStep False try_push_pops_nothing [OF tr [OF PTry], of c] show ?thesis
        by (simp add: defs trace_step)
    next
      case PIdle
      with assms(1) SenderStep False show ?thesis by (cases "wk_todo s t") (simp_all add: defs)
    next
      case PNotify
      with assms(1) SenderStep False show ?thesis by (cases "wk_pop s") (auto simp: defs)
    qed (use assms(1) SenderStep False in \<open>simp_all add: defs\<close>)
  qed
next
  case WorkerStep
  show ?thesis
  proof (cases "wk_pop s")
    case (CTry cnt)
    with assms(1) WorkerStep pop_step_one [of c TryPop "wk_queue s"] show ?thesis
      by (auto simp: worker_ok_def worker_step_def WorkerThread_step_def Let_def trace_step split: list.split)
  qed (use assms(1) WorkerStep in \<open>auto simp: worker_ok_def worker_step_def WorkerThread_step_def\<close>)
next
  case SpuriousWakeup
  with assms(1) show ?thesis by (auto simp: worker_ok_def worker_step_def wake_step_def split: cpc.splits)
qed

lemma worker_run_ok:
  assumes "worker_run c todo s ts" "\<not> m_isSPSC c"
  shows "worker_ok s \<and> senders_ok todo s ts"
  using assms(1)
proof induction
  case start
  then show ?case by (simp add: worker_ok_def senders_ok_def sender_ok_def InputChannel_def qinit_def)
next
  case (step s ts m)
  then show ?case using worker_ok_step senders_ok_step [OF assms(2)] by blast
qed

section \<open>From the sender to the handler\<close>

abbreviation "is_message d \<equiv> cd_data d \<noteq> 0"

lemma prefix_takeWhile: "prefix xs ys \<Longrightarrow> \<forall>x \<in> set xs. P x \<Longrightarrow> prefix xs (takeWhile P ys)"
  by (auto simp: prefix_def takeWhile_append)

lemma sender_ok_prefix:
  assumes "sender_ok all mine pc pp rest"
  shows "prefix mine all \<and> (pp = PIdle \<and> rest = [] \<longrightarrow> mine = all)"
  using assms by (cases pp) (auto simp: sender_ok_def)

lemma worker_run_delivers:
  assumes "worker_run (AtomicQueue2 SIZE True False) todo s ts" and "1 \<le> unat SIZE" and "unat SIZE \<le> 2 ^ 31"
  shows "t \<noteq> 0 \<Longrightarrow> prefix (by_sender t ts) (todo t)
      \<and> (wk_push s t = PIdle \<and> wk_todo s t = [] \<longrightarrow> by_sender t ts = todo t)"
    and "prefix (wk_given s) (takeWhile is_message (map snd ts))"
    and "wk_stopped s \<longrightarrow> wk_given s = takeWhile is_message (map snd ts) \<and> (\<exists>(t, d) \<in> set ts. cd_data d = 0)"
proof -
  let ?c = "AtomicQueue2 SIZE True False"
  have c: "\<not> m_isSPSC ?c" by (simp add: AtomicQueue2_def Let_def)
  from worker_run_ok [OF assms(1) c] have w: "worker_ok s" and sd: "senders_ok todo s ts" by blast+
  show "prefix (by_sender t ts) (todo t) \<and> (wk_push s t = PIdle \<and> wk_todo s t = [] \<longrightarrow> by_sender t ts = todo t)"
    if "t \<noteq> 0" using sender_ok_prefix sd that unfolding senders_ok_def by blast
  have "mpsc_ok ?c (wk_queue s) ts"
    using mpsc_run_ok [OF worker_run_queue [OF assms(1)] c AtomicQueue2_conf(2) [OF assms(2,3)]] by simp
  then have "popped (trace (wk_queue s)) = take (length (popped (trace (wk_queue s)))) (map snd ts)"
    by (simp add: mpsc_ok_def Let_def take_map)
  then have p: "prefix (popped (trace (wk_queue s))) (map snd ts)" by (metis take_is_prefix)
  have "prefix (wk_given s) (map snd ts)"
    using p w unfolding worker_ok_def by (metis append_prefixD)
  then show "prefix (wk_given s) (takeWhile is_message (map snd ts))"
    using w by (intro prefix_takeWhile) (auto simp: worker_ok_def)
  show "wk_stopped s \<longrightarrow> wk_given s = takeWhile is_message (map snd ts) \<and> (\<exists>(t, d) \<in> set ts. cd_data d = 0)"
  proof
    assume "wk_stopped s"
    with w obtain z where z: "cd_data z = 0" "popped (trace (wk_queue s)) = wk_given s @ [z]"
      "\<forall>d \<in> set (wk_given s). is_message d" by (auto simp: worker_ok_def)
    with p obtain r where r: "map snd ts = wk_given s @ z # r" by (auto simp: prefix_def)
    have "z \<in> snd ` set ts" using arg_cong [OF r, of set] by auto
    then have "\<exists>(t, d) \<in> set ts. cd_data d = 0" using z(1) by auto
    moreover have "wk_given s = takeWhile is_message (map snd ts)" using z(1,3) unfolding r by (simp add: takeWhile_append)
    ultimately show "wk_given s = takeWhile is_message (map snd ts) \<and> (\<exists>(t, d) \<in> set ts. cd_data d = 0)" by blast
  qed
qed

text \<open>
  C22. Messages to a worker arrive. A thread that is connected to readers with distinct names
  and sends messages by name makes on each reader's channel exactly the pushes of the messages
  sent to it, in order and with its channel id; a second reader of the same name is refused.
  On the queue of the channel, of any size up to \<open>2^31\<close> (\<open>TransferQueue\<close> has 10000), in every
  interleaving with other senders and with sleeps of the worker in which no two senders wait
  for the same slot: a sender's messages get their places in the order in which it sent them,
  all once it is done; the worker hands them to \<open>onMsg\<close> in the order of the places, none lost,
  doubled or changed; when it has returned, it has handed over all that came before the first
  stop. That it returns is not claimed: it can sleep forever on a queue that is not empty
  (\<open>mpsc_lost_wakeup\<close>).
\<close>

theorem worker_receives:
  assumes "routes [] t th" "\<forall>r \<in> set readers. \<not> lt_isIO (ts_thread th r)"
    and "distinct (map (\<lambda>r. lt_name (ts_thread th r)) readers)" "w \<in> set readers"
    and "\<forall>(name, msg) \<in> set sends. name \<in> (\<lambda>r. lt_name (ts_thread th r)) ` set readers"
    and "1 \<le> unat SIZE" "unat SIZE \<le> 2 ^ 31"
  shows "\<exists>th1 ps. connect_all t readers th = Inr th1 \<and> send_all cid t sends th1 = Inr ps
    \<and> pushes_on w ps = sent_to cid sends (lt_name (ts_thread th w))
    \<and> (\<forall>r q. r \<in> set readers \<longrightarrow> oc_add (lt_name (ts_thread th r)) q (lt_output (ts_thread th1 t)) = Inl Aborted)
    \<and> (\<forall>todo s ts. worker_run (AtomicQueue2 SIZE True False) todo s ts \<and> todo (Suc t) = pushes_on w ps \<longrightarrow>
        prefix (by_sender (Suc t) ts) (pushes_on w ps)
        \<and> (wk_push s (Suc t) = PIdle \<and> wk_todo s (Suc t) = [] \<longrightarrow> by_sender (Suc t) ts = pushes_on w ps)
        \<and> prefix (wk_given s) (takeWhile is_message (map snd ts))
        \<and> (wk_stopped s \<longrightarrow>
             wk_given s = takeWhile is_message (map snd ts) \<and> (\<exists>(t, d) \<in> set ts. cd_data d = 0)))"
proof -
  let ?rs = "map (\<lambda>r. (lt_name (ts_thread th r), r)) readers"
  from connect_all_routes [OF assms(1), of readers] assms(2,3) obtain th1 where
    s1: "connect_all t readers th = Inr th1" "routes ?rs t th1" by auto
  have "fst ` set sends \<subseteq> fst ` set ?rs" using assms(5) by force
  moreover have "inj_on snd (set ?rs)" by (auto simp: inj_on_def)
  ultimately obtain ps where ps: "send_all cid t sends th1 = Inr ps"
    "\<forall>(name, q) \<in> set ?rs. pushes_on q ps = sent_to cid sends name"
    using send_all_routed [OF s1(2), of sends cid] by blast
  have "pushes_on w ps = sent_to cid sends (lt_name (ts_thread th w))" using ps(2) assms(4) by auto
  moreover have "oc_add (lt_name (ts_thread th r)) q (lt_output (ts_thread th1 t)) = Inl Aborted" if "r \<in> set readers" for r q
    using s1(2) that by (intro oc_add_duplicate [of ?rs]) (auto simp: routes_def image_image)
  moreover have "prefix (by_sender (Suc t) ts) (pushes_on w ps)
        \<and> (wk_push s (Suc t) = PIdle \<and> wk_todo s (Suc t) = [] \<longrightarrow> by_sender (Suc t) ts = pushes_on w ps)
        \<and> prefix (wk_given s) (takeWhile is_message (map snd ts))
        \<and> (wk_stopped s \<longrightarrow>
             wk_given s = takeWhile is_message (map snd ts) \<and> (\<exists>(t, d) \<in> set ts. cd_data d = 0))"
    if "worker_run (AtomicQueue2 SIZE True False) todo s ts" "todo (Suc t) = pushes_on w ps" for todo s ts
    using worker_run_delivers [OF that(1) assms(6,7)] that(2) by (metis Suc_neq_Zero)
  ultimately show ?thesis using s1(1) ps(1) by blast
qed

section \<open>A run\<close>

text \<open>Steps in which the tickets taken and not delivered fit into the queue.\<close>

fun worker_steps ::
  "qconf \<Rightarrow> worker_move list \<Rightarrow> worker_sys \<Rightarrow> (nat \<times> channel_data) list \<Rightarrow> (worker_sys \<times> (nat \<times> channel_data) list) option" where
  "worker_steps c [] s ts = Some (s, ts)"
| "worker_steps c (m # ms) s ts =
     (let s' = worker_step c m s; ts' = tickets_after c m s ts in
      if length ts' \<le> length (popped (trace (wk_queue s'))) + unat (m_queueSize c)
      then worker_steps c ms s' ts' else None)"

lemma fitting_worker_step:
  assumes "worker_run c todo s ts" "\<not> m_isSPSC c" "pow2_conf c"
    and "length (tickets_after c m s ts) \<le> length (popped (trace (wk_queue (worker_step c m s)))) + unat (m_queueSize c)"
  shows "worker_run c todo (worker_step c m s) (tickets_after c m s ts)"
proof (rule worker_run.step [OF assms(1)])
  note q = worker_run_queue [OF assms(1)]
  from worker_step_queue [of c m s] show "no_lap c (wk_queue (worker_step c m s))"
  proof
    assume "wk_queue (worker_step c m s) = wk_queue s"
    with mpsc_run_no_lap [OF q] show ?thesis by simp
  next
    assume "\<exists>op. mpsc_allowed (mover m) op \<and> wk_queue (worker_step c m s) = sys_step c (mover m) op (wk_queue s)"
    then obtain op where o: "mpsc_allowed (mover m) op"
      "wk_queue (worker_step c m s) = sys_step c (mover m) op (wk_queue s)" by blast
    from fitting_step [OF q assms(2,3) o(1)] assms(4) have "mpsc_run c \<lparr>cd_channelID = 0, cd_data = 0\<rparr>
        (wk_queue (worker_step c m s)) (tickets_after c m s ts)" by (simp add: tickets_after_def o(2))
    then show ?thesis by (rule mpsc_run_no_lap)
  qed
qed

lemma worker_steps_run:
  assumes "\<not> m_isSPSC c" "pow2_conf c"
  shows "worker_run c todo s ts \<Longrightarrow> worker_steps c ms s ts = Some (s', ts') \<Longrightarrow> worker_run c todo s' ts'"
proof (induction ms arbitrary: s ts)
  case (Cons m ms)
  from Cons.prems(2) have "worker_run c todo (worker_step c m s) (tickets_after c m s ts)"
    using fitting_worker_step [OF Cons.prems(1) assms] by (simp add: Let_def split: if_splits)
  with Cons show ?case by (simp add: Let_def split: if_splits)
qed simp

text \<open>Thread 3 sends one message to worker 2, and thread 4 stops it.\<close>

definition stop_schedule :: "worker_move list" where
  "stop_schedule = replicate 10 (SenderStep 4) @ replicate 20 WorkerStep @ replicate 12 (SenderStep 5) @ replicate 10 WorkerStep"

definition demo_workers :: thread_sys where
  "demo_workers =
     \<lparr>ts_thread = (\<lambda>t. \<lparr>lt_name = (if t = 1 then ''a'' else ''b''), lt_isIO = False, lt_channelID = 0,
        lt_output = OutputChannel, lt_notifiers = Map.empty, lt_senders = []\<rparr>), ts_pipe = (\<lambda>_. [])\<rparr>"

definition demo_todo :: "nat \<Rightarrow> channel_data list" where
  "demo_todo t =
     (if t = 4 then [\<lparr>cd_channelID = 9, cd_data = 7\<rparr>] else if t = 5 then [snd (WorkerThread_stop 2 demo_workers)] else [])"

theorem worker_receives_witness:
  "\<exists>th1 ps s ts. connect_all 3 [1, 2] demo_workers = Inr th1 \<and> send_all 9 3 [(''b'', 7), (''a'', 8)] th1 = Inr ps
    \<and> worker_steps (AtomicQueue2 2 True False) stop_schedule (InputChannel (AtomicQueue2 2 True False) demo_todo) [] = Some (s, ts)
    \<and> wk_stopped s \<and> by_sender 4 ts = pushes_on 2 ps \<and> wk_given s = pushes_on 2 ps"
proof -
  let ?c = "AtomicQueue2 2 True False"
  let ?m = "\<lparr>cd_channelID = 9, cd_data = 7\<rparr> :: channel_data"
  have "map_option (\<lambda>(s, ts). (wk_stopped s, wk_push s 4 = PIdle \<and> wk_todo s 4 = [], ts))
      (worker_steps ?c stop_schedule (InputChannel ?c demo_todo) [])
    = Some (True, True, [(4, ?m), (5, \<lparr>cd_channelID = 0, cd_data = 0\<rparr>)])"
    by code_simp
  then obtain s ts where s: "worker_steps ?c stop_schedule (InputChannel ?c demo_todo) [] = Some (s, ts)" "wk_stopped s"
    "wk_push s 4 = PIdle" "wk_todo s 4 = []" "ts = [(4, ?m), (5, \<lparr>cd_channelID = 0, cd_data = 0\<rparr>)]"
    by auto
  have n: "1 \<le> unat (2 :: u32)" "unat (2 :: u32) \<le> 2 ^ 31" by simp_all
  have "\<not> m_isSPSC ?c" by (simp add: AtomicQueue2_def Let_def)
  with n have run: "worker_run ?c demo_todo s ts"
    using worker_steps_run [OF _ AtomicQueue2_conf(2) worker_run.start s(1)] by blast
  have "routes [] 3 demo_workers" by (simp add: demo_workers_def routes_def oc_routes_empty)
  from worker_receives [OF this, of "[1, 2]" 2 "[(''b'', 7), (''a'', 8)]" 2 9] n obtain th1 ps where
    r: "connect_all 3 [1, 2] demo_workers = Inr th1" "send_all 9 3 [(''b'', 7), (''a'', 8)] th1 = Inr ps"
      "pushes_on 2 ps = [?m]"
      "\<forall>todo s ts. worker_run ?c todo s ts \<and> todo (Suc 3) = pushes_on 2 ps \<longrightarrow>
        (wk_push s (Suc 3) = PIdle \<and> wk_todo s (Suc 3) = [] \<longrightarrow> by_sender (Suc 3) ts = pushes_on 2 ps)
        \<and> (wk_stopped s \<longrightarrow> wk_given s = takeWhile is_message (map snd ts))"
    by (auto simp: demo_workers_def sent_to_def)
  have "demo_todo (Suc 3) = pushes_on 2 ps" by (simp add: demo_todo_def r(3))
  with r(4) run have "wk_push s (Suc 3) = PIdle \<and> wk_todo s (Suc 3) = [] \<longrightarrow> by_sender (Suc 3) ts = pushes_on 2 ps"
    "wk_stopped s \<longrightarrow> wk_given s = takeWhile is_message (map snd ts)" by blast+
  with r(1-3) s show ?thesis by auto
qed

end
