(* ===== verification/Spec2Isabelle.thy ===== *)
theory Spec2Isabelle
  imports Lu_Frame_Correct Lu_Queue_Variants Lu_Locks Lu_Job_Queue Lu_Handshake
    Lu_Web_Socket_Split Lu_Server_Thread Lu_Connection_Thread Lu_Config Lu_Fixed_String
    Lu_Protocol Lu_Rest Lu_Storage Lu_Crypto Lu_Queue_Tickets Lu_Socket_Options Lu_Thread_Setup
    Lu_Socket_Send Lu_Reflection Lu_Host Lu_Worker
begin

text \<open>
  A verification library for \<open>lu\<close>, a C++ library of sockets, event loops, threads and lock-free
  queues.

  \<^bold>\<open>The program.\<close> A listening thread (\<open>platform/thread/ServerThread.h\<close>) accepts connections on a
  \<open>ServerSocket\<close> and hands them in turn to client threads, as pointers written to the pipe of
  an \<open>EventChannel\<close>. A client thread runs an \<open>FDEventLoop\<close>, which owns the sockets it gets. A
  socket (\<open>DataSocket\<close>, \<open>DataSocketV\<close>, \<open>WebSocket\<close>, \<open>HBDataSocket\<close>, and \<open>HBSocketClient\<close> on the
  other side) reads into a buffer, cuts the bytes into messages or WebSocket frames and calls
  back. A \<open>ConnectionThread\<close> opens connections the same way. Worker threads get messages through
  lock-free queues (\<open>queue/Queue.h\<close>); independent of these a \<open>JobManager\<close> runs jobs by priority.
  Structures become bytes through a serializer (\<open>reflection\<close>), rows of a database through
  \<open>storage/db\<close>, requests of a web service through \<open>restapi\<close>; \<open>crypto\<close> encodes, hashes and signs.
  Below all that are text parsing, configuration, buffers and locks.

  \<^bold>\<open>How code is modelled.\<close> Every operation is a function that computes. Objects are records with
  the fields of the class; a buffer is a list of bytes, and an access outside of it is the value
  \<open>None\<close> or \<open>Inl MemoryFault\<close>, so that memory safety is a theorem. Callbacks are events in the result.
  What the kernel, OpenSSL, the random generator and the floating point parser answer is an
  argument: a list with one answer per call, or a function. A loop that would need more answers
  than the list holds, or that never ends (\<open>partial_function\<close>), is \<open>None\<close>; every claim
  that code returns is stated as \<open>Some\<close>. No fuel is used: the lists of answers bound the loops that
  wait, and all other loops have a termination proof. Machine integers are words where they can
  wrap (ids, tickets, queue positions, counters), natural numbers where the code keeps them in
  range. Threads of the queues, locks and the job manager take their atomic accesses or critical
  sections as steps, in any interleaving, with sequentially consistent memory. Assertions are
  taken to be compiled in.

  \<^bold>\<open>The theories.\<close>
  \<^item> \<open>Lu_Prelude\<close>: memory, byte order, 32-bit arithmetic, substring search.
  \<^item> \<open>Lu_Data_Wrap\<close> (\<open>crypto/DataWrap.cpp\<close>), \<open>Lu_Frame\<close>, \<open>Lu_Frame_Stream\<close>, \<open>Lu_Frame_Correct\<close>
    (\<open>socket/websocket/Frame.cpp\<close>, \<open>Frame.h\<close>): the stages of \<open>readFrame\<close>, the message loop, sending.
    The stages refine a parser on the unread bytes; from it follow delivery of whole frames,
    independence of how the stream is cut, safety on any input, and that what \<open>sendMsg\<close> writes is
    received.
  \<^item> \<open>Lu_Text\<close> (\<open>utils/DelimiterTextParser.cpp\<close>, \<open>utils/Utils.cpp\<close>), \<open>Lu_Config\<close> (\<open>common/Config.cpp\<close>),
    \<open>Lu_Fixed_String\<close> (\<open>common/FixedString.h\<close>): parsing and joining, configuration files read back,
    strings that stay terminated.
  \<^item> \<open>Lu_Handshake\<close> (\<open>socket/websocket/Handshake*.cpp\<close>): request and response, printed and parsed; both ends
    agree.
  \<^item> \<open>Lu_Common\<close>, \<open>Lu_Queue\<close>, \<open>Lu_Queue_Variants\<close> (\<open>common/Common.h\<close>, \<open>queue/Queue.h\<close>): the index shuffle is a
    permutation; under every interleaving no element is lost, doubled or invented, slots are
    written by one thread at a time, and one producer with one consumer is a FIFO.
  \<^item> \<open>Lu_Queue_Order\<close>: with several producers, one of them stalled for a lap, the elements of one
    producer can change their order. \<open>Lu_Queue_Tickets\<close>: when none gets a lap ahead of another, the
    consumer gets the elements in the order in which the producers took their places.
  \<^item> \<open>Lu_Locks\<close> (\<open>common/spinlock.cpp\<close>, \<open>common/barrier.cpp\<close>, \<open>utils/WaitForCount.cpp\<close>): the contract of a lock is a
    locale that both spin locks satisfy; fairness of the ticket lock across wrap-around.
  \<^item> \<open>Lu_Job_Manager\<close>, \<open>Lu_Job_Queue\<close> (\<open>thread/JobManager.cpp\<close>, \<open>thread/JobQueue.cpp\<close>): every job has one owner at every
    moment; scheduling by priority and limits; the bound of the queue.
  \<^item> \<open>Lu_Base_Socket\<close>, \<open>Lu_Socket_Options\<close> (\<open>BaseSocket.cpp\<close>, \<open>SSLSocket.cpp\<close>, \<open>FileDescriptor.cpp\<close>): reading,
    sending; addresses, moving and closing a socket, its options.
  \<^item> \<open>Lu_Receive\<close>: the \<open>Receive\<close> loop and the buffer that all sockets share. The locale \<open>message_reader\<close>
    is the contract of a socket: the room it offers, the bytes it has pending, a parser; proved
    there once, any cut of a stream gives the events of the stream. It is interpreted for
    \<open>DataSocket\<close> plain and with TLS, \<open>DataSocketV\<close> and \<open>EventChannel\<close>.
  \<^item> \<open>Lu_Data_Handler\<close>, \<open>Lu_Data_Socket\<close> (\<open>String.cpp\<close>, \<open>StringV.cpp\<close>, \<open>DataSocket.h\<close>, \<open>DataSocketV.h\<close>): the locale
    \<open>data_handler\<close> is what a socket asks of the class that knows the message format.
  \<^item> \<open>Lu_Socket_Send\<close>: \<open>sendMsg\<close> of every socket through the kernel to the receiver of the other end, what
    a short write does to the frames, and that a socket served by the loop is closed once.
  \<^item> \<open>Lu_Event_Channel\<close> (\<open>EventChannel.h\<close>): records through a pipe.
  \<^item> \<open>Lu_Web_Socket\<close>, \<open>Lu_Web_Socket_Correct\<close>, \<open>Lu_Web_Socket_Split\<close> (\<open>WebSocket.h\<close>, \<open>HBDataSocket.h\<close>,
    \<open>HBSocketClient.h\<close>): handshake and frames on one connection, and where a request that is split
    over two reads goes wrong.
  \<^item> \<open>Lu_Server_Socket\<close> (\<open>ServerSocket.h\<close>, \<open>ConnectSocket.h\<close>): over the set of open descriptors and who owns
    them: which are closed, kept or leaked.
  \<^item> \<open>Lu_Event_Loop\<close> (\<open>FDEventLoop.cpp\<close>, \<open>FDTimer.h\<close>): the invariant that registered handlers are alive,
    kept by every event; stopping.
  \<^item> \<open>Lu_Worker\<close> (\<open>platform/thread/WorkerThread.h\<close>, \<open>channel/InputChannel.cpp\<close>): the input channel of a
    worker, an \<open>MPSCQueue\<close> over the \<open>AtomicQueue2\<close> of \<open>Lu_Queue\<close> access by access, and the worker's loop:
    what is handed to \<open>onMsg\<close>, in which order.
  \<^item> \<open>Lu_Threads\<close>, \<open>Lu_Server_Thread\<close>, \<open>Lu_Connection_Thread\<close> (\<open>platform/thread\<close>): routes between threads, the
    distribution of connections composed with the event channel, start-up, reconnecting.
  \<^item> \<open>Lu_Thread_Setup\<close>: \<open>init\<close>, \<open>run\<close>, \<open>stop\<close> and \<open>join\<close> of the threads with an event loop; messages to
    client threads, from the connection of the senders to the handler; when \<open>stop\<close> ends a loop.
  \<^item> \<open>Lu_Archive\<close>, \<open>Lu_Varint\<close>, \<open>Lu_Serializer\<close>, \<open>Lu_Serializer_Correct\<close>, \<open>Lu_Protocol\<close> (\<open>BitSerializer.h\<close>,
    \<open>Reflection.h\<close>): the archives, variable-length integers, and one function for every overload of
    \<open>serialize_one\<close>. The C++ types that choose an overload are the datatype \<open>ty\<close>, their values are
    \<open>val\<close>, and \<open>serialize_out\<close> and \<open>serialize_in\<close> dispatch as overload resolution does. \<open>encode\<close> is
    the reference format. \<open>emits\<close> and \<open>loads\<close> are the contracts of a writer and of a reader of given
    bytes, with lemmas for sequencing; every overload meets them, hence round trips for every type,
    exact bounds in fixed buffers, and safety of reading arbitrary bytes (\<open>load_safe\<close>).
  \<^item> \<open>Lu_Reflection\<close> (\<open>Reflection.h\<close>): code that the compiler runs: identifiers of the alternatives of a
    variant, access by an index, the number of members of a structure, types that refer to themselves.
  \<^item> \<open>Lu_Rest\<close> (\<open>Request.cpp\<close>, \<open>RestAPIClient.cpp\<close>): requests, and what stays set on the handle between them.
  \<^item> \<open>Lu_Storage\<close> (\<open>MetaData.h\<close>, \<open>DBWriter.h\<close>, \<open>DBManager.cpp\<close>): the SQL that the macros build, rows and
    structures, loading, batches.
  \<^item> \<open>Lu_Crypto\<close> (\<open>crypto\<close>): Base64 lengths and buffers, digests, loading keys, signing and verifying.
  \<^item> \<open>Lu_Host\<close> (\<open>utils/TimerClock.cpp\<close>, \<open>common/Defs.h\<close>): clocks over the readings of the host, its byte order.

  \<^bold>\<open>Hypotheses on other code.\<close> A kernel read returns at most the bytes asked for (\<open>reads_within\<close>); the
  kernel hands out descriptors that are not open, in \<open>setUpTCP_first_only\<close> the lowest one, as POSIX
  says; \<open>epoll_wait\<close> names registered pointers, each once; \<open>SSL_write\<close> writes all or nothing; a
  new object lies where no live one does. For the serializer: the vector grows to what is asked for
  (\<open>growing\<close>), there is memory for it (\<open>roomy\<close>), the host is little-endian. \<open>base64_law\<close> is RFC 4648 with
  OpenSSL's decoder, \<open>key_pair\<close> says that a signature made with one key is accepted under the other,
  \<open>rows_law\<close> what inserting and committing do to the rows of a session when they succeed. Each
  theorem with such a hypothesis has a witness.

  \<^bold>\<open>Not modelled.\<close> \<open>std::thread\<close>, logging and printing are calls of other libraries without logic of
  their own; of the algorithms of OpenSSL, libcurl and SOCI, of floating point and of dates the
  models take functions. Memory is sequentially consistent: weak memory orders are not modelled.
  Branch hints and pause instructions (\<open>common/Defs.h\<close>) have no value to model. The constraints of
  templates and the helpers of \<open>reflection\<close> that no code uses or that are unfinished hold no
  operation of the program, nor do the experiments under \<open>src/Notes\<close>.
\<close>

end
